(* ===== verification/Prelude.thy ===== *)
theory Prelude
  imports Main "HOL-Library.Word" "HOL-Library.Monad_Syntax" "HOL-Library.Signed_Division"
begin

text \<open>
  Shared vocabulary of the development: the machine integer types of the C and C++
  sources, little-endian byte encodings of words, byte-addressed memory with 32-bit
  and 64-bit loads, checked array access, and the generic lemmas the components use.
\<close>

unbundle bit_operations_syntax

section \<open>Machine types\<close>

type_synonym u8 = "8 word"
type_synonym u16 = "16 word"
type_synonym u32 = "32 word"
type_synonym u64 = "64 word"

text \<open>Process memory: every address holds a byte.\<close>

type_synonym memory = "u64 \<Rightarrow> u8"

named_theorems word_fields \<open>bit-field equations of instruction words\<close>

section \<open>Little-endian encodings\<close>

definition le32 :: "u32 \<Rightarrow> u8 list" where
  "le32 w = [ucast w, ucast (drop_bit 8 w), ucast (drop_bit 16 w), ucast (drop_bit 24 w)]"

definition le64 :: "u64 \<Rightarrow> u8 list" where
  "le64 w = le32 (ucast w) @ le32 (ucast (drop_bit 32 w))"

definition of_le32 :: "u8 \<Rightarrow> u8 \<Rightarrow> u8 \<Rightarrow> u8 \<Rightarrow> u32" where
  "of_le32 a b c d =
     ucast a OR push_bit 8 (ucast b) OR push_bit 16 (ucast c) OR push_bit 24 (ucast d)"

lemma length_le32 [simp]: "length (le32 w) = 4"
  by (simp add: le32_def)

lemma length_le64 [simp]: "length (le64 w) = 8"
  by (simp add: le64_def)

lemma all_less_32:
  "(\<forall>n<32. P n) \<longleftrightarrow>
    P 0 \<and> P 1 \<and> P 2 \<and> P 3 \<and> P 4 \<and> P 5 \<and> P 6 \<and> P 7 \<and>
    P 8 \<and> P 9 \<and> P 10 \<and> P 11 \<and> P 12 \<and> P 13 \<and> P 14 \<and> P 15 \<and>
    P 16 \<and> P 17 \<and> P 18 \<and> P 19 \<and> P 20 \<and> P 21 \<and> P 22 \<and> P 23 \<and>
    P 24 \<and> P 25 \<and> P 26 \<and> P 27 \<and> P 28 \<and> P 29 \<and> P 30 \<and> P (31::nat)"
  by (simp add: numeral_eq_Suc All_less_Suc conj_ac)

lemma word32_eq_iff: "(x :: u32) = y \<longleftrightarrow> (\<forall>n<32. bit x n = bit y n)"
  by (auto simp: bit_eq_iff bit_simps)

lemma of_le32_le32:
  "of_le32 (ucast w) (ucast (drop_bit 8 w)) (ucast (drop_bit 16 w)) (ucast (drop_bit 24 w)) = w"
  unfolding of_le32_def word32_eq_iff all_less_32
  by (simp add: bit_simps)

lemma unat_of_nat32: "n < 2 ^ 32 \<Longrightarrow> unat (of_nat n :: u32) = n"
  by (simp only: unat_of_nat) simp

lemma unat_of_nat64: "n < 2 ^ 64 \<Longrightarrow> unat (of_nat n :: u64) = n"
  by (simp only: unat_of_nat) simp

lemma unat_lt32: "unat (x :: u32) < 4294967296"
  by (rule order_less_le_trans [OF unsigned_less]) simp

section \<open>Checked array access\<close>

text \<open>An access outside the array has no value.\<close>

definition fetch :: "'a list \<Rightarrow> nat \<Rightarrow> 'a option" where
  "fetch xs i = (if i < length xs then Some (xs ! i) else None)"

definition store :: "'a list \<Rightarrow> nat \<Rightarrow> 'a \<Rightarrow> 'a list option" where
  "store xs i v = (if i < length xs then Some (xs[i := v]) else None)"

lemma fetch_ok [simp]: "i < length xs \<Longrightarrow> fetch xs i = Some (xs ! i)"
  by (simp add: fetch_def)

lemma store_ok [simp]: "i < length xs \<Longrightarrow> store xs i v = Some (xs[i := v])"
  by (simp add: store_def)

text \<open>\<open>memcpy(dst + i, src + j, n)\<close> between distinct arrays.\<close>

definition copy_array :: "'a list \<Rightarrow> nat \<Rightarrow> 'a list \<Rightarrow> nat \<Rightarrow> nat \<Rightarrow> 'a list option" where
  "copy_array dst i src j n =
    (if i + n \<le> length dst \<and> j + n \<le> length src
     then Some (take i dst @ take n (drop j src) @ drop (i + n) dst) else None)"

lemma copy_array_ok:
  "i + n \<le> length dst \<Longrightarrow> j + n \<le> length src \<Longrightarrow>
    \<exists>ys. copy_array dst i src j n = Some ys \<and> length ys = length dst \<and>
      take i ys = take i dst \<and> take n (drop i ys) = take n (drop j src) \<and> drop (i + n) ys = drop (i + n) dst"
  by (auto simp: copy_array_def)

end
