(* ===== verification/A64.thy ===== *)
theory A64
  imports Prelude
begin

text \<open>
  Reference semantics of the A64 instructions the hook engine reads or emits, written
  from the architecture's encoding tables with the fields of each encoding spelled out
  by position. It shares no mask and no helper with the engine's own decoder, so that
  the theorems about emitted code compare two independent readings of a word. Every
  word outside the subset decodes to \<open>Other\<close> and is executed by a parameter.
\<close>

section \<open>Machine state\<close>

record cpu =
  xreg :: "nat \<Rightarrow> u64"
  vreg :: "nat \<Rightarrow> 128 word"
  pcr :: u64
  psr_n :: bool
  psr_z :: bool
  psr_c :: bool
  psr_v :: bool
  cmem :: memory

section \<open>Loads\<close>

definition load32 :: "memory \<Rightarrow> u64 \<Rightarrow> u32" where
  "load32 m a = of_le32 (m a) (m (a + 1)) (m (a + 2)) (m (a + 3))"

definition load64 :: "memory \<Rightarrow> u64 \<Rightarrow> u64" where
  "load64 m a = ucast (load32 m a) OR push_bit 32 (ucast (load32 m (a + 4)))"

definition load128 :: "memory \<Rightarrow> u64 \<Rightarrow> 128 word" where
  "load128 m a = ucast (load64 m a) OR push_bit 64 (ucast (load64 m (a + 8)))"

section \<open>Decoding\<close>

datatype a64_inst =
    IB int | IBL int | IBCond nat int
  | ICBZ bool nat int | ICBNZ bool nat int
  | ITBZ nat nat int | ITBNZ nat nat int
  | ILdrLitW nat int | ILdrLitX nat int | ILdrswLit nat int | IPrfmLit int
  | ILdrLitS nat int | ILdrLitD nat int | ILdrLitQ nat int
  | IAdr nat int | IAdrp nat int
  | IBR nat | IBLR nat
  | ILdrW nat nat nat | ILdrX nat nat nat
  | IAddImm nat nat nat | IMovReg nat nat | INop
  | Other u32

text \<open>Unsigned and signed bit fields \<open>w<hi:lo>\<close> of an instruction word.\<close>

definition fld :: "nat \<Rightarrow> nat \<Rightarrow> u32 \<Rightarrow> nat" where
  "fld hi lo w = unat (take_bit (hi - lo + 1) (drop_bit lo w))"

definition sfld :: "nat \<Rightarrow> nat \<Rightarrow> u32 \<Rightarrow> int" where
  "sfld hi lo w = signed_take_bit (hi - lo) (uint (drop_bit lo w))"

definition adr_imm :: "u32 \<Rightarrow> int" where
  "adr_imm w = sfld 23 5 w * 4 + int (fld 30 29 w)"

definition a64_decode :: "u32 \<Rightarrow> a64_inst" where
  "a64_decode w =
    (if fld 31 26 w = 5 then IB (sfld 25 0 w * 4)
     else if fld 31 26 w = 37 then IBL (sfld 25 0 w * 4)
     else if fld 31 24 w = 84 \<and> fld 4 4 w = 0 then IBCond (fld 3 0 w) (sfld 23 5 w * 4)
     else if fld 30 24 w = 52 then ICBZ (bit w 31) (fld 4 0 w) (sfld 23 5 w * 4)
     else if fld 30 24 w = 53 then ICBNZ (bit w 31) (fld 4 0 w) (sfld 23 5 w * 4)
     else if fld 30 24 w = 54 then
       ITBZ (32 * fld 31 31 w + fld 23 19 w) (fld 4 0 w) (sfld 18 5 w * 4)
     else if fld 30 24 w = 55 then
       ITBNZ (32 * fld 31 31 w + fld 23 19 w) (fld 4 0 w) (sfld 18 5 w * 4)
     else if fld 31 24 w = 24 then ILdrLitW (fld 4 0 w) (sfld 23 5 w * 4)
     else if fld 31 24 w = 88 then ILdrLitX (fld 4 0 w) (sfld 23 5 w * 4)
     else if fld 31 24 w = 152 then ILdrswLit (fld 4 0 w) (sfld 23 5 w * 4)
     else if fld 31 24 w = 216 then IPrfmLit (sfld 23 5 w * 4)
     else if fld 31 24 w = 28 then ILdrLitS (fld 4 0 w) (sfld 23 5 w * 4)
     else if fld 31 24 w = 92 then ILdrLitD (fld 4 0 w) (sfld 23 5 w * 4)
     else if fld 31 24 w = 156 then ILdrLitQ (fld 4 0 w) (sfld 23 5 w * 4)
     else if fld 31 31 w = 0 \<and> fld 28 24 w = 16 then IAdr (fld 4 0 w) (adr_imm w)
     else if fld 31 31 w = 1 \<and> fld 28 24 w = 16 then IAdrp (fld 4 0 w) (adr_imm w * 4096)
     else if fld 31 10 w = 3508160 \<and> fld 4 0 w = 0 then IBR (fld 9 5 w)
     else if fld 31 10 w = 3510208 \<and> fld 4 0 w = 0 then IBLR (fld 9 5 w)
     else if fld 31 22 w = 741 \<and> fld 9 5 w \<noteq> 31 then
       ILdrW (fld 4 0 w) (fld 9 5 w) (4 * fld 21 10 w)
     else if fld 31 22 w = 997 \<and> fld 9 5 w \<noteq> 31 then
       ILdrX (fld 4 0 w) (fld 9 5 w) (8 * fld 21 10 w)
     else if fld 31 22 w = 580 \<and> fld 9 5 w \<noteq> 31 \<and> fld 4 0 w \<noteq> 31 then
       IAddImm (fld 4 0 w) (fld 9 5 w) (fld 21 10 w)
     else if fld 31 21 w = 1360 \<and> fld 15 5 w = 31 then IMovReg (fld 4 0 w) (fld 20 16 w)
     else if w = 0xD503201F then INop
     else Other w)"

section \<open>Execution\<close>

text \<open>Register 31 is the zero register in the encodings of the subset.\<close>

definition xget :: "cpu \<Rightarrow> nat \<Rightarrow> u64" where
  "xget s r = (if r = 31 then 0 else xreg s r)"

definition xset :: "nat \<Rightarrow> u64 \<Rightarrow> cpu \<Rightarrow> cpu" where
  "xset r v s = (if r = 31 then s else s\<lparr>xreg := (xreg s)(r := v)\<rparr>)"

definition vset :: "nat \<Rightarrow> 128 word \<Rightarrow> cpu \<Rightarrow> cpu" where
  "vset r v s = s\<lparr>vreg := (vreg s)(r := v)\<rparr>"

definition goto :: "u64 \<Rightarrow> cpu \<Rightarrow> cpu" where
  "goto a s = s\<lparr>pcr := a\<rparr>"

definition next_pc :: "cpu \<Rightarrow> cpu" where
  "next_pc s = goto (pcr s + 4) s"

definition cond_holds :: "nat \<Rightarrow> cpu \<Rightarrow> bool" where
  "cond_holds c s =
    (let r = (if c div 2 = 0 then psr_z s
              else if c div 2 = 1 then psr_c s
              else if c div 2 = 2 then psr_n s
              else if c div 2 = 3 then psr_v s
              else if c div 2 = 4 then psr_c s \<and> \<not> psr_z s
              else if c div 2 = 5 then psr_n s = psr_v s
              else if c div 2 = 6 then psr_n s = psr_v s \<and> \<not> psr_z s
              else True)
     in if odd c \<and> c \<noteq> 15 then \<not> r else r)"

definition rel_pc :: "cpu \<Rightarrow> int \<Rightarrow> u64" where
  "rel_pc s off = pcr s + word_of_int off"

definition reg_is_zero :: "bool \<Rightarrow> nat \<Rightarrow> cpu \<Rightarrow> bool" where
  "reg_is_zero sf r s = (if sf then xget s r = 0 else take_bit 32 (xget s r) = 0)"

fun a64_exec :: "(u32 \<Rightarrow> cpu \<Rightarrow> cpu) \<Rightarrow> a64_inst \<Rightarrow> cpu \<Rightarrow> cpu" where
  "a64_exec oth (IB off) s = goto (rel_pc s off) s"
| "a64_exec oth (IBL off) s = goto (rel_pc s off) (xset 30 (pcr s + 4) s)"
| "a64_exec oth (IBCond c off) s = (if cond_holds c s then goto (rel_pc s off) s else next_pc s)"
| "a64_exec oth (ICBZ sf r off) s =
     (if reg_is_zero sf r s then goto (rel_pc s off) s else next_pc s)"
| "a64_exec oth (ICBNZ sf r off) s =
     (if \<not> reg_is_zero sf r s then goto (rel_pc s off) s else next_pc s)"
| "a64_exec oth (ITBZ b r off) s =
     (if \<not> bit (xget s r) b then goto (rel_pc s off) s else next_pc s)"
| "a64_exec oth (ITBNZ b r off) s =
     (if bit (xget s r) b then goto (rel_pc s off) s else next_pc s)"
| "a64_exec oth (ILdrLitW r off) s =
     next_pc (xset r (ucast (load32 (cmem s) (rel_pc s off))) s)"
| "a64_exec oth (ILdrLitX r off) s = next_pc (xset r (load64 (cmem s) (rel_pc s off)) s)"
| "a64_exec oth (ILdrswLit r off) s =
     next_pc (xset r (scast (load32 (cmem s) (rel_pc s off))) s)"
| "a64_exec oth (IPrfmLit off) s = next_pc s"
| "a64_exec oth (ILdrLitS r off) s =
     next_pc (vset r (ucast (load32 (cmem s) (rel_pc s off))) s)"
| "a64_exec oth (ILdrLitD r off) s =
     next_pc (vset r (ucast (load64 (cmem s) (rel_pc s off))) s)"
| "a64_exec oth (ILdrLitQ r off) s = next_pc (vset r (load128 (cmem s) (rel_pc s off)) s)"
| "a64_exec oth (IAdr r off) s = next_pc (xset r (rel_pc s off) s)"
| "a64_exec oth (IAdrp r off) s =
     next_pc (xset r ((pcr s AND NOT 0xFFF) + word_of_int off) s)"
| "a64_exec oth (IBR r) s = goto (xget s r) s"
| "a64_exec oth (IBLR r) s = goto (xget s r) (xset 30 (pcr s + 4) s)"
| "a64_exec oth (ILdrW r n imm) s =
     next_pc (xset r (ucast (load32 (cmem s) (xget s n + of_nat imm))) s)"
| "a64_exec oth (ILdrX r n imm) s =
     next_pc (xset r (load64 (cmem s) (xget s n + of_nat imm)) s)"
| "a64_exec oth (IAddImm d n imm) s = next_pc (xset d (xget s n + of_nat imm) s)"
| "a64_exec oth (IMovReg d m) s = next_pc (xset d (xget s m) s)"
| "a64_exec oth INop s = next_pc s"
| "a64_exec oth (Other w) s = oth w s"

definition a64_step :: "(u32 \<Rightarrow> cpu \<Rightarrow> cpu) \<Rightarrow> cpu \<Rightarrow> cpu" where
  "a64_step oth s = a64_exec oth (a64_decode (load32 (cmem s) (pcr s))) s"

fun a64_run :: "(u32 \<Rightarrow> cpu \<Rightarrow> cpu) \<Rightarrow> nat \<Rightarrow> cpu \<Rightarrow> cpu" where
  "a64_run oth 0 s = s"
| "a64_run oth (Suc n) s = a64_run oth n (a64_step oth s)"

end
