(* ===== verification/Arm64_Constants.thy ===== *)
theory Arm64_Constants
  imports A64
begin

text \<open>
  The bit helpers, opcode constants, immediate codecs and instruction classifiers of
  \<open>arm64_constants.h\<close>, over 32-bit instruction words. An \<open>int64_t\<close> offset is an
  \<open>int\<close>; the C division of an offset truncates towards zero (\<open>sdiv\<close>). The lemmas
  tie each helper to a field of the word in the reference semantics.
\<close>

section \<open>Bit manipulation helpers\<close>

definition Bits :: "u32 \<Rightarrow> nat \<Rightarrow> nat \<Rightarrow> u32" where
  "Bits val hi lo = (let width = hi - lo + 1 in drop_bit lo val AND (push_bit width 1 - 1))"

definition Bit :: "u32 \<Rightarrow> nat \<Rightarrow> bool" where
  "Bit val n = (drop_bit n val AND 1 \<noteq> 0)"

definition SetBits :: "u32 \<Rightarrow> nat \<Rightarrow> nat \<Rightarrow> u32 \<Rightarrow> u32" where
  "SetBits val hi lo bits =
    (let width = hi - lo + 1;
         msk = push_bit lo (push_bit width 1 - 1)
     in (val AND NOT msk) OR push_bit lo (bits AND (push_bit width 1 - 1)))"

definition SignExtend :: "u64 \<Rightarrow> nat \<Rightarrow> int" where
  "SignExtend v bits =
    (let sign_bit = push_bit (bits - 1) 1;
         msk = push_bit bits 1 - 1;
         v = v AND msk;
         v = (if v AND sign_bit \<noteq> 0 then v OR NOT msk else v)
     in sint v)"

section \<open>Opcodes and registers\<close>

definition kOpB :: u32 where "kOpB = 0x14000000"
definition kMaskOpB :: u32 where "kMaskOpB = 0xFC000000"
definition kOpBL :: u32 where "kOpBL = 0x94000000"
definition kOpBCond :: u32 where "kOpBCond = 0x54000000"
definition kMaskOpBCond :: u32 where "kMaskOpBCond = 0xFF000010"
definition kOpCBZ :: u32 where "kOpCBZ = 0x34000000"
definition kOpCBNZ :: u32 where "kOpCBNZ = 0x35000000"
definition kOpTBZ :: u32 where "kOpTBZ = 0x36000000"
definition kOpTBNZ :: u32 where "kOpTBNZ = 0x37000000"
definition kOpADRP :: u32 where "kOpADRP = 0x90000000"
definition kOpNOP :: u32 where "kOpNOP = 0xD503201F"
definition kOpBR :: u32 where "kOpBR = 0xD61F0000"
definition kOpBLR :: u32 where "kOpBLR = 0xD63F0000"
definition kOpMovZ :: u32 where "kOpMovZ = 0xD2800000"
definition kOpMovK :: u32 where "kOpMovK = 0xF2800000"
definition kRegX17 :: u32 where "kRegX17 = 17"
definition kRegLR :: u32 where "kRegLR = 30"
definition kMaxBRange :: int where "kMaxBRange = 2 ^ 27"

lemmas opcode_defs = kOpB_def kMaskOpB_def kOpBL_def kOpBCond_def kMaskOpBCond_def
  kOpCBZ_def kOpCBNZ_def kOpTBZ_def kOpTBNZ_def kOpADRP_def kOpNOP_def kOpBR_def kOpBLR_def
  kOpMovZ_def kOpMovK_def kRegX17_def kRegLR_def kMaxBRange_def

section \<open>Immediate codecs\<close>

definition DecodeImm26 :: "u32 \<Rightarrow> int" where
  "DecodeImm26 inst = SignExtend (ucast (inst AND 0x03FFFFFF)) 26 * 4"

definition EncodeImm26 :: "int \<Rightarrow> u32" where
  "EncodeImm26 offset = word_of_int ((offset sdiv 4) AND 0x03FFFFFF)"

definition DecodeImm19 :: "u32 \<Rightarrow> int" where
  "DecodeImm19 inst = SignExtend (ucast (Bits inst 23 5)) 19 * 4"

definition EncodeImm19 :: "int \<Rightarrow> u32" where
  "EncodeImm19 offset = push_bit 5 (word_of_int ((offset sdiv 4) AND 0x7FFFF))"

definition DecodeCompImm19 :: "u32 \<Rightarrow> int" where
  "DecodeCompImm19 inst = SignExtend (ucast (Bits inst 23 5)) 19 * 4"

definition EncodeCompImm19 :: "int \<Rightarrow> u32" where
  "EncodeCompImm19 offset = push_bit 5 (word_of_int ((offset sdiv 4) AND 0x7FFFF))"

definition DecodeImm14 :: "u32 \<Rightarrow> int" where
  "DecodeImm14 inst = SignExtend (ucast (Bits inst 18 5)) 14 * 4"

definition EncodeImm14 :: "int \<Rightarrow> u32" where
  "EncodeImm14 offset = push_bit 5 (word_of_int ((offset sdiv 4) AND 0x3FFF))"

definition DecodeLdrLitImm19 :: "u32 \<Rightarrow> int" where
  "DecodeLdrLitImm19 inst = SignExtend (ucast (Bits inst 23 5)) 19 * 4"

definition EncodeLdrLitImm19 :: "int \<Rightarrow> u32" where
  "EncodeLdrLitImm19 offset = push_bit 5 (word_of_int ((offset sdiv 4) AND 0x7FFFF))"

definition DecodeAdrImm :: "u32 \<Rightarrow> int" where
  "DecodeAdrImm inst =
    (let immhi = Bits inst 23 5; immlo = Bits inst 30 29; imm21 = push_bit 2 immhi OR immlo
     in SignExtend (ucast imm21) 21)"

definition EncodeAdrImm :: "int \<Rightarrow> u32" where
  "EncodeAdrImm offset =
    (let imm = (word_of_int offset :: u64) AND 0x1FFFFF;
         immlo = ucast (imm AND 3);
         immhi = ucast (drop_bit 2 imm AND 0x7FFFF)
     in push_bit 29 immlo OR push_bit 5 immhi)"

definition DecodeAdrpImm :: "u32 \<Rightarrow> int" where
  "DecodeAdrpImm inst =
    (let immhi = Bits inst 23 5; immlo = Bits inst 30 29; imm21 = push_bit 2 immhi OR immlo
     in SignExtend (ucast imm21) 21 * 4096)"

definition EncodeAdrpImm :: "int \<Rightarrow> u32" where
  "EncodeAdrpImm offset =
    (let page_offset = offset sdiv 4096;
         imm = (word_of_int page_offset :: u64) AND 0x1FFFFF;
         immlo = ucast (imm AND 3);
         immhi = ucast (drop_bit 2 imm AND 0x7FFFF)
     in push_bit 29 immlo OR push_bit 5 immhi)"

section \<open>Instruction classification\<close>

definition IsB :: "u32 \<Rightarrow> bool" where "IsB inst = (inst AND kMaskOpB = kOpB)"
definition IsBL :: "u32 \<Rightarrow> bool" where "IsBL inst = (inst AND kMaskOpB = kOpBL)"
definition IsBCond :: "u32 \<Rightarrow> bool" where "IsBCond inst = (inst AND kMaskOpBCond = kOpBCond)"
definition IsCBZ :: "u32 \<Rightarrow> bool" where "IsCBZ inst = (inst AND 0x7F000000 = kOpCBZ)"
definition IsCBNZ :: "u32 \<Rightarrow> bool" where "IsCBNZ inst = (inst AND 0x7F000000 = kOpCBNZ)"
definition IsTBZ :: "u32 \<Rightarrow> bool" where "IsTBZ inst = (inst AND 0x7F000000 = kOpTBZ)"
definition IsTBNZ :: "u32 \<Rightarrow> bool" where "IsTBNZ inst = (inst AND 0x7F000000 = kOpTBNZ)"
definition IsLdrLiteral :: "u32 \<Rightarrow> bool" where
  "IsLdrLiteral inst = (inst AND 0x3B000000 = 0x18000000)"
definition IsADR :: "u32 \<Rightarrow> bool" where "IsADR inst = (inst AND 0x9F000000 = 0x10000000)"
definition IsADRP :: "u32 \<Rightarrow> bool" where "IsADRP inst = (inst AND 0x9F000000 = 0x90000000)"
definition CondFromBCond :: "u32 \<Rightarrow> u32" where "CondFromBCond inst = inst AND 0xF"
definition InvertCond :: "u32 \<Rightarrow> u32" where "InvertCond cond = cond XOR 1"
definition GetRt :: "u32 \<Rightarrow> u32" where "GetRt inst = Bits inst 4 0"
definition GetRd :: "u32 \<Rightarrow> u32" where "GetRd inst = Bits inst 4 0"

lemmas class_defs = IsB_def IsBL_def IsBCond_def IsCBZ_def IsCBNZ_def IsTBZ_def IsTBNZ_def
  IsLdrLiteral_def IsADR_def IsADRP_def

section \<open>Helpers as fields of the word\<close>

lemma push_bit_1_minus_1: "(push_bit n 1 - 1 :: 'a::len word) = mask n"
  by (simp add: mask_eq_decr_exp)


lemma Bits_eq: "Bits v hi lo = take_bit (hi - lo + 1) (drop_bit lo v)"
  unfolding Bits_def Let_def push_bit_1_minus_1 take_bit_eq_mask by (rule refl)

lemma unat_Bits [word_fields]: "unat (Bits v hi lo) = fld hi lo v"
  by (simp add: Bits_eq fld_def)

lemma sign_bit_test: "n < LENGTH('a) \<Longrightarrow> ((v::'a::len word) AND push_bit n 1 \<noteq> 0) = bit v n"
  by (metis and_exp_eq_0_iff_not_bit mult.right_neutral push_bit_eq_mult mult_1)

lemma SignExtend_Suc:
  assumes "Suc m < 64"
  shows "SignExtend v (Suc m) = signed_take_bit m (uint v)"
proof -
  have c: "((v AND mask (Suc m)) AND push_bit m 1 \<noteq> 0) = bit v m"
    using assms sign_bit_test [of m "v AND mask (Suc m)"] by (simp add: bit_simps)
  have e: "SignExtend v (Suc m)
      = sint (if bit v m then (v AND mask (Suc m)) OR NOT (mask (Suc m)) else v AND mask (Suc m))"
    by (simp only: SignExtend_def Let_def push_bit_1_minus_1 diff_Suc_1 c)
  show ?thesis
    unfolding e using assms
    by (intro bit_eqI, cases "bit v m")
      (auto simp: bit_simps min_def not_less less_Suc_eq_le le_less)
qed

lemma unat_eq_numeral:
  assumes "(numeral k :: nat) < 2 ^ LENGTH('a)"
  shows "unat (x::'a::len word) = numeral k \<longleftrightarrow> x = numeral k"
proof -
  have "unat (numeral k :: 'a word) = numeral k"
    using assms by (simp add: unsigned_numeral take_bit_nat_eq_self)
  then show ?thesis by (metis word_eq_iff_unsigned)
qed

lemma unat_eq_numeral32 [simp]: "(numeral k :: nat) < 4294967296 \<Longrightarrow> unat (x::u32) = numeral k \<longleftrightarrow> x = numeral k"
  by (rule unat_eq_numeral) simp


lemma SignExtend_field:
  "m < 32 \<Longrightarrow> SignExtend (ucast (take_bit (Suc m) (x :: u32))) (Suc m) = signed_take_bit m (uint x)"
  by (simp add: SignExtend_Suc unsigned_ucast_eq unsigned_take_bit_eq take_bit_take_bit min_def
      signed_take_bit_take_bit del: take_bit_Suc_from_most)

lemma SignExtend_Bits:
  "lo \<le> hi \<Longrightarrow> hi < 32 \<Longrightarrow> SignExtend (ucast (Bits w hi lo)) (hi - lo + 1) = sfld hi lo w"
  using SignExtend_field [of "hi - lo" "drop_bit lo w"] by (simp add: Bits_eq sfld_def)

lemma Bits_25_0: "w AND 0x03FFFFFF = Bits w 25 0"
  by (simp add: Bits_eq word32_eq_iff all_less_32 bit_simps)

lemma DecodeImm26_eq: "DecodeImm26 w = sfld 25 0 w * 4"
  using SignExtend_Bits [of 0 25 w] by (simp add: DecodeImm26_def Bits_25_0)

lemma DecodeImm19_eq: "DecodeImm19 w = sfld 23 5 w * 4"
  using SignExtend_Bits [of 5 23 w] by (simp add: DecodeImm19_def)

lemma DecodeCompImm19_eq: "DecodeCompImm19 w = sfld 23 5 w * 4"
  using SignExtend_Bits [of 5 23 w] by (simp add: DecodeCompImm19_def)

lemma DecodeLdrLitImm19_eq: "DecodeLdrLitImm19 w = sfld 23 5 w * 4"
  using SignExtend_Bits [of 5 23 w] by (simp add: DecodeLdrLitImm19_def)

lemma DecodeImm14_eq: "DecodeImm14 w = sfld 18 5 w * 4"
  using SignExtend_Bits [of 5 18 w] by (simp add: DecodeImm14_def)

lemma signed_take_bit_join:
  "signed_take_bit 20 (push_bit 2 y OR take_bit 2 z) = signed_take_bit 18 y * 4 + take_bit 2 (z::int)"
proof -
  have "signed_take_bit 20 (push_bit 2 y OR take_bit 2 z)
      = push_bit 2 (signed_take_bit 18 y) OR take_bit 2 z"
    by (rule bit_eqI) (auto simp: bit_simps min_def)
  also have "\<dots> = push_bit 2 (signed_take_bit 18 y) + take_bit 2 z"
    by (rule disjunctive_add [symmetric]) (auto simp: bit_simps)
  finally show ?thesis by (simp add: push_bit_eq_mult)
qed

lemma SignExtend_adr:
  "SignExtend (ucast (push_bit 2 (Bits w 23 5) OR Bits w 30 29)) 21 = adr_imm w"
proof -
  let ?x = "push_bit 2 (uint (drop_bit 5 w)) OR take_bit 2 (uint (drop_bit 29 w))"
  have u: "uint (ucast (push_bit 2 (Bits w 23 5) OR Bits w 30 29) :: u64) = take_bit 21 ?x"
    by (rule bit_eqI) (auto simp: bit_simps Bits_eq)
  have "SignExtend (ucast (push_bit 2 (Bits w 23 5) OR Bits w 30 29)) (Suc 20)
      = signed_take_bit 20 (take_bit (Suc 20) ?x)"
    by (simp only: SignExtend_Suc u) simp
  also have "\<dots> = signed_take_bit 20 ?x"
    by (simp only: signed_take_bit_take_bit) simp
  also have "\<dots> = adr_imm w"
    by (simp add: signed_take_bit_join adr_imm_def sfld_def fld_def unsigned_take_bit_eq
        of_nat_take_bit flip: numeral_2_eq_2)
  finally show ?thesis by simp
qed

lemma DecodeAdrImm_eq: "DecodeAdrImm w = adr_imm w"
  by (simp add: DecodeAdrImm_def SignExtend_adr)

lemma DecodeAdrpImm_eq: "DecodeAdrpImm w = adr_imm w * 4096"
  by (simp add: DecodeAdrpImm_def SignExtend_adr)

lemma fld_single: "fld n n w = of_bool (bit w n)"
  by (simp add: fld_def take_bit_Suc bit_iff_odd_drop_bit odd_iff_mod_2_eq_one flip: bit_0)

lemma fld_eq_numeral:
  "(numeral k :: nat) < 4294967296 \<Longrightarrow>
    fld hi lo w = numeral k \<longleftrightarrow> take_bit (hi - lo + 1) (drop_bit lo w) = numeral k"
  by (simp add: fld_def)

lemmas fld_blast = fld_single fld_eq_numeral word32_eq_iff all_less_32 bit_simps

lemma class_B: "IsB w \<longleftrightarrow> fld 31 26 w = 5"
  by (simp add: IsB_def fld_blast opcode_defs)
lemma class_BL: "IsBL w \<longleftrightarrow> fld 31 26 w = 37"
  by (simp add: IsBL_def fld_blast opcode_defs)
lemma class_BCond: "IsBCond w \<longleftrightarrow> fld 31 24 w = 84 \<and> fld 4 4 w = 0"
  by (simp add: IsBCond_def fld_blast opcode_defs conj_ac)
lemma class_CBZ: "IsCBZ w \<longleftrightarrow> fld 30 24 w = 52"
  by (simp add: IsCBZ_def fld_blast opcode_defs)
lemma class_CBNZ: "IsCBNZ w \<longleftrightarrow> fld 30 24 w = 53"
  by (simp add: IsCBNZ_def fld_blast opcode_defs)
lemma class_TBZ: "IsTBZ w \<longleftrightarrow> fld 30 24 w = 54"
  by (simp add: IsTBZ_def fld_blast opcode_defs)
lemma class_TBNZ: "IsTBNZ w \<longleftrightarrow> fld 30 24 w = 55"
  by (simp add: IsTBNZ_def fld_blast opcode_defs)
lemma class_LdrLiteral: "IsLdrLiteral w \<longleftrightarrow> fld 29 27 w = 3 \<and> fld 25 24 w = 0"
  by (simp add: IsLdrLiteral_def fld_blast opcode_defs fld_def unat_eq_0 conj_ac)
lemma class_ADR: "IsADR w \<longleftrightarrow> fld 31 31 w = 0 \<and> fld 28 24 w = 16"
  by (simp add: IsADR_def fld_blast opcode_defs conj_ac)
lemma class_ADRP: "IsADRP w \<longleftrightarrow> fld 31 31 w = 1 \<and> fld 28 24 w = 16"
  by (simp add: IsADRP_def fld_blast opcode_defs conj_ac)

lemma decode_B: "IsB w \<Longrightarrow> a64_decode w = IB (DecodeImm26 w)"
  by (simp add: class_B a64_decode_def DecodeImm26_eq)

lemma decode_BL: "IsBL w \<Longrightarrow> a64_decode w = IBL (DecodeImm26 w)"
  by (simp add: class_BL a64_decode_def DecodeImm26_eq)

lemma CondFromBCond_eq: "CondFromBCond w = Bits w 3 0"
  by (simp add: CondFromBCond_def Bits_eq word32_eq_iff all_less_32 bit_simps)

lemma decode_BCond:
  "IsBCond w \<Longrightarrow> a64_decode w = IBCond (fld 3 0 w) (DecodeImm19 w)"
  by (simp add: class_BCond a64_decode_def DecodeImm19_eq fld_blast)

lemma decode_CBZ: "IsCBZ w \<Longrightarrow> a64_decode w = ICBZ (bit w 31) (fld 4 0 w) (DecodeCompImm19 w)"
  by (simp add: class_CBZ a64_decode_def DecodeCompImm19_eq fld_blast)

lemma decode_CBNZ: "IsCBNZ w \<Longrightarrow> a64_decode w = ICBNZ (bit w 31) (fld 4 0 w) (DecodeCompImm19 w)"
  by (simp add: class_CBNZ a64_decode_def DecodeCompImm19_eq fld_blast)

lemma decode_TBZ:
  "IsTBZ w \<Longrightarrow> a64_decode w = ITBZ (32 * of_bool (bit w 31) + fld 23 19 w) (fld 4 0 w) (DecodeImm14 w)"
  by (simp add: class_TBZ a64_decode_def DecodeImm14_eq fld_blast)

lemma decode_TBNZ:
  "IsTBNZ w \<Longrightarrow> a64_decode w = ITBNZ (32 * of_bool (bit w 31) + fld 23 19 w) (fld 4 0 w) (DecodeImm14 w)"
  by (simp add: class_TBNZ a64_decode_def DecodeImm14_eq fld_blast)

lemma decode_ADR: "IsADR w \<Longrightarrow> a64_decode w = IAdr (fld 4 0 w) (DecodeAdrImm w)"
  by (simp add: class_ADR a64_decode_def DecodeAdrImm_eq fld_blast)

lemma decode_ADRP: "IsADRP w \<Longrightarrow> a64_decode w = IAdrp (fld 4 0 w) (DecodeAdrpImm w)"
  by (simp add: class_ADRP a64_decode_def DecodeAdrpImm_eq fld_blast)

lemma decode_LdrLitW: "fld 31 24 w = 24 \<Longrightarrow> a64_decode w = ILdrLitW (fld 4 0 w) (DecodeLdrLitImm19 w)"
  by (simp add: a64_decode_def DecodeLdrLitImm19_eq fld_blast)

lemma decode_LdrLitX: "fld 31 24 w = 88 \<Longrightarrow> a64_decode w = ILdrLitX (fld 4 0 w) (DecodeLdrLitImm19 w)"
  by (simp add: a64_decode_def DecodeLdrLitImm19_eq fld_blast)


section \<open>Emitted words\<close>

lemma sdiv_dvd: "(4::int) dvd x \<Longrightarrow> x sdiv 4 = x div 4"
  by (elim dvdE) (simp add: signed_divide_int_def sgn_mult abs_mult sgn_mult_abs)

lemma sdiv_dvd_4096: "(4096::int) dvd x \<Longrightarrow> x sdiv 4096 = x div 4096"
  by (elim dvdE) (simp add: signed_divide_int_def sgn_mult abs_mult sgn_mult_abs)

lemma mask_26: "(x::int) AND 0x03FFFFFF = take_bit 26 x"
  by (simp add: take_bit_eq_mask mask_eq_exp_minus_1)

lemma sfld_take: "lo \<le> hi \<Longrightarrow> hi < 32 \<Longrightarrow>
  sfld hi lo w = signed_take_bit (hi - lo) (uint (take_bit (Suc (hi - lo)) (drop_bit lo w)))"
  by (simp add: sfld_def unsigned_take_bit_eq signed_take_bit_take_bit)

lemma decode_emit_B:
  assumes "4 dvd off" "- kMaxBRange \<le> off" "off < kMaxBRange"
  shows "a64_decode (kOpB OR EncodeImm26 off) = IB off"
proof -
  define x where "x = off div 4"
  have off: "off = x * 4" using assms(1) by (simp add: x_def)
  have x: "- (2 ^ 25) \<le> x" "x < 2 ^ 25" using assms by (simp_all add: off kMaxBRange_def)
  have e: "EncodeImm26 off = word_of_int (take_bit 26 x)"
    using assms(1) by (simp add: EncodeImm26_def sdiv_dvd x_def mask_26)
  have "IsB (kOpB OR EncodeImm26 off)"
    by (simp add: IsB_def e opcode_defs word32_eq_iff all_less_32 bit_simps)
  moreover have "sfld 25 0 (kOpB OR EncodeImm26 off) = x"
  proof -
    have "take_bit 26 (kOpB OR EncodeImm26 off) = word_of_int (take_bit 26 x)"
      by (simp add: e opcode_defs word32_eq_iff all_less_32 bit_simps)
    then have "sfld 25 0 (kOpB OR EncodeImm26 off) = signed_take_bit 25 x"
      by (simp add: sfld_take uint_word_of_int_eq take_bit_take_bit signed_take_bit_take_bit)
    with x show ?thesis by (simp add: signed_take_bit_int_eq_self)
  qed
  ultimately show ?thesis by (simp add: decode_B DecodeImm26_eq off)
qed

lemma adr_imm_join:
  "adr_imm w = signed_take_bit 20
     (push_bit 2 (uint (drop_bit 5 w)) OR take_bit 2 (uint (drop_bit 29 w)))"
  by (simp add: signed_take_bit_join adr_imm_def sfld_def fld_def unsigned_take_bit_eq
      of_nat_take_bit flip: numeral_2_eq_2)

lemma all_less_21:
  "(\<forall>n<21. P n) \<longleftrightarrow>
    P 0 \<and> P 1 \<and> P 2 \<and> P 3 \<and> P 4 \<and> P 5 \<and> P 6 \<and> P 7 \<and>
    P 8 \<and> P 9 \<and> P 10 \<and> P 11 \<and> P 12 \<and> P 13 \<and> P 14 \<and> P 15 \<and>
    P 16 \<and> P 17 \<and> P 18 \<and> P 19 \<and> P (20::nat)"
  by (simp add: numeral_eq_Suc All_less_Suc conj_ac)

lemma take_bit_word_self: "unat (w::'a::len word) < 2 ^ n \<Longrightarrow> take_bit n w = w"
  by (simp add: word_unat_eq_iff unsigned_take_bit_eq take_bit_nat_eq_self)

lemma take_bit_21_eq:
  "(\<And>n. n < 21 \<Longrightarrow> bit (x::int) n = bit y n) \<Longrightarrow> take_bit 21 x = take_bit 21 y"
  by (rule bit_eqI) (auto simp: bit_simps)

lemma decode_emit_Adrp:
  assumes "4096 dvd off" "- (2 ^ 32) \<le> off" "off < 2 ^ 32"
  shows "a64_decode (kOpADRP OR EncodeAdrpImm off OR 17) = IAdrp 17 off"
proof -
  define p where "p = off div 4096"
  let ?w = "kOpADRP OR EncodeAdrpImm off OR 17"
  have off: "off = p * 4096" using assms(1) by (simp add: p_def)
  have p: "- (2 ^ 20) \<le> p" "p < 2 ^ 20" using assms by (simp_all add: off)
  have e: "EncodeAdrpImm off =
      push_bit 29 (ucast ((word_of_int p AND 0x1FFFFF :: u64) AND 3)) OR
      push_bit 5 (ucast (drop_bit 2 (word_of_int p AND 0x1FFFFF :: u64) AND 0x7FFFF))"
    using assms(1) by (simp add: EncodeAdrpImm_def Let_def sdiv_dvd_4096 p_def)
  have "IsADRP ?w"
    by (simp add: IsADRP_def e opcode_defs word32_eq_iff all_less_32 bit_simps)
  moreover have "fld 4 0 ?w = 17"
    by (simp add: e opcode_defs fld_blast)
  moreover have "adr_imm ?w = p"
  proof -
    let ?x = "push_bit 2 (uint (drop_bit 5 ?w)) OR take_bit 2 (uint (drop_bit 29 ?w))"
    have "\<forall>n<21. bit ?x n = bit p n"
      unfolding all_less_21 by (simp add: e opcode_defs bit_simps)
    then have "take_bit 21 ?x = take_bit 21 p" by (intro take_bit_21_eq) blast
    then have "signed_take_bit 20 ?x = signed_take_bit 20 p"
      by (simp add: signed_take_bit_eq_iff_take_bit_eq)
    with p show ?thesis by (simp add: adr_imm_join signed_take_bit_int_eq_self)
  qed
  ultimately show ?thesis by (simp add: decode_ADRP DecodeAdrpImm_eq off)
qed

lemma decode_emit_Add:
  assumes "imm < 0x1000"
  shows "a64_decode (0x91000000 OR push_bit 10 imm OR push_bit 5 17 OR 17) = IAddImm 17 17 (unat imm)"
proof -
  let ?w = "0x91000000 OR push_bit 10 imm OR push_bit 5 17 OR 17"
  have imm: "take_bit 12 imm = imm"
    using assms by (intro take_bit_word_self) (simp add: word_less_nat_alt)
  have i: "n \<ge> 12 \<Longrightarrow> \<not> bit imm n" for n
    by (subst imm [symmetric]) (simp add: bit_simps)
  have "fld 31 22 ?w = 580" "fld 9 5 ?w = 17" "fld 4 0 ?w = 17"
    by (simp_all add: fld_blast i)
  moreover have "fld 21 10 ?w = unat imm"
  proof -
    have "take_bit 12 (drop_bit 10 ?w) = take_bit 12 imm"
      by (simp add: word32_eq_iff all_less_32 bit_simps)
    then show ?thesis by (simp add: fld_def imm)
  qed
  ultimately show ?thesis by (simp add: a64_decode_def  fld_blast i)
qed

lemma decode_emit_BR17: "a64_decode (kOpBR OR push_bit 5 17) = IBR 17"
  by (simp add: a64_decode_def fld_def opcode_defs)

lemma decode_emit_BLR30: "a64_decode (kOpBLR OR push_bit 5 30) = IBLR 30"
  by (simp add: a64_decode_def fld_def opcode_defs)

lemma decode_emit_Nop: "a64_decode kOpNOP = INop"
  by (simp add: a64_decode_def fld_def opcode_defs)

text \<open>A register field: five bits, nothing above them.\<close>

lemma Bits_4_0_high: "5 \<le> n \<Longrightarrow> \<not> bit (Bits w 4 0) n"
  by (simp add: Bits_eq bit_simps)

lemma Bits_4_0_drop: "5 \<le> n \<Longrightarrow> drop_bit n (Bits w 4 0) = 0"
  by (rule bit_eqI) (simp add: bit_simps Bits_4_0_high)

lemma fld_4_0_emit:
  "take_bit 5 c = 0 \<Longrightarrow> take_bit 5 d = 0 \<Longrightarrow> fld 4 0 (c OR d OR Bits w 4 0) = fld 4 0 w"
  by (simp add: fld_def Bits_eq)

lemma decode_emit_Mov:
  "a64_decode (0xAA0003E0 OR push_bit 16 17 OR Bits w 4 0) = IMovReg (fld 4 0 w) 17"
proof -
  let ?w = "0xAA0003E0 OR push_bit 16 17 OR Bits w 4 0"
  have "fld 4 0 ?w = fld 4 0 w"
    by (rule fld_4_0_emit) simp_all
  moreover have "fld 20 16 ?w = 17" "fld 31 21 ?w = 1360" "fld 15 5 ?w = 31"
    by (simp_all add: fld_blast Bits_4_0_high)
  ultimately show ?thesis by (simp add: a64_decode_def fld_blast Bits_4_0_high)
qed

lemma decode_emit_LdrX:
  "a64_decode (0xF9400200 OR push_bit 5 17 OR Bits w 4 0) = ILdrX (fld 4 0 w) 17 0"
proof -
  let ?w = "0xF9400200 OR push_bit 5 17 OR Bits w 4 0"
  have "fld 4 0 ?w = fld 4 0 w"
    by (rule fld_4_0_emit) simp_all
  moreover have "fld 9 5 ?w = 17" "fld 31 22 ?w = 997"
    by (simp_all add: fld_blast Bits_4_0_high)
  moreover have "fld 21 10 ?w = 0"
    by (simp add: fld_def Bits_4_0_drop)
  ultimately show ?thesis by (simp add: a64_decode_def fld_blast Bits_4_0_high)
qed

lemma decode_emit_LdrW:
  "a64_decode (0xB9400200 OR push_bit 5 17 OR Bits w 4 0) = ILdrW (fld 4 0 w) 17 0"
proof -
  let ?w = "0xB9400200 OR push_bit 5 17 OR Bits w 4 0"
  have "fld 4 0 ?w = fld 4 0 w"
    by (rule fld_4_0_emit) simp_all
  moreover have "fld 9 5 ?w = 17" "fld 31 22 ?w = 741"
    by (simp_all add: fld_blast Bits_4_0_high)
  moreover have "fld 21 10 ?w = 0"
    by (simp add: fld_def Bits_4_0_drop)
  ultimately show ?thesis by (simp add: a64_decode_def fld_blast Bits_4_0_high)
qed

lemma decode_emit_LdrLit:
  assumes "d < 2 ^ 18"
  shows "a64_decode ((0x58000011 AND NOT 0x00FFFFE0) OR push_bit 5 (of_nat d AND 0x7FFFF))
    = ILdrLitX 17 (int d * 4)"
proof -
  let ?w = "(0x58000011 AND NOT 0x00FFFFE0) OR push_bit 5 (of_nat d AND 0x7FFFF) :: u32"
  have "fld 31 24 ?w = 88" "fld 4 0 ?w = 17"
    by (simp_all add: fld_blast)
  moreover have "sfld 23 5 ?w = int d"
  proof -
    have "take_bit 19 (drop_bit 5 ?w) = take_bit 19 (of_nat d)"
      by (simp add: word32_eq_iff all_less_32 bit_simps)
    then have "sfld 23 5 ?w = signed_take_bit 18 (uint (of_nat d :: u32))"
      by (simp add: sfld_take unsigned_take_bit_eq signed_take_bit_take_bit)
    moreover have "uint (of_nat d :: u32) = int d"
      using assms by (simp add: unsigned_of_nat take_bit_nat_eq_self uint_nat)
    ultimately show ?thesis using assms by (simp add: signed_take_bit_int_eq_self)
  qed
  ultimately show ?thesis by (simp add: decode_LdrLitX DecodeLdrLitImm19_eq)
qed

lemma sfld_numeral_3:
  "take_bit 19 (drop_bit 5 w) = 3 \<Longrightarrow> sfld 23 5 w = 3" "take_bit 14 (drop_bit 5 w) = 3 \<Longrightarrow> sfld 18 5 w = 3"
  by (simp_all add: sfld_take)

lemma decode_emit_BCond:
  "a64_decode (kOpBCond OR push_bit 5 3 OR InvertCond (CondFromBCond w)) =
    IBCond (unat (InvertCond (CondFromBCond w))) 12"
proof -
  let ?c = "InvertCond (CondFromBCond w)" and ?v = "kOpBCond OR push_bit 5 3 OR InvertCond (CondFromBCond w)"
  have "IsBCond ?v"
    by (simp add: IsBCond_def opcode_defs InvertCond_def CondFromBCond_def word32_eq_iff all_less_32 bit_simps)
  moreover have "sfld 23 5 ?v = 3"
    by (rule sfld_numeral_3)
      (simp add: opcode_defs InvertCond_def CondFromBCond_def word32_eq_iff all_less_32 bit_simps)
  moreover have "take_bit 4 ?v = ?c"
    by (simp add: opcode_defs InvertCond_def CondFromBCond_def word32_eq_iff all_less_32 bit_simps)
  ultimately show ?thesis by (simp add: decode_BCond DecodeImm19_eq fld_def)
qed

lemma decode_inv_CBZ:
  assumes "IsCBZ w"
  shows "a64_decode ((w XOR push_bit 24 1) AND NOT 0x00FFFFE0 OR push_bit 5 3) = ICBNZ (bit w 31) (fld 4 0 w) 12"
proof -
  let ?v = "(w XOR push_bit 24 1) AND NOT 0x00FFFFE0 OR push_bit 5 3"
  have "IsCBNZ ?v" "take_bit 5 ?v = take_bit 5 w" "bit ?v 31 = bit w 31" "take_bit 19 (drop_bit 5 ?v) = 3"
    using assms by (simp_all add: IsCBZ_def IsCBNZ_def opcode_defs word32_eq_iff all_less_32 bit_simps)
  then show ?thesis by (simp add: decode_CBNZ DecodeCompImm19_eq sfld_numeral_3 fld_def)
qed

lemma decode_inv_CBNZ:
  assumes "IsCBNZ w"
  shows "a64_decode ((w XOR push_bit 24 1) AND NOT 0x00FFFFE0 OR push_bit 5 3) = ICBZ (bit w 31) (fld 4 0 w) 12"
proof -
  let ?v = "(w XOR push_bit 24 1) AND NOT 0x00FFFFE0 OR push_bit 5 3"
  have "IsCBZ ?v" "take_bit 5 ?v = take_bit 5 w" "bit ?v 31 = bit w 31" "take_bit 19 (drop_bit 5 ?v) = 3"
    using assms by (simp_all add: IsCBZ_def IsCBNZ_def opcode_defs word32_eq_iff all_less_32 bit_simps)
  then show ?thesis by (simp add: decode_CBZ DecodeCompImm19_eq sfld_numeral_3 fld_def)
qed

lemma decode_inv_TBZ:
  assumes "IsTBZ w"
  shows "a64_decode ((w XOR push_bit 24 1) AND NOT 0x0007FFE0 OR push_bit 5 3) =
    ITBNZ (32 * of_bool (bit w 31) + fld 23 19 w) (fld 4 0 w) 12"
proof -
  let ?v = "(w XOR push_bit 24 1) AND NOT 0x0007FFE0 OR push_bit 5 3"
  have "IsTBNZ ?v" "take_bit 5 ?v = take_bit 5 w" "bit ?v 31 = bit w 31" "take_bit 14 (drop_bit 5 ?v) = 3"
    "take_bit 5 (drop_bit 19 ?v) = take_bit 5 (drop_bit 19 w)"
    using assms by (simp_all add: IsTBZ_def IsTBNZ_def opcode_defs word32_eq_iff all_less_32 bit_simps)
  then show ?thesis by (simp add: decode_TBNZ DecodeImm14_eq sfld_numeral_3 fld_def)
qed

lemma decode_inv_TBNZ:
  assumes "IsTBNZ w"
  shows "a64_decode ((w XOR push_bit 24 1) AND NOT 0x0007FFE0 OR push_bit 5 3) =
    ITBZ (32 * of_bool (bit w 31) + fld 23 19 w) (fld 4 0 w) 12"
proof -
  let ?v = "(w XOR push_bit 24 1) AND NOT 0x0007FFE0 OR push_bit 5 3"
  have "IsTBZ ?v" "take_bit 5 ?v = take_bit 5 w" "bit ?v 31 = bit w 31" "take_bit 14 (drop_bit 5 ?v) = 3"
    "take_bit 5 (drop_bit 19 ?v) = take_bit 5 (drop_bit 19 w)"
    using assms by (simp_all add: IsTBZ_def IsTBNZ_def opcode_defs word32_eq_iff all_less_32 bit_simps)
  then show ?thesis by (simp add: decode_TBZ DecodeImm14_eq sfld_numeral_3 fld_def)
qed

section \<open>Round trips of the immediate codecs\<close>

lemma sfld_word_of_int:
  assumes "lo \<le> hi" "hi < 32"
    and "take_bit (Suc (hi - lo)) (drop_bit lo w) = word_of_int (take_bit (Suc (hi - lo)) x)"
  shows "sfld hi lo w = signed_take_bit (hi - lo) x"
proof -
  have "min 32 (Suc (hi - lo)) = Suc (hi - lo)" using assms(1,2) by simp
  then show ?thesis using assms
    by (simp add: sfld_take uint_word_of_int_eq take_bit_take_bit signed_take_bit_take_bit)
qed

lemma field_range:
  assumes "4 dvd off" "- (2 ^ (n + 2)) \<le> off" "off < (2 ^ (n + 2) :: int)"
  shows "signed_take_bit n (off sdiv 4) * 4 = off"
proof -
  obtain k where k: "off = 4 * k" using assms(1) by (elim dvdE)
  have "- (2 ^ n) \<le> k" "k < 2 ^ n" using assms(2,3) by (simp_all add: k)
  then show ?thesis using assms(1) by (simp add: sdiv_dvd signed_take_bit_int_eq_self k)
qed

lemma DecodeImm26_EncodeImm26:
  assumes "4 dvd off" "- (2 ^ 27) \<le> off" "off < 2 ^ 27"
  shows "DecodeImm26 (EncodeImm26 off) = off"
proof -
  have "sfld 25 0 (EncodeImm26 off) = signed_take_bit (25 - 0) (off sdiv 4)"
    by (rule sfld_word_of_int) (simp_all add: EncodeImm26_def word32_eq_iff all_less_32 bit_simps)
  then show ?thesis using field_range [of off 25] assms by (simp add: DecodeImm26_eq)
qed

lemma sfld_19_push:
  "sfld 23 5 (push_bit 5 (word_of_int (x AND 0x7FFFF))) = signed_take_bit 18 x"
  by (rule sfld_word_of_int [of 5 23, simplified])
    (simp_all add: word32_eq_iff all_less_32 bit_simps)

lemma Imm19_roundtrips:
  assumes "4 dvd off" "- (2 ^ 20) \<le> off" "off < 2 ^ 20"
  shows "DecodeImm19 (EncodeImm19 off) = off" "DecodeCompImm19 (EncodeCompImm19 off) = off"
    "DecodeLdrLitImm19 (EncodeLdrLitImm19 off) = off"
  using field_range [of off 18] assms
  by (simp_all add: DecodeImm19_eq DecodeCompImm19_eq DecodeLdrLitImm19_eq EncodeImm19_def
      EncodeCompImm19_def EncodeLdrLitImm19_def sfld_19_push del: push_bit_of_int)

lemma Imm14_roundtrip:
  assumes "4 dvd off" "- (2 ^ 15) \<le> off" "off < 2 ^ 15"
  shows "DecodeImm14 (EncodeImm14 off) = off"
proof -
  have "sfld 18 5 (EncodeImm14 off) = signed_take_bit (18 - 5) (off sdiv 4)"
    by (rule sfld_word_of_int) (simp_all add: EncodeImm14_def word32_eq_iff all_less_32 bit_simps)
  then show ?thesis using field_range [of off 13] assms by (simp add: DecodeImm14_eq)
qed

lemma adr_imm_pack:
  fixes p :: int
  assumes "- (2 ^ 20) \<le> p" "p < 2 ^ 20" 
  shows "adr_imm (push_bit 29 (ucast ((word_of_int p AND 0x1FFFFF :: u64) AND 3)) OR
      push_bit 5 (ucast (drop_bit 2 (word_of_int p AND 0x1FFFFF :: u64) AND 0x7FFFF))) = p"
  (is "adr_imm ?w = p")
proof -
  let ?x = "push_bit 2 (uint (drop_bit 5 ?w)) OR take_bit 2 (uint (drop_bit 29 ?w))"
  have "\<forall>n<21. bit ?x n = bit p n"
    unfolding all_less_21 by (simp add: bit_simps)
  then have "take_bit 21 ?x = take_bit 21 p" by (intro take_bit_21_eq) blast
  then have "signed_take_bit 20 ?x = signed_take_bit 20 p"
    by (simp add: signed_take_bit_eq_iff_take_bit_eq)
  with assms show ?thesis by (simp add: adr_imm_join signed_take_bit_int_eq_self)
qed

lemma Adr_roundtrip:
  assumes "- (2 ^ 20) \<le> off" "off < 2 ^ 20"
  shows "DecodeAdrImm (EncodeAdrImm off) = off"
  using adr_imm_pack [of off] assms unfolding DecodeAdrImm_eq EncodeAdrImm_def Let_def by simp

lemma Adrp_roundtrip:
  assumes "4096 dvd off" "- (2 ^ 32) \<le> off" "off < 2 ^ 32"
  shows "DecodeAdrpImm (EncodeAdrpImm off) = off"
proof -
  obtain k where k: "off = 4096 * k" using assms(1) by (elim dvdE)
  have "- (2 ^ 20) \<le> k" "k < 2 ^ 20" using assms(2,3) by (simp_all add: k)
  from adr_imm_pack [OF this] show ?thesis
    using assms(1) unfolding DecodeAdrpImm_eq EncodeAdrpImm_def Let_def by (simp add: sdiv_dvd_4096 k)
qed

lemma Bits_SetBits:
  assumes "lo \<le> hi" "hi < 32"
  shows "Bits (SetBits v hi lo b) hi lo = take_bit (hi - lo + 1) b"
  using assms unfolding Bits_eq SetBits_def Let_def push_bit_1_minus_1
  by (intro bit_eqI) (auto simp: bit_simps)

lemma bit_SetBits_outside:
  assumes "n < lo \<or> hi < n" "lo \<le> hi" "n < 32"
  shows "bit (SetBits v hi lo b) n = bit v n"
  using assms unfolding SetBits_def Let_def push_bit_1_minus_1
  by (auto simp: bit_simps)

section \<open>The classifiers cover the PC-relative instructions\<close>

definition pc_relative :: "a64_inst \<Rightarrow> bool" where
  "pc_relative i = (case i of
     IB _ \<Rightarrow> True | IBL _ \<Rightarrow> True | IBCond _ _ \<Rightarrow> True | ICBZ _ _ _ \<Rightarrow> True | ICBNZ _ _ _ \<Rightarrow> True
   | ITBZ _ _ _ \<Rightarrow> True | ITBNZ _ _ _ \<Rightarrow> True | ILdrLitW _ _ \<Rightarrow> True | ILdrLitX _ _ \<Rightarrow> True
   | ILdrswLit _ _ \<Rightarrow> True | IPrfmLit _ \<Rightarrow> True | ILdrLitS _ _ \<Rightarrow> True | ILdrLitD _ _ \<Rightarrow> True
   | ILdrLitQ _ _ \<Rightarrow> True | IAdr _ _ \<Rightarrow> True | IAdrp _ _ \<Rightarrow> True | _ \<Rightarrow> False)"

definition relocation_class :: "u32 \<Rightarrow> bool" where
  "relocation_class w =
    (IsB w \<or> IsBL w \<or> IsBCond w \<or> IsCBZ w \<or> IsCBNZ w \<or> IsTBZ w \<or> IsTBNZ w \<or>
     IsLdrLiteral w \<or> IsADR w \<or> IsADRP w)"

lemma LdrLiteral_top:
  "fld 31 24 w = 24 \<or> fld 31 24 w = 88 \<or> fld 31 24 w = 152 \<or> fld 31 24 w = 216 \<or>
   fld 31 24 w = 28 \<or> fld 31 24 w = 92 \<or> fld 31 24 w = 156 \<Longrightarrow> IsLdrLiteral w"
  by (elim disjE) (simp_all add: IsLdrLiteral_def fld_blast)

lemma pc_relative_class: "pc_relative (a64_decode w) \<Longrightarrow> relocation_class w"
  unfolding a64_decode_def relocation_class_def
  by (auto simp: class_B class_BL class_BCond class_CBZ class_CBNZ class_TBZ class_TBNZ
      class_ADR class_ADRP pc_relative_def LdrLiteral_top split: if_splits)





text \<open>Claim C29 (immediate round trips): every immediate codec recovers the byte offset it encoded,
  over the whole signed range of its field and for every multiple of its unit.\<close>

theorem codec_roundtrips:
  "(4 dvd off \<and> - kMaxBRange \<le> off \<and> off < kMaxBRange \<longrightarrow> DecodeImm26 (EncodeImm26 off) = off) \<and>
   (4 dvd off \<and> - (2 ^ 20) \<le> off \<and> off < 2 ^ 20 \<longrightarrow>
      DecodeImm19 (EncodeImm19 off) = off \<and> DecodeCompImm19 (EncodeCompImm19 off) = off \<and>
      DecodeLdrLitImm19 (EncodeLdrLitImm19 off) = off) \<and>
   (4 dvd off \<and> - (2 ^ 15) \<le> off \<and> off < 2 ^ 15 \<longrightarrow> DecodeImm14 (EncodeImm14 off) = off) \<and>
   (- (2 ^ 20) \<le> off \<and> off < 2 ^ 20 \<longrightarrow> DecodeAdrImm (EncodeAdrImm off) = off) \<and>
   (4096 dvd off \<and> - (2 ^ 32) \<le> off \<and> off < 2 ^ 32 \<longrightarrow> DecodeAdrpImm (EncodeAdrpImm off) = off)"
  using DecodeImm26_EncodeImm26 [of off] Imm19_roundtrips [of off] Imm14_roundtrip [of off]
    Adr_roundtrip [of off] Adrp_roundtrip [of off]
  by (simp add: kMaxBRange_def)

theorem codec_roundtrips_witness:
  "DecodeImm26 (EncodeImm26 (-8192)) = -8192 \<and> DecodeImm19 (EncodeImm19 (-8192)) = -8192 \<and>
   DecodeImm14 (EncodeImm14 (-8192)) = -8192 \<and> DecodeAdrImm (EncodeAdrImm (-8192)) = -8192 \<and>
   DecodeAdrpImm (EncodeAdrpImm (-8192)) = -8192"
  using codec_roundtrips [of "-8192"] by (simp add: kMaxBRange_def)

end
