(* ===== verification/Assembler.thy ===== *)
theory Assembler
  imports Arm64_Constants
begin

text \<open>
  The growable code buffer and the instruction emitter of \<open>assembler.h/.cpp\<close>. A
  \<open>CodeBuffer\<close> keeps the written prefix \<open>data[0..size)\<close> of its heap block together with the
  32-bit \<open>size\<close> and \<open>capacity\<close> counters. Operations return \<open>None\<close> where the C++ does not
  return a value: the doubling loop of \<open>EnsureCapacity\<close> runs forever, or a patch address lies
  outside the buffer. The second half gives the emitter an abstract specification over
  instruction words and proves that the byte-level code refines it.
\<close>

section \<open>CodeBuffer\<close>

record CodeBuffer =
  data :: "u8 list"
  bsize :: u32
  capacity :: u32

definition CodeBuffer_new :: CodeBuffer where
  "CodeBuffer_new = \<lparr>data = [], bsize = 0, capacity = 256\<rparr>"

definition CodeBuffer_moved :: CodeBuffer where
  "CodeBuffer_moved = \<lparr>data = [], bsize = 0, capacity = 0\<rparr>"

text \<open>The move operations hand over the block and leave the source empty.\<close>

definition CodeBuffer_move :: "CodeBuffer \<Rightarrow> CodeBuffer \<times> CodeBuffer" where
  "CodeBuffer_move other = (other, CodeBuffer_moved)"

text \<open>The loop \<open>while (size + needed > capacity) capacity *= 2\<close>, on 32-bit counters.\<close>

partial_function (option) grow :: "u32 \<Rightarrow> u32 \<Rightarrow> u32 option" where
  "grow need cap = (if need \<le> cap then Some cap else grow need (cap * 2))"

definition EnsureCapacity :: "u32 \<Rightarrow> CodeBuffer \<Rightarrow> CodeBuffer option" where
  "EnsureCapacity needed b =
    (if bsize b + needed \<le> capacity b then Some b
     else do { c \<leftarrow> grow (bsize b + needed) (capacity b); Some (b\<lparr>capacity := c\<rparr>) })"

definition EmitU32 :: "u32 \<Rightarrow> CodeBuffer \<Rightarrow> CodeBuffer option" where
  "EmitU32 val b =
    do { b \<leftarrow> EnsureCapacity 4 b; Some (b\<lparr>data := data b @ le32 val, bsize := bsize b + 4\<rparr>) }"

definition EmitU64 :: "u64 \<Rightarrow> CodeBuffer \<Rightarrow> CodeBuffer option" where
  "EmitU64 val b =
    do { b \<leftarrow> EnsureCapacity 8 b; Some (b\<lparr>data := data b @ le64 val, bsize := bsize b + 8\<rparr>) }"

definition EmitBytes :: "u8 list \<Rightarrow> u32 \<Rightarrow> CodeBuffer \<Rightarrow> CodeBuffer option" where
  "EmitBytes src len b =
    (if unat len \<le> length src
     then do { b \<leftarrow> EnsureCapacity len b;
               Some (b\<lparr>data := data b @ take (unat len) src, bsize := bsize b + len\<rparr>) }
     else None)"

section \<open>Assembler\<close>

record DataLabel =
  code_offset :: u32
  data_offset :: u32
  label_value :: u64

record Assembler =
  abuf :: CodeBuffer
  alabels :: "DataLabel list"

definition Assembler_new :: Assembler where
  "Assembler_new = \<lparr>abuf = CodeBuffer_new, alabels = []\<rparr>"

definition CurrentOffset :: "Assembler \<Rightarrow> u32" where
  "CurrentOffset a = bsize (abuf a)"

definition EmitInst :: "u32 \<Rightarrow> Assembler \<Rightarrow> Assembler option" where
  "EmitInst inst a = do { b \<leftarrow> EmitU32 inst (abuf a); Some (a\<lparr>abuf := b\<rparr>) }"

definition EmitB :: "int \<Rightarrow> Assembler \<Rightarrow> Assembler option" where
  "EmitB offset a = EmitInst (kOpB OR EncodeImm26 offset) a"

definition EmitBR :: "u32 \<Rightarrow> Assembler \<Rightarrow> Assembler option" where
  "EmitBR rn a = EmitInst (kOpBR OR push_bit 5 rn) a"

definition EmitBLR :: "u32 \<Rightarrow> Assembler \<Rightarrow> Assembler option" where
  "EmitBLR rn a = EmitInst (kOpBLR OR push_bit 5 rn) a"

definition EmitLdrX17Placeholder :: "Assembler \<Rightarrow> (u32 \<times> Assembler) option" where
  "EmitLdrX17Placeholder a =
    do { let offset = CurrentOffset a; a \<leftarrow> EmitInst 0x58000011 a; Some (offset, a) }"

definition EmitLdrReg :: "u32 \<Rightarrow> u32 \<Rightarrow> Assembler \<Rightarrow> Assembler option" where
  "EmitLdrReg rt rn a = EmitInst (0xF9400200 OR push_bit 5 rn OR rt) a"

definition EmitNop :: "Assembler \<Rightarrow> Assembler option" where
  "EmitNop a = EmitInst kOpNOP a"

definition EmitMovZ :: "u32 \<Rightarrow> u16 \<Rightarrow> nat \<Rightarrow> Assembler \<Rightarrow> Assembler option" where
  "EmitMovZ rd imm shift a =
    (let hw = of_nat (shift div 16) AND 3
     in EmitInst (kOpMovZ OR push_bit 21 hw OR push_bit 5 (ucast imm) OR rd) a)"

definition EmitMovK :: "u32 \<Rightarrow> u16 \<Rightarrow> nat \<Rightarrow> Assembler \<Rightarrow> Assembler option" where
  "EmitMovK rd imm shift a =
    (let hw = of_nat (shift div 16) AND 3
     in EmitInst (kOpMovK OR push_bit 21 hw OR push_bit 5 (ucast imm) OR rd) a)"

definition EmitMovImm64 :: "u32 \<Rightarrow> u64 \<Rightarrow> Assembler \<Rightarrow> Assembler option" where
  "EmitMovImm64 rd val a =
    do { a \<leftarrow> EmitMovZ rd (ucast (val AND 0xFFFF)) 0 a;
         a \<leftarrow> EmitMovK rd (ucast (drop_bit 16 val AND 0xFFFF)) 16 a;
         a \<leftarrow> EmitMovK rd (ucast (drop_bit 32 val AND 0xFFFF)) 32 a;
         EmitMovK rd (ucast (drop_bit 48 val AND 0xFFFF)) 48 a }"

definition EmitAdrp :: "u32 \<Rightarrow> int \<Rightarrow> Assembler \<Rightarrow> Assembler option" where
  "EmitAdrp rd offset a = EmitInst (kOpADRP OR EncodeAdrpImm offset OR rd) a"

definition EmitAddImm :: "u32 \<Rightarrow> u32 \<Rightarrow> u32 \<Rightarrow> Assembler \<Rightarrow> Assembler option" where
  "EmitAddImm rd rn imm a =
    EmitInst (0x91000000 OR push_bit 10 imm OR push_bit 5 rn OR rd) a"

definition PlaceDataLabel :: "u64 \<Rightarrow> u32 \<Rightarrow> Assembler \<Rightarrow> Assembler" where
  "PlaceDataLabel v ldr_code_offset a =
    a\<lparr>alabels := alabels a @
        [\<lparr>code_offset = ldr_code_offset, data_offset = 0, label_value = v\<rparr>]\<rparr>"

text \<open>\<open>Finalize\<close>: the padding loop, then one step per label.\<close>

partial_function (option) pad_loop :: "u32 \<Rightarrow> Assembler \<Rightarrow> Assembler option" where
  "pad_loop aligned_size a =
    (if CurrentOffset a < aligned_size
     then Option.bind (EmitNop a) (\<lambda>a. pad_loop aligned_size a) else Some a)"

definition patch_u32 :: "nat \<Rightarrow> (u32 \<Rightarrow> u32) \<Rightarrow> u8 list \<Rightarrow> u8 list option" where
  "patch_u32 off f bs =
    (if off + 4 \<le> length bs
     then Some (take off bs
            @ le32 (f (of_le32 (bs ! off) (bs ! (off + 1)) (bs ! (off + 2)) (bs ! (off + 3))))
            @ drop (off + 4) bs)
     else None)"

definition finalize_label :: "DataLabel \<Rightarrow> Assembler \<Rightarrow> Assembler option" where
  "finalize_label label a =
    do { let label = label\<lparr>data_offset := CurrentOffset a\<rparr>;
         b \<leftarrow> EmitU64 (label_value label) (abuf a);
         let disp = uint (data_offset label) - uint (code_offset label);
         let imm19 = (word_of_int (disp sdiv 4) :: u32);
         let imm19_bits = push_bit 5 (imm19 AND 0x7FFFF);
         d \<leftarrow> patch_u32 (unat (code_offset label))
                (\<lambda>inst. (inst AND NOT 0x00FFFFE0) OR imm19_bits) (data b);
         Some (a\<lparr>abuf := b\<lparr>data := d\<rparr>\<rparr>) }"

fun finalize_labels :: "DataLabel list \<Rightarrow> Assembler \<Rightarrow> Assembler option" where
  "finalize_labels [] a = Some a"
| "finalize_labels (l # ls) a = do { a \<leftarrow> finalize_label l a; finalize_labels ls a }"

definition Finalize :: "Assembler \<Rightarrow> Assembler option" where
  "Finalize a =
    do { let code_size = CurrentOffset a;
         let aligned_size = (code_size + 7) AND NOT 7;
         a \<leftarrow> pad_loop aligned_size a;
         a \<leftarrow> finalize_labels (alabels a) a;
         Some (a\<lparr>alabels := []\<rparr>) }"

definition Reset :: "Assembler \<Rightarrow> Assembler" where
  "Reset a = a\<lparr>abuf := (abuf a)\<lparr>data := [], bsize := 0\<rparr>, alabels := []\<rparr>"

definition EmitLdrX17Branch :: "u64 \<Rightarrow> Assembler \<Rightarrow> Assembler option" where
  "EmitLdrX17Branch target_addr a =
    do { (ldr_offset, a) \<leftarrow> EmitLdrX17Placeholder a;
         a \<leftarrow> EmitBR kRegX17 a;
         Some (PlaceDataLabel target_addr ldr_offset a) }"

definition EmitLdrLRBranch :: "u64 \<Rightarrow> Assembler \<Rightarrow> Assembler option" where
  "EmitLdrLRBranch target_addr a =
    do { (ldr_offset, a) \<leftarrow> EmitLdrX17Placeholder a;
         a \<leftarrow> EmitInst (0xAA0003E0 OR push_bit 16 kRegX17 OR kRegLR) a;
         a \<leftarrow> EmitBLR kRegLR a;
         Some (PlaceDataLabel target_addr ldr_offset a) }"


section \<open>The abstract emitter\<close>

lemma grow_enough:
  assumes "0 < cap" "unat need \<le> 2 ^ 31"
  shows "\<exists>c. grow need cap = Some c \<and> need \<le> c \<and> cap \<le> c"
  using assms
proof (induction "unat need - unat cap" arbitrary: cap rule: less_induct)
  case less
  show ?case
  proof (cases "need \<le> cap")
    case True
    then show ?thesis by (subst grow.simps) auto
  next
    case False
    then have lt: "unat cap < unat need" by (simp add: word_le_nat_alt)
    with less.prems have dbl: "unat (cap * 2) = unat cap * 2"
      by (simp add: unat_word_ariths)
    have pos: "0 < unat cap" using less.prems(1) by (simp add: word_less_nat_alt)
    have "unat need - unat (cap * 2) < unat need - unat cap" using lt dbl pos by simp
    moreover have "0 < cap * 2" using dbl pos by (simp add: word_less_nat_alt)
    ultimately obtain c where c: "grow need (cap * 2) = Some c" "need \<le> c" "cap * 2 \<le> c"
      using less.hyps less.prems(2) by blast
    have "cap \<le> c" using c(3) dbl by (simp add: word_le_nat_alt)
    with c False show ?thesis by (subst grow.simps) simp
  qed
qed

text \<open>The buffer holds exactly the words \<open>ws\<close>.\<close>

definition buf_words :: "CodeBuffer \<Rightarrow> u32 list \<Rightarrow> bool" where
  "buf_words b ws \<longleftrightarrow>
    data b = concat (map le32 ws) \<and> unat (bsize b) = 4 * length ws \<and> 0 < capacity b"

lemma length_concat_le32 [simp]: "length (concat (map le32 ws)) = 4 * length ws"
  by (induction ws) auto

lemma le64_words: "le64 v = concat (map le32 [ucast v, ucast (drop_bit 32 v)])"
  by (simp add: le64_def)

lemma EnsureCapacity_ok:
  assumes "0 < capacity b" "unat (bsize b) + unat n \<le> 2 ^ 31"
  shows "\<exists>c. EnsureCapacity n b = Some (b\<lparr>capacity := c\<rparr>) \<and> 0 < c \<and> bsize b + n \<le> c"
proof (cases "bsize b + n \<le> capacity b")
  case True
  then show ?thesis using assms by (auto simp: EnsureCapacity_def intro!: exI [of _ "capacity b"])
next
  case False
  have "unat (bsize b + n) \<le> 2 ^ 31"
    using assms(2) by (simp add: unat_word_ariths)
  then obtain c where "grow (bsize b + n) (capacity b) = Some c" "bsize b + n \<le> c" "capacity b \<le> c"
    using grow_enough assms(1) by blast
  with False assms(1) show ?thesis by (auto simp: EnsureCapacity_def)
qed

lemma EmitU32_words:
  assumes "buf_words b ws" "length ws < 2 ^ 29"
  shows "\<exists>b'. EmitU32 w b = Some b' \<and> buf_words b' (ws @ [w])"
proof -
  have "unat (bsize b) + unat (4::u32) \<le> 2 ^ 31" using assms by (simp add: buf_words_def)
  then obtain c where "EnsureCapacity 4 b = Some (b\<lparr>capacity := c\<rparr>)" "0 < c"
    using EnsureCapacity_ok assms(1) unfolding buf_words_def by blast
  moreover have "unat (bsize b + 4) = 4 * length ws + 4"
    using assms by (simp add: buf_words_def unat_word_ariths)
  ultimately show ?thesis using assms(1) by (simp add: EmitU32_def buf_words_def)
qed

lemma EmitU64_words:
  assumes "buf_words b ws" "length ws + 1 < 2 ^ 29"
  shows "\<exists>b'. EmitU64 v b = Some b' \<and> buf_words b' (ws @ [ucast v, ucast (drop_bit 32 v)])"
proof -
  have "unat (bsize b) + unat (8::u32) \<le> 2 ^ 31" using assms by (simp add: buf_words_def)
  then obtain c where "EnsureCapacity 8 b = Some (b\<lparr>capacity := c\<rparr>)" "0 < c"
    using EnsureCapacity_ok assms(1) unfolding buf_words_def by blast
  moreover have "unat (bsize b + 8) = 4 * length ws + 8"
    using assms by (simp add: buf_words_def unat_word_ariths)
  ultimately show ?thesis using assms(1) by (simp add: EmitU64_def buf_words_def le64_words)
qed

lemma patch_u32_words:
  assumes "i < length ws"
  shows "patch_u32 (4 * i) f (concat (map le32 ws)) = Some (concat (map le32 (ws[i := f (ws ! i)])))"
proof -
  let ?l = "concat (map le32 (take i ws))" and ?r = "concat (map le32 (drop (Suc i) ws))"
  have split: "concat (map le32 ws) = ?l @ le32 (ws ! i) @ ?r"
    using assms by (metis concat_append id_take_nth_drop list.simps(9) map_append concat.simps(2))
  have len: "length ?l = 4 * i" using assms by simp
  have nth: "(?l @ le32 (ws ! i) @ ?r) ! (4 * i) = ucast (ws ! i)"
      "(?l @ le32 (ws ! i) @ ?r) ! (4 * i + 1) = ucast (drop_bit 8 (ws ! i))"
      "(?l @ le32 (ws ! i) @ ?r) ! (4 * i + 2) = ucast (drop_bit 16 (ws ! i))"
      "(?l @ le32 (ws ! i) @ ?r) ! (4 * i + 3) = ucast (drop_bit 24 (ws ! i))"
    using len by (simp_all add: nth_append le32_def)
  have "patch_u32 (4 * i) f (concat (map le32 ws)) = Some (?l @ le32 (f (ws ! i)) @ ?r)"
    unfolding patch_u32_def split nth of_le32_le32 using len by simp
  also have "?l @ le32 (f (ws ! i)) @ ?r = concat (map le32 (ws[i := f (ws ! i)]))"
    using assms by (simp add: upd_conv_take_nth_drop)
  finally show ?thesis .
qed


text \<open>An assembler shows the words \<open>ws\<close> and the pending labels \<open>ls\<close> (word index, value).\<close>

definition asm_view :: "Assembler \<Rightarrow> u32 list \<Rightarrow> (nat \<times> u64) list \<Rightarrow> bool" where
  "asm_view a ws ls \<longleftrightarrow>
    buf_words (abuf a) ws \<and>
    alabels a = map (\<lambda>(i, v). \<lparr>code_offset = of_nat (4 * i), data_offset = 0, label_value = v\<rparr>) ls \<and>
    (\<forall>(i, v) \<in> set ls. i < length ws)"

definition pad_words :: "u32 list \<Rightarrow> u32 list" where
  "pad_words ws = (if even (length ws) then ws else ws @ [kOpNOP])"

definition lit_patch :: "nat \<Rightarrow> u32 \<Rightarrow> u32" where
  "lit_patch d w = (w AND NOT 0x00FFFFE0) OR push_bit 5 (of_nat d AND 0x7FFFF)"

fun place_words :: "(nat \<times> u64) list \<Rightarrow> u32 list \<Rightarrow> u32 list" where
  "place_words [] ws = ws"
| "place_words ((i, v) # ls) ws =
     place_words ls ((ws @ [ucast v, ucast (drop_bit 32 v)])[i := lit_patch (length ws - i) (ws ! i)])"

definition final_words :: "u32 list \<Rightarrow> (nat \<times> u64) list \<Rightarrow> u32 list" where
  "final_words ws ls = place_words ls (pad_words ws)"

lemma asm_view_new: "asm_view Assembler_new [] []"
  by (simp add: asm_view_def Assembler_new_def CodeBuffer_new_def buf_words_def)

lemma asm_view_offset: "asm_view a ws ls \<Longrightarrow> CurrentOffset a = of_nat (4 * length ws)"
proof -
  assume "asm_view a ws ls"
  then have "unat (CurrentOffset a) = 4 * length ws"
    by (simp add: asm_view_def buf_words_def CurrentOffset_def)
  then show ?thesis by (metis of_nat_unat ucast_id)
qed

lemma asm_view_emit:
  assumes "asm_view a ws ls" "length ws < 2 ^ 29"
  shows "\<exists>a'. EmitInst w a = Some a' \<and> asm_view a' (ws @ [w]) ls"
proof -
  obtain b where "EmitU32 w (abuf a) = Some b" "buf_words b (ws @ [w])"
    using EmitU32_words assms unfolding asm_view_def by blast
  then show ?thesis using assms(1) by (auto simp: EmitInst_def asm_view_def)
qed

lemma asm_view_place:
  assumes "asm_view a ws ls" "i < length ws"
  shows "asm_view (PlaceDataLabel v (of_nat (4 * i)) a) ws (ls @ [(i, v)])"
  using assms by (auto simp: asm_view_def PlaceDataLabel_def)

lemma and_not_7: "(x :: u32) AND NOT 7 = push_bit 3 (drop_bit 3 x)"
  by (simp add: word32_eq_iff all_less_32 bit_simps)

lemma unat_and_not_7: "unat ((x :: u32) AND NOT 7) = 8 * (unat x div 8)"
proof -
  have "8 * (unat x div 8) \<le> unat x" by simp
  then have "8 * (unat x div 8) < 2 ^ 32" using unat_lt32 [of x] by simp
  then show ?thesis
    unfolding and_not_7 by (simp add: push_bit_eq_mult drop_bit_eq_div unat_word_ariths unat_div
        mult.commute)
qed

lemma aligned_size:
  assumes "length ws < 2 ^ 29"
  shows "unat ((of_nat (4 * length ws) + 7 :: u32) AND NOT 7) = 4 * length (pad_words ws)"
proof -
  have "unat (of_nat (4 * length ws + 7) :: u32) = 4 * length ws + 7"
    using assms by (intro unat_of_nat32) simp
  then have "unat (of_nat (4 * length ws) + 7 :: u32) = 4 * length ws + 7" by simp
  moreover have "8 * ((4 * n + 7) div 8) = (if even n then 4 * n else 4 * n + 4)" for n :: nat
    by (cases "even n") (auto elim!: evenE oddE)
  ultimately show ?thesis unfolding unat_and_not_7 by (simp add: pad_words_def)
qed

lemma pad_loop_view:
  assumes "asm_view a ws ls" "length ws < 2 ^ 29"
  shows "\<exists>a'. pad_loop ((CurrentOffset a + 7) AND NOT 7) a = Some a' \<and> asm_view a' (pad_words ws) ls"
proof -
  let ?al = "(CurrentOffset a + 7) AND NOT 7"
  have al: "unat ?al = 4 * length (pad_words ws)"
    using aligned_size [OF assms(2)] asm_view_offset [OF assms(1)] by simp
  have off: "unat (CurrentOffset a) = 4 * length ws"
    using assms(1) by (simp add: asm_view_def buf_words_def CurrentOffset_def)
  show ?thesis
  proof (cases "even (length ws)")
    case True
    then have "\<not> CurrentOffset a < ?al" using al off by (simp add: word_less_nat_alt pad_words_def)
    with True assms(1) show ?thesis by (subst pad_loop.simps) (simp add: pad_words_def)
  next
    case False
    then have lt: "CurrentOffset a < ?al" using al off by (simp add: word_less_nat_alt pad_words_def)
    obtain a' where a': "EmitNop a = Some a'" "asm_view a' (ws @ [kOpNOP]) ls"
      using asm_view_emit assms unfolding EmitNop_def by blast
    have "unat (CurrentOffset a') = 4 * length (ws @ [kOpNOP])"
      using a'(2) by (simp add: asm_view_def buf_words_def CurrentOffset_def)
    then have "\<not> CurrentOffset a' < ?al" using al False by (simp add: word_less_nat_alt pad_words_def)
    then have "pad_loop ?al a' = Some a'" by (subst pad_loop.simps) simp
    with lt a' False show ?thesis by (subst pad_loop.simps) (simp add: pad_words_def)
  qed
qed

lemma finalize_label_view:
  assumes "buf_words (abuf a) ws" "i < length ws" "length ws + 1 < 2 ^ 29"
  shows "\<exists>b. finalize_label \<lparr>code_offset = of_nat (4 * i), data_offset = z, label_value = v\<rparr> a
      = Some (a\<lparr>abuf := b\<rparr>) \<and>
    buf_words b ((ws @ [ucast v, ucast (drop_bit 32 v)])[i := lit_patch (length ws - i) (ws ! i)])"
proof -
  let ?ws = "ws @ [ucast v, ucast (drop_bit 32 v)]"
  let ?bits = "push_bit 5 (of_nat (length ws - i) AND 0x7FFFF) :: u32"
  obtain b where b: "EmitU64 v (abuf a) = Some b" "buf_words b ?ws"
    using EmitU64_words assms(1,3) by blast
  have off: "uint (CurrentOffset a) = 4 * int (length ws)"
    using assms(1) by (simp add: CurrentOffset_def buf_words_def uint_nat)
  have code: "unat (of_nat (4 * i) :: u32) = 4 * i"
    using assms(2,3) by (intro unat_of_nat32) simp
  then have codei: "uint (of_nat (4 * i) :: u32) = 4 * int i" by (simp add: uint_nat)
  have "4 * int (length ws) - 4 * int i = 4 * int (length ws - i)" using assms(2) by simp
  then have imm: "(4 * int (length ws) - 4 * int i) sdiv 4 = int (length ws - i)"
    by (simp only: sdiv_dvd dvd_triv_left)
  have "patch_u32 (4 * i) (\<lambda>inst. (inst AND NOT 0x00FFFFE0) OR ?bits) (data b)
      = Some (concat (map le32 (?ws[i := lit_patch (length ws - i) (ws ! i)])))"
    using b(2) assms(2) patch_u32_words [of i ?ws] by (simp add: buf_words_def lit_patch_def nth_append)
  then show ?thesis
    using b
    by (intro exI [of _ "b\<lparr>data := concat (map le32 (?ws[i := lit_patch (length ws - i) (ws ! i)]))\<rparr>"])
      (simp add: finalize_label_def Let_def off code codei imm buf_words_def del: of_nat_mult of_nat_diff)
qed


lemma length_place_words [simp]: "length (place_words ls ws) = length ws + 2 * length ls"
  by (induction ls ws rule: place_words.induct) auto

lemma finalize_labels_view:
  assumes "buf_words (abuf a) ws" "\<forall>(i, v) \<in> set ls. i < length ws"
    "length ws + 2 * length ls < 2 ^ 29"
  shows "\<exists>b. finalize_labels
      (map (\<lambda>(i, v). \<lparr>code_offset = of_nat (4 * i), data_offset = 0, label_value = v\<rparr>) ls) a
      = Some (a\<lparr>abuf := b\<rparr>) \<and> buf_words b (place_words ls ws)"
  using assms
proof (induction ls arbitrary: a ws)
  case Nil
  then show ?case by (auto intro!: exI [of _ "abuf a"])
next
  case (Cons l ls)
  obtain i v where l: "l = (i, v)" by (cases l)
  let ?ws = "(ws @ [ucast v, ucast (drop_bit 32 v)])[i := lit_patch (length ws - i) (ws ! i)]"
  have i: "i < length ws" and len: "length ws + 1 < 2 ^ 29"
    using Cons.prems(2,3) by (auto simp: l)
  obtain b where b: "finalize_label \<lparr>code_offset = of_nat (4 * i), data_offset = 0, label_value = v\<rparr> a
      = Some (a\<lparr>abuf := b\<rparr>)" "buf_words b ?ws"
    using finalize_label_view [OF Cons.prems(1) i len] by blast
  have "\<forall>(i, v) \<in> set ls. i < length ?ws" using Cons.prems(2) by (auto simp: l)
  moreover have "length ?ws + 2 * length ls < 2 ^ 29" using Cons.prems(3) by simp
  ultimately obtain c where "finalize_labels
      (map (\<lambda>(i, v). \<lparr>code_offset = of_nat (4 * i), data_offset = 0, label_value = v\<rparr>) ls) (a\<lparr>abuf := b\<rparr>)
      = Some (a\<lparr>abuf := b, abuf := c\<rparr>)" "buf_words c (place_words ls ?ws)"
    using Cons.IH [of "a\<lparr>abuf := b\<rparr>" ?ws] b(2) by auto
  with b(1) show ?case by (auto simp: l simp del: of_nat_mult)
qed

lemma asm_view_finalize:
  assumes "asm_view a ws ls" "length ws + 2 * length ls + 1 < 2 ^ 29"
  shows "\<exists>a'. Finalize a = Some a' \<and> asm_view a' (final_words ws ls) []"
proof -
  obtain a1 where a1: "pad_loop ((CurrentOffset a + 7) AND NOT 7) a = Some a1" "asm_view a1 (pad_words ws) ls"
    using pad_loop_view [OF assms(1)] assms(2) by auto
  have "length (pad_words ws) + 2 * length ls < 2 ^ 29" using assms(2) by (simp add: pad_words_def)
  then obtain b where b: "finalize_labels (alabels a1) a1 = Some (a1\<lparr>abuf := b\<rparr>)"
      "buf_words b (place_words ls (pad_words ws))"
    using finalize_labels_view [of a1 "pad_words ws" ls] a1(2) unfolding asm_view_def by auto
  with a1(1) show ?thesis
    by (simp add: Finalize_def Let_def asm_view_def final_words_def)
qed


section \<open>The literal pool after finalisation\<close>

text \<open>Word \<open>i\<close> of \<open>ws\<close> is an \<open>LDR X17\<close> whose literal slot holds \<open>v\<close>.\<close>

definition lit_ok :: "u32 list \<Rightarrow> nat \<Rightarrow> u64 \<Rightarrow> bool" where
  "lit_ok ws i v \<longleftrightarrow> (\<exists>d. i < d \<and> d + 1 < length ws \<and> d - i < 2 ^ 18 \<and>
     ws ! i = lit_patch (d - i) 0x58000011 \<and>
     ws ! d = ucast v \<and> ws ! (d + 1) = ucast (drop_bit 32 v))"

lemma place_words_keep:
  "j < length ws \<Longrightarrow> j \<notin> fst ` set ls \<Longrightarrow> place_words ls ws ! j = ws ! j"
  by (induction ls ws rule: place_words.induct) (auto simp: nth_append)

lemma place_words_lit:
  assumes "(i, v) \<in> set ls" "distinct (map fst ls)" "\<forall>(i, v) \<in> set ls. i < length ws"
  shows "\<exists>d. length ws \<le> d \<and> d + 1 < length ws + 2 * length ls \<and>
    place_words ls ws ! i = lit_patch (d - i) (ws ! i) \<and>
    place_words ls ws ! d = ucast v \<and> place_words ls ws ! (d + 1) = ucast (drop_bit 32 v)"
  using assms
proof (induction ls ws rule: place_words.induct)
  case (1 ws)
  then show ?case by simp
next
  case (2 i' v' ls ws)
  let ?ws = "(ws @ [ucast v', ucast (drop_bit 32 v')])[i' := lit_patch (length ws - i') (ws ! i')]"
  have i': "i' < length ws" and rest: "\<forall>(i, v) \<in> set ls. i < length ws" "i' \<notin> fst ` set ls"
    using "2.prems" by (auto simp: image_iff)
  show ?case
  proof (cases "(i, v) = (i', v')")
    case True
    have "place_words ls ?ws ! j = ?ws ! j" if "j < length ?ws" "j = i' \<or> length ws \<le> j" for j
      using that rest by (intro place_words_keep) (auto simp: image_iff)
    then have "place_words ls ?ws ! i' = ?ws ! i'" "place_words ls ?ws ! length ws = ?ws ! length ws"
      "place_words ls ?ws ! (length ws + 1) = ?ws ! (length ws + 1)" using i' by simp_all
    with True i' show ?thesis by (intro exI [of _ "length ws"]) (simp add: nth_append)
  next
    case False
    then have mem: "(i, v) \<in> set ls" using "2.prems"(1) by auto
    then have ne: "i \<noteq> i'" "i < length ws" using rest by (auto simp: image_iff)
    have "\<forall>(i, v) \<in> set ls. i < length ?ws" using rest by auto
    then obtain d where "length ?ws \<le> d" "d + 1 < length ?ws + 2 * length ls"
      "place_words ls ?ws ! i = lit_patch (d - i) (?ws ! i)"
      "place_words ls ?ws ! d = ucast v" "place_words ls ?ws ! (d + 1) = ucast (drop_bit 32 v)"
      using "2.IH" mem "2.prems"(2) by auto
    with ne show ?thesis by (intro exI [of _ d]) (simp add: nth_append)
  qed
qed

lemma length_pad_words: "length ws \<le> length (pad_words ws)" "length (pad_words ws) \<le> length ws + 1"
  by (simp_all add: pad_words_def)

lemma nth_pad_words: "j < length ws \<Longrightarrow> pad_words ws ! j = ws ! j"
  by (simp add: pad_words_def nth_append)

lemma final_words_keep:
  "j < length ws \<Longrightarrow> j \<notin> fst ` set ls \<Longrightarrow> final_words ws ls ! j = ws ! j"
  using length_pad_words(1) [of ws] by (simp add: final_words_def place_words_keep nth_pad_words)

lemma length_final_words:
  "length (final_words ws ls) = length (pad_words ws) + 2 * length ls"
  by (simp add: final_words_def)

lemma final_words_lit:
  assumes "(i, v) \<in> set ls" "distinct (map fst ls)" "\<forall>(i, v) \<in> set ls. i < length ws"
    and "ws ! i = 0x58000011" "length ws + 2 * length ls < 2 ^ 18"
  shows "lit_ok (final_words ws ls) i v"
proof -
  have b: "\<forall>(i, v) \<in> set ls. i < length (pad_words ws)" and i: "i < length ws"
    using assms(1,3) length_pad_words(1) [of ws] by auto
  obtain d where d: "length (pad_words ws) \<le> d" "d + 1 < length (pad_words ws) + 2 * length ls"
      "final_words ws ls ! i = lit_patch (d - i) (pad_words ws ! i)"
      "final_words ws ls ! d = ucast v" "final_words ws ls ! (d + 1) = ucast (drop_bit 32 v)"
    using place_words_lit [OF assms(1,2) b] unfolding final_words_def by blast
  have "i < d" "d - i < 2 ^ 18"
    using d(1,2) i length_pad_words [of ws] assms(5) by simp_all
  with d i assms(4) show ?thesis
    unfolding lit_ok_def by (intro exI [of _ d]) (simp add: length_final_words nth_pad_words)
qed

section \<open>The emitter interface\<close>

text \<open>
  What the relocator and the trampoline builder rely on: a client sees the emitted words and
  the labels, each emission appends, each label is remembered, and finishing yields the
  final image. The bound keeps the 32-bit counters of the buffer from wrapping.
\<close>

locale emitter =
  fixes emit :: "u32 \<Rightarrow> 'a \<Rightarrow> 'a option"
    and offset :: "'a \<Rightarrow> u32"
    and label :: "u64 \<Rightarrow> u32 \<Rightarrow> 'a \<Rightarrow> 'a"
    and finish :: "'a \<Rightarrow> 'a option"
    and view :: "'a \<Rightarrow> u32 list \<Rightarrow> (nat \<times> u64) list \<Rightarrow> bool"
  assumes emit_law: "view a ws ls \<Longrightarrow> length ws < 2 ^ 29 \<Longrightarrow>
      \<exists>a'. emit w a = Some a' \<and> view a' (ws @ [w]) ls"
    and offset_law: "view a ws ls \<Longrightarrow> offset a = of_nat (4 * length ws)"
    and label_law: "view a ws ls \<Longrightarrow> i < length ws \<Longrightarrow> view (label v (of_nat (4 * i)) a) ws (ls @ [(i, v)])"
    and finish_law: "view a ws ls \<Longrightarrow> length ws + 2 * length ls + 1 < 2 ^ 29 \<Longrightarrow>
      \<exists>a'. finish a = Some a' \<and> view a' (final_words ws ls) []"
begin

lemma emit2:
  assumes "view a ws ls" "length ws + 1 < 2 ^ 29"
  shows "\<exists>a'. Option.bind (emit w1 a) (emit w2) = Some a' \<and> view a' (ws @ [w1, w2]) ls"
proof -
  obtain a1 where a1: "emit w1 a = Some a1" "view a1 (ws @ [w1]) ls" using emit_law assms by fastforce
  then obtain a2 where "emit w2 a1 = Some a2" "view a2 (ws @ [w1, w2]) ls"
    using emit_law [of a1 "ws @ [w1]"] assms(2) by fastforce
  with a1 show ?thesis by simp
qed

lemma literal_then:
  assumes "view a ws ls" "length ws + 1 < 2 ^ 29"
  shows "\<exists>a1 a2. emit w1 a = Some a1 \<and> emit w2 a1 = Some a2 \<and>
    view (label v (offset a) a2) (ws @ [w1, w2]) (ls @ [(length ws, v)])"
proof -
  obtain a1 where a1: "emit w1 a = Some a1" "view a1 (ws @ [w1]) ls" using emit_law assms by fastforce
  then obtain a2 where "emit w2 a1 = Some a2" "view a2 (ws @ [w1, w2]) ls"
    using emit_law [of a1 "ws @ [w1]"] assms(2) by fastforce
  with a1 show ?thesis using label_law [of a2 "ws @ [w1, w2]" ls "length ws" v] offset_law [OF assms(1)]
    by simp
qed

lemma literal_then2:
  assumes "view a ws ls" "length ws + 2 < 2 ^ 29"
  shows "\<exists>a1 a2 a3. emit w1 a = Some a1 \<and> emit w2 a1 = Some a2 \<and> emit w3 a2 = Some a3 \<and>
    view (label v (offset a) a3) (ws @ [w1, w2, w3]) (ls @ [(length ws, v)])"
proof -
  obtain a1 where a1: "emit w1 a = Some a1" "view a1 (ws @ [w1]) ls" using emit_law assms by fastforce
  then obtain a2 where a2: "emit w2 a1 = Some a2" "view a2 (ws @ [w1, w2]) ls"
    using emit_law [of a1 "ws @ [w1]"] assms(2) by fastforce
  then obtain a3 where "emit w3 a2 = Some a3" "view a3 (ws @ [w1, w2, w3]) ls"
    using emit_law [of a2 "ws @ [w1, w2]"] assms(2) by fastforce
  with a1 a2 show ?thesis
    using label_law [of a3 "ws @ [w1, w2, w3]" ls "length ws" v] offset_law [OF assms(1)] by simp
qed

lemma literal_first:
  assumes "view a ws ls" "length ws + 1 < 2 ^ 29"
  shows "\<exists>a1 a2. emit w1 a = Some a1 \<and> emit w2 (label v (offset a) a1) = Some a2 \<and>
    view a2 (ws @ [w1, w2]) (ls @ [(length ws, v)])"
proof -
  obtain a1 where a1: "emit w1 a = Some a1" "view a1 (ws @ [w1]) ls" using emit_law assms by fastforce
  have "view (label v (offset a) a1) (ws @ [w1]) (ls @ [(length ws, v)])"
    using label_law [OF a1(2), of "length ws" v] offset_law [OF assms(1)] by simp
  then obtain a2 where "emit w2 (label v (offset a) a1) = Some a2"
      "view a2 (ws @ [w1, w2]) (ls @ [(length ws, v)])"
    using emit_law [of "label v (offset a) a1" "ws @ [w1]"] assms(2) by fastforce
  with a1 show ?thesis by blast
qed

end

interpretation asm: emitter EmitInst CurrentOffset PlaceDataLabel Finalize asm_view
  by unfold_locales (fact asm_view_emit asm_view_offset asm_view_place asm_view_finalize)+

lemma EmitLdrX17Branch_view:
  assumes "asm_view a ws ls" "length ws + 1 < 2 ^ 29"
  shows "\<exists>a'. EmitLdrX17Branch v a = Some a' \<and>
    asm_view a' (ws @ [0x58000011, kOpBR OR push_bit 5 kRegX17]) (ls @ [(length ws, v)])"
  using asm.literal_then [OF assms, of "0x58000011" "kOpBR OR push_bit 5 kRegX17" v]
  by (auto simp: EmitLdrX17Branch_def EmitLdrX17Placeholder_def EmitBR_def Let_def)

lemma EmitLdrLRBranch_view:
  assumes "asm_view a ws ls" "length ws + 2 < 2 ^ 29"
  shows "\<exists>a'. EmitLdrLRBranch v a = Some a' \<and>
    asm_view a' (ws @ [0x58000011, 0xAA0003E0 OR push_bit 16 kRegX17 OR kRegLR, kOpBLR OR push_bit 5 kRegLR])
      (ls @ [(length ws, v)])"
  using asm.literal_then2 [OF assms, of "0x58000011" "0xAA0003E0 OR push_bit 16 kRegX17 OR kRegLR"
      "kOpBLR OR push_bit 5 kRegLR" v]
  by (auto simp: EmitLdrLRBranch_def EmitLdrX17Placeholder_def EmitBLR_def Let_def)

section \<open>Properties\<close>

lemma grow_zero:
  assumes "grow need cap = Some c"
  shows "cap = 0 \<longrightarrow> need = 0"
  by (rule grow.raw_induct [of "\<lambda>need cap c. cap = 0 \<longrightarrow> need = 0", OF _ assms]) (auto split: if_splits)

text \<open>Buffer growth: while the sizes stay below 2^31 bytes and the buffer has not been moved
  from, making room terminates, leaves the contents alone and gives a capacity that holds the request.\<close>

lemma EnsureCapacity_returns:
  assumes "0 < capacity b" "unat (bsize b) + unat needed < 2 ^ 31"
  shows "\<exists>c. EnsureCapacity needed b = Some (b\<lparr>capacity := c\<rparr>) \<and> unat (bsize b) + unat needed \<le> unat c"
proof -
  have "unat (bsize b + needed) = unat (bsize b) + unat needed"
    using assms(2) by (simp add: unat_word_ariths)
  then show ?thesis using EnsureCapacity_ok [of b needed] assms by (auto simp: word_le_nat_alt)
qed

lemma EnsureCapacity_returns_witness:
  "\<exists>c. EnsureCapacity 1000 CodeBuffer_new = Some (CodeBuffer_new\<lparr>capacity := c\<rparr>) \<and> 1000 \<le> unat c"
  using EnsureCapacity_returns [of CodeBuffer_new 1000] by (auto simp: CodeBuffer_new_def)

text \<open>Claim C39 (moved-from buffers): a buffer whose block has been handed over keeps capacity zero, and
  doubling zero never reaches the request: the next emit does not return.\<close>

theorem moved_buffer_diverges: "EmitU32 val (snd (CodeBuffer_move b)) = None"
proof -
  have "grow 4 0 = None" using grow_zero [of 4 0] by (cases "grow 4 0") auto
  then show ?thesis by (simp add: EmitU32_def EnsureCapacity_def CodeBuffer_move_def CodeBuffer_moved_def)
qed

text \<open>Literal pools: if the assembler holds the words \<open>ws\<close> and the labels \<open>ls\<close>, every label
  pointing at its own \<open>LDR X17\<close> placeholder, then \<open>Finalize\<close> returns, the words are padded to eight
  bytes and followed by the literals, each placeholder becomes a load of its own literal, and every
  other instruction is left as it was.\<close>

lemma Finalize_resolves:
  assumes "asm_view a ws ls" "length ws + 2 * length ls + 1 < 2 ^ 18" "distinct (map fst ls)"
    and "\<forall>(i, v) \<in> set ls. ws ! i = 0x58000011"
  shows "\<exists>a' W. Finalize a = Some a' \<and> data (abuf a') = concat (map le32 W) \<and> alabels a' = [] \<and>
    unat (bsize (abuf a')) = 4 * length W \<and> length W = length (pad_words ws) + 2 * length ls \<and>
    (\<forall>(i, v) \<in> set ls. lit_ok W i v) \<and> (\<forall>j < length ws. j \<notin> fst ` set ls \<longrightarrow> W ! j = ws ! j)"
proof -
  obtain a' where a': "Finalize a = Some a'" "asm_view a' (final_words ws ls) []"
    using asm_view_finalize [OF assms(1)] assms(2) by auto
  have "\<forall>(i, v) \<in> set ls. lit_ok (final_words ws ls) i v"
    using assms by (auto simp: asm_view_def intro!: final_words_lit)
  moreover have "\<forall>j < length ws. j \<notin> fst ` set ls \<longrightarrow> final_words ws ls ! j = ws ! j"
    by (simp add: final_words_keep)
  ultimately show ?thesis using a'
    by (intro exI [of _ a'] exI [of _ "final_words ws ls"])
      (simp add: asm_view_def buf_words_def length_final_words)
qed

lemma Finalize_resolves_witness:
  "\<exists>a a' W. EmitLdrX17Branch 0x7000000000 Assembler_new = Some a \<and> Finalize a = Some a' \<and>
    data (abuf a') = concat (map le32 W) \<and> lit_ok W 0 0x7000000000"
proof -
  obtain a where a: "EmitLdrX17Branch 0x7000000000 Assembler_new = Some a"
    "asm_view a [0x58000011, kOpBR OR push_bit 5 kRegX17] [(0, 0x7000000000)]"
    using EmitLdrX17Branch_view [OF asm_view_new, of "0x7000000000"] by auto
  then show ?thesis using Finalize_resolves [OF a(2)] by fastforce
qed

end
