(* ===== verification/Code_Image.thy ===== *)
theory Code_Image
  imports Assembler
begin

text \<open>
  Code in memory: byte blocks at an address, the words they hold, \<open>memcpy\<close> into memory, and
  the execution of an \<open>LDR X17\<close> whose literal lies in the same image. Shared by the
  trampoline, the relocator and the hook API.
\<close>

section \<open>Blocks of bytes and words\<close>

definition bytes_at :: "memory \<Rightarrow> u64 \<Rightarrow> u8 list \<Rightarrow> bool" where
  "bytes_at m a bs \<longleftrightarrow> (\<forall>i < length bs. m (a + of_nat i) = bs ! i)"

definition words_at :: "memory \<Rightarrow> u64 \<Rightarrow> u32 list \<Rightarrow> bool" where
  "words_at m a ws \<longleftrightarrow> (\<forall>j < length ws. load32 m (a + of_nat (4 * j)) = ws ! j)"

definition read_bytes :: "memory \<Rightarrow> u64 \<Rightarrow> nat \<Rightarrow> u8 list" where
  "read_bytes m a n = map (\<lambda>i. m (a + of_nat i)) [0..<n]"

text \<open>\<open>memcpy(a, bs, n)\<close> with \<open>n = length bs\<close>.\<close>

definition write_bytes :: "u64 \<Rightarrow> u8 list \<Rightarrow> memory \<Rightarrow> memory" where
  "write_bytes a bs m = (\<lambda>x. if unat (x - a) < length bs then bs ! unat (x - a) else m x)"

text \<open>The addresses of a block of \<open>n\<close> bytes.\<close>

definition block :: "u64 \<Rightarrow> nat \<Rightarrow> u64 set" where
  "block a n = {x. unat (x - a) < n}"

lemma length_read_bytes [simp]: "length (read_bytes m a n) = n"
  by (simp add: read_bytes_def)

lemma bytes_at_read: "bytes_at m a (read_bytes m a n)"
  by (simp add: bytes_at_def read_bytes_def)

lemma ucast_of_nat32: "n < 2 ^ 32 \<Longrightarrow> ucast (of_nat n :: u32) = (of_nat n :: u64)"
  by (simp add: word_unat_eq_iff unsigned_ucast_eq unsigned_of_nat take_bit_nat_eq_self)

lemma write_bytes_outside: "x \<notin> block a (length bs) \<Longrightarrow> write_bytes a bs m x = m x"
  by (simp add: write_bytes_def block_def)

lemma bytes_at_write: "length bs \<le> 2 ^ 64 \<Longrightarrow> bytes_at (write_bytes a bs m) a bs"
  by (simp add: bytes_at_def write_bytes_def unat_of_nat64)

lemma write_bytes_read:
  "length bs = n \<Longrightarrow> write_bytes a (read_bytes m a n) (write_bytes a bs m) = m"
  by (rule ext) (simp add: write_bytes_def read_bytes_def)

lemma bytes_at_cong:
  assumes "\<And>i. i < length bs \<Longrightarrow> m (a + of_nat i) = m' (a + of_nat i)"
  shows "bytes_at m a bs = bytes_at m' a bs"
  using assms by (simp add: bytes_at_def)

lemma bytes_at_append:
  "bytes_at m a (xs @ ys) \<longleftrightarrow> bytes_at m a xs \<and> bytes_at m (a + of_nat (length xs)) ys"
proof -
  have "(\<forall>i < length xs + length ys. m (a + of_nat i) = (xs @ ys) ! i) \<longleftrightarrow>
      (\<forall>i < length xs. m (a + of_nat i) = xs ! i) \<and>
      (\<forall>i < length ys. m (a + of_nat (length xs) + of_nat i) = ys ! i)" (is "?L \<longleftrightarrow> ?R")
  proof
    assume L: ?L
    show ?R
    proof (intro conjI allI impI)
      fix i assume "i < length xs"
      then show "m (a + of_nat i) = xs ! i" using L [rule_format, of i] by (simp add: nth_append)
    next
      fix i assume "i < length ys"
      then show "m (a + of_nat (length xs) + of_nat i) = ys ! i"
        using L [rule_format, of "length xs + i"] by (simp add: add.assoc)
    qed
  next
    assume R: ?R
    show ?L
    proof (intro allI impI)
      fix i assume i: "i < length xs + length ys"
      show "m (a + of_nat i) = (xs @ ys) ! i"
      proof (cases "i < length xs")
        case True
        then show ?thesis using R by (simp add: nth_append)
      next
        case False
        then obtain k where k: "i = length xs + k" by (metis le_Suc_ex not_less)
        with i have "m (a + of_nat (length xs) + of_nat k) = ys ! k" using R by simp
        then show ?thesis by (simp add: k nth_append add.assoc)
      qed
    qed
  qed
  then show ?thesis by (simp add: bytes_at_def)
qed

lemma load32_le32: "bytes_at m a (le32 w) \<Longrightarrow> load32 m a = w"
proof -
  assume "bytes_at m a (le32 w)"
  then have b: "m (a + of_nat i) = le32 w ! i" if "i < 4" for i
    using that by (simp add: bytes_at_def)
  show ?thesis
    using b [of 0] b [of 1] b [of 2] b [of 3] of_le32_le32 [of w] by (simp add: load32_def le32_def)
qed

lemma words_at_Cons:
  "words_at m a (w # ws) \<longleftrightarrow> load32 m a = w \<and> words_at m (a + 4) ws"
  unfolding words_at_def
  by (auto simp: less_Suc_eq_0_disj algebra_simps)

lemma words_at_bytes: "bytes_at m a (concat (map le32 ws)) \<Longrightarrow> words_at m a ws"
proof (induction ws arbitrary: a)
  case Nil
  then show ?case by (simp add: words_at_def)
next
  case (Cons w ws)
  then show ?case by (simp add: words_at_Cons bytes_at_append load32_le32)
qed

lemma words_at_nth: "words_at m a ws \<Longrightarrow> j < length ws \<Longrightarrow> load32 m (a + of_nat (4 * j)) = ws ! j"
  by (simp add: words_at_def)

section \<open>Stepping through an image\<close>

lemma a64_run_add: "a64_run oth (m + n) s = a64_run oth n (a64_run oth m s)"
  by (induction m arbitrary: s) auto

lemma a64_step_word:
  "words_at (cmem s) a ws \<Longrightarrow> j < length ws \<Longrightarrow> pcr s = a + of_nat (4 * j) \<Longrightarrow>
   a64_step oth s = a64_exec oth (a64_decode (ws ! j)) s"
  by (simp add: a64_step_def words_at_def)

lemma join64: "(ucast (ucast v :: u32) :: u64) OR push_bit 32 (ucast (ucast (drop_bit 32 v) :: u32)) = v"
  by (rule bit_eqI) (auto simp: bit_simps not_less)

lemma next_pc_simps [simp]:
  "pcr (next_pc s) = pcr s + 4" "xreg (next_pc s) = xreg s" "vreg (next_pc s) = vreg s"
  "cmem (next_pc s) = cmem s" "psr_n (next_pc s) = psr_n s" "psr_z (next_pc s) = psr_z s"
  "psr_c (next_pc s) = psr_c s" "psr_v (next_pc s) = psr_v s"
  by (simp_all add: next_pc_def goto_def)

lemma goto_simps [simp]:
  "pcr (goto a s) = a" "xreg (goto a s) = xreg s" "vreg (goto a s) = vreg s"
  "cmem (goto a s) = cmem s" "psr_n (goto a s) = psr_n s" "psr_z (goto a s) = psr_z s"
  "psr_c (goto a s) = psr_c s" "psr_v (goto a s) = psr_v s"
  by (simp_all add: goto_def)

lemma xset_simps [simp]:
  "pcr (xset r v s) = pcr s" "vreg (xset r v s) = vreg s"
  "cmem (xset r v s) = cmem s" "psr_n (xset r v s) = psr_n s" "psr_z (xset r v s) = psr_z s"
  "psr_c (xset r v s) = psr_c s" "psr_v (xset r v s) = psr_v s"
  "xreg (xset r v s) = (if r = 31 then xreg s else (xreg s)(r := v))"
  by (simp_all add: xset_def)

lemma xget_xset [simp]:
  "xget (xset r v s) r' = (if r' = r \<and> r \<noteq> 31 then v else xget s r')"
  by (simp add: xget_def xset_def)

lemma xget_next_pc [simp]: "xget (next_pc s) r = xget s r" "xget (goto a s) r = xget s r"
  by (simp_all add: xget_def)

lemma step_literal:
  assumes "words_at (cmem s) a ws" "lit_ok ws i v" "pcr s = a + of_nat (4 * i)"
  shows "a64_step oth s = next_pc (xset 17 v s)"
proof -
  obtain d where d: "i < d" "d + 1 < length ws" "d - i < 2 ^ 18"
    "ws ! i = lit_patch (d - i) 0x58000011" "ws ! d = ucast v" "ws ! (d + 1) = ucast (drop_bit 32 v)"
    using assms(2) unfolding lit_ok_def by blast
  have dec: "a64_decode (ws ! i) = ILdrLitX 17 (int (d - i) * 4)"
    using decode_emit_LdrLit [OF d(3)] by (simp add: d(4) lit_patch_def)
  have "rel_pc s (int (d - i) * 4) = a + of_nat (4 * d)"
  proof -
    have "of_nat (4 * i) + of_nat ((d - i) * 4) = (of_nat (4 * d) :: u64)"
      using d(1) by (simp only: of_nat_add [symmetric]) (simp add: algebra_simps)
    moreover have "word_of_int (int (d - i) * 4) = (of_nat ((d - i) * 4) :: u64)"
      by (metis of_int_of_nat_eq of_nat_mult of_nat_numeral)
    ultimately show ?thesis
      unfolding rel_pc_def assms(3) by (simp only: add.assoc)
  qed
  moreover have "load64 (cmem s) (a + of_nat (4 * d)) = v"
  proof -
    have "load32 (cmem s) (a + of_nat (4 * d)) = ucast v"
      using words_at_nth [OF assms(1), of d] d by simp
    moreover have "load32 (cmem s) (a + of_nat (4 * d) + 4) = ucast (drop_bit 32 v)"
      using words_at_nth [OF assms(1), of "d + 1"] d by (simp add: algebra_simps)
    ultimately show ?thesis by (simp add: load64_def join64)
  qed
  ultimately show ?thesis
    using a64_step_word [OF assms(1), of i oth] assms(3) d(1,2) dec by simp
qed

end
