(* ===== verification/Relocator.thy ===== *)
theory Relocator
  imports Code_Image
begin

text \<open>
  \<open>RelocateInstructions\<close> of \<open>relocator.cpp\<close>: the prologue of a function is copied to another
  address, each PC-relative instruction rewritten into a sequence that loads an absolute
  address. \<open>reloc_one\<close> is the body of the loop, one branch per class, in the order of the
  code. The lemmas give the words each branch emits (\<open>chunk\<close>), the layout of the whole
  image, its size, and the simulation of the original instructions by the relocated ones
  in the reference semantics.
\<close>

section \<open>The relocator\<close>

definition reloc_one :: "u64 \<Rightarrow> u32 \<Rightarrow> Assembler \<Rightarrow> Assembler option" where
  "reloc_one pc inst a =
    (if IsB inst then
       EmitLdrX17Branch (pc + word_of_int (DecodeImm26 inst)) a
     else if IsBL inst then
       EmitLdrLRBranch (pc + word_of_int (DecodeImm26 inst)) a
     else if IsBCond inst then
       do { let target = pc + word_of_int (DecodeImm19 inst);
            let inv_cond = InvertCond (CondFromBCond inst);
            a \<leftarrow> EmitInst (kOpBCond OR push_bit 5 3 OR inv_cond) a;
            EmitLdrX17Branch target a }
     else if IsCBZ inst \<or> IsCBNZ inst then
       do { let target = pc + word_of_int (DecodeCompImm19 inst);
            let inverted = inst XOR push_bit 24 1;
            a \<leftarrow> EmitInst ((inverted AND NOT 0x00FFFFE0) OR push_bit 5 3) a;
            EmitLdrX17Branch target a }
     else if IsTBZ inst \<or> IsTBNZ inst then
       do { let target = pc + word_of_int (DecodeImm14 inst);
            let inverted = inst XOR push_bit 24 1;
            a \<leftarrow> EmitInst ((inverted AND NOT 0x0007FFE0) OR push_bit 5 3) a;
            EmitLdrX17Branch target a }
     else if IsLdrLiteral inst then
       do { let target = pc + word_of_int (DecodeLdrLitImm19 inst);
            let rt = GetRt inst;
            let opc = Bits inst 31 30;
            if opc = 1 then
              do { (ldr_off, a) \<leftarrow> EmitLdrX17Placeholder a;
                   EmitLdrReg rt kRegX17 (PlaceDataLabel target ldr_off a) }
            else if opc = 0 then
              do { (ldr_off, a) \<leftarrow> EmitLdrX17Placeholder a;
                   EmitInst (0xB9400200 OR push_bit 5 kRegX17 OR rt) (PlaceDataLabel target ldr_off a) }
            else EmitInst inst a }
     else if IsADR inst then
       do { let target = pc + word_of_int (DecodeAdrImm inst);
            (ldr_off, a) \<leftarrow> EmitLdrX17Placeholder a;
            EmitInst (0xAA0003E0 OR push_bit 16 kRegX17 OR GetRd inst) (PlaceDataLabel target ldr_off a) }
     else if IsADRP inst then
       do { let page_addr = (pc AND NOT 0xFFF) + word_of_int (DecodeAdrpImm inst);
            (ldr_off, a) \<leftarrow> EmitLdrX17Placeholder a;
            EmitInst (0xAA0003E0 OR push_bit 16 kRegX17 OR GetRd inst) (PlaceDataLabel page_addr ldr_off a) }
     else EmitInst inst a)"

text \<open>The loop \<open>for (i = 0; i < target_count; i++)\<close>; the first argument counts the iterations left.\<close>

fun reloc_loop :: "nat \<Rightarrow> memory \<Rightarrow> u64 \<Rightarrow> nat \<Rightarrow> u32 \<Rightarrow> Assembler \<Rightarrow> (u32 \<times> Assembler) option" where
  "reloc_loop 0 m src_addr i offset a = Some (offset, a)"
| "reloc_loop (Suc n) m src_addr i offset a =
     do { let inst = load32 m (src_addr + of_nat (4 * i));
          let pc = src_addr + ucast offset;
          a \<leftarrow> reloc_one pc inst a;
          reloc_loop n m src_addr (Suc i) (offset + 4) a }"

record RelocateResult =
  rbuffer :: CodeBuffer
  bytes_consumed :: u32
  valid :: bool

definition RelocateInstructions :: "memory \<Rightarrow> u64 \<Rightarrow> u32 \<Rightarrow> u64 \<Rightarrow> RelocateResult option" where
  "RelocateInstructions m src_addr min_bytes dst_addr =
    (if min_bytes = 0 \<or> min_bytes mod 4 \<noteq> 0
     then Some \<lparr>rbuffer = CodeBuffer_new, bytes_consumed = 0, valid = False\<rparr>
     else
       do { let target_count = min_bytes div 4;
            (offset, a) \<leftarrow> reloc_loop (unat target_count) m src_addr 0 0 Assembler_new;
            let return_addr = src_addr + ucast offset;
            a \<leftarrow> EmitLdrX17Branch return_addr a;
            a \<leftarrow> Finalize a;
            let (buffer, _) = CodeBuffer_move (abuf a);
            Some \<lparr>rbuffer = buffer, bytes_consumed = offset, valid = True\<rparr> })"

section \<open>Words emitted per instruction\<close>

abbreviation ldr17 :: u32 where "ldr17 \<equiv> 0x58000011"
abbreviation br17 :: u32 where "br17 \<equiv> kOpBR OR push_bit 5 kRegX17"

text \<open>The words of a relocated instruction, with the literal load's index and value.\<close>

definition chunk :: "u64 \<Rightarrow> u32 \<Rightarrow> u32 list \<times> (nat \<times> u64) option" where
  "chunk pc inst =
    (if IsB inst then ([ldr17, br17], Some (0, pc + word_of_int (DecodeImm26 inst)))
     else if IsBL inst then
       ([ldr17, 0xAA0003E0 OR push_bit 16 kRegX17 OR kRegLR, kOpBLR OR push_bit 5 kRegLR],
        Some (0, pc + word_of_int (DecodeImm26 inst)))
     else if IsBCond inst then
       ([kOpBCond OR push_bit 5 3 OR InvertCond (CondFromBCond inst), ldr17, br17],
        Some (1, pc + word_of_int (DecodeImm19 inst)))
     else if IsCBZ inst \<or> IsCBNZ inst then
       ([((inst XOR push_bit 24 1) AND NOT 0x00FFFFE0) OR push_bit 5 3, ldr17, br17],
        Some (1, pc + word_of_int (DecodeCompImm19 inst)))
     else if IsTBZ inst \<or> IsTBNZ inst then
       ([((inst XOR push_bit 24 1) AND NOT 0x0007FFE0) OR push_bit 5 3, ldr17, br17],
        Some (1, pc + word_of_int (DecodeImm14 inst)))
     else if IsLdrLiteral inst then
       (if Bits inst 31 30 = 1 then
          ([ldr17, 0xF9400200 OR push_bit 5 kRegX17 OR GetRt inst],
           Some (0, pc + word_of_int (DecodeLdrLitImm19 inst)))
        else if Bits inst 31 30 = 0 then
          ([ldr17, 0xB9400200 OR push_bit 5 kRegX17 OR GetRt inst],
           Some (0, pc + word_of_int (DecodeLdrLitImm19 inst)))
        else ([inst], None))
     else if IsADR inst then
       ([ldr17, 0xAA0003E0 OR push_bit 16 kRegX17 OR GetRd inst],
        Some (0, pc + word_of_int (DecodeAdrImm inst)))
     else if IsADRP inst then
       ([ldr17, 0xAA0003E0 OR push_bit 16 kRegX17 OR GetRd inst],
        Some (0, (pc AND NOT 0xFFF) + word_of_int (DecodeAdrpImm inst)))
     else ([inst], None))"

definition shift_label :: "nat \<Rightarrow> (nat \<times> u64) option \<Rightarrow> (nat \<times> u64) list" where
  "shift_label p l = (case l of None \<Rightarrow> [] | Some (k, v) \<Rightarrow> [(p + k, v)])"

definition wf_chunk :: "u32 list \<times> (nat \<times> u64) option \<Rightarrow> bool" where
  "wf_chunk c \<longleftrightarrow> 0 < length (fst c) \<and> length (fst c) \<le> 3 \<and>
    (case snd c of None \<Rightarrow> True | Some (k, v) \<Rightarrow> k < length (fst c) \<and> fst c ! k = ldr17)"

lemma wf_chunk_if: "(c \<Longrightarrow> wf_chunk x) \<Longrightarrow> (\<not> c \<Longrightarrow> wf_chunk y) \<Longrightarrow> wf_chunk (if c then x else y)"
  by simp

lemma wf_chunk_chunk: "wf_chunk (chunk pc inst)"
  unfolding chunk_def by (intro wf_chunk_if) (simp_all add: wf_chunk_def)

lemma reloc_one_view:
  assumes "asm_view a ws ls" "length ws + 2 < 2 ^ 29"
  shows "\<exists>a'. reloc_one pc inst a = Some a' \<and>
    asm_view a' (ws @ fst (chunk pc inst)) (ls @ shift_label (length ws) (snd (chunk pc inst)))"
proof -
  have bound: "length ws < 2 ^ 29" "length ws + 1 < 2 ^ 29" using assms(2) by simp_all
  have inv: "\<exists>a'. Option.bind (EmitInst w a) (EmitLdrX17Branch v) = Some a' \<and>
      asm_view a' (ws @ [w, ldr17, br17]) (ls @ [(length ws + 1, v)])" for w v
  proof -
    obtain a1 where a1: "EmitInst w a = Some a1" "asm_view a1 (ws @ [w]) ls"
      using asm.emit_law [OF assms(1) bound(1)] by blast
    then show ?thesis using EmitLdrX17Branch_view [of a1 "ws @ [w]" ls v] assms(2) by simp
  qed
  have lit: "\<exists>a'. Option.bind (EmitLdrX17Placeholder a)
        (\<lambda>(off, a). EmitInst w (PlaceDataLabel v off a)) = Some a' \<and>
      asm_view a' (ws @ [ldr17, w]) (ls @ [(length ws, v)])" for w v
    using asm.literal_first [OF assms(1) bound(2), of ldr17 w v]
    by (auto simp: EmitLdrX17Placeholder_def Let_def)
  have one: "\<exists>a'. EmitInst inst a = Some a' \<and> asm_view a' (ws @ [inst]) ls"
    using asm.emit_law [OF assms(1) bound(1)] by blast
  let ?E = "\<lambda>x u. \<exists>a'. x = Some a' \<and>
    asm_view a' (ws @ fst u) (ls @ shift_label (length ws) (snd u))"
  have If: "(c \<Longrightarrow> ?E x u) \<Longrightarrow> (\<not> c \<Longrightarrow> ?E y v) \<Longrightarrow> ?E (if c then x else y) (if c then u else v)"
    for c x y u v by simp
  note views = EmitLdrX17Branch_view [OF assms(1) bound(2)] EmitLdrLRBranch_view [OF assms]
  show ?thesis
    unfolding reloc_one_def chunk_def Let_def EmitLdrReg_def
    by (intro If) (simp_all add: shift_label_def views [simplified] inv [simplified] lit [simplified] one)
qed

section \<open>Layout of the image\<close>

type_synonym chunk_t = "u32 list \<times> (nat \<times> u64) option"

definition pos :: "chunk_t list \<Rightarrow> nat \<Rightarrow> nat" where
  "pos cs i = sum_list (map (length \<circ> fst) (take i cs))"

fun labels_of :: "nat \<Rightarrow> chunk_t list \<Rightarrow> (nat \<times> u64) list" where
  "labels_of p [] = []"
| "labels_of p (c # cs) = shift_label p (snd c) @ labels_of (p + length (fst c)) cs"

definition image_words :: "chunk_t list \<Rightarrow> u32 list" where
  "image_words cs = final_words (concat (map fst cs)) (labels_of 0 cs)"

text \<open>Chunk \<open>c\<close> sits at word \<open>p\<close> of the image: its words, with the literal load resolved.\<close>

definition chunk_in :: "u32 list \<Rightarrow> nat \<Rightarrow> chunk_t \<Rightarrow> bool" where
  "chunk_in ws p c \<longleftrightarrow> p + length (fst c) \<le> length ws \<and>
    (\<forall>j < length (fst c). (\<forall>v. snd c \<noteq> Some (j, v)) \<longrightarrow> ws ! (p + j) = fst c ! j) \<and>
    (\<forall>k v. snd c = Some (k, v) \<longrightarrow> lit_ok ws (p + k) v)"

lemma pos_simps [simp]:
  "pos cs 0 = 0" "pos (c # cs) (Suc i) = length (fst c) + pos cs i"
  by (simp_all add: pos_def)

lemma pos_Suc: "i < length cs \<Longrightarrow> pos cs (Suc i) = pos cs i + length (fst (cs ! i))"
  by (simp add: pos_def take_Suc_conv_app_nth)

lemma pos_le_total: "i \<le> length cs \<Longrightarrow> pos cs i \<le> length (concat (map fst cs))"
proof (induction cs arbitrary: i)
  case (Cons c cs)
  then show ?case by (cases i) auto
qed simp

lemma pos_next_le:
  "i < length cs \<Longrightarrow> pos cs i + length (fst (cs ! i)) \<le> length (concat (map fst cs))"
  using pos_le_total [of "Suc i" cs] by (simp add: pos_Suc)

lemma pos_strict: "i < i' \<Longrightarrow> i' \<le> length cs \<Longrightarrow> pos cs i + length (fst (cs ! i)) \<le> pos cs i'"
proof (induction cs arbitrary: i i')
  case (Cons c cs)
  then obtain j' where j': "i' = Suc j'" by (cases i') auto
  show ?case
  proof (cases i)
    case 0
    then show ?thesis by (simp add: j')
  next
    case (Suc j)
    with Cons show ?thesis by (simp add: j')
  qed
qed simp

lemma concat_nth_pos:
  "i < length cs \<Longrightarrow> j < length (fst (cs ! i)) \<Longrightarrow> concat (map fst cs) ! (pos cs i + j) = fst (cs ! i) ! j"
proof (induction cs arbitrary: i)
  case (Cons c cs)
  then show ?case by (cases i) (auto simp: nth_append)
qed simp

lemma ex_less_Suc_split:
  "(\<exists>i k. i < length (c # cs) \<and> P i k) \<longleftrightarrow> (\<exists>k. P 0 k) \<or> (\<exists>i k. i < length cs \<and> P (Suc i) k)"
  by (auto simp: less_Suc_eq_0_disj)

lemma labels_of_mem:
  "(q, v) \<in> set (labels_of p cs) \<longleftrightarrow>
    (\<exists>i k. i < length cs \<and> snd (cs ! i) = Some (k, v) \<and> q = p + pos cs i + k)"
proof (induction cs arbitrary: p)
  case Nil
  then show ?case by simp
next
  case (Cons c cs)
  have "(\<exists>i k. i < length (c # cs) \<and> snd ((c # cs) ! i) = Some (k, v) \<and> q = p + pos (c # cs) i + k) \<longleftrightarrow>
      (\<exists>k. snd c = Some (k, v) \<and> q = p + k) \<or>
      (\<exists>i k. i < length cs \<and> snd (cs ! i) = Some (k, v) \<and> q = p + length (fst c) + pos cs i + k)"
    unfolding ex_less_Suc_split by (simp add: add.assoc)
  moreover have "(q, v) \<in> set (shift_label p (snd c)) \<longleftrightarrow> (\<exists>k. snd c = Some (k, v) \<and> q = p + k)"
    by (auto simp: shift_label_def split: option.splits)
  ultimately show ?case by (simp add: Cons.IH)
qed

lemma labels_of_bounds:
  "list_all wf_chunk cs \<Longrightarrow> (q, v) \<in> set (labels_of p cs) \<Longrightarrow> p \<le> q \<and> q < p + length (concat (map fst cs))"
proof (induction cs arbitrary: p)
  case (Cons c cs)
  then consider "(q, v) \<in> set (shift_label p (snd c))" | "(q, v) \<in> set (labels_of (p + length (fst c)) cs)"
    by auto
  then show ?case
  proof cases
    case 1
    then show ?thesis using Cons.prems(1) by (auto simp: shift_label_def wf_chunk_def split: option.splits)
  next
    case 2
    then show ?thesis using Cons.IH [of "p + length (fst c)"] Cons.prems(1) by simp
  qed
qed simp

lemma labels_of_distinct: "list_all wf_chunk cs \<Longrightarrow> distinct (map fst (labels_of p cs))"
proof (induction cs arbitrary: p)
  case (Cons c cs)
  have "q \<notin> fst ` set (labels_of (p + length (fst c)) cs)" if "(q, v) \<in> set (shift_label p (snd c))" for q v
  proof -
    have "q < p + length (fst c)"
      using that Cons.prems by (auto simp: shift_label_def wf_chunk_def split: option.splits)
    moreover have "p + length (fst c) \<le> q'" if "q' \<in> fst ` set (labels_of (p + length (fst c)) cs)" for q'
      using that labels_of_bounds [of cs _ _ "p + length (fst c)"] Cons.prems by fastforce
    ultimately show ?thesis by fastforce
  qed
  with Cons show ?case by (fastforce simp: shift_label_def split: option.splits)
qed simp

lemma length_labels_of: "length (labels_of p cs) \<le> length cs"
  by (induction cs arbitrary: p)
    (auto simp: shift_label_def le_SucI split: option.splits)

lemma length_image:
  assumes "list_all wf_chunk cs"
  shows "length (concat (map fst cs)) + 2 * length (labels_of p cs) \<le> 5 * length cs"
  using assms
proof (induction cs arbitrary: p)
  case (Cons c cs)
  have "length (fst c) \<le> 3" using Cons.prems by (simp add: wf_chunk_def)
  moreover have "length (shift_label p (snd c)) \<le> 1" by (simp add: shift_label_def split: option.splits)
  moreover have "length (concat (map fst cs)) + 2 * length (labels_of (p + length (fst c)) cs) \<le> 5 * length cs"
    using Cons by simp
  ultimately show ?case by simp
qed simp

lemma chunk_in_image:
  assumes wf: "list_all wf_chunk cs" and i: "i < length cs" and len: "5 * length cs < 2 ^ 18"
  shows "chunk_in (image_words cs) (pos cs i) (cs ! i)"
proof -
  let ?ws = "concat (map fst cs)" and ?ls = "labels_of 0 cs" and ?W = "image_words cs"
  have pb: "pos cs i + length (fst (cs ! i)) \<le> length ?ws" using i by (rule pos_next_le)
  have bounds: "\<forall>(q, v) \<in> set ?ls. q < length ?ws" using labels_of_bounds [OF wf, of _ _ 0] by auto
  have "length ?ws \<le> length ?W"
    using length_pad_words(1) [of ?ws] by (simp add: image_words_def length_final_words)
  moreover have "?W ! (pos cs i + j) = fst (cs ! i) ! j"
    if j: "j < length (fst (cs ! i))" and no: "\<forall>v. snd (cs ! i) \<noteq> Some (j, v)" for j
  proof -
    have "pos cs i + j \<noteq> pos cs i' + k" if i': "i' < length cs" "snd (cs ! i') = Some (k, v)" for i' k v
    proof -
      have k: "k < length (fst (cs ! i'))"
        using wf i' by (auto simp: list_all_length wf_chunk_def split: option.splits)
      show ?thesis
      proof (cases i i' rule: linorder_cases)
        case less
        then show ?thesis using pos_strict [of i i' cs] i'(1) j by simp
      next
        case equal
        then show ?thesis using no i'(2) by auto
      next
        case greater
        then show ?thesis using pos_strict [of i' i cs] i k by simp
      qed
    qed
    then have "\<forall>v. (pos cs i + j, v) \<notin> set ?ls" unfolding labels_of_mem by (metis add_0)
    then have "pos cs i + j \<notin> fst ` set ?ls" by force
    with j pb show ?thesis
      by (simp add: image_words_def final_words_keep concat_nth_pos i)
  qed
  moreover have "lit_ok ?W (pos cs i + k) v" if "snd (cs ! i) = Some (k, v)" for k v
  proof -
    have "wf_chunk (cs ! i)" using wf i by (simp add: list_all_length)
    then have k: "k < length (fst (cs ! i))" "fst (cs ! i) ! k = ldr17"
      using that by (simp_all add: wf_chunk_def)
    have "(pos cs i + k, v) \<in> set ?ls" using that i by (auto simp: labels_of_mem)
    moreover have "?ws ! (pos cs i + k) = ldr17" using k i by (simp add: concat_nth_pos)
    moreover have "length ?ws + 2 * length ?ls < 2 ^ 18"
      using length_image [OF wf, of 0] len by linarith
    ultimately show ?thesis
      unfolding image_words_def using labels_of_distinct [OF wf] bounds by (intro final_words_lit) auto
  qed
  ultimately show ?thesis using pb by (simp add: chunk_in_def)
qed

text \<open>The chunks of the relocated prologue, ending with the jump back.\<close>

definition tail_chunk :: "u64 \<Rightarrow> chunk_t" where
  "tail_chunk ret = ([ldr17, br17], Some (0, ret))"

definition src_chunks :: "memory \<Rightarrow> u64 \<Rightarrow> nat \<Rightarrow> nat \<Rightarrow> chunk_t list" where
  "src_chunks m src i n =
    map (\<lambda>k. chunk (src + of_nat (4 * k)) (load32 m (src + of_nat (4 * k)))) [i..<i + n]"

definition reloc_chunks :: "memory \<Rightarrow> u64 \<Rightarrow> nat \<Rightarrow> chunk_t list" where
  "reloc_chunks m src n = src_chunks m src 0 n @ [tail_chunk (src + of_nat (4 * n))]"

lemma wf_reloc_chunks: "list_all wf_chunk (reloc_chunks m src n)"
  by (simp add: reloc_chunks_def src_chunks_def list_all_iff wf_chunk_chunk)
    (simp add: tail_chunk_def wf_chunk_def)

lemma length_reloc_chunks [simp]: "length (reloc_chunks m src n) = Suc n"
  by (simp add: reloc_chunks_def src_chunks_def)

lemma reloc_chunks_nth:
  "i < n \<Longrightarrow> reloc_chunks m src n ! i = chunk (src + of_nat (4 * i)) (load32 m (src + of_nat (4 * i)))"
  "reloc_chunks m src n ! n = tail_chunk (src + of_nat (4 * n))"
  by (simp_all add: reloc_chunks_def src_chunks_def nth_append)

lemma labels_of_append:
  "labels_of p (cs @ ds) = labels_of p cs @ labels_of (p + length (concat (map fst cs))) ds"
  by (induction cs arbitrary: p) (simp_all add: add.assoc)

lemma reloc_loop_view:
  assumes "asm_view a ws ls" "length ws + 3 * n < 2 ^ 29" "4 * (i + n) < 2 ^ 32"
  shows "\<exists>a'. reloc_loop n m src i (of_nat (4 * i)) a = Some (of_nat (4 * (i + n)), a') \<and>
    asm_view a' (ws @ concat (map fst (src_chunks m src i n)))
      (ls @ labels_of (length ws) (src_chunks m src i n))"
  using assms
proof (induction n arbitrary: a ws ls i)
  case 0
  then show ?case by (simp add: src_chunks_def)
next
  case (Suc n)
  let ?pc = "src + of_nat (4 * i)"
  let ?c = "chunk ?pc (load32 m ?pc)"
  have pc: "src + ucast (of_nat (4 * i) :: u32) = ?pc"
    using ucast_of_nat32 [of "4 * i"] Suc.prems(3) by simp
  have len: "length (fst ?c) \<le> 3" using wf_chunk_chunk by (simp add: wf_chunk_def)
  obtain a1 where a1: "reloc_one ?pc (load32 m ?pc) a = Some a1"
      "asm_view a1 (ws @ fst ?c) (ls @ shift_label (length ws) (snd ?c))"
    using reloc_one_view [OF Suc.prems(1)] Suc.prems(2) by auto
  have off: "of_nat (4 * i) + 4 = (of_nat (4 * Suc i) :: u32)" by simp
  have chunks: "src_chunks m src i (Suc n) = ?c # src_chunks m src (Suc i) n"
    by (simp add: src_chunks_def upt_conv_Cons del: upt_Suc)
  have "\<exists>a'. reloc_loop n m src (Suc i) (of_nat (4 * Suc i)) a1 = Some (of_nat (4 * (Suc i + n)), a') \<and>
    asm_view a' ((ws @ fst ?c) @ concat (map fst (src_chunks m src (Suc i) n)))
      ((ls @ shift_label (length ws) (snd ?c)) @ labels_of (length (ws @ fst ?c)) (src_chunks m src (Suc i) n))"
    using Suc.prems(2,3) len by (intro Suc.IH [OF a1(2)]) simp_all
  then obtain a2 where "reloc_loop n m src (Suc i) (of_nat (4 * Suc i)) a1 = Some (of_nat (4 * (Suc i + n)), a2)"
    "asm_view a2 (ws @ concat (map fst (src_chunks m src i (Suc n))))
      (ls @ labels_of (length ws) (src_chunks m src i (Suc n)))"
    unfolding chunks by auto
  then show ?case
    using a1(1) by (simp only: reloc_loop.simps Let_def pc off) simp
qed

section \<open>The result of relocation\<close>

definition reloc_image :: "memory \<Rightarrow> u64 \<Rightarrow> nat \<Rightarrow> u32 list" where
  "reloc_image m src n = image_words (reloc_chunks m src n)"

definition reloc_pos :: "memory \<Rightarrow> u64 \<Rightarrow> nat \<Rightarrow> nat \<Rightarrow> nat" where
  "reloc_pos m src n i = pos (reloc_chunks m src n) i"

lemma length_reloc_image: "length (reloc_image m src n) \<le> 5 * n + 5"
proof -
  let ?cs = "reloc_chunks m src n"
  let ?src = "src_chunks m src 0 n"
  let ?ws = "concat (map fst ?cs)" and ?ls = "labels_of 0 ?cs"
  have wf: "list_all wf_chunk ?src" using wf_reloc_chunks [of m src n] by (simp add: reloc_chunks_def)
  have "length ?ws + 2 * length ?ls = length (concat (map fst ?src)) + 2 * length (labels_of 0 ?src) + 4"
    by (simp add: reloc_chunks_def labels_of_append tail_chunk_def shift_label_def)
  also have "\<dots> \<le> 5 * n + 4" using length_image [OF wf, of 0] by (simp add: src_chunks_def)
  finally have "length ?ws + 2 * length ?ls \<le> 5 * n + 4" .
  then show ?thesis
    using length_pad_words(2) [of ?ws]
    by (simp add: reloc_image_def image_words_def length_final_words)
qed

lemma reloc_chunk_in:
  assumes "i \<le> n" "n < 49152"
  shows "chunk_in (reloc_image m src n) (reloc_pos m src n i) (reloc_chunks m src n ! i)"
  unfolding reloc_image_def reloc_pos_def
  using assms by (intro chunk_in_image wf_reloc_chunks) simp_all

lemma RelocateInstructions_image:
  assumes n: "unat min_bytes = 4 * n" "0 < n" "n < 49152"
  shows "\<exists>b. RelocateInstructions m src min_bytes dst =
      Some \<lparr>rbuffer = b, bytes_consumed = min_bytes, valid = True\<rparr> \<and> buf_words b (reloc_image m src n)"
proof -
  have mb: "min_bytes = of_nat (4 * n)" using n(1) by (metis of_nat_unat ucast_id)
  have ok: "min_bytes \<noteq> 0" "min_bytes mod 4 = 0" "unat (min_bytes div 4) = n"
    using n(1,2) by (auto simp: unat_div unat_mod word_unat_eq_iff)
  let ?cs = "src_chunks m src 0 n"
  have wf: "list_all wf_chunk ?cs" using wf_reloc_chunks [of m src n] by (simp add: reloc_chunks_def)
  have len: "length (concat (map fst ?cs)) + 2 * length (labels_of 0 ?cs) \<le> 5 * n"
    using length_image [OF wf, of 0] by (simp add: src_chunks_def)
  obtain a1 where a1: "reloc_loop n m src 0 0 Assembler_new = Some (min_bytes, a1)"
      "asm_view a1 (concat (map fst ?cs)) (labels_of 0 ?cs)"
    using reloc_loop_view [OF asm_view_new, of n 0 m src] n(3) mb by auto
  let ?ret = "src + ucast min_bytes"
  have ret: "?ret = src + of_nat (4 * n)" unfolding mb using ucast_of_nat32 [of "4 * n"] n(3) by simp
  obtain a2 where a2: "EmitLdrX17Branch ?ret a1 = Some a2"
      "asm_view a2 (concat (map fst (reloc_chunks m src n))) (labels_of 0 (reloc_chunks m src n))"
    using EmitLdrX17Branch_view [OF a1(2), of ?ret] len n(3)
    by (auto simp: reloc_chunks_def labels_of_append tail_chunk_def shift_label_def ret simp del: of_nat_mult)
  have "length (concat (map fst (reloc_chunks m src n))) + 2 * length (labels_of 0 (reloc_chunks m src n)) \<le> 5 * Suc n"
    using length_image [OF wf_reloc_chunks] by (metis length_reloc_chunks)
  then obtain a3 where a3: "Finalize a2 = Some a3" "asm_view a3 (reloc_image m src n) []"
    using asm.finish_law [OF a2(2)] n(3) by (auto simp: reloc_image_def image_words_def)
  show ?thesis
    unfolding RelocateInstructions_def Let_def
    using ok a1(1) a2(1) a3 by (simp add: CodeBuffer_move_def asm_view_def)
qed

end
