(* ===== verification/Relocation_Sim.thy ===== *)
theory Relocation_Sim
  imports Relocator
begin

text \<open>
  Correctness of relocated code in the reference semantics: the machine that executes the
  relocated image simulates, instruction by instruction, the machine that executes the
  original prologue. The two states agree on everything but the scratch register X17 and
  the memory that hooking itself rewrites (the set \<open>D\<close>).
\<close>

section \<open>The simulation relation\<close>

definition sim :: "u64 set \<Rightarrow> cpu \<Rightarrow> cpu \<Rightarrow> bool" where
  "sim D s t \<longleftrightarrow>
    (\<forall>r. r \<noteq> 17 \<longrightarrow> xreg s r = xreg t r) \<and> vreg s = vreg t \<and>
    psr_n s = psr_n t \<and> psr_z s = psr_z t \<and> psr_c s = psr_c t \<and> psr_v s = psr_v t \<and>
    (\<forall>a. a \<notin> D \<longrightarrow> cmem s a = cmem t a)"

text \<open>Matching states after one original instruction: where the original falls through to the next
  instruction the copy is at \<open>q\<close>, where it goes elsewhere the copy is at the same address.
  Neither has written to \<open>D\<close>.\<close>

definition matched :: "u64 set \<Rightarrow> u64 \<Rightarrow> cpu \<Rightarrow> cpu \<Rightarrow> cpu \<Rightarrow> cpu \<Rightarrow> bool" where
  "matched D q s t s' t' \<longleftrightarrow>
    sim D s' t' \<and> pcr t' = (if pcr s' = pcr s + 4 then q else pcr s') \<and>
    (\<forall>a \<in> D. cmem s' a = cmem s a \<and> cmem t' a = cmem t a)"

text \<open>What the instruction that the original machine executes in \<open>s\<close> has to satisfy. It does not read
  the scratch register, does not read the rewritten memory, does not branch to its own successor,
  does not link (see \<open>relocated_call\<close> for BL), and is not one of the forms the relocator
  mistreats: B.AL and B.NV, LDRSW and the SIMD literal loads. An instruction outside the subset
  behaves alike at both addresses.\<close>

definition other_ok :: "(u32 \<Rightarrow> cpu \<Rightarrow> cpu) \<Rightarrow> u64 set \<Rightarrow> u32 \<Rightarrow> cpu \<Rightarrow> bool" where
  "other_ok oth D w s \<longleftrightarrow> (\<forall>t. sim D s t \<longrightarrow> matched D (pcr t + 4) s t (oth w s) (oth w t))"

fun insn_ok :: "(u32 \<Rightarrow> cpu \<Rightarrow> cpu) \<Rightarrow> u64 set \<Rightarrow> cpu \<Rightarrow> a64_inst \<Rightarrow> bool" where
  "insn_ok oth D s (IB off) = (rel_pc s off \<noteq> pcr s + 4)"
| "insn_ok oth D s (IBL off) = False"
| "insn_ok oth D s (IBLR r) = False"
| "insn_ok oth D s (IBCond c off) = (c < 14 \<and> rel_pc s off \<noteq> pcr s + 4)"
| "insn_ok oth D s (ICBZ sf r off) = (r \<noteq> 17 \<and> rel_pc s off \<noteq> pcr s + 4)"
| "insn_ok oth D s (ICBNZ sf r off) = (r \<noteq> 17 \<and> rel_pc s off \<noteq> pcr s + 4)"
| "insn_ok oth D s (ITBZ b r off) = (r \<noteq> 17 \<and> rel_pc s off \<noteq> pcr s + 4)"
| "insn_ok oth D s (ITBNZ b r off) = (r \<noteq> 17 \<and> rel_pc s off \<noteq> pcr s + 4)"
| "insn_ok oth D s (ILdrLitW r off) = (block (rel_pc s off) 4 \<inter> D = {})"
| "insn_ok oth D s (ILdrLitX r off) = (block (rel_pc s off) 8 \<inter> D = {})"
| "insn_ok oth D s (ILdrswLit r off) = False"
| "insn_ok oth D s (ILdrLitS r off) = False"
| "insn_ok oth D s (ILdrLitD r off) = False"
| "insn_ok oth D s (ILdrLitQ r off) = False"
| "insn_ok oth D s (IBR r) = (r \<noteq> 17 \<and> xget s r \<noteq> pcr s + 4)"
| "insn_ok oth D s (ILdrW r n imm) = (n \<noteq> 17 \<and> block (xget s n + of_nat imm) 4 \<inter> D = {})"
| "insn_ok oth D s (ILdrX r n imm) = (n \<noteq> 17 \<and> block (xget s n + of_nat imm) 8 \<inter> D = {})"
| "insn_ok oth D s (IAddImm d n imm) = (n \<noteq> 17)"
| "insn_ok oth D s (IMovReg d m) = (m \<noteq> 17)"
| "insn_ok oth D s (Other w) = other_ok oth D w s"
| "insn_ok oth D s i = True"

section \<open>Reading through the relation\<close>

lemma sim_xget: "sim D s t \<Longrightarrow> r \<noteq> 17 \<Longrightarrow> xget s r = xget t r"
  by (simp add: sim_def xget_def)

lemma sim_cond: "sim D s t \<Longrightarrow> cond_holds c s = cond_holds c t"
  by (simp add: sim_def cond_holds_def)

lemma sim_zero: "sim D s t \<Longrightarrow> r \<noteq> 17 \<Longrightarrow> reg_is_zero sf r s = reg_is_zero sf r t"
  by (simp add: sim_xget reg_is_zero_def)

lemma sim_load32:
  assumes "sim D s t" "block a 4 \<inter> D = {}"
  shows "load32 (cmem s) a = load32 (cmem t) a"
proof -
  have "a + of_nat k \<in> block a 4" if "k < 4" for k
    using that by (simp add: block_def unat_of_nat64)
  from this [of 0] this [of 1] this [of 2] this [of 3]
  have "a \<notin> D" "a + 1 \<notin> D" "a + 2 \<notin> D" "a + 3 \<notin> D" using assms(2) by auto
  then show ?thesis using assms(1) by (simp add: sim_def load32_def)
qed

lemma sim_load64:
  assumes "sim D s t" "block a 8 \<inter> D = {}"
  shows "load64 (cmem s) a = load64 (cmem t) a"
proof -
  have sub: "block a 4 \<subseteq> block a 8" by (auto simp: block_def)
  have "x \<in> block a 8" if "x \<in> block (a + 4) 4" for x
  proof -
    have "x - a = (x - (a + 4)) + 4" by simp
    moreover have "unat (x - (a + 4)) < 4" using that by (simp add: block_def)
    ultimately have "unat (x - a) = unat (x - (a + 4)) + 4"
      using unat_add_lem [of "x - (a + 4)" 4] by simp
    then show ?thesis using that by (simp add: block_def)
  qed
  then have "block (a + 4) 4 \<inter> D = {}" "block a 4 \<inter> D = {}" using assms(2) sub by blast+
  then show ?thesis using sim_load32 [OF assms(1)] by (simp add: load64_def)
qed

lemma sim_goto [simp]: "sim D (goto a s) t = sim D s t" "sim D s (goto a t) = sim D s t"
  by (simp_all add: sim_def)

lemma sim_next_pc [simp]: "sim D (next_pc s) t = sim D s t" "sim D s (next_pc t) = sim D s t"
  by (simp_all add: sim_def)

lemma sim_scratch [simp]: "sim D s (xset 17 v t) = sim D s t"
  by (simp add: sim_def)

lemma sim_xset: "sim D s t \<Longrightarrow> sim D (xset r v s) (xset r v t)"
  by (simp add: sim_def)

section \<open>Instructions that are copied\<close>

lemma copied_step:
  assumes "sim D s t" "insn_ok oth D s i" "\<not> pc_relative i"
  shows "matched D (pcr t + 4) s t (a64_exec oth i s) (a64_exec oth i t)"
  using assms
  by (cases i)
    (simp_all add: matched_def pc_relative_def other_ok_def sim_xget [symmetric] sim_load32 sim_load64 sim_xset)

section \<open>Instructions that are rewritten\<close>

text \<open>Running the emitted sequences: literal load and use, and the inverted branch over a jump.\<close>

lemma run_lit_use:
  assumes "words_at (cmem t) base ws" "lit_ok ws p v" "p + 1 < length ws" "ws ! (p + 1) = w"
    "pcr t = base + of_nat (4 * p)"
  shows "a64_run oth 2 t = a64_exec oth (a64_decode w) (next_pc (xset 17 v t))"
proof -
  let ?t = "next_pc (xset 17 v t)"
  have "a64_step oth t = ?t" using assms by (intro step_literal)
  moreover have "a64_step oth ?t = a64_exec oth (a64_decode w) ?t"
    using assms a64_step_word [of ?t base ws "p + 1" oth] by (simp add: algebra_simps)
  ultimately show ?thesis by (simp add: numeral_2_eq_2)
qed

lemma goto_next_pc [simp]: "goto a (next_pc s) = goto a s"
  by (simp add: next_pc_def goto_def)

lemma run_jump:
  assumes "words_at (cmem t) base ws" "lit_ok ws p v" "p + 1 < length ws" "ws ! (p + 1) = br17"
    "pcr t = base + of_nat (4 * p)"
  shows "a64_run oth 2 t = goto v (xset 17 v t)"
  using run_lit_use [OF assms(1-4) assms(5), of oth] decode_emit_BR17
  by (simp add: kRegX17_def)

lemma run_skip:
  assumes "words_at (cmem t) base ws" "p < length ws" "pcr t = base + of_nat (4 * p)"
    "lit_ok ws (p + 1) v" "p + 2 < length ws" "ws ! (p + 2) = br17"
    "a64_exec oth (a64_decode (ws ! p)) t = (if taken then next_pc t else goto (pcr t + 12) t)"
  shows "\<exists>k. a64_run oth k t = (if taken then goto v (xset 17 v (next_pc t)) else goto (pcr t + 12) t)"
proof (cases taken)
  case True
  have "a64_step oth t = next_pc t" using assms True a64_step_word [of t base ws p oth] by simp
  moreover have "a64_run oth 2 (next_pc t) = goto v (xset 17 v (next_pc t))"
    using assms by (intro run_jump [of _ base ws "p + 1"]) (simp_all add: algebra_simps)
  ultimately have "a64_run oth 3 t = goto v (xset 17 v (next_pc t))" by (simp add: numeral_3_eq_3 numeral_2_eq_2)
  with True show ?thesis by auto
next
  case False
  have "a64_run oth 1 t = goto (pcr t + 12) t" using assms False a64_step_word [of t base ws p oth] by simp
  with False show ?thesis by (intro exI [of _ 1]) simp
qed

text \<open>The machine \<open>t\<close> stands at chunk \<open>c\<close> of the image.\<close>

definition at_chunk :: "u64 \<Rightarrow> u32 list \<Rightarrow> nat \<Rightarrow> chunk_t \<Rightarrow> cpu \<Rightarrow> bool" where
  "at_chunk base ws p c t \<longleftrightarrow>
    words_at (cmem t) base ws \<and> chunk_in ws p c \<and> pcr t = base + of_nat (4 * p)"

lemma at_jump:
  assumes "at_chunk base ws p ([ldr17, br17], Some (0, v)) t"
  shows "a64_run oth 2 t = goto v (xset 17 v t)"
  using assms by (intro run_jump [of t base ws p]) (auto simp: at_chunk_def chunk_in_def)

lemma at_use:
  assumes "at_chunk base ws p ([ldr17, w], Some (0, v)) t"
  shows "a64_run oth 2 t = a64_exec oth (a64_decode w) (next_pc (xset 17 v t))"
  using assms by (intro run_lit_use [of t base ws p]) (auto simp: at_chunk_def chunk_in_def)

lemma at_skip:
  assumes "at_chunk base ws p ([w, ldr17, br17], Some (1, v)) t"
    "a64_exec oth (a64_decode w) t = (if taken then next_pc t else goto (pcr t + 12) t)"
  shows "\<exists>k. a64_run oth k t = (if taken then goto v (xset 17 v (next_pc t)) else goto (pcr t + 12) t)"
proof -
  have "ws ! p = w" "ws ! (p + 2) = br17" "lit_ok ws (p + 1) v" "p + 2 < length ws" "p < length ws"
    using assms(1) by (auto simp: at_chunk_def chunk_in_def less_Suc_eq numeral_3_eq_3 numeral_2_eq_2 all_conj_distrib)
  then show ?thesis
    using assms by (intro run_skip [of t base ws p]) (simp_all add: at_chunk_def)
qed

lemma at_copy:
  assumes "at_chunk base ws p ([w], None) t"
  shows "a64_run oth 1 t = a64_exec oth (a64_decode w) t"
  using assms a64_step_word [of t base ws p oth] by (simp add: at_chunk_def chunk_in_def)

section \<open>One instruction\<close>

lemma LdrLiteral_cases:
  assumes "IsLdrLiteral w"
  shows "Bits w 31 30 = 1 \<Longrightarrow> fld 31 24 w = 88 \<or> a64_decode w = ILdrLitD (fld 4 0 w) (sfld 23 5 w * 4)"
    and "Bits w 31 30 = 0 \<Longrightarrow> fld 31 24 w = 24 \<or> a64_decode w = ILdrLitS (fld 4 0 w) (sfld 23 5 w * 4)"
  using assms
  by (cases "bit w 26"; simp add: a64_decode_def IsLdrLiteral_def fld_blast Bits_eq word32_eq_iff all_less_32 bit_simps)+

lemma LdrLiteral_excl:
  assumes "IsLdrLiteral w"
  shows "\<not> IsB w" "\<not> IsBL w" "\<not> IsBCond w" "\<not> IsCBZ w" "\<not> IsCBNZ w" "\<not> IsTBZ w" "\<not> IsTBNZ w"
    "\<not> IsADR w" "\<not> IsADRP w"
proof -
  have bits: "\<not> bit w 29" "bit w 28" "bit w 27" "\<not> bit w 25" "\<not> bit w 24"
    using assms by (simp_all add: IsLdrLiteral_def opcode_defs word32_eq_iff all_less_32 bit_simps)
  then show "\<not> IsB w" "\<not> IsBL w" "\<not> IsBCond w" "\<not> IsCBZ w" "\<not> IsCBNZ w" "\<not> IsTBZ w" "\<not> IsTBNZ w"
    "\<not> IsADR w" "\<not> IsADRP w"
    by (simp_all add: class_defs opcode_defs word32_eq_iff all_less_32 bit_simps)
qed

lemma BCond_excl: "IsBCond w \<Longrightarrow> \<not> IsB w \<and> \<not> IsBL w"
  by (simp add: class_defs opcode_defs word32_eq_iff all_less_32 bit_simps)

lemma LdrLiteral_copied:
  assumes "IsLdrLiteral w" "Bits w 31 30 \<noteq> 1" "Bits w 31 30 \<noteq> 0" "insn_ok oth D s (a64_decode w)"
  shows "\<not> pc_relative (a64_decode w) \<or> (\<exists>off. a64_decode w = IPrfmLit off)"
proof -
  have opc: "bit w 31"
    using assms(2,3) by (auto simp: Bits_eq word32_eq_iff all_less_32 bit_simps)
  note cls = LdrLiteral_excl [OF assms(1), unfolded class_B class_BL class_BCond class_CBZ class_CBNZ class_TBZ class_TBNZ class_ADR class_ADRP]
  have top: "fld 31 24 w \<noteq> 24" "fld 31 24 w \<noteq> 88" "fld 31 24 w \<noteq> 28" "fld 31 24 w \<noteq> 92"
    using opc by (simp_all add: fld_blast)
  consider "fld 31 24 w = 152" | "fld 31 24 w = 216" | "fld 31 24 w = 156"
    | "fld 31 24 w \<noteq> 152" "fld 31 24 w \<noteq> 216" "fld 31 24 w \<noteq> 156" by blast
  then show ?thesis
  proof cases
    case 4
    then have "\<not> pc_relative (a64_decode w)"
      using top cls unfolding a64_decode_def by (simp add: pc_relative_def)
    then show ?thesis by simp
  qed (use assms(4) cls in \<open>simp_all add: a64_decode_def\<close>)
qed

lemma matched_jump:
  assumes "sim D s t" "at_chunk base ws p ([ldr17, br17], Some (0, v)) t" "v \<noteq> pcr s + 4"
  shows "\<exists>k. matched D q s t (goto v s) (a64_run oth k t)"
  using assms by (intro exI [of _ 2]) (simp add: at_jump matched_def)

lemma matched_skip:
  assumes "sim D s t" "at_chunk base ws p ([w, ldr17, br17], Some (1, v)) t"
    "a64_exec oth (a64_decode w) t = (if taken then next_pc t else goto (pcr t + 12) t)"
    "s' = (if taken then goto v s else next_pc s)" "v \<noteq> pcr s + 4"
  shows "\<exists>k. matched D (pcr t + 12) s t s' (a64_run oth k t)"
proof -
  obtain k where "a64_run oth k t = (if taken then goto v (xset 17 v (next_pc t)) else goto (pcr t + 12) t)"
    using at_skip [OF assms(2,3)] by blast
  with assms(1,5) show ?thesis unfolding assms(4) by (intro exI [of _ k]) (simp add: matched_def)
qed

lemma matched_mov:
  assumes "sim D s t" "at_chunk base ws p ([ldr17, 0xAA0003E0 OR push_bit 16 kRegX17 OR Bits w 4 0], Some (0, v)) t"
  shows "\<exists>k. matched D (pcr t + 8) s t (next_pc (xset (fld 4 0 w) v s)) (a64_run oth k t)"
proof -
  have "a64_run oth 2 t = next_pc (xset (fld 4 0 w) v (next_pc (xset 17 v t)))"
    using at_use [OF assms(2), of oth] decode_emit_Mov [of w] by (simp add: kRegX17_def)
  then show ?thesis using assms(1) by (intro exI [of _ 2]) (simp add: matched_def sim_xset)
qed

lemma matched_ldrX:
  assumes "sim D s t" "at_chunk base ws p ([ldr17, 0xF9400200 OR push_bit 5 kRegX17 OR Bits w 4 0], Some (0, a)) t"
    "block a 8 \<inter> D = {}"
  shows "\<exists>k. matched D (pcr t + 8) s t (next_pc (xset (fld 4 0 w) (load64 (cmem s) a) s)) (a64_run oth k t)"
proof -
  have "a64_run oth 2 t = next_pc (xset (fld 4 0 w) (load64 (cmem s) a) (next_pc (xset 17 a t)))"
    using at_use [OF assms(2), of oth] decode_emit_LdrX [of w] sim_load64 [OF assms(1,3)] by (simp add: kRegX17_def)
  then show ?thesis using assms(1) by (intro exI [of _ 2]) (simp add: matched_def sim_xset)
qed

lemma matched_ldrW:
  assumes "sim D s t" "at_chunk base ws p ([ldr17, 0xB9400200 OR push_bit 5 kRegX17 OR Bits w 4 0], Some (0, a)) t"
    "block a 4 \<inter> D = {}"
  shows "\<exists>k. matched D (pcr t + 8) s t (next_pc (xset (fld 4 0 w) (ucast (load32 (cmem s) a)) s)) (a64_run oth k t)"
proof -
  have "a64_run oth 2 t = next_pc (xset (fld 4 0 w) (ucast (load32 (cmem s) a)) (next_pc (xset 17 a t)))"
    using at_use [OF assms(2), of oth] decode_emit_LdrW [of w] sim_load32 [OF assms(1,3)] by (simp add: kRegX17_def)
  then show ?thesis using assms(1) by (intro exI [of _ 2]) (simp add: matched_def sim_xset)
qed

lemma matched_copy:
  assumes "sim D s t" "at_chunk base ws p ([w], None) t" "insn_ok oth D s (a64_decode w)"
    "\<not> pc_relative (a64_decode w) \<or> (\<exists>off. a64_decode w = IPrfmLit off)"
  shows "\<exists>k. matched D (pcr t + 4) s t (a64_exec oth (a64_decode w) s) (a64_run oth k t)"
proof -
  have "matched D (pcr t + 4) s t (a64_exec oth (a64_decode w) s) (a64_exec oth (a64_decode w) t)"
    using assms(4)
  proof
    assume "\<not> pc_relative (a64_decode w)"
    then show ?thesis using assms(1,3) by (intro copied_step)
  next
    assume "\<exists>off. a64_decode w = IPrfmLit off"
    then show ?thesis using assms(1) by (auto simp: matched_def)
  qed
  then show ?thesis using at_copy [OF assms(2), of oth] by metis
qed

lemma InvertCond_holds:
  assumes "unat c < 14"
  shows "cond_holds (unat (InvertCond c)) t = (\<not> cond_holds (unat c) t)"
proof -
  obtain k where k: "unat c = k" "c = of_nat k" "k < 14" using assms by (metis of_nat_unat ucast_id)
  from k(3) have "k = 0 \<or> k = 1 \<or> k = 2 \<or> k = 3 \<or> k = 4 \<or> k = 5 \<or> k = 6 \<or> k = 7 \<or>
    k = 8 \<or> k = 9 \<or> k = 10 \<or> k = 11 \<or> k = 12 \<or> k = 13" by presburger
  then show ?thesis by (elim disjE) (simp_all add: k(2) InvertCond_def cond_holds_def)
qed

lemma chunk_step_BCond:
  assumes sim: "sim D s t" and ok: "insn_ok oth D s (a64_decode w)"
    and c: "at_chunk base ws p (chunk (pcr s) w) t"
    and BCond: "\<not> IsB w" "\<not> IsBL w" "IsBCond w"
  shows "\<exists>k. matched D (pcr t + of_nat (4 * length (fst (chunk (pcr s) w)))) s t
    (a64_exec oth (a64_decode w) s) (a64_run oth k t)"
proof -
  from BCond have ch: "chunk (pcr s) w = ([kOpBCond OR push_bit 5 3 OR InvertCond (CondFromBCond w), ldr17, br17],
      Some (1, rel_pc s (DecodeImm19 w)))"
    and d: "a64_decode w = IBCond (fld 3 0 w) (DecodeImm19 w)"
    by (simp_all add: chunk_def rel_pc_def decode_BCond)
  have "cond_holds (unat (InvertCond (CondFromBCond w))) t = (\<not> cond_holds (fld 3 0 w) s)"
    using InvertCond_holds [of "CondFromBCond w" t] ok sim_cond [OF sim]
    by (simp add: d CondFromBCond_eq unat_Bits)
  then show ?thesis
    using matched_skip [OF sim c [unfolded ch], of oth "cond_holds (fld 3 0 w) s"] ok
    by (simp add: ch d decode_emit_BCond [simplified] rel_pc_def)
qed

lemma chunk_step_CB:
  assumes sim: "sim D s t" and ok: "insn_ok oth D s (a64_decode w)"
    and c: "at_chunk base ws p (chunk (pcr s) w) t"
    and CB: "\<not> IsB w" "\<not> IsBL w" "\<not> IsBCond w" "IsCBZ w \<or> IsCBNZ w"
  shows "\<exists>k. matched D (pcr t + of_nat (4 * length (fst (chunk (pcr s) w)))) s t
    (a64_exec oth (a64_decode w) s) (a64_run oth k t)"
proof -
  from CB have ch: "chunk (pcr s) w = ([(w XOR push_bit 24 1) AND NOT 0x00FFFFE0 OR push_bit 5 3, ldr17, br17],
      Some (1, rel_pc s (DecodeCompImm19 w)))"
    by (simp add: chunk_def rel_pc_def)
  from CB(4) show ?thesis
  proof
    assume w: "IsCBZ w"
    then show ?thesis
      using matched_skip [OF sim c [unfolded ch], of oth "reg_is_zero (bit w 31) (fld 4 0 w) s"] ok
        sim_zero [OF sim, of "fld 4 0 w" "bit w 31"]
      by (simp add: ch decode_CBZ decode_inv_CBZ [simplified] rel_pc_def)
  next
    assume w: "IsCBNZ w"
    then show ?thesis
      using matched_skip [OF sim c [unfolded ch], of oth "\<not> reg_is_zero (bit w 31) (fld 4 0 w) s"] ok
        sim_zero [OF sim, of "fld 4 0 w" "bit w 31"]
      by (simp add: ch decode_CBNZ decode_inv_CBNZ [simplified] rel_pc_def)
  qed
qed

lemma chunk_step_TB:
  assumes sim: "sim D s t" and ok: "insn_ok oth D s (a64_decode w)"
    and c: "at_chunk base ws p (chunk (pcr s) w) t"
    and TB: "\<not> IsB w" "\<not> IsBL w" "\<not> IsBCond w" "\<not> (IsCBZ w \<or> IsCBNZ w)" "IsTBZ w \<or> IsTBNZ w"
  shows "\<exists>k. matched D (pcr t + of_nat (4 * length (fst (chunk (pcr s) w)))) s t
    (a64_exec oth (a64_decode w) s) (a64_run oth k t)"
proof -
  let ?b = "32 * of_bool (bit w 31) + fld 23 19 w"
  from TB have ch: "chunk (pcr s) w = ([(w XOR push_bit 24 1) AND NOT 0x0007FFE0 OR push_bit 5 3, ldr17, br17],
      Some (1, rel_pc s (DecodeImm14 w)))"
    by (simp add: chunk_def rel_pc_def)
  from TB(5) show ?thesis
  proof
    assume w: "IsTBZ w"
    then show ?thesis
      using matched_skip [OF sim c [unfolded ch], of oth "\<not> bit (xget s (fld 4 0 w)) ?b"] ok
        sim_xget [OF sim, of "fld 4 0 w"]
      by (simp add: ch decode_TBZ decode_inv_TBZ [simplified] rel_pc_def)
  next
    assume w: "IsTBNZ w"
    then show ?thesis
      using matched_skip [OF sim c [unfolded ch], of oth "bit (xget s (fld 4 0 w)) ?b"] ok
        sim_xget [OF sim, of "fld 4 0 w"]
      by (simp add: ch decode_TBNZ decode_inv_TBNZ [simplified] rel_pc_def)
  qed
qed

lemma chunk_step_Lit:
  assumes sim: "sim D s t" and ok: "insn_ok oth D s (a64_decode w)"
    and c: "at_chunk base ws p (chunk (pcr s) w) t"
    and Lit: "\<not> IsB w" "\<not> IsBL w" "\<not> IsBCond w" "\<not> (IsCBZ w \<or> IsCBNZ w)"
      "\<not> (IsTBZ w \<or> IsTBNZ w)" "IsLdrLiteral w"
  shows "\<exists>k. matched D (pcr t + of_nat (4 * length (fst (chunk (pcr s) w)))) s t
    (a64_exec oth (a64_decode w) s) (a64_run oth k t)"
proof -
  consider (X) "Bits w 31 30 = 1" | (W) "Bits w 31 30 = 0" | (V) "Bits w 31 30 \<noteq> 1" "Bits w 31 30 \<noteq> 0" by blast
  then show ?thesis
  proof cases
    case X
    then have d: "a64_decode w = ILdrLitX (fld 4 0 w) (DecodeLdrLitImm19 w)"
      using LdrLiteral_cases(1) [OF Lit(6)] ok decode_LdrLitX by auto
    with Lit X show ?thesis
      using matched_ldrX [OF sim, of base ws p w "rel_pc s (DecodeLdrLitImm19 w)"] c ok
      by (simp add: chunk_def rel_pc_def GetRt_def)
  next
    case W
    then have d: "a64_decode w = ILdrLitW (fld 4 0 w) (DecodeLdrLitImm19 w)"
      using LdrLiteral_cases(2) [OF Lit(6)] ok decode_LdrLitW by auto
    with Lit W show ?thesis
      using matched_ldrW [OF sim, of base ws p w "rel_pc s (DecodeLdrLitImm19 w)"] c ok
      by (simp add: chunk_def rel_pc_def GetRt_def)
  next
    case V
    with Lit show ?thesis
      using matched_copy [OF sim, of base ws p w] c ok LdrLiteral_copied [OF Lit(6) V ok]
      by (simp add: chunk_def)
  qed
qed

lemma chunk_step:
  assumes sim: "sim D s t" and ok: "insn_ok oth D s (a64_decode w)"
    and c: "at_chunk base ws p (chunk (pcr s) w) t"
  shows "\<exists>k. matched D (pcr t + of_nat (4 * length (fst (chunk (pcr s) w)))) s t
    (a64_exec oth (a64_decode w) s) (a64_run oth k t)"
proof -
  consider (B) "IsB w" | (BL) "\<not> IsB w" "IsBL w" | (BCond) "\<not> IsB w" "\<not> IsBL w" "IsBCond w"
    | (CB) "\<not> IsB w" "\<not> IsBL w" "\<not> IsBCond w" "IsCBZ w \<or> IsCBNZ w"
    | (TB) "\<not> IsB w" "\<not> IsBL w" "\<not> IsBCond w" "\<not> (IsCBZ w \<or> IsCBNZ w)" "IsTBZ w \<or> IsTBNZ w"
    | (Lit) "\<not> IsB w" "\<not> IsBL w" "\<not> IsBCond w" "\<not> (IsCBZ w \<or> IsCBNZ w)" "\<not> (IsTBZ w \<or> IsTBNZ w)"
        "IsLdrLiteral w"
    | (Adr) "\<not> IsB w" "\<not> IsBL w" "\<not> IsBCond w" "\<not> (IsCBZ w \<or> IsCBNZ w)" "\<not> (IsTBZ w \<or> IsTBNZ w)"
        "\<not> IsLdrLiteral w" "IsADR w"
    | (Adrp) "\<not> IsB w" "\<not> IsBL w" "\<not> IsBCond w" "\<not> (IsCBZ w \<or> IsCBNZ w)" "\<not> (IsTBZ w \<or> IsTBNZ w)"
        "\<not> IsLdrLiteral w" "\<not> IsADR w" "IsADRP w"
    | (Rest) "\<not> relocation_class w"
    unfolding relocation_class_def by blast
  then show ?thesis
  proof cases
    case B
    then show ?thesis
      using matched_jump [OF sim, of base ws p "rel_pc s (DecodeImm26 w)"] c ok
      by (simp add: chunk_def decode_B rel_pc_def)
  next
    case BL
    then show ?thesis using ok by (simp add: decode_BL)
  next
    case BCond
    then show ?thesis using chunk_step_BCond [OF sim ok c] by simp
  next
    case CB
    then show ?thesis using chunk_step_CB [OF sim ok c] by simp
  next
    case TB
    then show ?thesis using chunk_step_TB [OF sim ok c] by simp
  next
    case Lit
    then show ?thesis using chunk_step_Lit [OF sim ok c] by simp
  next
    case Adr
    then show ?thesis
      using matched_mov [OF sim, of base ws p w "rel_pc s (DecodeAdrImm w)"] c
      by (simp add: chunk_def decode_ADR rel_pc_def GetRd_def)
  next
    case Adrp
    then show ?thesis
      using matched_mov [OF sim, of base ws p w] c
      by (simp add: chunk_def decode_ADRP GetRd_def)
  next
    case Rest
    then have ch: "chunk (pcr s) w = ([w], None)" by (simp add: chunk_def relocation_class_def)
    have "\<not> pc_relative (a64_decode w)" using pc_relative_class Rest by blast
    then show ?thesis using matched_copy [OF sim c [unfolded ch] ok] by (simp add: ch)
  qed
qed

section \<open>The whole prologue\<close>

text \<open>The original runs in a straight line up to instruction \<open>j\<close> of the prologue, every instruction
  on the way satisfying \<open>insn_ok\<close>.\<close>

definition straight :: "(u32 \<Rightarrow> cpu \<Rightarrow> cpu) \<Rightarrow> u64 set \<Rightarrow> memory \<Rightarrow> u64 \<Rightarrow> nat \<Rightarrow> cpu \<Rightarrow> bool" where
  "straight oth D m src j s \<longleftrightarrow>
    (\<forall>i \<le> j. pcr (a64_run oth i s) = src + of_nat (4 * i) \<and>
      insn_ok oth D (a64_run oth i s) (a64_decode (load32 m (src + of_nat (4 * i)))))"

text \<open>Hooking rewrites \<open>D\<close>, which holds the prologue and the image.\<close>

definition covers :: "u64 set \<Rightarrow> u64 \<Rightarrow> nat \<Rightarrow> bool" where
  "covers D a n \<longleftrightarrow> (\<forall>i < n. a + of_nat i \<in> D)"

lemma load32_cong:
  assumes "covers D a (4 * n)" "\<forall>x \<in> D. m x = m' x" "i < n"
  shows "load32 m (a + of_nat (4 * i)) = load32 m' (a + of_nat (4 * i))"
proof -
  have "a + of_nat (4 * i + k) \<in> D" if "k < 4" for k
    using assms(1,3) that by (simp add: covers_def del: of_nat_add of_nat_mult)
  from this [of 0] this [of 1] this [of 2] this [of 3]
  show ?thesis using assms(2) by (simp add: load32_def algebra_simps)
qed

lemma words_at_cong:
  assumes "covers D a (4 * length ws)" "\<forall>x \<in> D. m x = m' x" "words_at m a ws"
  shows "words_at m' a ws"
  using assms load32_cong [OF assms(1,2)] by (simp add: words_at_def)

lemma a64_run_Suc: "a64_run oth (Suc i) s = a64_step oth (a64_run oth i s)"
  using a64_run_add [of oth i 1 s] by simp

lemma prologue_step:
  assumes img: "words_at (cmem t) base (reloc_image m src n)" and n: "i < n" "n < 49152"
    and sim: "sim D s t" and pc: "pcr s = src + of_nat (4 * i)" "pcr t = base + of_nat (4 * reloc_pos m src n i)"
    and code: "load32 (cmem s) (src + of_nat (4 * i)) = load32 m (src + of_nat (4 * i))"
    and ok: "insn_ok oth D s (a64_decode (load32 m (src + of_nat (4 * i))))"
  shows "\<exists>k. matched D (base + of_nat (4 * reloc_pos m src n (Suc i))) s t (a64_step oth s) (a64_run oth k t)"
proof -
  let ?w = "load32 m (src + of_nat (4 * i))"
  have nth: "reloc_chunks m src n ! i = chunk (pcr s) ?w" using n(1) by (simp add: reloc_chunks_nth pc(1))
  have "at_chunk base (reloc_image m src n) (reloc_pos m src n i) (chunk (pcr s) ?w) t"
    using img pc(2) reloc_chunk_in [of i n m src] n by (simp add: at_chunk_def nth)
  then obtain k where "matched D (pcr t + of_nat (4 * length (fst (chunk (pcr s) ?w)))) s t
      (a64_exec oth (a64_decode ?w) s) (a64_run oth k t)"
    using chunk_step [OF sim ok] by blast
  moreover have "pcr t + of_nat (4 * length (fst (chunk (pcr s) ?w))) = base + of_nat (4 * reloc_pos m src n (Suc i))"
    using n(1) by (simp add: pc(2) reloc_pos_def pos_Suc nth algebra_simps)
  moreover have "a64_step oth s = a64_exec oth (a64_decode ?w) s" by (simp add: a64_step_def pc(1) code [simplified])
  ultimately show ?thesis by (intro exI [of _ k]) simp
qed

lemma prologue_run:
  assumes img: "words_at (cmem t) base (reloc_image m src n)" and n: "n < 49152"
    and D: "covers D src (4 * n)" "covers D base (4 * length (reloc_image m src n))"
    and sim: "sim D s t" and pc: "pcr t = base" and code: "\<forall>i < n. load32 (cmem s) (src + of_nat (4 * i)) = load32 m (src + of_nat (4 * i))"
    and j: "j < n" "straight oth D m src j s"
  shows "\<exists>k. matched D (base + of_nat (4 * reloc_pos m src n (Suc j))) (a64_run oth j s) t
      (a64_run oth (Suc j) s) (a64_run oth k t) \<and>
    (\<forall>a \<in> D. cmem (a64_run oth (Suc j) s) a = cmem s a)"
  using j
proof (induction j)
  case 0
  then have "insn_ok oth D s (a64_decode (load32 m (src + of_nat (4 * 0))))" "pcr s = src + of_nat (4 * 0)"
    by (simp_all add: straight_def)
  then obtain k where "matched D (base + of_nat (4 * reloc_pos m src n (Suc 0))) s t (a64_step oth s) (a64_run oth k t)"
    using prologue_step [OF img 0(1) n sim _ _ code [rule_format, OF 0(1)]] pc by (auto simp: reloc_pos_def)
  then show ?case by (intro exI [of _ k]) (simp add: matched_def)
next
  case (Suc j)
  let ?s = "a64_run oth (Suc j) s"
  have "straight oth D m src j s" using Suc.prems(2) by (simp add: straight_def)
  then obtain k where k: "matched D (base + of_nat (4 * reloc_pos m src n (Suc j))) (a64_run oth j s) t ?s (a64_run oth k t)"
    and mem: "\<forall>a \<in> D. cmem ?s a = cmem s a"
    using Suc.IH Suc.prems(1) by auto
  let ?t = "a64_run oth k t"
  have pcs: "pcr ?s = src + of_nat (4 * Suc j)" "pcr (a64_run oth j s) = src + of_nat (4 * j)"
    and ok: "insn_ok oth D ?s (a64_decode (load32 m (src + of_nat (4 * Suc j))))"
    using Suc.prems(2) by (simp_all only: straight_def)
  then have "pcr ?s = pcr (a64_run oth j s) + 4" by (simp add: algebra_simps del: a64_run.simps)
  then have t: "sim D ?s ?t" "pcr ?t = base + of_nat (4 * reloc_pos m src n (Suc j))" "\<forall>a \<in> D. cmem t a = cmem ?t a"
    using k by (simp_all add: matched_def del: a64_run.simps)
  have "words_at (cmem ?t) base (reloc_image m src n)" using words_at_cong [OF D(2) t(3) img] .
  moreover have "load32 (cmem ?s) (src + of_nat (4 * Suc j)) = load32 m (src + of_nat (4 * Suc j))"
    using load32_cong [OF D(1) mem Suc.prems(1)] code Suc.prems(1) by metis
  ultimately obtain k' where k': "matched D (base + of_nat (4 * reloc_pos m src n (Suc (Suc j)))) ?s ?t
      (a64_step oth ?s) (a64_run oth k' ?t)"
    using prologue_step [OF _ Suc.prems(1) n t(1) pcs(1) t(2) _ ok] by blast
  have "a64_run oth k' ?t = a64_run oth (k + k') t" by (simp add: a64_run_add)
  then show ?case
    using k' t(3) mem unfolding a64_run_Suc [of oth "Suc j"]
    by (intro exI [of _ "k + k'"]) (auto simp: matched_def simp del: a64_run.simps)
qed

lemma prologue_exit:
  assumes img: "words_at (cmem t) base (reloc_image m src n)" and n: "n < 49152"
    and D: "covers D src (4 * n)" "covers D base (4 * length (reloc_image m src n))"
    and sim: "sim D s t" and pc: "pcr t = base"
    and code: "\<forall>i < n. load32 (cmem s) (src + of_nat (4 * i)) = load32 m (src + of_nat (4 * i))"
    and j: "j < n" "straight oth D m src j s"
    and leaves: "Suc j = n \<or> pcr (a64_run oth (Suc j) s) \<noteq> src + of_nat (4 * Suc j)"
  shows "\<exists>k. sim D (a64_run oth (Suc j) s) (a64_run oth k t) \<and> pcr (a64_run oth k t) = pcr (a64_run oth (Suc j) s)"
proof -
  let ?s = "a64_run oth (Suc j) s"
  obtain k where k: "matched D (base + of_nat (4 * reloc_pos m src n (Suc j))) (a64_run oth j s) t ?s (a64_run oth k t)"
    using prologue_run [OF img n D sim pc code j] by blast
  let ?t = "a64_run oth k t"
  have pcj: "pcr (a64_run oth j s) + 4 = src + of_nat (4 * Suc j)"
    using j(2) by (simp add: straight_def algebra_simps)
  show ?thesis
  proof (cases "pcr ?s = src + of_nat (4 * Suc j)")
    case False
    then show ?thesis using k pcj by (intro exI [of _ k]) (simp only: matched_def if_False)
  next
    case True
    then have sn: "Suc j = n" using leaves by blast
    have t: "sim D ?s ?t" "pcr ?t = base + of_nat (4 * reloc_pos m src n n)" "\<forall>a \<in> D. cmem t a = cmem ?t a"
      using k True pcj sn by (simp_all add: matched_def del: a64_run.simps)
    have "at_chunk base (reloc_image m src n) (reloc_pos m src n n) ([ldr17, br17], Some (0, src + of_nat (4 * n))) ?t"
      using words_at_cong [OF D(2) t(3) img] t(2) reloc_chunk_in [of n n m src] n
      by (simp add: at_chunk_def reloc_chunks_nth tail_chunk_def)
    then have "a64_run oth (k + 2) t = goto (src + of_nat (4 * n)) (xset 17 (src + of_nat (4 * n)) ?t)"
      using at_jump by (simp only: a64_run_add)
    then show ?thesis using t(1) True sn by (intro exI [of _ "k + 2"]) (simp del: a64_run.simps)
  qed
qed

text \<open>A buffer returned by the relocator, placed at \<open>base\<close>, holds the image.\<close>

lemma relocated_words:
  assumes "RelocateInstructions m src min_bytes dst = Some r" "unat min_bytes = 4 * n" "0 < n" "n < 49152"
    "bytes_at (cmem t) base (data (rbuffer r))"
  shows "words_at (cmem t) base (reloc_image m src n)"
    and "length (data (rbuffer r)) = 4 * length (reloc_image m src n)"
  using RelocateInstructions_image [OF assms(2-4), of m src dst] assms(1,5)
  by (auto simp: buf_words_def words_at_bytes)

end
