(* ===== verification/Relocation_Correct.thy ===== *)
theory Relocation_Correct
  imports Relocation_Sim
begin

text \<open>
  The properties of the relocator: it returns for every prologue of bounded size, its output
  has a bounded size, the relocated prologue behaves like the original, calls return into
  the relocated code, and the instruction forms for which it does not hold.
\<close>

section \<open>Properties\<close>

lemma reloc_pos_0 [simp]: "reloc_pos m src n 0 = 0"
  by (simp add: reloc_pos_def)

text \<open>Claim C25 (the relocator returns): for a byte count that is zero or not a multiple of four it
  returns an invalid result; for every other count below 196608 its loops terminate, the result
  is valid, consumes exactly the bytes asked for, and fits 20 bytes per instruction plus 20.\<close>

theorem RelocateInstructions_returns:
  assumes "unat min_bytes < 196608"
  shows "\<exists>r. RelocateInstructions m src min_bytes dst = Some r \<and>
    valid r = (min_bytes \<noteq> 0 \<and> min_bytes mod 4 = 0) \<and>
    (valid r \<longrightarrow> bytes_consumed r = min_bytes \<and> unat (bsize (rbuffer r)) = length (data (rbuffer r)) \<and>
      0 < length (data (rbuffer r)) \<and> length (data (rbuffer r)) \<le> 20 * (unat min_bytes div 4) + 20)"
proof (cases "min_bytes \<noteq> 0 \<and> min_bytes mod 4 = 0")
  case False
  then show ?thesis by (auto simp: RelocateInstructions_def)
next
  case True
  define n where "n = unat min_bytes div 4"
  have "unat min_bytes mod 4 = 0"
    using True by (auto simp: word_unat_eq_iff unat_mod)
  then have n: "unat min_bytes = 4 * n" unfolding n_def by presburger
  moreover have "unat min_bytes \<noteq> 0" using True by (simp add: unat_eq_0)
  ultimately have "0 < n" "n < 49152" using assms by simp_all
  then obtain b where b: "RelocateInstructions m src min_bytes dst =
      Some \<lparr>rbuffer = b, bytes_consumed = min_bytes, valid = True\<rparr>" "buf_words b (reloc_image m src n)"
    using RelocateInstructions_image [OF n] by blast
  moreover have "length (data b) = 4 * length (reloc_image m src n)" "unat (bsize b) = 4 * length (reloc_image m src n)"
    using b(2) by (simp_all add: buf_words_def)
  moreover have "0 < length (reloc_image m src n)"
    using reloc_chunk_in [of n n m src] \<open>n < 49152\<close>
    by (auto simp: chunk_in_def reloc_chunks_nth tail_chunk_def)
  ultimately show ?thesis
    using length_reloc_image [of m src n] True by (simp add: n del: length_greater_0_conv)
qed

theorem RelocateInstructions_returns_witness:
  "\<exists>r. RelocateInstructions (\<lambda>_. 0) 0x1000 16 0x20000 = Some r \<and> valid r \<and> bytes_consumed r = 16"
  using RelocateInstructions_returns [of 16 "\<lambda>_. 0" "0x1000" "0x20000"] by auto



lemma covers_block: "block a n \<subseteq> D \<Longrightarrow> n \<le> 2 ^ 64 \<Longrightarrow> covers D a n"
  by (auto simp: covers_def block_def unat_of_nat64)

lemma sim_placed:
  "block base (length bs) \<subseteq> D \<Longrightarrow> sim D s (s\<lparr>cmem := write_bytes base bs (cmem s), pcr := base\<rparr>)"
  by (simp add: sim_def) (metis subsetD write_bytes_outside)

text \<open>A prologue of one instruction, \<open>CBZ X0, +64\<close> at \<open>0x1000\<close>, relocated to \<open>0x20000\<close>.\<close>

definition demo_mem :: memory where
  "demo_mem = write_bytes 0x1000 (le32 0xB4000200) (\<lambda>_. 0)"

definition demo_cpu :: cpu where
  "demo_cpu = \<lparr>xreg = \<lambda>_. 0, vreg = \<lambda>_. 0, pcr = 0x1000, psr_n = False, psr_z = False, psr_c = False,
    psr_v = False, cmem = demo_mem\<rparr>"

lemma demo_word: "load32 demo_mem 0x1000 = 0xB4000200"
  unfolding demo_mem_def by (intro load32_le32 bytes_at_write) simp

lemma demo_cpu_mem [simp]: "cmem demo_cpu = demo_mem"
  by (simp add: demo_cpu_def)

lemma demo_decode: "a64_decode 0xB4000200 = ICBZ True 0 64"
  by (simp add: a64_decode_def fld_def sfld_def bit_numeral_word_iff)

lemma demo_exec: "a64_step oth demo_cpu = goto 0x1040 demo_cpu"
  by (simp add: a64_step_def demo_decode demo_word demo_cpu_def reg_is_zero_def xget_def rel_pc_def)


lemma relocated_chunk:
  assumes "RelocateInstructions m src min_bytes dst = Some r" "unat min_bytes = 4 * n" "0 < n" "n < 49152"
    "bytes_at (cmem t) base (data (rbuffer r))" "i < n" "pcr t = base + of_nat (4 * reloc_pos m src n i)"
  shows "at_chunk base (reloc_image m src n) (reloc_pos m src n i)
      (chunk (src + of_nat (4 * i)) (load32 m (src + of_nat (4 * i)))) t"
    and "base + of_nat (4 * reloc_pos m src n (Suc i)) =
      pcr t + of_nat (4 * length (fst (chunk (src + of_nat (4 * i)) (load32 m (src + of_nat (4 * i))))))"
proof -
  have "words_at (cmem t) base (reloc_image m src n)" using relocated_words assms(1-5) by blast
  moreover have "chunk_in (reloc_image m src n) (reloc_pos m src n i) (reloc_chunks m src n ! i)"
    using assms(4,6) by (intro reloc_chunk_in) simp_all
  ultimately show "at_chunk base (reloc_image m src n) (reloc_pos m src n i)
      (chunk (src + of_nat (4 * i)) (load32 m (src + of_nat (4 * i)))) t"
    using assms(6,7) by (simp add: at_chunk_def reloc_chunks_nth)
  show "base + of_nat (4 * reloc_pos m src n (Suc i)) =
      pcr t + of_nat (4 * length (fst (chunk (src + of_nat (4 * i)) (load32 m (src + of_nat (4 * i))))))"
    using assms(6,7) by (simp add: reloc_pos_def pos_Suc reloc_chunks_nth algebra_simps)
qed

lemma chunk_call:
  assumes "at_chunk base ws p ([ldr17, 0xAA0003E0 OR push_bit 16 kRegX17 OR kRegLR, kOpBLR OR push_bit 5 kRegLR],
    Some (0, v)) t"
  shows "a64_run oth 3 t = goto v (xset 30 (pcr t + 12) (xset 17 v t))"
proof -
  let ?w = "0xAA0003E0 OR push_bit 16 kRegX17 OR kRegLR" and ?b = "kOpBLR OR push_bit 5 kRegLR"
  have at: "words_at (cmem t) base ws" "pcr t = base + of_nat (4 * p)" "p + 2 < length ws" "lit_ok ws p v"
    "ws ! (p + 1) = ?w" "ws ! (p + 2) = ?b"
    using assms by (auto simp: at_chunk_def chunk_in_def)
  have "a64_decode ?w = IMovReg 30 17"
    by (simp add: a64_decode_def fld_def sfld_def bit_numeral_word_iff kRegX17_def kRegLR_def)
  then have "a64_run oth 2 t = next_pc (xset 30 v (next_pc (xset 17 v t)))"
    using run_lit_use [OF at(1,4) _ at(5,2), of oth] at(3) by simp
  moreover let ?t = "next_pc (xset 30 v (next_pc (xset 17 v t)))"
  have "a64_step oth ?t = a64_exec oth (a64_decode ?b) ?t"
    using at a64_step_word [of ?t base ws "p + 2" oth] by (simp add: algebra_simps)
  moreover have "a64_decode ?b = IBLR 30" using decode_emit_BLR30 by (simp add: kRegLR_def)
  moreover have "a64_run oth 3 t = a64_step oth (a64_run oth 2 t)" by (simp add: numeral_3_eq_3 numeral_2_eq_2)
  ultimately show ?thesis
    by (simp add: goto_def xset_def next_pc_def xget_def add.commute)
qed

text \<open>Claim C24 (relocated calls): the three words emitted for a BL transfer control to the original
  target, with the link register holding the address of the code relocated from the following
  instruction, so the callee returns into the relocated prologue. No other register but X17 and no
  memory changes.\<close>

theorem relocated_call:
  assumes "RelocateInstructions m src min_bytes dst = Some r" "unat min_bytes = 4 * n" "0 < n" "n < 49152"
    and "bytes_at (cmem t) base (data (rbuffer r))" "i < n" "pcr t = base + of_nat (4 * reloc_pos m src n i)"
    and "IsBL (load32 m (src + of_nat (4 * i)))"
  shows "a64_run oth 3 t =
    (let target = src + of_nat (4 * i) + word_of_int (DecodeImm26 (load32 m (src + of_nat (4 * i))))
     in goto target (xset 30 (base + of_nat (4 * reloc_pos m src n (Suc i))) (xset 17 target t)))"
proof -
  let ?w = "load32 m (src + of_nat (4 * i))" and ?pc = "src + of_nat (4 * i)"
  have ch: "chunk ?pc ?w = ([ldr17, 0xAA0003E0 OR push_bit 16 kRegX17 OR kRegLR, kOpBLR OR push_bit 5 kRegLR],
        Some (0, ?pc + word_of_int (DecodeImm26 ?w)))"
    using assms(8) by (simp add: chunk_def class_B class_BL)
  show ?thesis
    using chunk_call [OF relocated_chunk(1) [OF assms(1-7), unfolded ch], of oth]
      relocated_chunk(2) [OF assms(1-7), unfolded ch]
    by (simp add: Let_def)
qed

text \<open>The relocation of one instruction \<open>w\<close> placed at \<open>0x1000\<close>, run from its copy at \<open>0x20000\<close>.\<close>

definition one_mem :: "u32 \<Rightarrow> memory" where
  "one_mem w = write_bytes 0x1000 (le32 w) (\<lambda>_. 0)"

lemma one_word [simp]: "load32 (one_mem w) 0x1000 = w"
  unfolding one_mem_def by (intro load32_le32 bytes_at_write) simp

lemma one_relocated:
  "\<exists>r. RelocateInstructions (one_mem w) 0x1000 4 0x20000 = Some r \<and> length (data (rbuffer r)) \<le> 40"
proof -
  obtain b where "RelocateInstructions (one_mem w) 0x1000 4 0x20000 =
      Some \<lparr>rbuffer = b, bytes_consumed = 4, valid = True\<rparr>" "buf_words b (reloc_image (one_mem w) 0x1000 1)"
    using RelocateInstructions_image [of 4 1 "one_mem w" "0x1000" "0x20000"] by auto
  then show ?thesis using length_reloc_image [of "one_mem w" "0x1000" 1] by (auto simp: buf_words_def)
qed

definition one_cpu :: "RelocateResult \<Rightarrow> cpu" where
  "one_cpu r = demo_cpu\<lparr>cmem := write_bytes 0x20000 (data (rbuffer r)) demo_mem, pcr := 0x20000\<rparr>"

lemma one_cpu_ok:
  "length (data (rbuffer r)) \<le> 40 \<Longrightarrow> bytes_at (cmem (one_cpu r)) 0x20000 (data (rbuffer r))"
  "pcr (one_cpu r) = 0x20000"
  by (simp_all add: one_cpu_def bytes_at_write)

theorem relocated_call_witness:
  "\<exists>r. RelocateInstructions (one_mem 0x94000010) 0x1000 4 0x20000 = Some r \<and>
    pcr (a64_run (\<lambda>w. next_pc) 3 (one_cpu r)) = 0x1040"
proof -
  let ?m = "one_mem 0x94000010"
  obtain r where r: "RelocateInstructions ?m 0x1000 4 0x20000 = Some r" "length (data (rbuffer r)) \<le> 40"
    using one_relocated by blast
  have "IsBL 0x94000010" "DecodeImm26 0x94000010 = 64"
    by (simp_all add: IsBL_def opcode_defs DecodeImm26_eq sfld_def)
  then show ?thesis
    using relocated_call [OF r(1), of 1 "one_cpu r" "0x20000" 0 "\<lambda>w. next_pc"] r
    by (simp add: one_cpu_ok)
qed

section \<open>Where relocated code differs\<close>

lemma at_first:
  assumes "at_chunk base ws p (w # r, Some (Suc k, v)) t"
  shows "a64_run oth 1 t = a64_exec oth (a64_decode w) t"
proof -
  have "ws ! (p + 0) = (w # r) ! 0" "p < length ws" using assms by (fastforce simp: at_chunk_def chunk_in_def)+
  then show ?thesis using assms a64_step_word [of t base ws p oth] by (simp add: at_chunk_def)
qed

text \<open>Claim C37 (B.AL and B.NV): these conditional branches are always taken, but inverting the low bit
  of AL and NV gives the other one, which is always taken too. The relocated code therefore always
  skips the jump and falls through to the next relocated instruction.\<close>

theorem relocated_always_skipped:
  assumes "RelocateInstructions m src min_bytes dst = Some r" "unat min_bytes = 4 * n" "0 < n" "n < 49152"
    and "bytes_at (cmem t) base (data (rbuffer r))" "i < n" "pcr t = base + of_nat (4 * reloc_pos m src n i)"
    and "IsBCond (load32 m (src + of_nat (4 * i)))" "14 \<le> unat (CondFromBCond (load32 m (src + of_nat (4 * i))))"
  shows "a64_run oth 1 t = goto (base + of_nat (4 * reloc_pos m src n (Suc i))) t \<and>
    a64_exec oth (a64_decode (load32 m (src + of_nat (4 * i)))) s =
      goto (rel_pc s (DecodeImm19 (load32 m (src + of_nat (4 * i))))) s"
proof -
  let ?w = "load32 m (src + of_nat (4 * i))" and ?pc = "src + of_nat (4 * i)"
  define c where "c = CondFromBCond ?w"
  let ?b = "kOpBCond OR push_bit 5 3 OR InvertCond c"
  have ch: "chunk ?pc ?w = ([?b, ldr17, br17], Some (1, ?pc + word_of_int (DecodeImm19 ?w)))"
    using assms(8) BCond_excl [OF assms(8)] by (simp add: chunk_def c_def)
  have "unat c = fld 3 0 ?w" by (simp add: c_def CondFromBCond_eq unat_Bits)
  moreover have "fld 3 0 ?w < 16" by (simp add: fld_def unsigned_take_bit_eq take_bit_nat_less_exp [of 4, simplified])
  ultimately have "unat c = 14 \<or> unat c = 15" using assms(9) unfolding c_def [symmetric] by linarith
  then have "c = 14 \<or> c = 15" by (metis of_nat_numeral of_nat_unat ucast_id)
  then have inv: "cond_holds (unat (InvertCond c)) t" "cond_holds (unat c) s"
    by (auto simp: InvertCond_def cond_holds_def)
  have at: "at_chunk base (reloc_image m src n) (reloc_pos m src n i)
      ([?b, ldr17, br17], Some (1, ?pc + word_of_int (DecodeImm19 ?w))) t"
    using relocated_chunk(1) [OF assms(1-7)] unfolding ch .
  have "a64_decode ?b = IBCond (unat (InvertCond c)) 12" unfolding c_def by (rule decode_emit_BCond)
  then have "a64_exec oth (a64_decode ?b) t = goto (pcr t + 12) t" using inv(1) by (simp add: rel_pc_def)
  then have "a64_run oth 1 t = goto (pcr t + 12) t"
    using at_first [OF at [unfolded One_nat_def], of oth] by simp
  moreover have "base + of_nat (4 * reloc_pos m src n (Suc i)) = pcr t + 12"
    using relocated_chunk(2) [OF assms(1-7)] unfolding ch by simp
  moreover have "a64_decode ?w = IBCond (unat c) (DecodeImm19 ?w)"
    using decode_BCond [OF assms(8)] by (simp add: c_def CondFromBCond_eq unat_Bits)
  ultimately show ?thesis using inv(2) by simp
qed

theorem relocated_always_skipped_witness:
  "\<exists>r. RelocateInstructions (one_mem 0x5400020E) 0x1000 4 0x20000 = Some r \<and>
    pcr (a64_run (\<lambda>w. next_pc) 1 (one_cpu r)) = 0x2000C \<and>
    a64_exec (\<lambda>w. next_pc) (a64_decode 0x5400020E) demo_cpu = goto 0x1040 demo_cpu"
proof -
  let ?m = "one_mem 0x5400020E"
  obtain r where r: "RelocateInstructions ?m 0x1000 4 0x20000 = Some r" "length (data (rbuffer r)) \<le> 40"
    using one_relocated by blast
  have b: "IsBCond 0x5400020E" "CondFromBCond 0x5400020E = 14" "DecodeImm19 0x5400020E = 64"
    by (simp_all add: IsBCond_def CondFromBCond_def opcode_defs DecodeImm19_eq sfld_def)
  have p: "reloc_pos ?m 0x1000 1 (Suc 0) = 3"
    using BCond_excl [OF b(1)] b by (simp add: reloc_pos_def pos_Suc reloc_chunks_nth chunk_def)
  have "rel_pc demo_cpu 64 = 0x1040" by (simp add: rel_pc_def demo_cpu_def)
  then show ?thesis
    using relocated_always_skipped [OF r(1), of 1 "one_cpu r" "0x20000" 0 "\<lambda>w. next_pc" demo_cpu] r b
    by (simp add: one_cpu_ok p [simplified])
qed

text \<open>Claim C38 (SIMD literal loads): \<open>LDR Dt, label\<close> sets the SIMD register \<open>Dt\<close>. It passes the
  literal-load test with the same size field as \<open>LDR Xt\<close>, and its relocation loads the
  general register with the same number instead; the SIMD registers keep their values.\<close>

theorem relocated_simd_literal:
  assumes "RelocateInstructions m src min_bytes dst = Some r" "unat min_bytes = 4 * n" "0 < n" "n < 49152"
    and "bytes_at (cmem t) base (data (rbuffer r))" "i < n" "pcr t = base + of_nat (4 * reloc_pos m src n i)"
    and "load32 m (src + of_nat (4 * i)) = w" "fld 31 24 w = 92"
    and "target = src + of_nat (4 * i) + word_of_int (DecodeLdrLitImm19 w)"
  shows "vreg (a64_run oth 2 t) = vreg t \<and>
    xreg (a64_run oth 2 t) = xreg (xset (fld 4 0 w) (load64 (cmem t) target) (xset 17 target t)) \<and>
    (pcr s = src + of_nat (4 * i) \<longrightarrow>
      a64_exec oth (a64_decode w) s = next_pc (vset (fld 4 0 w) (ucast (load64 (cmem s) target)) s))"
proof -
  let ?pc = "src + of_nat (4 * i)" and ?l = "0xF9400200 OR push_bit 5 kRegX17 OR Bits w 4 0"
  have w: "IsLdrLiteral w" "Bits w 31 30 = 1"
    using assms(9) by (simp_all add: IsLdrLiteral_def fld_blast Bits_eq word32_eq_iff all_less_32 bit_simps)
  note excl = LdrLiteral_excl [OF w(1)]
  have ch: "chunk ?pc w = ([ldr17, ?l], Some (0, target))"
    using w excl by (simp add: chunk_def assms(10) GetRt_def)
  have "a64_run oth 2 t = a64_exec oth (a64_decode ?l) (next_pc (xset 17 target t))"
    by (rule at_use [OF relocated_chunk(1) [OF assms(1-7), unfolded assms(8) ch]])
  moreover have "a64_decode ?l = ILdrX (fld 4 0 w) 17 0" using decode_emit_LdrX [of w] by (simp add: kRegX17_def)
  moreover have "a64_decode w = ILdrLitD (fld 4 0 w) (DecodeLdrLitImm19 w)"
    using excl unfolding class_B class_BL class_BCond class_CBZ class_CBNZ class_TBZ class_TBNZ class_ADR class_ADRP
    by (simp add: a64_decode_def assms(9) DecodeLdrLitImm19_eq)
  ultimately show ?thesis by (simp add: assms(10) rel_pc_def)
qed

theorem relocated_simd_literal_witness:
  "\<exists>r. RelocateInstructions (one_mem 0x5C000200) 0x1000 4 0x20000 = Some r \<and>
    vreg (a64_run (\<lambda>w. next_pc) 2 (one_cpu r)) = (\<lambda>_. 0)"
proof -
  let ?m = "one_mem 0x5C000200"
  obtain r where r: "RelocateInstructions ?m 0x1000 4 0x20000 = Some r" "length (data (rbuffer r)) \<le> 40"
    using one_relocated by blast
  have "fld 31 24 0x5C000200 = 92" by (simp add: fld_def)
  then have "vreg (a64_run (\<lambda>w. next_pc) 2 (one_cpu r)) = vreg (one_cpu r)"
    using relocated_simd_literal [OF r(1), of 1 "one_cpu r" "0x20000" 0 "0x5C000200" _ "\<lambda>w. next_pc"] r
    by (simp add: one_cpu_ok)
  then show ?thesis using r(1) by (auto simp: one_cpu_def demo_cpu_def)
qed

end
