(* ===== verification/Trampoline.thy ===== *)
theory Trampoline
  imports Relocation_Correct
begin

text \<open>
  \<open>trampoline.cpp\<close>: the jump written over a function entry, in one of three encodings chosen by
  distance, and the relocated copy of what it overwrites. Differences of addresses are
  signed 64-bit; the distance test uses the value of the wrapped difference.
\<close>

section \<open>Jump patches\<close>

record JumpPatch =
  code :: CodeBuffer
  patch_size :: u32

definition BuildJumpPatch :: "u64 \<Rightarrow> u64 \<Rightarrow> JumpPatch option" where
  "BuildJumpPatch from to' =
    (let distance = sint (to' - from) in
     if - kMaxBRange \<le> distance \<and> distance < kMaxBRange \<and> distance mod 4 = 0 then
       do { a \<leftarrow> EmitB distance Assembler_new;
            a \<leftarrow> Finalize a;
            Some \<lparr>code = fst (CodeBuffer_move (abuf a)), patch_size = 4\<rparr> }
     else
       (let from_page = from AND NOT 0xFFF;
            to_page = to' AND NOT 0xFFF;
            page_dist = sint (to_page - from_page) in
        if - (2 ^ 32) \<le> page_dist \<and> page_dist < 2 ^ 32 then
          do { let rd = kRegX17;
               a \<leftarrow> EmitAdrp rd page_dist Assembler_new;
               let page_off = ucast (to' AND 0xFFF);
               a \<leftarrow> EmitAddImm rd rd page_off a;
               a \<leftarrow> EmitBR rd a;
               a \<leftarrow> Finalize a;
               Some \<lparr>code = fst (CodeBuffer_move (abuf a)), patch_size = 12\<rparr> }
        else
          do { a \<leftarrow> EmitLdrX17Branch to' Assembler_new;
               a \<leftarrow> Finalize a;
               Some \<lparr>code = fst (CodeBuffer_move (abuf a)), patch_size = 16\<rparr> }))"

definition BuildRelocatedCode :: "memory \<Rightarrow> u64 \<Rightarrow> u32 \<Rightarrow> u64 \<Rightarrow> CodeBuffer option" where
  "BuildRelocatedCode m original_addr bytes_to_overwrite relocated_addr =
    do { result \<leftarrow> RelocateInstructions m original_addr bytes_to_overwrite relocated_addr;
         Some (if \<not> valid result then CodeBuffer_new else rbuffer result) }"

section \<open>The words of a patch\<close>

abbreviation near_jump :: "u64 \<Rightarrow> u64 \<Rightarrow> bool" where
  "near_jump from to' \<equiv> - kMaxBRange \<le> sint (to' - from) \<and> sint (to' - from) < kMaxBRange \<and> sint (to' - from) mod 4 = 0"

abbreviation page_dist :: "u64 \<Rightarrow> u64 \<Rightarrow> int" where
  "page_dist from to' \<equiv> sint ((to' AND NOT 0xFFF) - (from AND NOT 0xFFF))"

text \<open>Number of instructions of the patch and its words, the padding to eight bytes included.\<close>

definition patch_words :: "u64 \<Rightarrow> u64 \<Rightarrow> u32 list \<times> nat" where
  "patch_words from to' =
    (if near_jump from to' then (final_words [kOpB OR EncodeImm26 (sint (to' - from))] [], 4)
     else if - (2 ^ 32) \<le> page_dist from to' \<and> page_dist from to' < 2 ^ 32 then
       (final_words [kOpADRP OR EncodeAdrpImm (page_dist from to') OR kRegX17,
          0x91000000 OR push_bit 10 (ucast (to' AND 0xFFF)) OR push_bit 5 kRegX17 OR kRegX17, br17] [], 12)
     else (final_words [ldr17, br17] [(0, to')], 16))"

lemma emit_new: "\<exists>a. EmitInst w Assembler_new = Some a \<and> asm_view a [w] []"
  using asm.emit_law [OF asm_view_new, of w] by simp

lemma emit_next:
  "asm_view a ws ls \<Longrightarrow> length ws < 8 \<Longrightarrow> \<exists>a'. EmitInst w a = Some a' \<and> asm_view a' (ws @ [w]) ls"
  using asm.emit_law [of a ws ls w] by simp

lemma BuildJumpPatch_words:
  "\<exists>b. BuildJumpPatch from to' = Some \<lparr>code = b, patch_size = of_nat (snd (patch_words from to'))\<rparr> \<and>
    buf_words b (fst (patch_words from to'))"
proof -
  have fin: "\<exists>a'. Finalize a = Some a' \<and> buf_words (abuf a') (final_words ws ls)"
    if "asm_view a ws ls" "length ws + 2 * length ls < 8" for a ws ls
    using asm.finish_law [OF that(1)] that(2) by (auto simp: asm_view_def)
  consider (near) "near_jump from to'"
    | (page) "\<not> near_jump from to'" "- (2 ^ 32) \<le> page_dist from to' \<and> page_dist from to' < 2 ^ 32"
    | (far) "\<not> near_jump from to'" "\<not> (- (2 ^ 32) \<le> page_dist from to' \<and> page_dist from to' < 2 ^ 32)"
    by blast
  then show ?thesis
  proof cases
    case near
    obtain a where a: "EmitB (sint (to' - from)) Assembler_new = Some a"
        "asm_view a [kOpB OR EncodeImm26 (sint (to' - from))] []"
      using emit_new by (auto simp: EmitB_def)
    obtain a' where "Finalize a = Some a'" "buf_words (abuf a') (final_words [kOpB OR EncodeImm26 (sint (to' - from))] [])"
      using fin [OF a(2)] by auto
    with near a show ?thesis by (simp add: BuildJumpPatch_def Let_def patch_words_def CodeBuffer_move_def)
  next
    case page
    let ?w1 = "kOpADRP OR EncodeAdrpImm (page_dist from to') OR kRegX17"
    let ?w2 = "0x91000000 OR push_bit 10 (ucast (to' AND 0xFFF)) OR push_bit 5 kRegX17 OR kRegX17"
    obtain a1 where a1: "EmitAdrp kRegX17 (page_dist from to') Assembler_new = Some a1" "asm_view a1 [?w1] []"
      using emit_new by (auto simp: EmitAdrp_def)
    obtain a2 where a2: "EmitAddImm kRegX17 kRegX17 (ucast (to' AND 0xFFF)) a1 = Some a2" "asm_view a2 [?w1, ?w2] []"
      using emit_next [OF a1(2)] by (auto simp: EmitAddImm_def)
    obtain a3 where a3: "EmitBR kRegX17 a2 = Some a3" "asm_view a3 [?w1, ?w2, br17] []"
      using emit_next [OF a2(2)] by (auto simp: EmitBR_def)
    obtain a4 where "Finalize a3 = Some a4" "buf_words (abuf a4) (final_words [?w1, ?w2, br17] [])"
      using fin [OF a3(2)] by auto
    with page(2) a1 a2 a3 show ?thesis
      unfolding BuildJumpPatch_def Let_def patch_words_def if_not_P [OF page(1)] by (simp add: CodeBuffer_move_def)
  next
    case far
    obtain a where a: "EmitLdrX17Branch to' Assembler_new = Some a" "asm_view a [ldr17, br17] [(0, to')]"
      using EmitLdrX17Branch_view [OF asm_view_new, of to'] by auto
    obtain a' where "Finalize a = Some a'" "buf_words (abuf a') (final_words [ldr17, br17] [(0, to')])"
      using fin [OF a(2)] by auto
    with a show ?thesis
      unfolding BuildJumpPatch_def Let_def patch_words_def if_not_P [OF far(1)] if_not_P [OF far(2)]
      by (simp add: CodeBuffer_move_def)
  qed
qed

section \<open>Executing a patch\<close>

lemma page_split: "((x::u64) AND NOT 0xFFF) + (x AND 0xFFF) = x"
proof -
  have "(x AND NOT 0xFFF) + (x AND 0xFFF) = (x AND NOT 0xFFF) OR (x AND 0xFFF)"
    by (rule disjunctive_add) (simp add: bit_simps)
  also have "\<dots> = x" by (rule bit_eqI) (auto simp: bit_simps)
  finally show ?thesis .
qed

lemma page_dist_dvd: "4096 dvd page_dist from to'"
proof -
  have m: "(0xFFF::u64) = mask 12" by (simp add: mask_eq_exp_minus_1)
  have *: "(x::u64) AND NOT 0xFFF = push_bit 12 (drop_bit 12 x)" for x :: u64
    unfolding m by (rule bit_eqI) (auto simp: bit_simps not_less)
  let ?d = "push_bit 12 (drop_bit 12 to' - drop_bit 12 from)"
  have "(to' AND NOT 0xFFF) - (from AND NOT 0xFFF) = ?d"
    unfolding * by (simp add: push_bit_eq_mult algebra_simps)
  moreover have "take_bit 12 (sint ?d) = 0"
    by (rule bit_eqI) (simp add: sint_uint bit_simps)
  ultimately show ?thesis by (simp add: take_bit_eq_mod dvd_eq_mod_eq_0)
qed

lemma take_concat_le32: "take (4 * n) (concat (map le32 ws)) = concat (map le32 (take n ws))"
proof (induction ws arbitrary: n)
  case (Cons w ws)
  then show ?case by (cases n) simp_all
qed simp

lemma words_at_patch:
  assumes "buf_words b ws" "bytes_at m a (take (4 * n) (data b))"
  shows "words_at m a (take n ws)"
  using assms by (intro words_at_bytes) (simp add: buf_words_def take_concat_le32)

lemma patch_near:
  assumes "near_jump from to'" "load32 (cmem t) from = kOpB OR EncodeImm26 (sint (to' - from))" "pcr t = from"
  shows "a64_run oth 1 t = goto to' t"
proof -
  have "a64_decode (load32 (cmem t) from) = IB (sint (to' - from))"
    using assms by (simp add: decode_emit_B dvd_eq_mod_eq_0)
  then show ?thesis by (simp add: a64_step_def assms(3) rel_pc_def)
qed

lemma patch_page:
  assumes "- (2 ^ 32) \<le> page_dist from to'" "page_dist from to' < 2 ^ 32" "pcr t = from"
    "words_at (cmem t) from [kOpADRP OR EncodeAdrpImm (page_dist from to') OR kRegX17,
       0x91000000 OR push_bit 10 (ucast (to' AND 0xFFF)) OR push_bit 5 kRegX17 OR kRegX17, br17]"
  shows "a64_run oth 3 t = goto to' (xset 17 to' t)"
proof -
  let ?off = "ucast (to' AND 0xFFF) :: u32"
  have w: "load32 (cmem t) from = kOpADRP OR EncodeAdrpImm (page_dist from to') OR 17"
    "load32 (cmem t) (from + 4) = 0x91000000 OR push_bit 10 ?off OR push_bit 5 17 OR 17"
    "load32 (cmem t) (from + 8) = kOpBR OR push_bit 5 17"
    using assms(4) by (simp_all add: words_at_Cons kRegX17_def add.assoc)
  have m: "to' AND 0xFFF = take_bit 12 to'" by (simp add: take_bit_eq_mask mask_eq_exp_minus_1)
  have off: "unat ?off = unat (to' AND 0xFFF)"
    unfolding m by (simp add: unsigned_ucast_eq unsigned_take_bit_eq)
  have lt: "?off < 0x1000"
    using take_bit_nat_less_exp [of 12 "unat to'"]
    by (simp add: word_less_nat_alt off) (simp add: m unsigned_take_bit_eq)
  let ?t1 = "next_pc (xset 17 (to' AND NOT 0xFFF) t)"
  have "a64_decode (load32 (cmem t) from) = IAdrp 17 (page_dist from to')"
    unfolding w using assms(1,2) page_dist_dvd by (intro decode_emit_Adrp)
  then have "a64_step oth t = ?t1" by (simp add: a64_step_def assms(3))
  moreover have "a64_step oth ?t1 = next_pc (xset 17 to' ?t1)"
    using decode_emit_Add [OF lt] w(2) page_split [of to'] by (simp add: a64_step_def assms(3) off)
  moreover have "a64_step oth (next_pc (xset 17 to' ?t1)) = goto to' (xset 17 to' ?t1)"
    using decode_emit_BR17 w(3) by (simp add: a64_step_def assms(3) add.assoc)
  moreover have "goto to' (xset 17 to' ?t1) = goto to' (xset 17 to' t)"
    by (simp add: goto_def xset_def next_pc_def)
  ultimately show ?thesis by (simp add: numeral_3_eq_3)
qed


lemma patch_words_size:
  "snd (patch_words from to') \<in> {4, 12, 16}" "snd (patch_words from to') \<le> 4 * length (fst (patch_words from to'))"
  by (simp_all add: patch_words_def length_final_words pad_words_def)

lemma patch_runs:
  assumes w: "words_at (cmem t) from (take (snd (patch_words from to') div 4) (fst (patch_words from to')))"
    and pc: "pcr t = from"
  shows "\<exists>k v. k \<le> 3 \<and> a64_run oth k t = goto to' (xset 17 v t)"
proof -
  consider (near) "near_jump from to'"
    | (page) "\<not> near_jump from to'" "- (2 ^ 32) \<le> page_dist from to' \<and> page_dist from to' < 2 ^ 32"
    | (far) "\<not> near_jump from to'" "\<not> (- (2 ^ 32) \<le> page_dist from to' \<and> page_dist from to' < 2 ^ 32)"
    by blast
  then show ?thesis
  proof cases
    case near
    then have "load32 (cmem t) from = kOpB OR EncodeImm26 (sint (to' - from))"
      using w by (simp add: patch_words_def words_at_Cons final_words_def pad_words_def)
    moreover have "xset 17 (xreg t 17) t = t" by (simp add: xset_def)
    ultimately show ?thesis using patch_near [OF near _ pc, of oth] by (metis one_le_numeral)
  next
    case page
    then have "words_at (cmem t) from [kOpADRP OR EncodeAdrpImm (page_dist from to') OR kRegX17,
       0x91000000 OR push_bit 10 (ucast (to' AND 0xFFF)) OR push_bit 5 kRegX17 OR kRegX17, br17]"
      using w unfolding patch_words_def if_not_P [OF page(1)]
      by (simp add: final_words_def pad_words_def)
    then show ?thesis using patch_page page(2) pc by blast
  next
    case far
    let ?ws = "final_words [ldr17, br17] [(0, to')]"
    have len: "length ?ws = 4" by (simp add: length_final_words pad_words_def)
    then have ws: "words_at (cmem t) from ?ws"
      using w unfolding patch_words_def if_not_P [OF far(1)] if_not_P [OF far(2)] by simp
    have "lit_ok ?ws 0 to'" by (intro final_words_lit) auto
    moreover have "?ws ! 1 = br17" by (simp add: final_words_keep)
    ultimately have "a64_run oth 2 t = goto to' (xset 17 to' t)"
      using ws pc len by (intro run_jump [of t "from" ?ws 0]) simp_all
    then show ?thesis by (intro exI [of _ 2] exI [of _ to']) simp
  qed
qed

lemma jump_patch_spec:
  "\<exists>p. BuildJumpPatch from to' = Some p \<and> patch_size p \<in> {4, 12, 16} \<and>
    unat (patch_size p) \<le> length (data (code p)) \<and> unat (bsize (code p)) = length (data (code p)) \<and>
    (\<forall>t oth. bytes_at (cmem t) from (take (unat (patch_size p)) (data (code p))) \<and> pcr t = from \<longrightarrow>
      (\<exists>k v. k \<le> 3 \<and> a64_run oth k t = goto to' (xset 17 v t)))"
proof -
  let ?ws = "fst (patch_words from to')" and ?n = "snd (patch_words from to')"
  obtain b where b: "BuildJumpPatch from to' = Some \<lparr>code = b, patch_size = of_nat ?n\<rparr>" "buf_words b ?ws"
    using BuildJumpPatch_words by blast
  have n: "?n \<in> {4, 12, 16}" "?n \<le> 4 * length ?ws" by (fact patch_words_size)+
  then have u: "unat (of_nat ?n :: u32) = ?n" by (auto simp: unat_of_nat32)
  have m: "?n = 4 * (?n div 4)" using n(1) by auto
  have "\<exists>k v. k \<le> 3 \<and> a64_run oth k t = goto to' (xset 17 v t)"
    if "bytes_at (cmem t) from (take ?n (data b))" "pcr t = from" for t oth
    using patch_runs [OF words_at_patch [OF b(2), of "cmem t" "from" "?n div 4"] that(2)] that(1) m by metis
  with n u b show ?thesis by (auto simp: buf_words_def)
qed

text \<open>Claim C13 (a jump patch jumps): for every pair of addresses a patch is built, it holds at least its
  \<open>patch_size\<close> bytes, which are 4, 12 or 16, and a processor that finds those bytes at \<open>from\<close> and
  starts there is at \<open>to'\<close> after at most three instructions with nothing changed but X17.\<close>

theorem jump_patch_reaches:
  "\<exists>p. BuildJumpPatch from to' = Some p \<and> patch_size p \<in> {4, 12, 16} \<and>
    unat (patch_size p) \<le> length (data (code p)) \<and> unat (bsize (code p)) = length (data (code p)) \<and>
    (\<forall>t oth. bytes_at (cmem t) from (take (unat (patch_size p)) (data (code p))) \<and> pcr t = from \<longrightarrow>
      (\<exists>k v. k \<le> 3 \<and> a64_run oth k t = goto to' (xset 17 v t)))"
  by (rule jump_patch_spec)

theorem jump_patch_reaches_witness:
  "\<exists>p k v. BuildJumpPatch 0x1000 0x7000000000 = Some p \<and>
    a64_run (\<lambda>w. next_pc) k (demo_cpu\<lparr>cmem := write_bytes 0x1000 (take (unat (patch_size p)) (data (code p))) demo_mem\<rparr>) =
      goto 0x7000000000 (xset 17 v
        (demo_cpu\<lparr>cmem := write_bytes 0x1000 (take (unat (patch_size p)) (data (code p))) demo_mem\<rparr>))"
proof -
  obtain p where p: "BuildJumpPatch 0x1000 0x7000000000 = Some p" "patch_size p \<in> {4, 12, 16}"
      "\<forall>t oth. bytes_at (cmem t) 0x1000 (take (unat (patch_size p)) (data (code p))) \<and> pcr t = 0x1000 \<longrightarrow>
        (\<exists>k v. k \<le> 3 \<and> a64_run oth k t = goto 0x7000000000 (xset 17 v t))"
    using jump_patch_reaches [of "0x1000" "0x7000000000"] by blast
  have "length (take (unat (patch_size p)) (data (code p))) \<le> 2 ^ 64" using p(2) by auto
  then have "bytes_at (write_bytes 0x1000 (take (unat (patch_size p)) (data (code p))) demo_mem) 0x1000
      (take (unat (patch_size p)) (data (code p)))" by (rule bytes_at_write)
  moreover have "pcr demo_cpu = 0x1000" by (simp add: demo_cpu_def)
  ultimately show ?thesis
    using p(1) p(3) [rule_format, of "demo_cpu\<lparr>cmem := write_bytes 0x1000 (take (unat (patch_size p)) (data (code p))) demo_mem\<rparr>"
        "\<lambda>w. next_pc"]
    by auto
qed

end
