(* ===== verification/Code_Patch.thy ===== *)
theory Code_Patch
  imports Code_Image
begin

text \<open>
  Process memory with page protections, the kernel services the hook engine calls, and
  \<open>code_patch.cpp\<close>. A store to a byte without write permission raises a signal; the
  operations return \<open>None\<close> there. Cache maintenance has no counterpart: the processor model
  reads memory directly.
\<close>

section \<open>Process state and kernel services\<close>

datatype perm = PROT_READ | PROT_WRITE | PROT_EXEC

record sys =
  smem :: memory
  sprot :: "u64 \<Rightarrow> perm set"

datatype map_flag = MAP_ANYWHERE | MAP_FIXED_NOREPLACE | MAP_FIXED

record kernel =
  page_size :: u64
  mprotect :: "u64 \<Rightarrow> u64 \<Rightarrow> perm set \<Rightarrow> sys \<Rightarrow> int \<times> sys"
  mmap :: "u64 \<Rightarrow> u64 \<Rightarrow> perm set \<Rightarrow> map_flag \<Rightarrow> sys \<Rightarrow> u64 option \<times> sys"
  maps_lines :: "sys \<Rightarrow> string list"

text \<open>The documented behaviour of the two calls: \<open>mprotect\<close> never changes contents, sets the protection
  of exactly the pages named on success and possibly of some pages on failure; \<open>mmap\<close> on success returns a page-aligned
  block in the lower (user) half of the address space, at the address asked for when it is fixed, unmapped before unless \<open>MAP_FIXED\<close>.\<close>

definition protect_law :: "kernel \<Rightarrow> bool" where
  "protect_law K \<longleftrightarrow>
    (\<forall>a n p s. let (r, s') = mprotect K a n p s in
       smem s' = smem s \<and> (\<forall>x. sprot s' x = sprot s x \<or> sprot s' x = p) \<and>
       (r = 0 \<longrightarrow> sprot s' = (\<lambda>x. if x \<in> block a (unat n) then p else sprot s x)))"

definition mapped_ok :: "kernel \<Rightarrow> u64 \<Rightarrow> u64 \<Rightarrow> perm set \<Rightarrow> map_flag \<Rightarrow> sys \<Rightarrow> u64 \<Rightarrow> sys \<Rightarrow> bool" where
  "mapped_ok K a n p f s b s' \<longleftrightarrow>
    b \<noteq> 0 \<and> b AND (page_size K - 1) = 0 \<and> unat b + unat n \<le> 2 ^ 63 \<and>
    (f \<noteq> MAP_ANYWHERE \<longrightarrow> b = a) \<and>
    (f \<noteq> MAP_FIXED \<longrightarrow> (\<forall>x \<in> block b (unat n). sprot s x = {})) \<and>
    (\<forall>x. x \<notin> block b (unat n) \<longrightarrow> smem s' x = smem s x) \<and>
    sprot s' = (\<lambda>x. if x \<in> block b (unat n) then p else sprot s x)"

definition map_law :: "kernel \<Rightarrow> bool" where
  "map_law K \<longleftrightarrow>
    (\<forall>a n p f s. case mmap K a n p f s of
        (None, s') \<Rightarrow> s' = s
      | (Some b, s') \<Rightarrow> mapped_ok K a n p f s b s')"

definition page_law :: "kernel \<Rightarrow> bool" where
  "page_law K \<longleftrightarrow> (\<exists>k. 12 \<le> k \<and> k < 31 \<and> page_size K = 2 ^ k)"

text \<open>\<open>memcpy\<close> into process memory.\<close>

definition memcpy_to :: "u64 \<Rightarrow> u8 list \<Rightarrow> sys \<Rightarrow> sys option" where
  "memcpy_to dst bs s =
    (if list_all (\<lambda>i. PROT_WRITE \<in> sprot s (dst + of_nat i)) [0..<length bs]
     then Some (s\<lparr>smem := write_bytes dst bs (smem s)\<rparr>) else None)"

section \<open>Protection changes and patching\<close>

definition PageAlign :: "kernel \<Rightarrow> u64 \<Rightarrow> u64" where
  "PageAlign K addr = addr AND NOT (page_size K - 1)"

definition PageSize :: "kernel \<Rightarrow> u64" where
  "PageSize K = page_size K"

definition MakeMemoryRWX :: "kernel \<Rightarrow> u64 \<Rightarrow> u64 \<Rightarrow> sys \<Rightarrow> int \<times> sys" where
  "MakeMemoryRWX K addr size' s =
    (let page = PageAlign K addr;
         psize = PageSize K;
         end' = addr + size';
         page_end = (end' + psize - 1) AND NOT (psize - 1);
         total = page_end - page;
         (r, s') = mprotect K page total {PROT_READ, PROT_WRITE, PROT_EXEC} s
     in if r \<noteq> 0 then (-1, s') else (0, s'))"

definition MakeMemoryRX :: "kernel \<Rightarrow> u64 \<Rightarrow> u64 \<Rightarrow> sys \<Rightarrow> int \<times> sys" where
  "MakeMemoryRX K addr size' s =
    (let page = PageAlign K addr;
         psize = PageSize K;
         end' = addr + size';
         page_end = (end' + psize - 1) AND NOT (psize - 1);
         total = page_end - page;
         (r, s') = mprotect K page total {PROT_READ, PROT_EXEC} s
     in if r \<noteq> 0 then (-1, s') else (0, s'))"

text \<open>\<open>patch\<close> is \<open>None\<close> for a null pointer; reading past the end of the patch has no value.\<close>

definition PatchCode :: "kernel \<Rightarrow> u64 \<Rightarrow> u8 list option \<Rightarrow> u64 \<Rightarrow> sys \<Rightarrow> (int \<times> sys) option" where
  "PatchCode K target patch size' s =
    (case patch of
       None \<Rightarrow> Some (-1, s)
     | Some bs \<Rightarrow>
         if target = 0 \<or> size' = 0 then Some (-1, s)
         else
           (let (r, s) = MakeMemoryRWX K target size' s in
            if r \<noteq> 0 then Some (-1, s)
            else if length bs < unat size' then None
            else
              do { s \<leftarrow> memcpy_to target (take (unat size') bs) s;
                   let (_, s) = MakeMemoryRX K target size' s;
                   Some (0, s) }))"

section \<open>Page rounding\<close>

lemma unat_lt64: "unat (a::u64) < 2 ^ 64"
  by (rule order_less_le_trans [OF unsigned_less]) simp

lemma unat_add64: "unat (a::u64) + unat b < 2 ^ 64 \<Longrightarrow> unat (a + b) = unat a + unat b"
  by (simp add: unat_word_ariths)

lemma unat_sub64: "unat (b::u64) \<le> unat a \<Longrightarrow> unat (a - b) = unat a - unat b"
  by (simp add: unat_sub word_le_nat_alt)

lemma unat_pow64: "k < 64 \<Longrightarrow> unat (2 ^ k :: u64) = 2 ^ k"
  using unat_of_nat64 [of "2 ^ k"] power_strict_increasing [of k 64 "2 :: nat"] by simp

lemma align_down: "unat ((a::u64) AND NOT (2 ^ k - 1)) = unat a div 2 ^ k * 2 ^ k"
proof -
  have "a AND NOT (2 ^ k - 1) = push_bit k (drop_bit k a)"
    unfolding mask_eq_exp_minus_1 [symmetric] by (rule bit_eqI) (auto simp: bit_simps not_less)
  moreover have "unat (push_bit k (drop_bit k a)) = take_bit 64 (push_bit k (unat (drop_bit k a)))"
    by (simp only: unsigned_push_bit_eq) simp
  moreover have "unat (drop_bit k a) = unat a div 2 ^ k"
    by (simp only: unsigned_drop_bit_eq) (simp add: drop_bit_eq_div take_bit_nat_eq_self unat_lt64 [simplified])
  moreover have "unat a div 2 ^ k * 2 ^ k < 2 ^ 64"
    using unat_lt64 [of a] div_times_less_eq_dividend [of "unat a" "2 ^ k"]
    by (simp del: div_times_less_eq_dividend)
  ultimately show ?thesis by (simp add: take_bit_nat_eq_self push_bit_eq_mult mult.commute)
qed

lemma round_bounds:
  assumes "0 < (P::nat)"
  shows "a div P * P \<le> a" "a \<le> (a + P - 1) div P * P"
proof -
  show "a div P * P \<le> a" by simp
  have "a + P - 1 = (a + P - 1) div P * P + (a + P - 1) mod P" by simp
  moreover have "(a + P - 1) mod P < P" using assms by simp
  ultimately show "a \<le> (a + P - 1) div P * P" using assms by linarith
qed

lemma page_range:
  assumes "k < 31" "unat a + unat n + 2 ^ k \<le> 2 ^ 64"
  shows "block a (unat n) \<subseteq> block (a AND NOT (2 ^ k - 1))
    (unat (((a + n + 2 ^ k - 1) AND NOT (2 ^ k - 1)) - (a AND NOT (2 ^ k - 1))))"
proof -
  define P where "P = (2::nat) ^ k"
  have P: "0 < P" "unat (2 ^ k :: u64) = P" unfolding P_def using assms(1) by (auto simp: unat_pow64)
  have b: "unat a + unat n + P \<le> 2 ^ 64" using assms(2) by (simp add: P_def)
  let ?lo = "a AND NOT (2 ^ k - 1)" and ?hi = "(a + n + 2 ^ k - 1) AND NOT (2 ^ k - 1)"
  have "unat (2 ^ k - 1 :: u64) = P - 1" using P by (subst unat_sub64) simp_all
  moreover have an: "unat (a + n) = unat a + unat n" using b P(1) by (intro unat_add64) linarith
  ultimately have u: "unat (a + n + 2 ^ k - 1) = unat a + unat n + P - 1"
    using unat_add64 [of "a + n" "2 ^ k - 1"] b P(1) by (simp add: add_diff_eq)
  have lo: "unat ?lo \<le> unat a" and hi: "unat a + unat n \<le> unat ?hi"
    using round_bounds [OF P(1)] u by (simp_all add: align_down P_def [symmetric])
  have total: "unat (?hi - ?lo) = unat ?hi - unat ?lo" using lo hi by (intro unat_sub64) simp
  show ?thesis
  proof
    fix x assume "x \<in> block a (unat n)"
    then have x: "unat (x - a) < unat n" by (simp add: block_def)
    have "x - ?lo = (x - a) + (a - ?lo)" by simp
    moreover have "unat (a - ?lo) = unat a - unat ?lo" using lo by (rule unat_sub64)
    ultimately have "unat (x - ?lo) = unat (x - a) + (unat a - unat ?lo)"
      using x assms(2) by (simp only:) (subst unat_add64, auto)
    then show "x \<in> block ?lo (unat (?hi - ?lo))" using x lo hi total by (simp add: block_def)
  qed
qed

section \<open>What patching does\<close>

text \<open>The block and the page behind it do not wrap around the address space.\<close>

definition addr_fits :: "kernel \<Rightarrow> u64 \<Rightarrow> nat \<Rightarrow> bool" where
  "addr_fits K a n \<longleftrightarrow> unat a + n + unat (page_size K) \<le> 2 ^ 64"

definition writable :: "sys \<Rightarrow> u64 \<Rightarrow> nat \<Rightarrow> bool" where
  "writable s a n \<longleftrightarrow> (\<forall>i < n. PROT_WRITE \<in> sprot s (a + of_nat i))"

lemma in_block: "i < n \<Longrightarrow> n \<le> 2 ^ 64 \<Longrightarrow> a + of_nat i \<in> block a n"
  by (simp add: block_def unat_of_nat64)

lemma mprotect_mem: "protect_law K \<Longrightarrow> mprotect K a n p s = (r, s') \<Longrightarrow> smem s' = smem s"
  unfolding protect_law_def Let_def
  by (drule spec [of _ a], drule spec [of _ n], drule spec [of _ p], drule spec [of _ s]) simp

lemma mprotect_sets:
  "protect_law K \<Longrightarrow> mprotect K a n p s = (0, s') \<Longrightarrow> x \<in> block a (unat n) \<Longrightarrow> sprot s' x = p"
  unfolding protect_law_def Let_def
  by (drule spec [of _ a], drule spec [of _ n], drule spec [of _ p], drule spec [of _ s]) simp

lemma mprotect_prot: "protect_law K \<Longrightarrow> mprotect K a n p s = (r, s') \<Longrightarrow> sprot s' x = sprot s x \<or> sprot s' x = p"
  unfolding protect_law_def Let_def
  by (drule spec [of _ a], drule spec [of _ n], drule spec [of _ p], drule spec [of _ s]) simp

lemma RWX_mem: "protect_law K \<Longrightarrow> MakeMemoryRWX K a n s = (r, s') \<Longrightarrow> smem s' = smem s"
  unfolding MakeMemoryRWX_def Let_def by (auto split: prod.splits if_splits dest: mprotect_mem)

lemma RX_mem: "protect_law K \<Longrightarrow> MakeMemoryRX K a n s = (r, s') \<Longrightarrow> smem s' = smem s"
  unfolding MakeMemoryRX_def Let_def by (auto split: prod.splits if_splits dest: mprotect_mem)

text \<open>No protection change makes a byte inaccessible.\<close>

lemma RWX_mapped: "protect_law K \<Longrightarrow> MakeMemoryRWX K a n s = (r, s') \<Longrightarrow> sprot s x \<noteq> {} \<Longrightarrow> sprot s' x \<noteq> {}"
  unfolding MakeMemoryRWX_def Let_def
  by (auto split: prod.splits if_splits dest: mprotect_prot [where x = x])

lemma RX_mapped: "protect_law K \<Longrightarrow> MakeMemoryRX K a n s = (r, s') \<Longrightarrow> sprot s x \<noteq> {} \<Longrightarrow> sprot s' x \<noteq> {}"
  unfolding MakeMemoryRX_def Let_def
  by (auto split: prod.splits if_splits dest: mprotect_prot [where x = x])

lemma RWX_writable:
  assumes "protect_law K" "page_law K" "addr_fits K a (unat n)" "MakeMemoryRWX K a n s = (0, s')"
  shows "writable s' a (unat n)"
proof -
  obtain k where k: "k < 31" "page_size K = 2 ^ k" using assms(2) by (auto simp: page_law_def)
  let ?lo = "a AND NOT (2 ^ k - 1)" and ?hi = "(a + n + 2 ^ k - 1) AND NOT (2 ^ k - 1)"
  have call: "mprotect K ?lo (?hi - ?lo) {PROT_READ, PROT_WRITE, PROT_EXEC} s = (0, s')"
    using assms(4) by (auto simp: MakeMemoryRWX_def PageAlign_def PageSize_def Let_def k(2) split: prod.splits if_splits)
  have "block a (unat n) \<subseteq> block ?lo (unat (?hi - ?lo))"
    using assms(3) k by (intro page_range) (simp_all add: addr_fits_def unat_pow64)
  then have "sprot s' (a + of_nat i) = {PROT_READ, PROT_WRITE, PROT_EXEC}" if "i < unat n" for i
    using mprotect_sets [OF assms(1) call] in_block [OF that, of a] unat_lt64 [of n] by force
  then show ?thesis by (simp add: writable_def)
qed

lemma memcpy_writable:
  "writable s a (length bs) \<Longrightarrow> memcpy_to a bs s = Some (s\<lparr>smem := write_bytes a bs (smem s)\<rparr>)"
  by (simp add: memcpy_to_def writable_def list_all_iff)

lemma memcpy_Some:
  "memcpy_to a bs s = Some s' \<Longrightarrow> smem s' = write_bytes a bs (smem s) \<and> sprot s' = sprot s"
  by (auto simp: memcpy_to_def split: if_splits)

lemma PatchCode_mapped:
  assumes "protect_law K" "PatchCode K target patch n s = Some (r, s')" "sprot s x \<noteq> {}"
  shows "sprot s' x \<noteq> {}"
proof -
  obtain r1 s1 where rw: "MakeMemoryRWX K target n s = (r1, s1)" by fastforce
  note m1 = RWX_mapped [OF assms(1) rw assms(3)]
  have "s' = s \<or> s' = s1 \<or> (\<exists>bs s2. memcpy_to target bs s1 = Some s2 \<and> s' = snd (MakeMemoryRX K target n s2))"
    using assms(2)
    by (auto simp: PatchCode_def rw bind_eq_Some_conv prod.case_eq_if split: option.splits if_splits)
  then show ?thesis
  proof (elim disjE exE conjE)
    fix bs s2 assume c: "memcpy_to target bs s1 = Some s2" "s' = snd (MakeMemoryRX K target n s2)"
    have "sprot s2 x \<noteq> {}" using memcpy_Some [OF c(1)] m1 by simp
    then show ?thesis using RX_mapped [OF assms(1), of target n s2 _ _ x] c(2) by (metis prod.collapse)
  qed (use assms(3) m1 in simp_all)
qed

lemma PatchCode_cases:
  assumes "protect_law K" "page_law K" "addr_fits K target (unat n)" "target \<noteq> 0" "n \<noteq> 0" "unat n \<le> length bs"
  obtains (refused) s' where "PatchCode K target (Some bs) n s = Some (-1, s')" "smem s' = smem s"
      "fst (MakeMemoryRWX K target n s) \<noteq> 0"
    | (patched) s' where "PatchCode K target (Some bs) n s = Some (0, s')"
      "smem s' = write_bytes target (take (unat n) bs) (smem s)" "fst (MakeMemoryRWX K target n s) = 0"
proof -
  obtain r s1 where rw: "MakeMemoryRWX K target n s = (r, s1)" by fastforce
  note mem1 = RWX_mem [OF assms(1) rw]
  show ?thesis
  proof (cases "r = 0")
    case False
    then show ?thesis using refused [of s1] assms(4,5) mem1 by (simp add: PatchCode_def rw)
  next
    case True
    let ?s2 = "s1\<lparr>smem := write_bytes target (take (unat n) bs) (smem s1)\<rparr>"
    obtain r' s3 where rx: "MakeMemoryRX K target n ?s2 = (r', s3)" by fastforce
    have "writable s1 target (length (take (unat n) bs))"
      using RWX_writable [OF assms(1-3)] rw True assms(6) by simp
    then have "memcpy_to target (take (unat n) bs) s1 = Some ?s2" by (rule memcpy_writable)
    then have "PatchCode K target (Some bs) n s = Some (0, s3)"
      using assms(4-6) True by (simp add: PatchCode_def rw rx)
    then show ?thesis using patched [of s3] RX_mem [OF assms(1) rx] mem1 rw True by simp
  qed
qed

text \<open>A kernel that grants every protection change and maps at one address while it is free; it
  instantiates the hypotheses.\<close>

definition grant :: "u64 \<Rightarrow> u64 \<Rightarrow> perm set \<Rightarrow> sys \<Rightarrow> sys" where
  "grant a n p s = s\<lparr>sprot := (\<lambda>x. if unat (x - a) < unat n then p else sprot s x)\<rparr>"

definition easy_kernel :: kernel where
  "easy_kernel = \<lparr>page_size = 4096, mprotect = (\<lambda>a n p s. (0, grant a n p s)),
     mmap = (\<lambda>a n p f s.
       if f = MAP_ANYWHERE \<and> unat n \<le> 2 ^ 32 \<and> (\<forall>x \<in> block 0x40000000 (unat n). sprot s x = {})
       then (Some 0x40000000, grant 0x40000000 n p s) else (None, s)),
     maps_lines = (\<lambda>s. [])\<rparr>"

lemma easy_laws: "protect_law easy_kernel" "page_law easy_kernel" "map_law easy_kernel"
proof -
  show "protect_law easy_kernel" by (simp add: protect_law_def easy_kernel_def grant_def block_def)
  have "page_size easy_kernel = 2 ^ 12" by (simp add: easy_kernel_def)
  then show "page_law easy_kernel" unfolding page_law_def by (intro exI [of _ 12]) simp
  show "map_law easy_kernel"
    by (simp add: map_law_def mapped_ok_def easy_kernel_def grant_def block_def)
qed

text \<open>Claim C21 (patching is all or nothing): for a non-null target and \<open>n > 0\<close> bytes that do not wrap
  around the address space, \<open>PatchCode\<close> never faults. If the kernel refuses write access it
  returns -1 with memory untouched, otherwise it returns 0 and memory differs exactly in the
  \<open>n\<close> bytes at the target, which hold the patch.\<close>

theorem PatchCode_atomic:
  assumes "protect_law K" "page_law K" "addr_fits K target (unat n)" "target \<noteq> 0" "n \<noteq> 0" "unat n \<le> length bs"
  shows "\<exists>r s'. PatchCode K target (Some bs) n s = Some (r, s') \<and>
    (r = 0 \<or> r = -1) \<and> (r = 0 \<longleftrightarrow> fst (MakeMemoryRWX K target n s) = 0) \<and>
    (r = -1 \<longrightarrow> smem s' = smem s) \<and>
    (r = 0 \<longrightarrow> read_bytes (smem s') target (unat n) = take (unat n) bs \<and>
      (\<forall>x. x \<notin> block target (unat n) \<longrightarrow> smem s' x = smem s x))"
  using assms
proof (cases rule: PatchCode_cases [where s = s])
  case (refused s')
  then show ?thesis by auto
next
  case (patched s')
  have len: "length (take (unat n) bs) = unat n" using assms(6) by simp
  then have "bytes_at (smem s') target (take (unat n) bs)"
    unfolding patched(2) using unat_lt64 [of n] by (intro bytes_at_write) simp
  then have "read_bytes (smem s') target (unat n) = take (unat n) bs"
    using assms(6) by (intro nth_equalityI) (auto simp: read_bytes_def bytes_at_def)
  moreover have "smem s' x = smem s x" if "x \<notin> block target (unat n)" for x
    unfolding patched(2) using that len by (intro write_bytes_outside) simp
  ultimately show ?thesis using patched(1,3) by auto
qed

theorem PatchCode_atomic_witness:
  "\<exists>s'. PatchCode easy_kernel 0x1000 (Some [1, 2, 3, 4]) 4 \<lparr>smem = (\<lambda>_. 0), sprot = (\<lambda>_. {})\<rparr> = Some (0, s') \<and>
    read_bytes (smem s') 0x1000 4 = [1, 2, 3, 4]"
proof -
  have "addr_fits easy_kernel 0x1000 4" by (simp add: addr_fits_def easy_kernel_def)
  moreover have "fst (MakeMemoryRWX easy_kernel 0x1000 4 s) = 0" for s
    by (simp add: MakeMemoryRWX_def Let_def easy_kernel_def)
  ultimately show ?thesis
    using PatchCode_atomic [OF easy_laws(1,2), of "0x1000" 4 "[1, 2, 3, 4]" "\<lparr>smem = (\<lambda>_. 0), sprot = (\<lambda>_. {})\<rparr>"]
    by fastforce
qed

end
