(* ===== verification/C_Strings.thy ===== *)
theory C_Strings
  imports Prelude
begin

text \<open>
  What the sources use of the C library on strings: reading lines, the conversions of \<open>sscanf\<close> and the search for a substring. Printed numbers
  and words are shown to be read back.
\<close>

section \<open>Conversions\<close>

fun fgets :: "nat \<Rightarrow> string \<Rightarrow> string \<times> string" where
  "fgets 0 cs = ([], cs)"
| "fgets (Suc n) [] = ([], [])"
| "fgets (Suc n) (c # cs) = (if c = CHR 0x0A then ([c], cs) else map_prod (Cons c) id (fgets n cs))"

definition is_space :: "char \<Rightarrow> bool" where
  "is_space c \<longleftrightarrow> c \<in> {CHR '' '', CHR 0x09, CHR 0x0A, CHR 0x0B, CHR 0x0C, CHR 0x0D}"

definition digit_value :: "char \<Rightarrow> nat" where
  "digit_value c =
    (let n = (of_char c :: nat)
     in if 48 \<le> n \<and> n \<le> 57 then n - 48 else if 97 \<le> n \<and> n \<le> 102 then n - 87 else if 65 \<le> n \<and> n \<le> 70 then n - 55 else 16)"

definition is_digit :: "nat \<Rightarrow> char \<Rightarrow> bool" where
  "is_digit base c \<longleftrightarrow> digit_value c < base"

definition digits_value :: "nat \<Rightarrow> string \<Rightarrow> nat" where
  "digits_value base cs = foldl (\<lambda>v c. v * base + digit_value c) 0 cs"

definition skip_space :: "string \<Rightarrow> string" where
  "skip_space cs = dropWhile is_space cs"

text \<open>An optional sign and, in base 16, an optional prefix \<open>0x\<close>.\<close>

definition scan_sign :: "string \<Rightarrow> bool \<times> string" where
  "scan_sign cs =
    (case cs of c # cs' \<Rightarrow> if c = CHR ''-'' then (True, cs') else if c = CHR ''+'' then (False, cs') else (False, cs) | [] \<Rightarrow> (False, []))"

definition scan_prefix :: "nat \<Rightarrow> string \<Rightarrow> string" where
  "scan_prefix base cs =
    (case cs of a # b # c # cs' \<Rightarrow> if base = 16 \<and> a = CHR ''0'' \<and> b \<in> {CHR ''x'', CHR ''X''} \<and> is_digit 16 c then c # cs' else cs | _ \<Rightarrow> cs)"

text \<open>\<open>%lx\<close>, \<open>%x\<close> and \<open>%u\<close>: too large a number gives the largest one.\<close>

definition scan_number :: "nat \<Rightarrow> string \<Rightarrow> (u64 \<times> string) option" where
  "scan_number base cs =
    (case scan_sign (skip_space cs) of (neg, cs) \<Rightarrow>
       let cs = scan_prefix base cs;
           ds = takeWhile (is_digit base) cs;
           v = digits_value base ds;
           w = (if v < 2 ^ 64 then of_nat v else - 1)
       in if ds = [] then None else Some (if neg \<and> v < 2 ^ 64 then - w else w, drop (length ds) cs))"

definition scan_char :: "char \<Rightarrow> string \<Rightarrow> string option" where
  "scan_char c cs = (case cs of c' # cs' \<Rightarrow> if c' = c then Some cs' else None | [] \<Rightarrow> None)"

definition scan_word :: "nat \<Rightarrow> string \<Rightarrow> (string \<times> string) option" where
  "scan_word width cs =
    (let cs = skip_space cs; w = take width (takeWhile (\<lambda>c. \<not> is_space c) cs)
     in if w = [] then None else Some (w, drop (length w) cs))"

definition scan_line :: "nat \<Rightarrow> string \<Rightarrow> string" where
  "scan_line width cs = take width (takeWhile (\<lambda>c. c \<noteq> CHR 0x0A) cs)"

text \<open>\<open>strstr\<close> and \<open>find\<close>.\<close>

fun contains :: "string \<Rightarrow> string \<Rightarrow> bool" where
  "contains p [] \<longleftrightarrow> p = []"
| "contains p (c # cs) \<longleftrightarrow> take (length p) (c # cs) = p \<or> contains p cs"

section \<open>Numbers are read back\<close>

definition digit_char :: "nat \<Rightarrow> char" where
  "digit_char d = char_of (if d < 10 then 48 + d else 87 + d)"

fun show_num :: "nat \<Rightarrow> nat \<Rightarrow> string" where
  "show_num base n = (if n < base \<or> base < 2 then [digit_char n] else show_num base (n div base) @ [digit_char (n mod base)])"

declare show_num.simps [simp del]

lemma digit_char_value [simp]: "d < 16 \<Longrightarrow> digit_value (digit_char d) = d"
proof -
  assume "d < 16"
  then have "digit_value (digit_char d) = d" if "d \<in> {0..<16}"
    using that by (simp add: digit_value_def digit_char_def Let_def)
  then show ?thesis using \<open>d < 16\<close> by simp
qed

lemma show_num_induct [consumes 1, case_names digit more]:
  fixes n :: nat
  assumes "2 \<le> base" "\<And>n. n < base \<Longrightarrow> P n" "\<And>n. base \<le> n \<Longrightarrow> P (n div base) \<Longrightarrow> P n"
  shows "P n"
proof (induction n rule: less_induct)
  case (less n)
  show ?case
  proof (cases "n < base")
    case False
    then have "n div base < n" using assms(1) by (intro div_less_dividend) auto
    then show ?thesis using less assms(3) [of n] False by simp
  qed (rule assms(2))
qed

lemma show_num_digits:
  assumes "2 \<le> base" "base \<le> 16"
  shows "show_num base n \<noteq> [] \<and> (\<forall>c \<in> set (show_num base n). is_digit base c)"
  using assms(1)
proof (induction n rule: show_num_induct)
  case (digit n) then show ?case using assms by (subst (1 2) show_num.simps) (simp add: is_digit_def)
next
  case (more n)
  have "n mod base < base" using assms(1) by simp
  then have "digit_value (digit_char (n mod base)) < base" using assms(2) by simp
  then show ?case using more assms by (subst (1 2) show_num.simps) (auto simp: is_digit_def)
qed

lemma digits_value_snoc: "digits_value base (cs @ [c]) = digits_value base cs * base + digit_value c"
  by (simp add: digits_value_def)

lemma show_num_value:
  assumes "2 \<le> base" "base \<le> 16"
  shows "digits_value base (show_num base n) = n"
  using assms(1)
proof (induction n rule: show_num_induct)
  case (digit n) then show ?case using assms by (subst show_num.simps) (simp add: digits_value_def)
next
  case (more n)
  have "n mod base < base" using assms(1) by simp
  then have "n mod base < 16" using assms(2) by simp
  then show ?case using more assms by (subst show_num.simps) (simp add: digits_value_snoc)
qed

lemma digits_value_zeros: "digits_value base (replicate k (CHR ''0'') @ cs) = digits_value base cs"
proof (induction k)
  case (Suc k)
  have "foldl (\<lambda>v c. v * base + digit_value c) 0 (CHR ''0'' # xs) = foldl (\<lambda>v c. v * base + digit_value c) 0 xs" for xs
    by (simp add: digit_value_def)
  then show ?case using Suc by (simp add: digits_value_def)
qed simp

lemma digit_facts: "is_digit base c \<Longrightarrow> base \<le> 16 \<Longrightarrow> \<not> is_space c \<and> c \<notin> {CHR ''-'', CHR ''+'', CHR ''x'', CHR ''X'', CHR 0x0A}"
  by (auto simp: is_digit_def digit_value_def is_space_def)

lemma skip_spaces: "\<forall>c \<in> set sp. is_space c \<Longrightarrow> cs = [] \<or> \<not> is_space (hd cs) \<Longrightarrow> skip_space (sp @ cs) = cs"
  by (cases cs) (simp_all add: skip_space_def dropWhile_append)

lemma scan_number_ok:
  assumes "ds \<noteq> []" "\<forall>c \<in> set ds. is_digit base c" "base \<le> 16" "digits_value base ds < 2 ^ 64" "\<forall>c \<in> set sp. is_space c"
    "\<not> is_digit base c" "c \<notin> {CHR ''x'', CHR ''X''}"
  shows "scan_number base (sp @ ds @ c # rest) = Some (of_nat (digits_value base ds), c # rest)"
proof -
  obtain d ds' where ds: "ds = d # ds'" using assms(1) by (cases ds) auto
  have d: "\<not> is_space d" "d \<notin> {CHR ''-'', CHR ''+''}" using digit_facts [of base d] assms(2,3) ds by auto
  have s: "skip_space (sp @ ds @ c # rest) = ds @ c # rest" using assms(5) d(1) ds by (intro skip_spaces) auto
  have g: "scan_sign (ds @ c # rest) = (False, ds @ c # rest)" using d(2) ds by (simp add: scan_sign_def)
  have "hd (ds' @ c # rest) \<notin> {CHR ''x'', CHR ''X''}"
    using assms(2,3,7) ds digit_facts [of base "hd ds'"] by (cases ds') auto
  then have p: "scan_prefix base (ds @ c # rest) = ds @ c # rest"
    using ds by (cases ds'; cases rest) (auto simp: scan_prefix_def split: list.splits)
  have t: "takeWhile (is_digit base) (ds @ c # rest) = ds" using assms(2,6) by (simp add: takeWhile_append)
  show ?thesis using s g p t assms(1,4) by (simp add: scan_number_def Let_def)
qed

lemma scan_word_ok:
  assumes "w \<noteq> []" "\<forall>c \<in> set w. \<not> is_space c" "length w \<le> width" "\<forall>c \<in> set sp. is_space c" "is_space c"
  shows "scan_word width (sp @ w @ c # rest) = Some (w, c # rest)"
proof -
  have "skip_space (sp @ w @ c # rest) = w @ c # rest" using assms by (intro skip_spaces) (cases w; auto)+
  moreover have "takeWhile (\<lambda>c. \<not> is_space c) (w @ c # rest) = w" using assms(2,5) by (simp add: takeWhile_append)
  moreover have "0 < width" using assms(1,3) by (cases w) auto
  ultimately show ?thesis using assms(1,3) by (auto simp: scan_word_def Let_def)
qed

section \<open>Lines and substrings\<close>

lemma fgets_shorter: "0 < n \<Longrightarrow> cs \<noteq> [] \<Longrightarrow> length (snd (fgets n cs)) < length cs"
proof (induction n cs rule: fgets.induct)
  case (3 n c cs)
  have "length (snd (fgets n cs)) \<le> length cs"
    by (induction n cs rule: fgets.induct) (auto simp: le_SucI)
  then show ?case by simp
qed simp_all

lemma fgets_line: "CHR 0x0A \<notin> set xs \<Longrightarrow> length xs < n \<Longrightarrow> fgets n (xs @ CHR 0x0A # rest) = (xs @ [CHR 0x0A], rest)"
proof (induction xs arbitrary: n)
  case Nil then show ?case by (cases n) simp_all
next
  case (Cons x xs) then show ?case by (cases n) auto
qed

lemma contains_infix: "contains p (xs @ p @ ys)"
proof (induction xs)
  case Nil
  show ?case by (cases p; cases ys) simp_all
qed simp

end
