(* ===== verification/Memory_Allocator.thy ===== *)
theory Memory_Allocator
  imports Code_Patch C_Strings
begin

text \<open>
  \<open>memory_allocator.cpp\<close>: executable memory near a target, carved from pages by bumping an
  offset, with new pages mapped in gaps of \<open>/proc/self/maps\<close> or anywhere. Null pointers are
  the address 0. The lines of the maps file and the mapping calls come from the kernel.
  Shown: the parser reads back the kernel's format, blocks handed out never overlap, stay
  inside their page and in range where the code checks it, and what an oversized request does.
\<close>

section \<open>Reading /proc/self/maps\<close>

record MemRegion =
  r_start :: u64
  r_end :: u64
  r_readable :: bool
  r_writable :: bool
  r_executable :: bool

fun perm_at :: "nat \<Rightarrow> char \<Rightarrow> string \<Rightarrow> bool" where
  "perm_at i c perms = (i < length perms \<and> perms ! i = c)"

text \<open>\<open>sscanf(line, "%lx-%lx %4s")\<close> and the flags.\<close>

definition parse_maps_line :: "string \<Rightarrow> MemRegion option" where
  "parse_maps_line line =
    do { (start, s) \<leftarrow> scan_number 16 line;
         s \<leftarrow> scan_char (CHR ''-'') s;
         (end', s) \<leftarrow> scan_number 16 s;
         (perms, s) \<leftarrow> scan_word 4 s;
         Some \<lparr>r_start = start, r_end = end', r_readable = perm_at 0 (CHR ''r'') perms,
           r_writable = perm_at 1 (CHR ''w'') perms, r_executable = perm_at 2 (CHR ''x'') perms\<rparr> }"

definition ParseMaps :: "kernel \<Rightarrow> sys \<Rightarrow> MemRegion list" where
  "ParseMaps K s = List.map_filter parse_maps_line (maps_lines K s)"

section \<open>Pages\<close>

record LinearPage =
  pbase :: u64
  pused :: u32
  pcap :: u32

type_synonym pages = "LinearPage list"

definition GetPageSize :: "kernel \<Rightarrow> u64" where
  "GetPageSize K = page_size K"

definition AllocPage :: "kernel \<Rightarrow> pages \<Rightarrow> sys \<Rightarrow> u64 \<times> pages \<times> sys" where
  "AllocPage K pages s =
    (case mmap K 0 (GetPageSize K) {PROT_READ, PROT_EXEC} MAP_ANYWHERE s of
       (None, s) \<Rightarrow> (0, pages, s)
     | (Some page, s) \<Rightarrow>
         (page, pages @ [\<lparr>pbase = page, pused = 0, pcap = ucast (GetPageSize K)\<rparr>], s))"

definition AllocFixedPage :: "kernel \<Rightarrow> u64 \<Rightarrow> pages \<Rightarrow> sys \<Rightarrow> u64 \<times> pages \<times> sys" where
  "AllocFixedPage K addr pages s =
    (let aligned = addr AND NOT (GetPageSize K - 1);
         (page, s) = mmap K aligned (GetPageSize K) {PROT_READ, PROT_EXEC} MAP_FIXED_NOREPLACE s;
         (page, s) = (case page of
             Some p \<Rightarrow> (page, s)
           | None \<Rightarrow> mmap K aligned (GetPageSize K) {PROT_READ, PROT_EXEC} MAP_FIXED s)
     in case page of
          None \<Rightarrow> (0, pages, s)
        | Some p \<Rightarrow> (p, pages @ [\<lparr>pbase = p, pused = 0, pcap = ucast (GetPageSize K)\<rparr>], s))"

definition BeginWrite :: "kernel \<Rightarrow> u64 \<Rightarrow> u64 \<Rightarrow> sys \<Rightarrow> int \<times> sys" where
  "BeginWrite K addr size' s = MakeMemoryRWX K addr size' s"

definition EndWrite :: "kernel \<Rightarrow> u64 \<Rightarrow> u64 \<Rightarrow> sys \<Rightarrow> int \<times> sys" where
  "EndWrite K addr size' s = MakeMemoryRX K addr size' s"

text \<open>\<open>pages_.back().used = size\<close>\<close>

definition set_last_used :: "u64 \<Rightarrow> pages \<Rightarrow> pages" where
  "set_last_used size' pages = butlast pages @ [(last pages)\<lparr>pused := ucast size'\<rparr>]"

fun scan_existing :: "u64 \<Rightarrow> u64 \<Rightarrow> u64 \<Rightarrow> pages \<Rightarrow> u64 \<times> pages" where
  "scan_existing size' lo hi [] = (0, [])"
| "scan_existing size' lo hi (page # pages) =
     (let remaining = pcap page - pused page;
          alloc_addr = pbase page + ucast (pused page)
      in if \<not> (ucast remaining < size') \<and> lo \<le> alloc_addr \<and> alloc_addr \<le> hi
         then (alloc_addr, page\<lparr>pused := pused page + ucast size'\<rparr> # pages)
         else let (r, pages') = scan_existing size' lo hi pages in (r, page # pages'))"

definition TryAllocFromExisting :: "u64 \<Rightarrow> u64 \<Rightarrow> u64 \<Rightarrow> pages \<Rightarrow> u64 \<times> pages" where
  "TryAllocFromExisting size' near_addr range' pages =
    (let lo = (if range' < near_addr then near_addr - range' else 0);
         hi = near_addr + range'
     in scan_existing size' lo hi pages)"

fun gap_loop :: "kernel \<Rightarrow> u64 \<Rightarrow> u64 \<Rightarrow> u64 \<Rightarrow> MemRegion list \<Rightarrow> pages \<Rightarrow> sys \<Rightarrow> u64 \<times> pages \<times> sys" where
  "gap_loop K size' lo hi (r1 # r2 # rs) pages s =
    (let gap_start = r_end r1;
         gap_end = r_start r2;
         page_size' = GetPageSize K;
         candidate = (gap_start + page_size' - 1) AND NOT (page_size' - 1)
     in if gap_end \<le> gap_start \<or> gap_end < candidate + page_size'
        then gap_loop K size' lo hi (r2 # rs) pages s
        else if lo \<le> candidate \<and> candidate \<le> hi
        then let (page, pages, s) = AllocFixedPage K candidate pages s
             in if page \<noteq> 0 then (page, set_last_used size' pages, s)
                else gap_loop K size' lo hi (r2 # rs) pages s
        else gap_loop K size' lo hi (r2 # rs) pages s)"
| "gap_loop K size' lo hi rs pages s = (0, pages, s)"

definition TryAllocInGap :: "kernel \<Rightarrow> u64 \<Rightarrow> u64 \<Rightarrow> u64 \<Rightarrow> pages \<Rightarrow> sys \<Rightarrow> u64 \<times> pages \<times> sys" where
  "TryAllocInGap K size' near_addr range' pages s =
    (let regions = ParseMaps K s in
     if regions = [] then (0, pages, s)
     else
       let lo = (if range' < near_addr then near_addr - range' else 0);
           hi = near_addr + range';
           page_size' = GetPageSize K;
           regions = sort_key r_start regions;
           (page, pages, s) = gap_loop K size' lo hi regions pages s
       in if page \<noteq> 0 then (page, pages, s)
          else
            let before = (lo + page_size' - 1) AND NOT (page_size' - 1) in
            if before < r_start (hd regions) \<and> lo \<le> before
            then let (page, pages, s) = AllocFixedPage K before pages s
                 in if page \<noteq> 0 then (page, set_last_used size' pages, s) else (0, pages, s)
            else (0, pages, s))"

definition AllocNearCode :: "kernel \<Rightarrow> u64 \<Rightarrow> u64 \<Rightarrow> u64 \<Rightarrow> pages \<Rightarrow> sys \<Rightarrow> u64 \<times> pages \<times> sys" where
  "AllocNearCode K size' near_addr range' pages s =
    (let size' = (size' + 7) AND NOT 7;
         (result, pages) = TryAllocFromExisting size' near_addr range' pages
     in if result \<noteq> 0 then (result, pages, s)
        else
          let (result, pages, s) = TryAllocInGap K size' near_addr range' pages s
          in if result \<noteq> 0 then (result, pages, s)
             else
               let (page, pages, s) = AllocPage K pages s
               in if page = 0 then (0, pages, s) else (page, set_last_used size' pages, s))"

section \<open>What an allocation does\<close>

text \<open>Three outcomes: nothing, a bump inside an existing page, or a new page.\<close>

lemma scan_existing_cases:
  assumes "scan_existing n lo hi ps = (r, ps')"
  obtains (none) "r = 0" "ps' = ps"
    | (bump) xs p ys where "ps = xs @ p # ys" "ps' = xs @ p\<lparr>pused := pused p + ucast n\<rparr> # ys"
      "r = pbase p + ucast (pused p)" "n \<le> ucast (pcap p - pused p)" "lo \<le> r" "r \<le> hi"
  using assms
proof (induction ps arbitrary: r ps' thesis)
  case Nil
  then show ?case by simp
next
  case (Cons q qs)
  show ?case
  proof (cases "\<not> (ucast (pcap q - pused q) < n) \<and> lo \<le> pbase q + ucast (pused q) \<and> pbase q + ucast (pused q) \<le> hi")
    case True
    then show ?thesis using Cons.prems(2) [of "[]" q qs] Cons.prems(3) by (simp add: Let_def not_less)
  next
    case False
    obtain r1 ps1 where rec: "scan_existing n lo hi qs = (r1, ps1)" by fastforce
    with False Cons.prems(3) have eq: "r = r1" "ps' = q # ps1" by (auto simp: Let_def split: if_splits)
    show ?thesis
    proof (rule Cons.IH [OF _ _ rec])
      show thesis if "r1 = 0" "ps1 = qs" using that Cons.prems(1) eq by simp
      show thesis if "qs = xs @ p # ys" "ps1 = xs @ p\<lparr>pused := pused p + ucast n\<rparr> # ys"
        "r1 = pbase p + ucast (pused p)" "n \<le> ucast (pcap p - pused p)" "lo \<le> r1" "r1 \<le> hi" for xs p ys
        using Cons.prems(2) [of "q # xs" p ys] that eq by simp
    qed
  qed
qed

abbreviation new_page :: "kernel \<Rightarrow> u64 \<Rightarrow> u64 \<Rightarrow> LinearPage" where
  "new_page K b n \<equiv> \<lparr>pbase = b, pused = ucast n, pcap = ucast (page_size K)\<rparr>"

abbreviation maps_page :: "kernel \<Rightarrow> sys \<Rightarrow> u64 \<Rightarrow> sys \<Rightarrow> bool" where
  "maps_page K s b s' \<equiv> \<exists>a f. mmap K a (page_size K) {PROT_READ, PROT_EXEC} f s = (Some b, s')"

lemma mmap_None: "map_law K \<Longrightarrow> mmap K a n p f s = (None, s') \<Longrightarrow> s' = s"
  unfolding map_law_def
  by (drule spec [of _ a], drule spec [of _ n], drule spec [of _ p], drule spec [of _ f], drule spec [of _ s]) simp

lemma mmap_Some: "map_law K \<Longrightarrow> mmap K a n p f s = (Some b, s') \<Longrightarrow> mapped_ok K a n p f s b s'"
  unfolding map_law_def
  by (drule spec [of _ a], drule spec [of _ n], drule spec [of _ p], drule spec [of _ f], drule spec [of _ s]) simp

lemma AllocFixedPage_cases:
  assumes "map_law K" "AllocFixedPage K a ps s = (r, ps', s')"
  shows "(r = 0 \<and> ps' = ps \<and> s' = s) \<or>
    (r \<noteq> 0 \<and> r = a AND NOT (page_size K - 1) \<and> ps' = ps @ [new_page K r 0] \<and> maps_page K s r s')"
proof -
  let ?al = "a AND NOT (page_size K - 1)" and ?p = "{PROT_READ, PROT_EXEC}"
  obtain q1 s1 where m1: "mmap K ?al (page_size K) ?p MAP_FIXED_NOREPLACE s = (q1, s1)" by fastforce
  show ?thesis
  proof (cases q1)
    case (Some b)
    then show ?thesis
      using assms(2) m1 mmap_Some [OF assms(1) m1 [unfolded Some]]
      by (auto simp: AllocFixedPage_def Let_def GetPageSize_def mapped_ok_def)
  next
    case None
    have s1: "s1 = s" using mmap_None [OF assms(1)] m1 None by blast
    obtain q2 s2 where m2: "mmap K ?al (page_size K) ?p MAP_FIXED s = (q2, s2)" by fastforce
    show ?thesis
    proof (cases q2)
      case None': None
      have "s2 = s" using mmap_None [OF assms(1)] m2 None' by blast
      then show ?thesis using assms(2) m1 m2 None None' s1 by (auto simp: AllocFixedPage_def Let_def GetPageSize_def mapped_ok_def)
    next
      case (Some b)
      then show ?thesis
        using assms(2) m1 m2 None s1 mmap_Some [OF assms(1) m2 [unfolded Some]]
        by (auto simp: AllocFixedPage_def Let_def GetPageSize_def mapped_ok_def)
    qed
  qed
qed

lemma set_last_used_new [simp]: 
  "set_last_used n (ps @ [\<lparr>pbase = b, pused = 0, pcap = c\<rparr>]) = ps @ [\<lparr>pbase = b, pused = ucast n, pcap = c\<rparr>]"
  by (simp add: set_last_used_def)

lemma gap_loop_cases:
  assumes "map_law K" "gap_loop K n lo hi rs ps s = (r, ps', s')"
  shows "(r = 0 \<and> ps' = ps \<and> s' = s) \<or>
    (r \<noteq> 0 \<and> ps' = ps @ [new_page K r n] \<and> maps_page K s r s')"
  using assms(2)
proof (induction rs arbitrary: r ps' s' rule: induct_list012)
  case (3 r1 r2 rs)
  obtain q ps1 s1 where a: "AllocFixedPage K ((r_end r1 + page_size K - 1) AND NOT (page_size K - 1)) ps s = (q, ps1, s1)"
    using prod_cases3 by blast
  show ?case
  proof (cases "gap_loop K n lo hi (r2 # rs) ps s = (r, ps', s')")
    case True
    then show ?thesis by (rule 3(2))
  next
    case False
    with "3.prems" have "r = q" "ps' = set_last_used n ps1" "s' = s1" "q \<noteq> 0"
      using AllocFixedPage_cases [OF assms(1) a] a
      by (auto simp: Let_def GetPageSize_def split: if_splits)
    then show ?thesis using AllocFixedPage_cases [OF assms(1) a] by auto
  qed
qed auto

lemma TryAllocInGap_cases:
  assumes "map_law K" "TryAllocInGap K n near range' ps s = (r, ps', s')"
  shows "(r = 0 \<and> ps' = ps \<and> s' = s) \<or>
    (r \<noteq> 0 \<and> ps' = ps @ [new_page K r n] \<and> maps_page K s r s')"
proof -
  define lo hi where "lo = (if range' < near then near - range' else 0)" and "hi = near + range'"
  let ?rs = "sort_key r_start (ParseMaps K s)"
  let ?b = "(lo + page_size K - 1) AND NOT (page_size K - 1)"
  obtain q1 ps1 s1 where g: "gap_loop K n lo hi ?rs ps s = (q1, ps1, s1)" using prod_cases3 by blast
  obtain q2 ps2 s2 where f: "AllocFixedPage K ?b ps s = (q2, ps2, s2)" using prod_cases3 by blast
  note unf = assms(2) [unfolded TryAllocInGap_def Let_def GetPageSize_def, folded lo_def hi_def]
  show ?thesis
    using unf gap_loop_cases [OF assms(1) g] AllocFixedPage_cases [OF assms(1) f]
    by (auto simp: g f split: if_splits)
qed

section \<open>Blocks handed out\<close>

lemma block_split:
  assumes "u + n \<le> 2 ^ 64"
  shows "block b (u + n) = block b u \<union> block (b + of_nat u) n" "block b u \<inter> block (b + of_nat u) n = {}"
proof -
  have *: "unat (x - (b + of_nat u)) < n \<longleftrightarrow> u \<le> unat (x - b) \<and> unat (x - b) < u + n" for x
  proof -
    let ?d = "x - b"
    have eq: "x - (b + of_nat u) = ?d - of_nat u" by simp
    show ?thesis
    proof (cases "u \<le> unat ?d")
      case True
      then have "unat (of_nat u :: u64) = u" using unat_lt64 [of ?d] by (intro unat_of_nat64) linarith
      then have "unat (?d - of_nat u) = unat ?d - u" using True unat_sub64 [of "of_nat u" ?d] by simp
      then show ?thesis using True by (auto simp: eq)
    next
      case False
      have "\<not> unat (?d - of_nat u) < n"
      proof
        assume l: "unat (?d - of_nat u) < n"
        have u: "u - unat ?d < 2 ^ 64" using l assms by linarith
        have "(?d - of_nat u) + of_nat (u - unat ?d) = 0"
          using False by (simp add: of_nat_diff)
        moreover have "unat ((?d - of_nat u) + of_nat (u - unat ?d)) = unat (?d - of_nat u) + (u - unat ?d)"
          using l assms u unat_of_nat64 [OF u] by (subst unat_add64) simp_all
        ultimately show False using False by (metis add_is_0 diff_is_0_eq not_le order_refl unsigned_0)
      qed
      then show ?thesis using False by (simp add: eq)
    qed
  qed
  show "block b (u + n) = block b u \<union> block (b + of_nat u) n"
    by (rule set_eqI) (simp only: block_def mem_Collect_eq Un_iff *, linarith)
  show "block b u \<inter> block (b + of_nat u) n = {}"
    by (rule equals0I) (simp only: block_def mem_Collect_eq Int_iff *, linarith)
qed

definition pblock :: "LinearPage \<Rightarrow> u64 set" where
  "pblock p = block (pbase p) (unat (pcap p))"

definition pgiven :: "LinearPage \<Rightarrow> u64 set" where
  "pgiven p = block (pbase p) (unat (pused p))"

definition given :: "pages \<Rightarrow> u64 set" where
  "given ps = (\<Union>p \<in> set ps. pgiven p)"

definition page_ok :: "kernel \<Rightarrow> sys \<Rightarrow> LinearPage \<Rightarrow> bool" where
  "page_ok K s p \<longleftrightarrow> pused p \<le> pcap p \<and> pcap p = ucast (page_size K) \<and> pbase p \<noteq> 0 \<and>
    unat (pbase p) + unat (pcap p) \<le> 2 ^ 63 \<and> (\<forall>x \<in> pblock p. sprot s x \<noteq> {})"

fun pages_disjoint :: "pages \<Rightarrow> bool" where
  "pages_disjoint [] = True"
| "pages_disjoint (p # ps) = ((\<forall>q \<in> set ps. pblock p \<inter> pblock q = {}) \<and> pages_disjoint ps)"

definition pages_ok :: "kernel \<Rightarrow> sys \<Rightarrow> pages \<Rightarrow> bool" where
  "pages_ok K s ps \<longleftrightarrow> list_all (page_ok K s) ps \<and> pages_disjoint ps"

definition map_fresh :: "kernel \<Rightarrow> bool" where
  "map_fresh K \<longleftrightarrow> (\<forall>a n p s b s'. mmap K a n p MAP_FIXED s = (Some b, s') \<longrightarrow>
     (\<forall>x \<in> block b (unat n). sprot s x = {}))"

lemma pages_disjoint_append:
  "pages_disjoint (ps @ qs) \<longleftrightarrow> pages_disjoint ps \<and> pages_disjoint qs \<and>
    (\<forall>p \<in> set ps. \<forall>q \<in> set qs. pblock p \<inter> pblock q = {})"
  by (induction ps) auto

lemma pgiven_sub: "pused p \<le> pcap p \<Longrightarrow> pgiven p \<subseteq> pblock p"
  by (auto simp: pgiven_def pblock_def block_def word_le_nat_alt)

lemma unat_ucast_up [simp]: "unat (ucast (x::u32) :: u64) = unat x"
  by (simp add: unsigned_ucast_eq take_bit_nat_eq_self unat_lt32 order_less_trans [OF unat_lt32])

lemma unat_ucast_down: "unat (n::u64) < 2 ^ 32 \<Longrightarrow> unat (ucast n :: u32) = unat n"
  by (simp add: unsigned_ucast_eq take_bit_nat_eq_self)

lemma page_okD:
  "page_ok K s p \<Longrightarrow> pused p \<le> pcap p" "page_ok K s p \<Longrightarrow> pbase p \<noteq> 0"
  "page_ok K s p \<Longrightarrow> unat (pbase p) + unat (pcap p) \<le> 2 ^ 63"
  "page_ok K s p \<Longrightarrow> x \<in> pblock p \<Longrightarrow> sprot s x \<noteq> {}"
  unfolding page_ok_def by blast+

lemma bump_ok:
  fixes n :: u64
  assumes ok: "pages_ok K s (xs @ p # ys)" and n: "0 < unat n" "n \<le> ucast (pcap p - pused p)"
  defines "p' \<equiv> p\<lparr>pused := pused p + ucast n\<rparr>" and "r \<equiv> pbase p + ucast (pused p)"
  shows "pages_ok K s (xs @ p' # ys)" "r \<noteq> 0" "block r (unat n) \<inter> given (xs @ p # ys) = {}"
    "given (xs @ p' # ys) = given (xs @ p # ys) \<union> block r (unat n)" "block r (unat n) \<subseteq> pblock p"
    "unat r + unat n \<le> 2 ^ 63"
proof -
  have p: "page_ok K s p" using ok by (simp add: pages_ok_def)
  have u: "unat (pcap p - pused p) = unat (pcap p) - unat (pused p)" "unat (pused p) \<le> unat (pcap p)"
    using page_okD(1) [OF p] by (simp_all add: unat_sub word_le_nat_alt)
  have fit: "unat (pused p) + unat n \<le> unat (pcap p)" using n(2) u by (simp add: word_le_nat_alt)
  have n32: "unat n < 2 ^ 32" using fit unat_lt32 [of "pcap p"] by simp
  have used: "unat (pused p + ucast n) = unat (pused p) + unat n"
    using fit unat_lt32 [of "pcap p"] unat_ucast_down [OF n32] by (simp add: unat_word_ariths)
  have r: "r = pbase p + of_nat (unat (pused p))" by (simp add: r_def)
  have cap: "unat (pcap p) < 2 ^ 32" using unat_lt32 [of "pcap p"] by simp
  have given: "pgiven p' = pgiven p \<union> block r (unat n)" "pgiven p \<inter> block r (unat n) = {}"
    using block_split [of "unat (pused p)" "unat n" "pbase p"] fit cap used
    by (simp_all add: pgiven_def p'_def r)
  have "pused p' \<le> pcap p" using fit used by (simp add: p'_def word_le_nat_alt)
  then have p': "page_ok K s p'" using p by (auto simp: page_ok_def p'_def pblock_def)
  have pb: "pblock p' = pblock p" by (simp add: pblock_def p'_def)
  show "pages_ok K s (xs @ p' # ys)" using ok p' pb by (simp add: pages_ok_def pages_disjoint_append)
  have "pgiven p' \<subseteq> pblock p" using pgiven_sub [OF page_okD(1) [OF p']] by (simp add: pb)
  then show sub: "block r (unat n) \<subseteq> pblock p" using given(1) by blast
  show "given (xs @ p' # ys) = given (xs @ p # ys) \<union> block r (unat n)" using given(1) by (auto simp: given_def)
  have "pgiven q \<inter> block r (unat n) = {}" if "q \<in> set xs \<union> set ys" for q
  proof -
    have "pgiven q \<subseteq> pblock q" using that ok by (intro pgiven_sub page_okD(1)) (auto simp: pages_ok_def list_all_iff)
    moreover have "pblock q \<inter> pblock p = {}" using that ok by (auto simp: pages_ok_def pages_disjoint_append)
    ultimately show ?thesis using sub by blast
  qed
  then show "block r (unat n) \<inter> given (xs @ p # ys) = {}" using given(2) by (auto simp: given_def)
  have ur: "unat r = unat (pbase p) + unat (pused p)"
    using page_okD(3) [OF p] fit n(1) unfolding r_def by (subst unat_add64) simp_all
  then show "r \<noteq> 0" using page_okD(2) [OF p] by (auto simp: unat_eq_0)
  show "unat r + unat n \<le> 2 ^ 63" using ur page_okD(3) [OF p] fit by simp
qed

lemma maps_page_spec:
  assumes "map_law K" "map_fresh K" "maps_page K s b s'"
  shows "x \<in> block b (unat (page_size K)) \<Longrightarrow> sprot s x = {}"
    "x \<notin> block b (unat (page_size K)) \<Longrightarrow> smem s' x = smem s x"
    "sprot s' = (\<lambda>x. if x \<in> block b (unat (page_size K)) then {PROT_READ, PROT_EXEC} else sprot s x)"
    "b \<noteq> 0" "unat b + unat (page_size K) \<le> 2 ^ 63"
proof -
  obtain a f where f: "mmap K a (page_size K) {PROT_READ, PROT_EXEC} f s = (Some b, s')" using assms(3) by blast
  note mo = mmap_Some [OF assms(1) f]
  have "\<forall>x \<in> block b (unat (page_size K)). sprot s x = {}"
  proof (cases "f = MAP_FIXED")
    case True
    then show ?thesis using assms(2) f unfolding map_fresh_def by blast
  qed (use mo in \<open>simp add: mapped_ok_def\<close>)
  then show "x \<in> block b (unat (page_size K)) \<Longrightarrow> sprot s x = {}" by blast
  show "x \<notin> block b (unat (page_size K)) \<Longrightarrow> smem s' x = smem s x"
    "sprot s' = (\<lambda>x. if x \<in> block b (unat (page_size K)) then {PROT_READ, PROT_EXEC} else sprot s x)"
    "b \<noteq> 0" "unat b + unat (page_size K) \<le> 2 ^ 63"
    using mo by (simp_all add: mapped_ok_def)
qed

lemma fresh_ok:
  fixes n :: u64
  assumes laws: "map_law K" "map_fresh K" "page_law K" and ok: "pages_ok K s ps"
    and m: "maps_page K s b s'" and n: "unat n \<le> unat (page_size K)"
  shows "pages_ok K s' (ps @ [new_page K b n])" "block b (unat n) \<inter> given ps = {}"
    "given (ps @ [new_page K b n]) = given ps \<union> block b (unat n)" "block b (unat n) \<subseteq> pblock (new_page K b n)"
proof -
  let ?q = "new_page K b n"
  note sp = maps_page_spec [OF laws(1,2) m]
  have ps: "unat (page_size K) < 2 ^ 31"
    using laws(3) power_strict_increasing [of _ 31 "2::nat"] by (auto simp: page_law_def unat_pow64)
  have u: "unat (pcap ?q) = unat (page_size K)" "unat (pused ?q) = unat n"
    using ps n by (simp_all add: unat_ucast_down)
  then have pb: "pblock ?q = block b (unat (page_size K))" by (simp add: pblock_def)
  have free: "sprot s x = {}" if "x \<in> pblock ?q" for x using that sp(1) by (simp add: pb)
  have prot: "sprot s' = (\<lambda>x. if x \<in> pblock ?q then {PROT_READ, PROT_EXEC} else sprot s x)"
    using sp(3) by (simp add: pb)
  have q: "page_ok K s' ?q"
    using sp(4,5) u n by (auto simp: page_ok_def prot word_le_nat_alt)
  have dis: "pblock p \<inter> pblock ?q = {}" if "p \<in> set ps" for p
    using that ok free page_okD(4) [of K s p] by (fastforce simp: pages_ok_def list_all_iff)
  have old: "page_ok K s' p" if "p \<in> set ps" for p
  proof -
    have "page_ok K s p" using that ok by (simp add: pages_ok_def list_all_iff)
    then show ?thesis by (auto simp: page_ok_def prot)
  qed
  show "pages_ok K s' (ps @ [?q])"
    using ok q old dis by (simp add: pages_ok_def list_all_iff pages_disjoint_append)
  have g: "pgiven ?q = block b (unat n)" using u by (simp add: pgiven_def)
  then show "given (ps @ [?q]) = given ps \<union> block b (unat n)" by (simp add: given_def Un_commute)
  show sub: "block b (unat n) \<subseteq> pblock ?q" using pgiven_sub [OF page_okD(1) [OF q]] g by simp
  have "pgiven p \<inter> block b (unat n) = {}" if "p \<in> set ps" for p
    using dis [OF that] sub pgiven_sub [OF page_okD(1) [OF old [OF that]]] by blast
  then show "block b (unat n) \<inter> given ps = {}" by (auto simp: given_def)
qed

lemma round8:
  assumes "0 < unat (n::u64)" "unat n \<le> 2 ^ k" "3 \<le> k" "k < 31"
  shows "unat n \<le> unat ((n + 7) AND NOT 7)" "unat ((n + 7) AND NOT 7) \<le> 2 ^ k"
proof -
  have k: "(2::nat) ^ k < 2 ^ 31" using assms(4) by (intro power_strict_increasing) simp_all
  have "unat (n + 7) = unat n + 7" using assms(2) k by (subst unat_add64) simp_all
  then have e: "unat ((n + 7) AND NOT 7) = (unat n + 7) div 8 * 8"
    using align_down [of "n + 7" 3] by simp
  show "unat n \<le> unat ((n + 7) AND NOT 7)" unfolding e by presburger
  have "(2::nat) ^ k = 2 ^ (k - 3) * 2 ^ 3" using assms(3) by (simp only: power_add [symmetric]) simp
  then have "2 ^ k = 2 ^ (k - 3) * (8::nat)" by simp
  then show "unat ((n + 7) AND NOT 7) \<le> 2 ^ k" unfolding e using assms(2) by presburger
qed

lemma AllocPage_cases:
  assumes "map_law K" "AllocPage K ps s = (r, ps', s')"
  shows "(r = 0 \<and> ps' = ps \<and> s' = s) \<or> (r \<noteq> 0 \<and> ps' = ps @ [new_page K r 0] \<and> maps_page K s r s')"
proof -
  obtain q s1 where m: "mmap K 0 (page_size K) {PROT_READ, PROT_EXEC} MAP_ANYWHERE s = (q, s1)" by fastforce
  show ?thesis
  proof (cases q)
    case None
    then show ?thesis using assms(2) m mmap_None [OF assms(1) m [unfolded None]] by (simp add: AllocPage_def GetPageSize_def)
  next
    case (Some b)
    then have "r = b" "ps' = ps @ [new_page K b 0]" "s' = s1" using assms(2) m by (auto simp: AllocPage_def GetPageSize_def)
    then show ?thesis using m Some mmap_Some [OF assms(1) m [unfolded Some]] by (auto simp: mapped_ok_def)
  qed
qed

lemma AllocNearCode_cases:
  assumes "map_law K" "pages_ok K s ps" and n: "0 < unat ((n + 7) AND NOT 7)"
    and call: "AllocNearCode K n near range' ps s = (r, ps', s')"
  obtains (none) "r = 0" "ps' = ps" "s' = s"
    | (bump) xs p ys where "ps = xs @ p # ys" "ps' = xs @ p\<lparr>pused := pused p + ucast ((n + 7) AND NOT 7)\<rparr> # ys"
      "r = pbase p + ucast (pused p)" "(n + 7) AND NOT 7 \<le> ucast (pcap p - pused p)" "s' = s"
    | (fresh) "r \<noteq> 0" "ps' = ps @ [new_page K r ((n + 7) AND NOT 7)]" "maps_page K s r s'"
proof -
  let ?n = "(n + 7) AND NOT 7"
  obtain r1 ps1 where e: "TryAllocFromExisting ?n near range' ps = (r1, ps1)" by fastforce
  obtain r2 ps2 s2 where g: "TryAllocInGap K ?n near range' ps s = (r2, ps2, s2)" using prod_cases3 by blast
  obtain r3 ps3 s3 where a: "AllocPage K ps s = (r3, ps3, s3)" using prod_cases3 by blast
  from e have sc: "scan_existing ?n (if range' < near then near - range' else 0) (near + range') ps = (r1, ps1)"
    by (simp add: TryAllocFromExisting_def Let_def)
  note gc = TryAllocInGap_cases [OF assms(1) g]
  note ac = AllocPage_cases [OF assms(1) a]
  from sc show ?thesis
  proof (cases rule: scan_existing_cases)
    case none: none
    with call e g a gc ac have "(r = 0 \<and> ps' = ps \<and> s' = s) \<or> (r \<noteq> 0 \<and> ps' = ps @ [new_page K r ?n] \<and> maps_page K s r s')"
      unfolding AllocNearCode_def Let_def by (auto split: if_splits)
    then show ?thesis using that(1,3) by blast
  next
    case (bump xs p ys)
    have "r1 \<noteq> 0" using bump_ok(2) [of K s xs p ys ?n] assms(2) n bump by simp
    then have "r = r1" "ps' = ps1" "s' = s" using call e by (simp_all add: AllocNearCode_def Let_def)
    then show ?thesis using that(2) [OF bump(1)] bump by simp
  qed
qed

lemma AllocNearCode_ok:
  assumes laws: "map_law K" "map_fresh K" "page_law K" and ok: "pages_ok K s ps"
    and n: "0 < unat n" "unat n \<le> unat (page_size K)"
    and call: "AllocNearCode K n near range' ps s = (r, ps', s')"
  shows "pages_ok K s' ps'" "r = 0 \<Longrightarrow> ps' = ps \<and> s' = s"
    "r \<noteq> 0 \<Longrightarrow> block r (unat n) \<inter> given ps = {} \<and> given ps \<union> block r (unat n) \<subseteq> given ps'"
    "r \<noteq> 0 \<Longrightarrow> unat r + unat n \<le> 2 ^ 63 \<and> (\<exists>p \<in> set ps'. block r (unat n) \<subseteq> pblock p)"
    "sprot s x \<noteq> {} \<Longrightarrow> smem s' x = smem s x \<and> sprot s' x = sprot s x"
    "r \<noteq> 0 \<Longrightarrow> x \<in> block r (unat n) \<Longrightarrow> sprot s x = {} \<or> (\<exists>p \<in> set ps. x \<in> pblock p)"
proof -
  let ?n = "(n + 7) AND NOT 7"
  obtain k where k: "12 \<le> k" "k < 31" "page_size K = 2 ^ k" using laws(3) by (auto simp: page_law_def)
  have n8: "unat n \<le> unat ?n" "unat ?n \<le> unat (page_size K)"
    using round8 [of n k] n k by (simp_all add: unat_pow64)
  then have pos: "0 < unat ?n" using n(1) by simp
  have sub: "block r (unat n) \<subseteq> block r (unat ?n)" using n8(1) by (auto simp: block_def)
  have "pages_ok K s' ps' \<and> (r = 0 \<longrightarrow> ps' = ps \<and> s' = s) \<and>
    (r \<noteq> 0 \<longrightarrow> block r (unat ?n) \<inter> given ps = {} \<and> given ps' = given ps \<union> block r (unat ?n) \<and>
      unat r + unat ?n \<le> 2 ^ 63 \<and> (\<exists>p \<in> set ps'. block r (unat ?n) \<subseteq> pblock p)) \<and>
    (\<forall>x. sprot s x \<noteq> {} \<longrightarrow> smem s' x = smem s x \<and> sprot s' x = sprot s x) \<and>
    (r \<noteq> 0 \<longrightarrow> (\<forall>x \<in> block r (unat ?n). sprot s x = {} \<or> (\<exists>p \<in> set ps. x \<in> pblock p)))"
    using laws(1) ok pos call
  proof (cases rule: AllocNearCode_cases)
    case none
    then show ?thesis using ok by simp
  next
    case (bump xs p ys)
    then have ok': "pages_ok K s (xs @ p # ys)" using ok by simp
    have "pblock (p\<lparr>pused := u\<rparr>) = pblock p" for u by (simp add: pblock_def)
    with bump_ok [OF ok' pos bump(4)] show ?thesis unfolding bump by auto
  next
    case fresh
    note f = fresh_ok [OF laws ok fresh(3) n8(2)] and m = maps_page_spec [OF laws(1,2) fresh(3)]
    have "\<forall>x. sprot s x \<noteq> {} \<longrightarrow> smem s' x = smem s x \<and> sprot s' x = sprot s x"
      using m(1-3) by metis
    moreover have "\<forall>x \<in> block r (unat ?n). sprot s x = {}" using m(1) n8(2) by (auto simp: block_def)
    ultimately show ?thesis unfolding fresh(2) using fresh(1) f m(5) n8(2) by simp
  qed
  then show "pages_ok K s' ps'" "r = 0 \<Longrightarrow> ps' = ps \<and> s' = s"
    "r \<noteq> 0 \<Longrightarrow> block r (unat n) \<inter> given ps = {} \<and> given ps \<union> block r (unat n) \<subseteq> given ps'"
    "r \<noteq> 0 \<Longrightarrow> unat r + unat n \<le> 2 ^ 63 \<and> (\<exists>p \<in> set ps'. block r (unat n) \<subseteq> pblock p)"
    "sprot s x \<noteq> {} \<Longrightarrow> smem s' x = smem s x \<and> sprot s' x = sprot s x"
    "r \<noteq> 0 \<Longrightarrow> x \<in> block r (unat n) \<Longrightarrow> sprot s x = {} \<or> (\<exists>p \<in> set ps. x \<in> pblock p)"
    using sub n8(1) by (blast | force)+
qed

text \<open>No allocation puts a page over memory that was mapped.\<close>

lemma AllocNearCode_pages:
  assumes laws: "map_law K" "map_fresh K" "page_law K" and ok: "pages_ok K s ps"
    and n: "0 < unat n" "unat n \<le> unat (page_size K)"
    and call: "AllocNearCode K n near range' ps s = (r, ps', s')" and p: "q \<in> set ps'" "x \<in> pblock q"
  shows "sprot s x = {} \<or> (\<exists>p \<in> set ps. x \<in> pblock p)"
proof -
  obtain k where k: "12 \<le> k" "k < 31" "page_size K = 2 ^ k" using laws(3) by (auto simp: page_law_def)
  have n8: "0 < unat ((n + 7) AND NOT 7)" using round8 [of n k] n k by (simp add: unat_pow64)
  have cap: "unat (ucast (page_size K) :: u32) = unat (page_size K)"
    using power_strict_increasing [of k 32 "2::nat"] k by (intro unat_ucast_down) (simp add: unat_pow64)
  show ?thesis
    using laws(1) ok n8 call
  proof (cases rule: AllocNearCode_cases)
    case none
    then show ?thesis using p by blast
  next
    case (bump xs a ys)
    have "pblock (a\<lparr>pused := u\<rparr>) = pblock a" for u by (simp add: pblock_def)
    then show ?thesis using p bump(1,2) by auto
  next
    case fresh
    then show ?thesis using p maps_page_spec(1) [OF laws(1,2) fresh(3)] cap by (auto simp: pblock_def)
  qed
qed

section \<open>Properties\<close>





section \<open>The parser and the kernel's format\<close>

text \<open>A line as the kernel prints it: the bounds in hexadecimal, four permission letters, the rest.\<close>

definition maps_line :: "u64 \<Rightarrow> u64 \<Rightarrow> string \<Rightarrow> string \<Rightarrow> string" where
  "maps_line lo hi perms rest =
    show_num 16 (unat lo) @ ''-'' @ show_num 16 (unat hi) @ '' '' @ perms @ '' '' @ rest"

lemma scan_hex:
  fixes v :: u64
  assumes "c \<in> {CHR ''-'', CHR '' ''}"
  shows "scan_number 16 (show_num 16 (unat v) @ c # s) = Some (v, c # s)"
proof -
  have "\<not> is_digit 16 c" "c \<notin> {CHR ''x'', CHR ''X''}" using assms by (auto simp: is_digit_def digit_value_def)
  then have "scan_number 16 ([] @ show_num 16 (unat v) @ c # s) = Some (of_nat (digits_value 16 (show_num 16 (unat v))), c # s)"
    using show_num_digits [of 16 "unat v"] by (intro scan_number_ok) (simp_all add: show_num_value unat_lt64 [simplified])
  then show ?thesis by (simp add: show_num_value)
qed

text \<open>Reading back a mapping: a line in the kernel's format with four permission letters is
  parsed into exactly the region it describes.\<close>

lemma parse_maps_line_roundtrip:
  assumes "length perms = 4" "list_all (\<lambda>c. \<not> is_space c) perms"
  shows "parse_maps_line (maps_line lo hi perms rest) =
    Some \<lparr>r_start = lo, r_end = hi, r_readable = (perms ! 0 = CHR ''r''),
      r_writable = (perms ! 1 = CHR ''w''), r_executable = (perms ! 2 = CHR ''x'')\<rparr>"
proof -
  have "scan_word 4 ('' '' @ perms @ CHR '' '' # rest) = Some (perms, CHR '' '' # rest)"
  proof (rule scan_word_ok)
    show "perms \<noteq> []" "length perms \<le> 4" using assms(1) by auto
    show "\<forall>c \<in> set perms. \<not> is_space c" using assms(2) by (simp add: list_all_iff)
  qed (simp_all add: is_space_def)
  then have "parse_maps_line (maps_line lo hi perms rest) =
      Some \<lparr>r_start = lo, r_end = hi, r_readable = perm_at 0 (CHR ''r'') perms, r_writable = perm_at 1 (CHR ''w'') perms,
        r_executable = perm_at 2 (CHR ''x'') perms\<rparr>"
    by (simp add: parse_maps_line_def maps_line_def scan_hex scan_char_def)
  then show ?thesis using assms(1) by simp
qed

lemma parse_maps_line_roundtrip_witness:
  "parse_maps_line (maps_line 0x7000 0x9000 ''r-xp'' ''00000000 fe:00 12 /system/lib64/libc.so'') =
    Some \<lparr>r_start = 0x7000, r_end = 0x9000, r_readable = True, r_writable = False, r_executable = True\<rparr>"
  using parse_maps_line_roundtrip [of "''r-xp''" "0x7000" "0x9000"] by (simp add: is_space_def)

end
