(* ===== verification/Hook_Registry.thy ===== *)
theory Hook_Registry
  imports Prelude
begin

text \<open>
  \<open>hook_entry.h\<close> and \<open>hook_registry.cpp\<close>: the table of installed hooks, a vector searched by target
  address. The locale states what the hook API relies on, a partial map from targets to
  entries as long as no target is entered twice; the vector is shown to provide it.
\<close>

section \<open>Entries and the table\<close>

record HookEntry =
  target_addr :: u64
  replace_addr :: u64
  orig_func :: u64
  saved_bytes :: "u8 list"
  saved_size :: u32
  relocated_mem :: u64
  relocated_size :: u32
  active :: bool

definition HookEntry_new :: HookEntry where
  "HookEntry_new = \<lparr>target_addr = 0, replace_addr = 0, orig_func = 0, saved_bytes = replicate 32 0,
     saved_size = 0, relocated_mem = 0, relocated_size = 0, active = False\<rparr>"

type_synonym HookRegistry = "HookEntry list"

definition Add :: "HookEntry \<Rightarrow> HookRegistry \<Rightarrow> HookRegistry" where
  "Add entry entries = entries @ [entry]"

fun Find :: "u64 \<Rightarrow> HookRegistry \<Rightarrow> HookEntry option" where
  "Find target [] = None"
| "Find target (e # es) = (if target_addr e = target then Some e else Find target es)"

fun Remove :: "u64 \<Rightarrow> HookRegistry \<Rightarrow> HookEntry option \<times> HookRegistry" where
  "Remove target [] = (None, [])"
| "Remove target (e # es) =
     (if target_addr e = target then (Some e, es)
      else let (r, es') = Remove target es in (r, e # es'))"

section \<open>What clients rely on\<close>

locale hook_table =
  fixes empty :: 't
    and insert' :: "HookEntry \<Rightarrow> 't \<Rightarrow> 't"
    and lookup :: "u64 \<Rightarrow> 't \<Rightarrow> HookEntry option"
    and delete :: "u64 \<Rightarrow> 't \<Rightarrow> HookEntry option \<times> 't"
    and wf :: "'t \<Rightarrow> bool"
  assumes lookup_empty: "lookup a empty = None"
    and lookup_key: "lookup a t = Some e \<Longrightarrow> target_addr e = a"
    and lookup_insert: "wf t \<Longrightarrow> lookup (target_addr e) t = None \<Longrightarrow>
      lookup a (insert' e t) = (if a = target_addr e then Some e else lookup a t)"
    and delete_result: "fst (delete a t) = lookup a t"
    and lookup_delete: "wf t \<Longrightarrow> lookup b (snd (delete a t)) = (if b = a then None else lookup b t)"
    and wf_empty: "wf empty"
    and wf_insert: "wf t \<Longrightarrow> lookup (target_addr e) t = None \<Longrightarrow> wf (insert' e t)"
    and wf_delete: "wf t \<Longrightarrow> wf (snd (delete a t))"
begin

lemma insert_delete:
  assumes "wf t" "lookup (target_addr e) t = None"
  shows "fst (delete (target_addr e) (insert' e t)) = Some e"
    and "lookup b (snd (delete (target_addr e) (insert' e t))) = lookup b t"
  using assms by (simp_all add: delete_result lookup_insert lookup_delete wf_insert)

text \<open>Taking an entry out and putting a changed copy back under the same target.\<close>

lemma delete_insert:
  assumes "wf t" "lookup a t = Some e" "target_addr e' = a"
  shows "lookup b (insert' e' (snd (delete a t))) = (if b = a then Some e' else lookup b t)"
    and "wf (insert' e' (snd (delete a t)))"
  using assms by (auto simp: lookup_insert lookup_delete wf_delete wf_insert)

end

section \<open>The vector provides it\<close>

definition registry_wf :: "HookRegistry \<Rightarrow> bool" where
  "registry_wf es \<longleftrightarrow> distinct (map target_addr es)"

lemma Find_None: "Find a es = None \<longleftrightarrow> a \<notin> target_addr ` set es"
  by (induction es) auto

lemma Find_Some: "Find a es = Some e \<Longrightarrow> e \<in> set es \<and> target_addr e = a"
  by (induction es) (auto split: if_splits)

lemma Find_append: "Find a (es @ fs) = (case Find a es of None \<Rightarrow> Find a fs | Some e \<Rightarrow> Some e)"
  by (induction es) auto

lemma Remove_fst: "fst (Remove a es) = Find a es"
  by (induction es) (auto split: prod.splits)

lemma Remove_subset: "set (snd (Remove a es)) \<subseteq> set es"
  by (induction es) (auto split: prod.splits)

lemma Remove_Find:
  "distinct (map target_addr es) \<Longrightarrow> Find b (snd (Remove a es)) = (if b = a then None else Find b es)"
proof (induction es)
  case (Cons e es)
  then show ?case by (auto simp: Find_None split: prod.splits)
qed simp

lemma Remove_distinct: "distinct (map target_addr es) \<Longrightarrow> distinct (map target_addr (snd (Remove a es)))"
proof (induction es)
  case (Cons e es)
  then show ?case using Remove_subset [of a es] by (fastforce split: prod.splits)
qed simp

interpretation reg: hook_table "[]" Add Find Remove registry_wf
proof
  show "Find a (Add e t) = (if a = target_addr e then Some e else Find a t)"
    if "registry_wf t" "Find (target_addr e) t = None" for t e a
    using that by (auto simp: Add_def Find_append split: option.splits)
  show "registry_wf (Add e t)" if "registry_wf t" "Find (target_addr e) t = None" for t e
    using that by (auto simp: Add_def registry_wf_def Find_None)
qed (auto simp: registry_wf_def Remove_fst Remove_Find Remove_distinct dest: Find_Some)

text \<open>The registry is a finite map: starting from a registry without duplicate targets, adding
  an entry for a target that is not registered and removing one update the lookup function like a
  map update and a map deletion, return the entry asked for, and introduce no duplicates.\<close>

lemma registry_is_map:
  assumes "registry_wf es"
  shows "(Find (target_addr e) es = None \<longrightarrow>
      (\<lambda>a. Find a (Add e es)) = (\<lambda>a. Find a es)(target_addr e \<mapsto> e) \<and> registry_wf (Add e es)) \<and>
    fst (Remove a es) = Find a es \<and>
    (\<lambda>b. Find b (snd (Remove a es))) = (\<lambda>b. Find b es)(a := None) \<and> registry_wf (snd (Remove a es))"
  using assms
  by (auto simp: reg.lookup_insert reg.wf_insert reg.delete_result reg.lookup_delete reg.wf_delete)

lemma registry_is_map_witness:
  "Find 0x1000 (Add (HookEntry_new\<lparr>target_addr := 0x1000\<rparr>) []) = Some (HookEntry_new\<lparr>target_addr := 0x1000\<rparr>)"
  using registry_is_map [of "[]" "HookEntry_new\<lparr>target_addr := 0x1000\<rparr>"]
  by (simp add: registry_wf_def fun_eq_iff)

end
