(* ===== verification/Hook_API.thy ===== *)
theory Hook_API
  imports Trampoline Memory_Allocator Hook_Registry
begin

text \<open>
  \<open>hook_api.cpp\<close>: installing and removing a hook, over the registry, the allocator's pages and
  process memory. A result \<open>None\<close> means that the call does not return: a store or a load hit a
  page without the permission it needs. \<open>HookInstall\<close> also returns the value it stores through
  \<open>orig_func\<close>, if any.
\<close>

section \<open>Install and uninstall\<close>

record hook_state =
  hsys :: sys
  hpages :: pages
  hreg :: HookRegistry

definition readable :: "sys \<Rightarrow> u64 \<Rightarrow> nat \<Rightarrow> bool" where
  "readable s a n \<longleftrightarrow> list_all (\<lambda>i. PROT_READ \<in> sprot s (a + of_nat i)) [0..<n]"

definition HookInstall :: "kernel \<Rightarrow> u64 \<Rightarrow> u64 \<Rightarrow> u64 \<Rightarrow> hook_state \<Rightarrow> (int \<times> u64 option \<times> hook_state) option" where
  "HookInstall K target replace orig_func' st =
    (if target = 0 \<or> replace = 0 \<or> orig_func' = 0 then Some (-1, None, st)
     else if Find target (hreg st) \<noteq> None then Some (-2, None, st)
     else
       do { patch \<leftarrow> BuildJumpPatch target replace;
            if bsize (code patch) = 0 then Some (-3, None, st)
            else
              (let max_reloc_size = patch_size patch div 4 * 20 + 64;
                   (mem, pages, s) = AllocNearCode K (ucast max_reloc_size) target (word_of_int kMaxBRange)
                      (hpages st) (hsys st);
                   st = st\<lparr>hpages := pages, hsys := s\<rparr>
               in if mem = 0 then Some (-4, None, st)
                  else if \<not> readable s target (unat (patch_size patch)) then None
                  else
                    do { relocated \<leftarrow> BuildRelocatedCode (smem s) target (patch_size patch) mem;
                         if bsize relocated = 0 then Some (-5, None, st)
                         else
                           do { let (_, s) = BeginWrite K mem (ucast (bsize relocated)) s;
                                s \<leftarrow> memcpy_to mem (take (unat (bsize relocated)) (data relocated)) s;
                                let (_, s) = EndWrite K mem (ucast (bsize relocated)) s;
                                let entry = HookEntry_new\<lparr>target_addr := target, replace_addr := replace,
                                    saved_size := patch_size patch,
                                    saved_bytes := read_bytes (smem s) target (unat (patch_size patch)) @
                                      drop (unat (patch_size patch)) (saved_bytes HookEntry_new),
                                    relocated_mem := mem, relocated_size := bsize relocated,
                                    orig_func := mem, active := True\<rparr>;
                                (ret, s) \<leftarrow> PatchCode K target (Some (data (code patch))) (ucast (patch_size patch)) s;
                                let st = st\<lparr>hsys := s\<rparr>;
                                if ret \<noteq> 0 then Some (-6, None, st)
                                else Some (0, Some (orig_func entry), st\<lparr>hreg := Add entry (hreg st)\<rparr>) } }) })"

definition HookUninstall :: "kernel \<Rightarrow> u64 \<Rightarrow> hook_state \<Rightarrow> (int \<times> hook_state) option" where
  "HookUninstall K target st =
    (if target = 0 then Some (-1, st)
     else
       case Remove target (hreg st) of
         (None, _) \<Rightarrow> Some (-2, st)
       | (Some entry, reg) \<Rightarrow>
           do { (ret, s) \<leftarrow> PatchCode K target (Some (saved_bytes entry)) (ucast (saved_size entry)) (hsys st);
                let st = st\<lparr>hsys := s, hreg := reg\<rparr>;
                if ret \<noteq> 0
                then Some (-3, st\<lparr>hreg := Add (entry\<lparr>active := False\<rparr>) (hreg st)\<rparr>)
                else Some (0, st) })"

section \<open>Well-formed hook states\<close>

definition kernel_ok :: "kernel \<Rightarrow> bool" where
  "kernel_ok K \<longleftrightarrow> protect_law K \<and> map_law K \<and> map_fresh K \<and> page_law K"

definition entry_ok :: "HookEntry \<Rightarrow> bool" where
  "entry_ok e \<longleftrightarrow> target_addr e \<noteq> 0 \<and> length (saved_bytes e) = 32 \<and> saved_size e \<in> {4, 12, 16}"

definition hook_ok :: "kernel \<Rightarrow> hook_state \<Rightarrow> bool" where
  "hook_ok K st \<longleftrightarrow>
    registry_wf (hreg st) \<and> list_all entry_ok (hreg st) \<and> pages_ok K (hsys st) (hpages st)"

lemma pages_ok_mono:
  assumes "pages_ok K s ps" "\<And>x. sprot s x \<noteq> {} \<Longrightarrow> sprot s' x \<noteq> {}"
  shows "pages_ok K s' ps"
  using assms by (auto simp: pages_ok_def list_all_iff page_ok_def)

text \<open>The allocation made by an install, and the relocated code put there.\<close>

lemma patch_size_unat: "p \<in> {4, 12, 16 :: u32} \<Longrightarrow> unat p \<in> {4, 12, 16}"
  by auto

lemma BuildRelocatedCode_image:
  assumes "n \<in> {4, 12, 16 :: u32}"
  shows "\<exists>b r. BuildRelocatedCode m a n d = Some b \<and> RelocateInstructions m a n d = Some r \<and> rbuffer r = b \<and>
    unat (bsize b) = length (data b) \<and> bsize b \<noteq> 0 \<and> length (data b) \<le> unat (n div 4 * 20 + 64)"
proof -
  define k where "k = unat n div 4"
  have n: "unat n = 4 * k" "0 < k" "k \<le> 4" "unat (n div 4 * 20 + 64) = 20 * k + 64" using assms by (auto simp: k_def)
  then obtain b where b: "RelocateInstructions m a n d = Some \<lparr>rbuffer = b, bytes_consumed = n, valid = True\<rparr>"
      "buf_words b (reloc_image m a k)"
    using RelocateInstructions_image [of n k m a d] by auto
  have pos: "0 < length (reloc_image m a k)"
    using reloc_chunk_in [of k k m a] n(3) by (auto simp: chunk_in_def reloc_chunks_nth tail_chunk_def)
  have len: "length (data b) = 4 * length (reloc_image m a k)" "unat (bsize b) = 4 * length (reloc_image m a k)"
    using b(2) by (simp_all add: buf_words_def)
  have "bsize b \<noteq> 0" using len(2) pos by (metis less_numeral_extra(3) mult_is_0 unsigned_0 zero_neq_numeral)
  then show ?thesis
    using b len length_reloc_image [of m a k] n by (auto simp: BuildRelocatedCode_def)
qed

section \<open>A successful install\<close>

definition hook_entry :: "u64 \<Rightarrow> u64 \<Rightarrow> JumpPatch \<Rightarrow> u64 \<Rightarrow> CodeBuffer \<Rightarrow> memory \<Rightarrow> HookEntry" where
  "hook_entry target replace patch mem b m =
    HookEntry_new\<lparr>target_addr := target, replace_addr := replace, saved_size := patch_size patch,
      saved_bytes := read_bytes m target (unat (patch_size patch)) @ replicate (32 - unat (patch_size patch)) 0,
      relocated_mem := mem, relocated_size := bsize b, orig_func := mem, active := True\<rparr>"

text \<open>The intermediate states of a call that gets past the allocation.\<close>

lemma HookInstall_trace:
  assumes patch: "BuildJumpPatch target replace = Some patch" "patch_size patch \<in> {4, 12, 16}"
    and args: "target \<noteq> 0" "replace \<noteq> 0" "orig \<noteq> 0" "Find target (hreg st) = None" "bsize (code patch) \<noteq> 0"
    and alloc: "AllocNearCode K (ucast (patch_size patch div 4 * 20 + 64)) target (word_of_int kMaxBRange)
      (hpages st) (hsys st) = (mem, pages, s1)"
    and b: "BuildRelocatedCode (smem s1) target (patch_size patch) mem = Some b" "bsize b \<noteq> 0"
    and w: "BeginWrite K mem (ucast (bsize b)) s1 = (r2, s2)"
  shows "HookInstall K target replace orig st =
    (if mem = 0 then Some (-4, None, st\<lparr>hpages := pages, hsys := s1\<rparr>)
     else if \<not> readable s1 target (unat (patch_size patch)) then None
     else
       do { s3 \<leftarrow> memcpy_to mem (take (unat (bsize b)) (data b)) s2;
            let s4 = snd (EndWrite K mem (ucast (bsize b)) s3);
            (ret, s5) \<leftarrow> PatchCode K target (Some (data (code patch))) (ucast (patch_size patch)) s4;
            if ret \<noteq> 0 then Some (-6, None, st\<lparr>hpages := pages, hsys := s5\<rparr>)
            else Some (0, Some mem, st\<lparr>hpages := pages, hsys := s5, hreg := Add (hook_entry target replace patch mem b (smem s4)) (hreg st)\<rparr>) })"
  using args b(2) unfolding HookInstall_def patch(1) Let_def
  by (simp add: alloc b(1) w prod.case_eq_if hook_entry_def HookEntry_new_def cong: if_cong)

text \<open>The bytes of the program itself, mapped and not part of the allocator's pages, and where an
  install is attempted: a block of them.\<close>

definition client :: "hook_state \<Rightarrow> u64 \<Rightarrow> bool" where
  "client st x \<longleftrightarrow> sprot (hsys st) x \<noteq> {} \<and> (\<forall>p \<in> set (hpages st). x \<notin> pblock p)"

definition hookable :: "kernel \<Rightarrow> hook_state \<Rightarrow> u64 \<Rightarrow> nat \<Rightarrow> bool" where
  "hookable K st target n \<longleftrightarrow> addr_fits K target n \<and> (\<forall>x \<in> block target n. client st x)"

lemma client_mono:
  assumes "client (st\<lparr>hsys := s, hpages := ps\<rparr>) x" "\<And>x. sprot s x \<noteq> {} \<Longrightarrow> sprot s' x \<noteq> {}"
  shows "client (st\<lparr>hpages := ps, hsys := s', hreg := r\<rparr>) x"
    and "client (st\<lparr>hpages := ps, hsys := s'\<rparr>) x"
  using assms by (simp_all add: client_def)

lemma reloc_image_cong:
  assumes "\<And>i. i < n \<Longrightarrow> load32 m (src + of_nat (4 * i)) = load32 m' (src + of_nat (4 * i))"
  shows "reloc_image m src n = reloc_image m' src n"
proof -
  have "src_chunks m src 0 n = src_chunks m' src 0 n"
    unfolding src_chunks_def using assms by (intro map_cong refl) (simp only: set_upt atLeastLessThan_iff add_0)
  then show ?thesis by (simp add: reloc_image_def reloc_chunks_def)
qed

lemma read_bytes_cong: "(\<And>x. x \<in> block a n \<Longrightarrow> m x = m' x) \<Longrightarrow> n \<le> 2 ^ 64 \<Longrightarrow> read_bytes m a n = read_bytes m' a n"
  unfolding read_bytes_def by (intro map_cong refl) (simp add: in_block)

lemma load32_block_cong:
  assumes "\<And>x. x \<in> block a (4 * n) \<Longrightarrow> m x = m' x" "i < n" "n \<le> 2 ^ 60"
  shows "load32 m (a + of_nat (4 * i)) = load32 m' (a + of_nat (4 * i))"
proof (rule load32_cong [of "block a (4 * n)"])
  show "covers (block a (4 * n)) a (4 * n)" using assms(3) by (intro covers_block) simp_all
qed (use assms in auto)

lemma patch_facts:
  assumes "BuildJumpPatch target replace = Some patch"
  shows "patch_size patch \<in> {4, 12, 16}" "unat (patch_size patch) \<le> length (data (code patch))" "bsize (code patch) \<noteq> 0"
    "bytes_at (cmem t) target (take (unat (patch_size patch)) (data (code patch))) \<Longrightarrow> pcr t = target \<Longrightarrow>
      \<exists>k v. k \<le> 3 \<and> a64_run oth k t = goto replace (xset 17 v t)"
proof -
  note spec = jump_patch_spec [of target replace, unfolded assms]
  show *: "patch_size patch \<in> {4, 12, 16}" "unat (patch_size patch) \<le> length (data (code patch))"
    using spec by auto
  have "unat (bsize (code patch)) = length (data (code patch))" using spec by auto
  then show "bsize (code patch) \<noteq> 0" using * by auto
  show "bytes_at (cmem t) target (take (unat (patch_size patch)) (data (code patch))) \<Longrightarrow> pcr t = target \<Longrightarrow>
      \<exists>k v. k \<le> 3 \<and> a64_run oth k t = goto replace (xset 17 v t)"
    using spec by blast
qed

lemma page_size_bounds:
  assumes "page_law K"
  shows "4096 \<le> unat (page_size K)" "unat (page_size K) < 2 ^ 31"
proof -
  obtain k where k: "12 \<le> k" "k < 31" "page_size K = 2 ^ k" using assms by (auto simp: page_law_def)
  have "(2::nat) ^ 12 \<le> 2 ^ k" using k(1) by (intro power_increasing) simp_all
  moreover have "(2::nat) ^ k < 2 ^ 31" using k(2) by (intro power_strict_increasing) simp_all
  ultimately show "4096 \<le> unat (page_size K)" "unat (page_size K) < 2 ^ 31" using k by (simp_all add: unat_pow64)
qed

lemma reloc_request:
  assumes "p \<in> {4, 12, 16 :: u32}" "page_law K"
  shows "unat (ucast (p div 4 * 20 + 64) :: u64) = unat (p div 4 * 20 + 64)"
    "0 < unat (p div 4 * 20 + 64)" "unat (p div 4 * 20 + 64) \<le> unat (page_size K)"
  using assms(1) page_size_bounds(1) [OF assms(2)] by auto

lemma bytes_at_write_other:
  assumes "bytes_at m a bs" "block a (length bs) \<inter> block c (length cs) = {}" "length bs \<le> 2 ^ 64"
  shows "bytes_at (write_bytes c cs m) a bs"
  unfolding bytes_at_def
proof (intro allI impI)
  fix i assume "i < length bs"
  then have "a + of_nat i \<notin> block c (length cs)" using in_block assms(2,3) by blast
  then show "write_bytes c cs m (a + of_nat i) = bs ! i"
    using assms(1) \<open>i < length bs\<close> by (simp add: write_bytes_outside bytes_at_def)
qed

text \<open>The allocation step of an install.\<close>

lemma install_alloc:
  assumes K: "kernel_ok K" and ok: "hook_ok K st" and p: "patch_size patch \<in> {4, 12, 16}"
    and h: "hookable K st target (unat (patch_size patch))"
    and alloc: "AllocNearCode K (ucast (patch_size patch div 4 * 20 + 64)) target near
      (hpages st) (hsys st) = (mem, pages, s1)"
  shows "pages_ok K s1 pages" "sprot (hsys st) x \<noteq> {} \<Longrightarrow> smem s1 x = smem (hsys st) x \<and> sprot s1 x \<noteq> {}"
    "mem = 0 \<Longrightarrow> pages = hpages st \<and> s1 = hsys st"
    "mem \<noteq> 0 \<Longrightarrow> block mem (unat (patch_size patch div 4 * 20 + 64)) \<inter> block target (unat (patch_size patch)) = {}"
    "x \<in> block target (unat (patch_size patch)) \<Longrightarrow> smem s1 x = smem (hsys st) x \<and> sprot s1 x = sprot (hsys st) x"
    "mem \<noteq> 0 \<Longrightarrow> k \<le> unat (patch_size patch div 4 * 20 + 64) \<Longrightarrow> addr_fits K mem k"
    "client st x \<Longrightarrow> client (st\<lparr>hsys := s1, hpages := pages\<rparr>) x"
    "client st x \<Longrightarrow> mem \<noteq> 0 \<Longrightarrow> x \<notin> block mem (unat (patch_size patch div 4 * 20 + 64))"
proof -
  have laws: "map_law K" "map_fresh K" "page_law K" "pages_ok K (hsys st) (hpages st)"
    using K ok by (simp_all add: kernel_ok_def hook_ok_def)
  note r = reloc_request [OF p laws(3)]
  note a = AllocNearCode_ok [OF laws _ _ alloc, unfolded r(1), OF r(2,3)]
  show "pages_ok K s1 pages" "mem = 0 \<Longrightarrow> pages = hpages st \<and> s1 = hsys st" by (fact a)+
  show "sprot (hsys st) x \<noteq> {} \<Longrightarrow> smem s1 x = smem (hsys st) x \<and> sprot s1 x \<noteq> {}" using a(5) by metis
  show "x \<in> block target (unat (patch_size patch)) \<Longrightarrow> smem s1 x = smem (hsys st) x \<and> sprot s1 x = sprot (hsys st) x"
    using a(5) h by (auto simp: hookable_def client_def)
  show "mem \<noteq> 0 \<Longrightarrow> block mem (unat (patch_size patch div 4 * 20 + 64)) \<inter> block target (unat (patch_size patch)) = {}"
    using a(6) h by (fastforce simp: hookable_def client_def)
  show "client st x \<Longrightarrow> mem \<noteq> 0 \<Longrightarrow> x \<notin> block mem (unat (patch_size patch div 4 * 20 + 64))"
    using a(6) by (auto simp: client_def)
  show "client st x \<Longrightarrow> client (st\<lparr>hsys := s1, hpages := pages\<rparr>) x"
    using AllocNearCode_pages [OF laws _ _ alloc, unfolded r(1), OF r(2,3)] a(5) by (fastforce simp: client_def)
  show "mem \<noteq> 0 \<Longrightarrow> k \<le> unat (patch_size patch div 4 * 20 + 64) \<Longrightarrow> addr_fits K mem k"
    using a(4) page_size_bounds(2) [OF laws(3)] by (simp add: addr_fits_def)
qed


text \<open>Writing the relocated code.\<close>

lemma write_relocated:
  assumes "protect_law K" "page_law K" "addr_fits K mem (unat (bsize b))" "unat (bsize b) = length (data b)"
    and w: "BeginWrite K mem (ucast (bsize b)) s1 = (r2, s2)"
  shows "r2 = 0 \<Longrightarrow> memcpy_to mem (take (unat (bsize b)) (data b)) s2 \<noteq> None"
    and "memcpy_to mem (take (unat (bsize b)) (data b)) s2 = Some s3 \<Longrightarrow>
      smem (snd (EndWrite K mem n s3)) = write_bytes mem (data b) (smem s1) \<and>
      (sprot s1 x \<noteq> {} \<longrightarrow> sprot (snd (EndWrite K mem n s3)) x \<noteq> {})"
proof -
  have rw: "MakeMemoryRWX K mem (ucast (bsize b)) s1 = (r2, s2)" using w by (simp add: BeginWrite_def)
  show "r2 = 0 \<Longrightarrow> memcpy_to mem (take (unat (bsize b)) (data b)) s2 \<noteq> None"
    using RWX_writable [OF assms(1,2), of mem "ucast (bsize b)" s1 s2] rw assms(3,4) by (simp add: memcpy_writable)
  assume c: "memcpy_to mem (take (unat (bsize b)) (data b)) s2 = Some s3"
  obtain r4 s4 where rx: "MakeMemoryRX K mem n s3 = (r4, s4)" by fastforce
  show "smem (snd (EndWrite K mem n s3)) = write_bytes mem (data b) (smem s1) \<and>
      (sprot s1 x \<noteq> {} \<longrightarrow> sprot (snd (EndWrite K mem n s3)) x \<noteq> {})"
    using memcpy_Some [OF c] RWX_mem [OF assms(1) rw] RX_mem [OF assms(1) rx] RWX_mapped [OF assms(1) rw, of x]
      RX_mapped [OF assms(1) rx, of x] assms(4)
    by (simp add: EndWrite_def rx)
qed

definition install_done :: "kernel \<Rightarrow> hook_state \<Rightarrow> u64 \<Rightarrow> u64 \<Rightarrow> JumpPatch \<Rightarrow> u64 \<Rightarrow> CodeBuffer \<Rightarrow> hook_state \<Rightarrow> bool" where
  "install_done K st target replace patch mem b st' \<longleftrightarrow>
    (let n = unat (patch_size patch); m = smem (hsys st); m' = smem (hsys st') in
     data b = concat (map le32 (reloc_image m target (n div 4))) \<and>
     bytes_at m' mem (data b) \<and> bytes_at m' target (take n (data (code patch))) \<and>
     block mem (length (data b)) \<inter> block target n = {} \<and> mem \<noteq> 0 \<and>
     (\<forall>x. sprot (hsys st) x \<noteq> {} \<and> x \<notin> block target n \<and> x \<notin> block mem (length (data b)) \<longrightarrow> m' x = m x) \<and>
     (\<forall>x. client st x \<longrightarrow> client st' x \<and> x \<notin> block mem (length (data b))) \<and>
     hreg st' = Add (hook_entry target replace patch mem b m) (hreg st) \<and> hook_ok K st')"

lemma install_doneD:
  assumes "install_done K st target replace patch mem b st'"
  shows "hreg st' = Add (hook_entry target replace patch mem b (smem (hsys st))) (hreg st)" "hook_ok K st'" "mem \<noteq> 0"
    "client st x \<Longrightarrow> client st' x"
    "client st x \<Longrightarrow> x \<notin> block target (unat (patch_size patch)) \<Longrightarrow> smem (hsys st') x = smem (hsys st) x"
    "bytes_at (smem (hsys st')) target (take (unat (patch_size patch)) (data (code patch)))"
    "bytes_at (smem (hsys st')) mem (data b)"
    "data b = concat (map le32 (reloc_image (smem (hsys st)) target (unat (patch_size patch) div 4)))"
    "block mem (length (data b)) \<inter> block target (unat (patch_size patch)) = {}"
  using assms unfolding install_done_def Let_def client_def by blast+

lemma hook_entry_cong:
  assumes "\<And>x. x \<in> block target (unat (patch_size patch)) \<Longrightarrow> m x = m' x" "patch_size patch \<in> {4, 12, 16}"
  shows "hook_entry target replace patch mem b m = hook_entry target replace patch mem b m'"
  unfolding hook_entry_def using read_bytes_cong [OF assms(1)] assms(2) by auto

lemma hook_entry_ok: "target \<noteq> 0 \<Longrightarrow> patch_size patch \<in> {4, 12, 16} \<Longrightarrow> entry_ok (hook_entry target replace patch mem b m)"
  by (auto simp: hook_entry_def entry_ok_def)

lemma hook_entry_target [simp]: "target_addr (hook_entry target replace patch mem b m) = target"
  by (simp add: hook_entry_def)

lemma install_keeps_target:
  assumes "kernel_ok K" "hook_ok K st" "patch_size patch \<in> {4, 12, 16}" "hookable K st target (unat (patch_size patch))"
    and alloc: "AllocNearCode K (ucast (patch_size patch div 4 * 20 + 64)) target near
      (hpages st) (hsys st) = (mem, pages, s1)" "mem \<noteq> 0"
    and len: "length bs \<le> unat (patch_size patch div 4 * 20 + 64)"
  shows "block mem (length bs) \<inter> block target (unat (patch_size patch)) = {}"
    "x \<in> block target (unat (patch_size patch)) \<Longrightarrow> write_bytes mem bs (smem s1) x = smem (hsys st) x"
proof -
  note a = install_alloc [OF assms(1-4) alloc(1)]
  have "block mem (length bs) \<subseteq> block mem (unat (patch_size patch div 4 * 20 + 64))"
    using len by (auto simp: block_def)
  then show dis: "block mem (length bs) \<inter> block target (unat (patch_size patch)) = {}" using a(4) [OF alloc(2)] by blast
  assume x: "x \<in> block target (unat (patch_size patch))"
  then have "x \<notin> block mem (length bs)" using dis by blast
  then show "write_bytes mem bs (smem s1) x = smem (hsys st) x" using a(5) [OF x] by (simp add: write_bytes_outside)
qed

lemma install_patched:
  assumes K: "kernel_ok K" and ok: "hook_ok K st" and p: "BuildJumpPatch target replace = Some patch"
    and h: "hookable K st target (unat (patch_size patch))" and t: "target \<noteq> 0" "Find target (hreg st) = None"
    and alloc: "AllocNearCode K (ucast (patch_size patch div 4 * 20 + 64)) target near
      (hpages st) (hsys st) = (mem, pages, s1)" "mem \<noteq> 0"
    and b: "RelocateInstructions (smem s1) target (patch_size patch) mem = Some r" "rbuffer r = b"
      "length (data b) \<le> unat (patch_size patch div 4 * 20 + 64)"
    and s4: "smem s4 = write_bytes mem (data b) (smem s1)" "\<And>x. sprot s1 x \<noteq> {} \<Longrightarrow> sprot s4 x \<noteq> {}"
    and s5: "PatchCode K target (Some (data (code patch))) (ucast (patch_size patch)) s4 = Some (0, s5)"
      "smem s5 = write_bytes target (take (unat (patch_size patch)) (data (code patch))) (smem s4)"
  shows "install_done K st target replace patch mem b
    (st\<lparr>hpages := pages, hsys := s5, hreg := Add (hook_entry target replace patch mem b (smem s4)) (hreg st)\<rparr>)"
proof -
  let ?n = "unat (patch_size patch)" and ?m = "smem (hsys st)"
  note pf = patch_facts [OF p] and a = install_alloc [OF K ok patch_facts(1) [OF p] h alloc(1)]
  have laws: "protect_law K" "registry_wf (hreg st)" "list_all entry_ok (hreg st)"
    using K ok by (simp_all add: kernel_ok_def hook_ok_def)
  note kt = install_keeps_target [OF K ok pf(1) h alloc b(3)]
  note dis = kt(1) and T = kt(2) [folded s4(1)]
  have n: "?n = 4 * (?n div 4)" "0 < ?n div 4" "?n div 4 < 49152" using pf(1) by auto
  have len: "length (take ?n (data (code patch))) = ?n" using pf(2) by simp
  have small: "length (data b) \<le> 2 ^ 64" "?n \<le> 2 ^ 64" using b(3) unat_lt32 [of "patch_size patch div 4 * 20 + 64"] pf(1) by auto
  have img: "data b = concat (map le32 (reloc_image ?m target (?n div 4)))"
  proof -
    have "data b = concat (map le32 (reloc_image (smem s1) target (?n div 4)))"
      using RelocateInstructions_image [OF n, of "smem s1" target mem] b(1,2) by (auto simp: buf_words_def)
    moreover have "reloc_image (smem s1) target (?n div 4) = reloc_image ?m target (?n div 4)"
      using a(5) n(1,3) by (intro reloc_image_cong load32_block_cong) auto
    ultimately show ?thesis by simp
  qed
  have "bytes_at (smem s4) mem (data b)" unfolding s4(1) using small(1) by (intro bytes_at_write)
  then have at_mem: "bytes_at (smem s5) mem (data b)"
    unfolding s5(2) using dis small(1) len by (intro bytes_at_write_other) simp_all
  have at_target: "bytes_at (smem s5) target (take ?n (data (code patch)))"
    unfolding s5(2) using small(2) len by (intro bytes_at_write) simp
  have rest: "smem s5 x = ?m x" if "sprot (hsys st) x \<noteq> {}" "x \<notin> block target ?n" "x \<notin> block mem (length (data b))" for x
    using that a(2) [OF that(1)] len by (simp add: s5(2) s4(1) write_bytes_outside)
  have prot: "sprot s5 x \<noteq> {}" if "sprot s1 x \<noteq> {}" for x
    using PatchCode_mapped [OF laws(1) s5(1)] s4(2) [OF that] by blast
  have entry: "hook_entry target replace patch mem b (smem s4) = hook_entry target replace patch mem b ?m"
    using T pf(1) by (intro hook_entry_cong)
  have "hook_ok K (st\<lparr>hpages := pages, hsys := s5, hreg := Add (hook_entry target replace patch mem b ?m) (hreg st)\<rparr>)"
    using laws t(2) pages_ok_mono [OF a(1) prot] reg.wf_insert [OF laws(2)] hook_entry_ok [OF t(1) pf(1)]
    by (simp add: hook_ok_def Add_def)
  moreover have "client (st\<lparr>hpages := pages, hsys := s5, hreg := r\<rparr>) x" "x \<notin> block mem (length (data b))"
    if "client st x" for x r
  proof -
    show "client (st\<lparr>hpages := pages, hsys := s5, hreg := r\<rparr>) x"
      using client_mono(1) [OF a(7) [OF that] prot] .
    show "x \<notin> block mem (length (data b))" using a(8) [OF that alloc(2)] b(3) by (simp add: block_def)
  qed
  ultimately show ?thesis
    using img at_mem at_target dis alloc(2) rest by (simp add: install_done_def entry)
qed

lemma readable_eq:
  assumes "\<And>x. x \<in> block a n \<Longrightarrow> sprot s' x = sprot s x" "n \<le> 2 ^ 64"
  shows "readable s' a n = readable s a n"
  using assms in_block [of _ n a] by (auto simp: readable_def list_all_iff)

lemma HookInstall_outcome:
  assumes K: "kernel_ok K" and ok: "hook_ok K st" and p: "BuildJumpPatch target replace = Some patch"
    and h: "hookable K st target (unat (patch_size patch))"
    and args: "target \<noteq> 0" "replace \<noteq> 0" "orig \<noteq> 0" "Find target (hreg st) = None"
  obtains (nomem) "HookInstall K target replace orig st = Some (-4, None, st)"
      "fst (AllocNearCode K (ucast (patch_size patch div 4 * 20 + 64)) target (word_of_int kMaxBRange)
        (hpages st) (hsys st)) = 0"
    | (fault) "HookInstall K target replace orig st = None"
      "\<not> readable (hsys st) target (unat (patch_size patch)) \<or> (\<exists>a k s. fst (MakeMemoryRWX K a k s) \<noteq> 0)"
    | (refused) st' where "HookInstall K target replace orig st = Some (-6, None, st')" "hreg st' = hreg st"
      "hook_ok K st'" "\<exists>s. fst (MakeMemoryRWX K target (ucast (patch_size patch)) s) \<noteq> 0"
      "\<forall>x. client st x \<longrightarrow> smem (hsys st') x = smem (hsys st) x \<and> client st' x"
    | (success) mem b st' where "HookInstall K target replace orig st = Some (0, Some mem, st')"
      "install_done K st target replace patch mem b st'"
proof -
  let ?n = "unat (patch_size patch)"
  note pf = patch_facts [OF p]
  have laws: "protect_law K" "page_law K" "list_all entry_ok (hreg st)" "registry_wf (hreg st)"
    using K ok by (simp_all add: kernel_ok_def hook_ok_def)
  obtain mem pages s1 where alloc: "AllocNearCode K (ucast (patch_size patch div 4 * 20 + 64)) target
      (word_of_int kMaxBRange) (hpages st) (hsys st) = (mem, pages, s1)" using prod_cases3 by blast
  note a = install_alloc [OF K ok pf(1) h alloc]
  obtain b r where b: "BuildRelocatedCode (smem s1) target (patch_size patch) mem = Some b"
      "RelocateInstructions (smem s1) target (patch_size patch) mem = Some r" "rbuffer r = b"
      "unat (bsize b) = length (data b)" "bsize b \<noteq> 0" "length (data b) \<le> unat (patch_size patch div 4 * 20 + 64)"
    using BuildRelocatedCode_image [OF pf(1)] by blast
  obtain r2 s2 where w: "BeginWrite K mem (ucast (bsize b)) s1 = (r2, s2)" by fastforce
  note trace = HookInstall_trace [OF p pf(1) args pf(3) alloc b(1,5) w]
  have rd: "readable s1 target ?n = readable (hsys st) target ?n"
    using a(5) pf(1) by (intro readable_eq) auto
  consider (zero) "mem = 0" | (unread) "mem \<noteq> 0" "\<not> readable s1 target ?n"
    | (crash) "mem \<noteq> 0" "readable s1 target ?n" "memcpy_to mem (take (unat (bsize b)) (data b)) s2 = None"
    | (go) s3 where "mem \<noteq> 0" "readable s1 target ?n" "memcpy_to mem (take (unat (bsize b)) (data b)) s2 = Some s3"
    by (cases "memcpy_to mem (take (unat (bsize b)) (data b)) s2") auto
  then show ?thesis
  proof cases
    case zero
    then show ?thesis using nomem trace a(3) alloc by simp
  next
    case unread
    then show ?thesis using fault trace rd by simp
  next
    case crash
    have "addr_fits K mem (unat (bsize b))" using a(6) [OF crash(1)] b(4,6) by simp
    then have "r2 \<noteq> 0" using write_relocated(1) [OF laws(1,2) _ b(4) w] crash(3) by blast
    then have "fst (MakeMemoryRWX K mem (ucast (bsize b)) s1) \<noteq> 0" using w by (simp add: BeginWrite_def)
    then show ?thesis using fault trace crash by auto
  next
    case go
    define s4 where "s4 = snd (EndWrite K mem (ucast (bsize b)) s3)"
    have fits: "addr_fits K mem (unat (bsize b))" using a(6) [OF go(1)] b(4,6) by simp
    have s4: "smem s4 = write_bytes mem (data b) (smem s1)" "sprot s1 x \<noteq> {} \<Longrightarrow> sprot s4 x \<noteq> {}" for x
      using write_relocated(2) [OF laws(1,2) fits b(4) w go(3)] by (auto simp: s4_def)
    have tfits: "addr_fits K target (unat (ucast (patch_size patch) :: u64))" "ucast (patch_size patch) \<noteq> (0::u64)"
      "unat (ucast (patch_size patch) :: u64) \<le> length (data (code patch))"
      using h pf(1,2) by (auto simp: hookable_def)
    have run: "HookInstall K target replace orig st =
        Option.bind (PatchCode K target (Some (data (code patch))) (ucast (patch_size patch)) s4)
          (\<lambda>(ret, s5). if ret \<noteq> 0 then Some (-6, None, st\<lparr>hpages := pages, hsys := s5\<rparr>)
            else Some (0, Some mem, st\<lparr>hpages := pages, hsys := s5,
              hreg := Add (hook_entry target replace patch mem b (smem s4)) (hreg st)\<rparr>))"
      using trace go unfolding s4_def Let_def by simp
    show ?thesis
      using laws(1,2) tfits(1) args(1) tfits(2,3)
    proof (cases rule: PatchCode_cases [where s = s4])
      case r: (refused s5)
      let ?st = "st\<lparr>hpages := pages, hsys := s5\<rparr>"
      have prot5: "sprot s5 x \<noteq> {}" if "sprot s1 x \<noteq> {}" for x
        using PatchCode_mapped [OF laws(1) r(1)] s4(2) [OF that] by blast
      then have "hook_ok K ?st" using laws(3,4) pages_ok_mono [OF a(1)] by (simp add: hook_ok_def)
      moreover have "smem (hsys ?st) x = smem (hsys st) x \<and> client ?st x" if c: "client st x" for x
      proof
        have "x \<notin> block mem (length (data b))" using a(8) [OF c go(1)] b(6) by (simp add: block_def)
        then show "smem (hsys ?st) x = smem (hsys st) x"
          using a(2) [of x] c by (simp add: r(2) s4(1) write_bytes_outside client_def)
        show "client ?st x" using client_mono(2) [OF a(7) [OF c] prot5] .
      qed
      ultimately show ?thesis using refused [of ?st] run r(1,3) by auto
    next
      case (patched s5)
      have "install_done K st target replace patch mem b
          (st\<lparr>hpages := pages, hsys := s5, hreg := Add (hook_entry target replace patch mem b (smem s4)) (hreg st)\<rparr>)"
        using s4 patched(1,2) by (intro install_patched [OF K ok p h args(1,4) alloc go(1) b(2,3,6)]) simp_all
      then show ?thesis using success run patched(1) by simp
    qed
  qed
qed

section \<open>Removing a hook\<close>

lemma HookUninstall_outcome:
  assumes K: "kernel_ok K" and ok: "hook_ok K st" and t: "target \<noteq> 0"
    and fits: "\<forall>e. Find target (hreg st) = Some e \<longrightarrow> addr_fits K target (unat (saved_size e))"
  obtains (absent) "Find target (hreg st) = None" "HookUninstall K target st = Some (-2, st)"
    | (restored) e st' where "Find target (hreg st) = Some e" "HookUninstall K target st = Some (0, st')"
      "smem (hsys st') = write_bytes target (take (unat (saved_size e)) (saved_bytes e)) (smem (hsys st))"
      "hreg st' = snd (Remove target (hreg st))" "hook_ok K st'" "\<And>x. client st x \<Longrightarrow> client st' x"
    | (refused) e st' where "Find target (hreg st) = Some e" "HookUninstall K target st = Some (-3, st')"
      "smem (hsys st') = smem (hsys st)" "fst (MakeMemoryRWX K target (ucast (saved_size e)) (hsys st)) \<noteq> 0"
      "hreg st' = Add (e\<lparr>active := False\<rparr>) (snd (Remove target (hreg st)))" "hook_ok K st'"
      "\<And>x. client st x \<Longrightarrow> client st' x"
proof (cases "Find target (hreg st)")
  case None
  then have "fst (Remove target (hreg st)) = None" by (simp add: Remove_fst)
  then have "HookUninstall K target st = Some (-2, st)" using t by (auto simp: HookUninstall_def split: prod.splits)
  with None show ?thesis by (rule absent)
next
  case (Some e)
  have laws: "protect_law K" "page_law K" "registry_wf (hreg st)" "list_all entry_ok (hreg st)" "pages_ok K (hsys st) (hpages st)"
    using K ok by (simp_all add: kernel_ok_def hook_ok_def)
  define reg where "reg = snd (Remove target (hreg st))"
  have rm: "Remove target (hreg st) = (Some e, reg)"
    using Remove_fst [of target "hreg st"] Some by (cases "Remove target (hreg st)") (simp add: reg_def)
  have e: "entry_ok e" "target_addr e = target" using Find_Some [OF Some] laws(4) by (auto simp: list_all_iff)
  let ?n = "ucast (saved_size e) :: u64"
  have n: "addr_fits K target (unat ?n)" "?n \<noteq> 0" "unat ?n \<le> length (saved_bytes e)"
    using fits Some e(1) by (auto simp: entry_ok_def)
  have reg: "registry_wf reg" "list_all entry_ok reg" "Find target reg = None"
    using reg.wf_delete [OF laws(3)] reg.lookup_delete [OF laws(3), of target target] Remove_subset [of target "hreg st"] laws(4)
    by (auto simp: reg_def list_all_iff)
  show ?thesis
    using laws(1,2) n(1) t n(2,3)
  proof (cases rule: PatchCode_cases [where s = "hsys st"])
    case r: (refused s')
    let ?e = "e\<lparr>active := False\<rparr>"
    have "entry_ok ?e" using e(1) by (simp add: entry_ok_def)
    then have "list_all entry_ok (Add ?e reg)" using reg(2) by (simp add: Add_def)
    moreover have "registry_wf (Add ?e reg)"
      by (rule reg.wf_insert [OF reg(1)]) (simp add: reg(3) e(2))
    moreover have "pages_ok K s' (hpages st)" by (rule pages_ok_mono [OF laws(5) PatchCode_mapped [OF laws(1) r(1)]])
    ultimately have "hook_ok K (st\<lparr>hsys := s', hreg := Add ?e reg\<rparr>)" by (simp add: hook_ok_def)
    moreover have "HookUninstall K target st = Some (-3, st\<lparr>hsys := s', hreg := Add ?e reg\<rparr>)"
      using t r(1) by (simp add: HookUninstall_def rm)
    moreover have "client (st\<lparr>hsys := s', hreg := Add ?e reg\<rparr>) x" if "client st x" for x
      using that PatchCode_mapped [OF laws(1) r(1)] by (simp add: client_def)
    ultimately show ?thesis using refused [OF Some] r(2,3) by (simp add: rm)
  next
    case (patched s')
    have "pages_ok K s' (hpages st)" by (rule pages_ok_mono [OF laws(5) PatchCode_mapped [OF laws(1) patched(1)]])
    then have "hook_ok K (st\<lparr>hsys := s', hreg := reg\<rparr>)" using reg(1,2) by (simp add: hook_ok_def)
    moreover have "HookUninstall K target st = Some (0, st\<lparr>hsys := s', hreg := reg\<rparr>)"
      using t patched(1) by (simp add: HookUninstall_def rm)
    moreover have "client (st\<lparr>hsys := s', hreg := reg\<rparr>) x" if "client st x" for x
      using that PatchCode_mapped [OF laws(1) patched(1)] by (simp add: client_def)
    ultimately show ?thesis using restored [OF Some] patched(2) by (simp add: rm)
  qed
qed

section \<open>Successful calls\<close>

lemma hookable_mono: "hookable K st target n \<Longrightarrow> k \<le> n \<Longrightarrow> hookable K st target k"
  by (auto simp: hookable_def addr_fits_def block_def)

lemma readable_mono: "readable s a n \<Longrightarrow> k \<le> n \<Longrightarrow> readable s a k"
  by (auto simp: readable_def list_all_iff)

lemma hookable_patch:
  assumes "hookable K st target 16"
  obtains patch where "BuildJumpPatch target replace = Some patch" "hookable K st target (unat (patch_size patch))"
    "unat (patch_size patch) \<le> 16"
proof -
  obtain patch where p: "BuildJumpPatch target replace = Some patch" using jump_patch_spec by blast
  then have "unat (patch_size patch) \<le> 16" using patch_facts(1) [OF p] by auto
  then show ?thesis using that p hookable_mono [OF assms] by blast
qed

lemma install_args:
  assumes "HookInstall K target replace orig st = Some (0, f, st')"
  shows "target \<noteq> 0" "replace \<noteq> 0" "orig \<noteq> 0" "Find target (hreg st) = None"
  using assms by (auto simp: HookInstall_def split: if_splits)

lemma HookInstall_success:
  assumes "kernel_ok K" "hook_ok K st" "hookable K st target 16" "HookInstall K target replace orig st = Some (0, Some f, st')"
  obtains patch b where "BuildJumpPatch target replace = Some patch" "unat (patch_size patch) \<le> 16"
    "install_done K st target replace patch f b st'"
proof -
  obtain patch where p: "BuildJumpPatch target replace = Some patch" "hookable K st target (unat (patch_size patch))"
    "unat (patch_size patch) \<le> 16" using assms(3) by (rule hookable_patch)
  show ?thesis
    using assms(1,2) p(1,2) install_args [OF assms(4)]
  proof (cases rule: HookInstall_outcome)
    case (success mem b st1)
    then show ?thesis using that p(1,3) assms(4) by simp
  qed (use assms(4) in simp_all)
qed

end
