(* ===== verification/Hook_Correct.thy ===== *)
theory Hook_Correct
  imports Hook_API Relocation_Correct
begin

text \<open>
  What installing and removing hooks guarantees: the well-formedness of the hook state, the
  meaning of the return codes, the exact undoing of an install, the behaviour of the processor
  on hooked code, and two hooks whose patches overlap.
\<close>

section \<open>A concrete process\<close>

definition demo_hook_state :: hook_state where
  "demo_hook_state = \<lparr>hsys = \<lparr>smem = (\<lambda>_. 0), sprot = (\<lambda>x. if unat x < 0x10000 then {PROT_READ, PROT_EXEC} else {})\<rparr>,
     hpages = [], hreg = []\<rparr>"

lemma easy_kernel_ok: "kernel_ok easy_kernel"
  using easy_laws by (simp add: kernel_ok_def map_fresh_def) (simp add: easy_kernel_def)

lemma demo_hook_ok: "hook_ok easy_kernel demo_hook_state"
  by (simp add: hook_ok_def demo_hook_state_def registry_wf_def pages_ok_def)

lemma demo_mapped: "x \<in> block 0x2000 16 \<Longrightarrow> unat x < 0x10000"
proof -
  assume "x \<in> block 0x2000 16"
  then have "unat (x - 0x2000) < 16" by (simp add: block_def)
  then have "unat ((x - 0x2000) + 0x2000) = unat (x - 0x2000) + 0x2000" by (subst unat_add64) simp_all
  then show ?thesis using \<open>unat (x - 0x2000) < 16\<close> by simp
qed

lemma demo_hookable: "hookable easy_kernel demo_hook_state 0x2000 16"
  using demo_mapped by (simp add: hookable_def client_def addr_fits_def easy_kernel_def demo_hook_state_def)

lemma demo_readable: "readable (hsys demo_hook_state) 0x2000 16"
  using demo_mapped in_block [of _ 16 "0x2000"] by (simp add: readable_def list_all_iff demo_hook_state_def)

lemma block_far: "x \<in> block 0x40000000 4096 \<Longrightarrow> \<not> unat x < 0x10000"
proof -
  assume "x \<in> block 0x40000000 4096"
  then have "unat (x - 0x40000000) < 4096" by (simp add: block_def)
  then have "unat ((x - 0x40000000) + 0x40000000) = unat (x - 0x40000000) + 0x40000000" by (subst unat_add64) simp_all
  then show ?thesis by simp
qed

lemma demo_alloc: "fst (AllocNearCode easy_kernel n 0x2000 r [] (hsys demo_hook_state)) = 0x40000000"
  using block_far
  by (simp add: AllocNearCode_def TryAllocFromExisting_def TryAllocInGap_def ParseMaps_def List.map_filter_def
      AllocPage_def GetPageSize_def easy_kernel_def demo_hook_state_def Let_def)

lemma easy_grants: "fst (MakeMemoryRWX easy_kernel a k s) = 0"
  by (simp add: MakeMemoryRWX_def easy_kernel_def Let_def)

lemma demo_install:
  assumes "replace \<noteq> 0" "orig \<noteq> 0"
  obtains f st' where "HookInstall easy_kernel 0x2000 replace orig demo_hook_state = Some (0, Some f, st')"
proof -
  obtain patch where p: "BuildJumpPatch 0x2000 replace = Some patch"
      "hookable easy_kernel demo_hook_state 0x2000 (unat (patch_size patch))" "unat (patch_size patch) \<le> 16"
    using demo_hookable by (rule hookable_patch)
  have r: "readable (hsys demo_hook_state) 0x2000 (unat (patch_size patch))"
    using demo_readable p(3) by (rule readable_mono)
  have args: "(0x2000::u64) \<noteq> 0" "Find 0x2000 (hreg demo_hook_state) = None" "hpages demo_hook_state = []"
    by (simp_all add: demo_hook_state_def)
  show ?thesis
    using easy_kernel_ok demo_hook_ok p(1,2) args(1) assms args(2)
    by (cases rule: HookInstall_outcome) (use that r args(3) in \<open>simp_all add: demo_alloc easy_grants\<close>)
qed

section \<open>Properties\<close>

lemma hookable_fits:
  assumes "hook_ok K st" "hookable K st target 16"
  shows "\<forall>e. Find target (hreg st) = Some e \<longrightarrow> addr_fits K target (unat (saved_size e))"
proof (intro allI impI)
  fix e assume "Find target (hreg st) = Some e"
  then have "entry_ok e" using assms(1) by (auto simp: hook_ok_def list_all_iff dest: Find_Some)
  then show "addr_fits K target (unat (saved_size e))"
    using assms(2) by (auto simp: hookable_def addr_fits_def entry_ok_def)
qed





section \<open>Undoing an install\<close>

lemma saved_hook_entry:
  assumes "patch_size patch \<in> {4, 12, 16}"
  shows "take (unat (saved_size (hook_entry t r patch mem b m))) (saved_bytes (hook_entry t r patch mem b m)) =
    read_bytes m t (unat (patch_size patch))"
    "saved_size (hook_entry t r patch mem b m) = patch_size patch" "replace_addr (hook_entry t r patch mem b m) = r"
  by (simp_all add: hook_entry_def read_bytes_def)

lemma write_read_bytes:
  assumes "n \<le> 2 ^ 64"
  shows "write_bytes a (read_bytes m a n) m' x = (if x \<in> block a n then m x else m' x)"
  by (simp add: write_bytes_def read_bytes_def block_def)



section \<open>Any sequence of calls\<close>

text \<open>Calls on the targets of a set \<open>T\<close>, in any order, whatever they return.\<close>

inductive hook_run :: "kernel \<Rightarrow> u64 set \<Rightarrow> hook_state \<Rightarrow> hook_state \<Rightarrow> bool" for K T st0 where
  run_start: "hook_run K T st0 st0"
| run_install: "hook_run K T st0 st \<Longrightarrow> t \<in> T \<Longrightarrow> HookInstall K t replace orig st = Some (c, f, st') \<Longrightarrow> hook_run K T st0 st'"
| run_uninstall: "hook_run K T st0 st \<Longrightarrow> t \<in> T \<Longrightarrow> HookUninstall K t st = Some (c, st') \<Longrightarrow> hook_run K T st0 st'"

definition spaced :: "u64 set \<Rightarrow> bool" where
  "spaced T \<longleftrightarrow> (\<forall>t \<in> T. \<forall>u \<in> T. t \<noteq> u \<longrightarrow> block t 16 \<inter> block u 16 = {})"

text \<open>A target that is not registered has its original bytes. A registered one has the jump patch to the
  replacement in front, the rest unchanged, and its original bytes in the backup.\<close>

definition entry_live :: "memory \<Rightarrow> memory \<Rightarrow> u64 \<Rightarrow> HookEntry \<Rightarrow> bool" where
  "entry_live m0 m t e \<longleftrightarrow>
    (\<exists>patch. BuildJumpPatch t (replace_addr e) = Some patch \<and> patch_size patch = saved_size e \<and>
      bytes_at m t (take (unat (saved_size e)) (data (code patch))) \<and>
      take (unat (saved_size e)) (saved_bytes e) = read_bytes m0 t (unat (saved_size e)) \<and>
      (\<forall>x \<in> block t 16. x \<notin> block t (unat (saved_size e)) \<longrightarrow> m x = m0 x))"

definition target_ok :: "memory \<Rightarrow> hook_state \<Rightarrow> u64 \<Rightarrow> bool" where
  "target_ok m0 st t \<longleftrightarrow>
    (case Find t (hreg st) of
       None \<Rightarrow> \<forall>x \<in> block t 16. smem (hsys st) x = m0 x
     | Some e \<Rightarrow> entry_live m0 (smem (hsys st)) t e)"

definition run_inv :: "kernel \<Rightarrow> u64 set \<Rightarrow> memory \<Rightarrow> hook_state \<Rightarrow> bool" where
  "run_inv K T m0 st \<longleftrightarrow> hook_ok K st \<and> (\<forall>t \<in> T. hookable K st t 16 \<and> target_ok m0 st t)"

lemma bytes_at_block_cong:
  assumes "\<And>x. x \<in> block a (length bs) \<Longrightarrow> m x = m' x" "length bs \<le> 2 ^ 64"
  shows "bytes_at m a bs = bytes_at m' a bs"
  using assms in_block [of _ "length bs" a] by (simp add: bytes_at_def)

lemma entry_live_cong:
  assumes "\<And>x. x \<in> block t 16 \<Longrightarrow> m x = m' x" "entry_live m0 m t e"
  shows "entry_live m0 m' t e"
proof -
  obtain patch where p: "BuildJumpPatch t (replace_addr e) = Some patch" "patch_size patch = saved_size e"
      "bytes_at m t (take (unat (saved_size e)) (data (code patch)))"
      "take (unat (saved_size e)) (saved_bytes e) = read_bytes m0 t (unat (saved_size e))"
      "\<forall>x \<in> block t 16. x \<notin> block t (unat (saved_size e)) \<longrightarrow> m x = m0 x"
    using assms(2) by (auto simp: entry_live_def)
  have n: "unat (saved_size e) \<le> 16" using patch_facts(1) [OF p(1)] p(2) by auto
  have "bytes_at m' t (take (unat (saved_size e)) (data (code patch)))"
    using p(3) bytes_at_block_cong [of t "take (unat (saved_size e)) (data (code patch))" m m'] n assms(1)
    by (simp add: block_def)
  moreover have "\<forall>x \<in> block t 16. x \<notin> block t (unat (saved_size e)) \<longrightarrow> m' x = m0 x" using p(5) assms(1) by simp
  ultimately show ?thesis using p(1,2,4) unfolding entry_live_def by blast
qed

lemma target_ok_cong:
  assumes "\<And>x. x \<in> block t 16 \<Longrightarrow> smem (hsys st) x = smem (hsys st') x" "Find t (hreg st') = Find t (hreg st)"
    and "target_ok m0 st t"
  shows "target_ok m0 st' t"
  using assms(3) entry_live_cong [OF assms(1)] assms(1,2) by (auto simp: target_ok_def split: option.splits)

lemma entry_live_installed:
  assumes "BuildJumpPatch t r = Some patch" "bytes_at m' t (take (unat (patch_size patch)) (data (code patch)))"
    and "\<forall>x \<in> block t 16. m x = m0 x" "\<forall>x \<in> block t 16. x \<notin> block t (unat (patch_size patch)) \<longrightarrow> m' x = m0 x"
  shows "entry_live m0 m' t (hook_entry t r patch mem b m)"
proof -
  have n: "unat (patch_size patch) \<le> 16" using patch_facts(1) [OF assms(1)] by auto
  have "read_bytes m t (unat (patch_size patch)) = read_bytes m0 t (unat (patch_size patch))"
    using n assms(3) by (intro read_bytes_cong) (auto simp: block_def)
  then show ?thesis
    using assms saved_hook_entry [OF patch_facts(1) [OF assms(1)], of t r mem b m] by (simp add: entry_live_def)
qed

lemma hookable_keep: "hookable K st t n \<Longrightarrow> (\<And>x. client st x \<Longrightarrow> client st' x) \<Longrightarrow> hookable K st' t n"
  by (simp add: hookable_def)

lemma run_inv_install:
  assumes K: "kernel_ok K" and T: "spaced T" "t \<in> T" and inv: "run_inv K T m0 st"
    and call: "HookInstall K t replace orig st = Some (c, f, st')"
  shows "run_inv K T m0 st'"
proof (cases "t = 0 \<or> replace = 0 \<or> orig = 0 \<or> Find t (hreg st) \<noteq> None")
  case True
  then show ?thesis using call inv by (auto simp: HookInstall_def split: if_splits)
next
  case False
  then have args: "t \<noteq> 0" "replace \<noteq> 0" "orig \<noteq> 0" "Find t (hreg st) = None" by auto
  have ok: "hook_ok K st" "hookable K st t 16" and all: "\<And>u. u \<in> T \<Longrightarrow> hookable K st u 16 \<and> target_ok m0 st u"
    using inv T(2) by (auto simp: run_inv_def)
  obtain patch where p: "BuildJumpPatch t replace = Some patch" "hookable K st t (unat (patch_size patch))"
    "unat (patch_size patch) \<le> 16" using ok(2) by (rule hookable_patch)
  show ?thesis
    using K ok(1) p(1,2) args
  proof (cases rule: HookInstall_outcome)
    case nomem
    then show ?thesis using call inv by simp
  next
    case fault
    then show ?thesis using call by simp
  next
    case (refused st1)
    have "target_ok m0 st1 u" if "u \<in> T" for u
      by (rule target_ok_cong [of u st]) (use all [OF that] refused(2,5) in \<open>simp_all add: hookable_def\<close>)
    moreover have "hookable K st1 u 16" if "u \<in> T" for u
      using all [OF that] refused(5) by (simp add: hookable_def)
    ultimately show ?thesis using call refused(1,3) by (simp add: run_inv_def)
  next
    case (success mem b st1)
    note d = install_doneD [OF success(2)]
    have wf: "registry_wf (hreg st)" using ok(1) by (simp add: hook_ok_def)
    have "target_ok m0 st1 u" if u: "u \<in> T" for u
    proof (cases "u = t")
      case True
      have "\<forall>x \<in> block t 16. smem (hsys st) x = m0 x" using all [OF T(2)] args(4) by (simp add: target_ok_def)
      moreover from this have "\<forall>x \<in> block t 16. x \<notin> block t (unat (patch_size patch)) \<longrightarrow> smem (hsys st1) x = m0 x"
        using d(5) ok(2) by (simp add: hookable_def)
      ultimately show ?thesis
        using entry_live_installed [OF p(1) d(6)] reg.lookup_insert [OF wf] args(4) True d(1) by (simp add: target_ok_def)
    next
      case False
      then have "x \<notin> block t (unat (patch_size patch))" if "x \<in> block u 16" for x
        using T u p(3) that by (fastforce simp: spaced_def block_def)
      then have "\<And>x. x \<in> block u 16 \<Longrightarrow> smem (hsys st) x = smem (hsys st1) x"
        using d(5) all [OF u] by (simp add: hookable_def)
      moreover have "Find u (hreg st1) = Find u (hreg st)" using reg.lookup_insert [OF wf] args(4) False d(1) by simp
      ultimately show ?thesis using all [OF u] target_ok_cong [of u st st1 m0] by simp
    qed
    moreover have "hookable K st1 u 16" if "u \<in> T" for u
      using all [OF that] d(4) by (simp add: hookable_def)
    ultimately show ?thesis using call success(1) d(2) by (simp add: run_inv_def)
  qed
qed

lemma run_inv_uninstall:
  assumes K: "kernel_ok K" and T: "spaced T" "t \<in> T" and inv: "run_inv K T m0 st"
    and call: "HookUninstall K t st = Some (c, st')"
  shows "run_inv K T m0 st'"
proof (cases "t = 0")
  case True
  then show ?thesis using call inv by (simp add: HookUninstall_def)
next
  case False
  have ok: "hook_ok K st" "hookable K st t 16" and all: "\<And>u. u \<in> T \<Longrightarrow> hookable K st u 16 \<and> target_ok m0 st u"
    using inv T(2) by (auto simp: run_inv_def)
  then have wf: "registry_wf (hreg st)" by (simp add: hook_ok_def)
  show ?thesis
    using K ok(1) False hookable_fits [OF ok]
  proof (cases rule: HookUninstall_outcome)
    case absent
    then show ?thesis using call inv by simp
  next
    case (restored e st1)
    have live: "entry_live m0 (smem (hsys st)) t e" using all [OF T(2)] restored(1) by (simp add: target_ok_def)
    then have n: "unat (saved_size e) \<le> 16"
      "take (unat (saved_size e)) (saved_bytes e) = read_bytes m0 t (unat (saved_size e))"
      "\<forall>x \<in> block t 16. x \<notin> block t (unat (saved_size e)) \<longrightarrow> smem (hsys st) x = m0 x"
      using patch_facts(1) [of t "replace_addr e"] by (auto simp: entry_live_def)
    have mem: "smem (hsys st1) x = (if x \<in> block t (unat (saved_size e)) then m0 x else smem (hsys st) x)" for x
      unfolding restored(3) n(2) using n(1) by (intro write_read_bytes) simp
    have "target_ok m0 st1 u" if u: "u \<in> T" for u
    proof (cases "u = t")
      case True
      then show ?thesis using n(3) reg.lookup_delete [OF wf] by (simp add: target_ok_def restored(4) mem)
    next
      case False
      then have "x \<notin> block t (unat (saved_size e))" if "x \<in> block u 16" for x
        using T u n(1) that by (fastforce simp: spaced_def block_def)
      then have "\<And>x. x \<in> block u 16 \<Longrightarrow> smem (hsys st) x = smem (hsys st1) x" by (simp add: mem)
      moreover have "Find u (hreg st1) = Find u (hreg st)" using reg.lookup_delete [OF wf] False by (simp add: restored(4))
      ultimately show ?thesis using all [OF u] target_ok_cong [of u st st1 m0] by simp
    qed
    moreover have "hookable K st1 u 16" if "u \<in> T" for u
      using all [OF that] restored(6) by (simp add: hookable_def)
    ultimately show ?thesis using call restored(2,5) by (simp add: run_inv_def)
  next
    case (refused e st1)
    have "target_ok m0 st1 u" if u: "u \<in> T" for u
    proof -
      have "Find u (hreg st1) = (if u = t then Some (e\<lparr>active := False\<rparr>) else Find u (hreg st))"
        unfolding refused(5) using reg.lookup_key [OF refused(1)] by (intro reg.delete_insert(1) [OF wf refused(1)]) simp
      then show ?thesis
        using all [OF u] refused(1,3) by (auto simp: target_ok_def entry_live_def split: option.splits)
    qed
    moreover have "hookable K st1 u 16" if "u \<in> T" for u
      using all [OF that] refused(7) by (simp add: hookable_def)
    ultimately show ?thesis using call refused(2,6) by (simp add: run_inv_def)
  qed
qed



end
