(* ===== verification/Xz_Dict.thy ===== *)
theory Xz_Dict
  imports Prelude
begin

text \<open>
  The buffers of \<open>xz.h\<close> and the dictionary of \<open>xz_dec_lzma2.c\<close>, a ring buffer over the last bytes of output.
  Only multi-call mode with a dynamically allocated dictionary is compiled in
  (\<open>XZ_DEC_DYNALLOC\<close>), so the branches for single-call mode are dead and left out. Byte counts and
  positions of type \<open>size_t\<close> are natural numbers: they count bytes of objects in memory. Every access
  outside an array yields \<open>None\<close>. Input, output and dictionary are distinct objects.
  The ring buffer is shown to represent the tail of the output produced so far.
\<close>

section \<open>Buffers and return codes\<close>

datatype xz_mode = XZ_SINGLE | XZ_PREALLOC | XZ_DYNALLOC

datatype xz_ret =
    XZ_OK | XZ_STREAM_END | XZ_UNSUPPORTED_CHECK | XZ_MEM_ERROR | XZ_MEMLIMIT_ERROR
  | XZ_FORMAT_ERROR | XZ_OPTIONS_ERROR | XZ_DATA_ERROR | XZ_BUF_ERROR

record xz_buf =
  b_in :: "u8 list"
  in_pos :: nat
  in_size :: nat
  b_out :: "u8 list"
  out_pos :: nat
  out_size :: nat

section \<open>The dictionary\<close>

record dictionary =
  d_buf :: "u8 list"
  d_start :: nat
  d_pos :: nat
  d_full :: nat
  d_limit :: nat
  d_end :: nat
  d_size :: u32
  d_size_max :: u32
  d_allocated :: u32
  d_mode :: xz_mode

definition dict_reset :: "dictionary \<Rightarrow> dictionary" where
  "dict_reset dict = dict\<lparr>d_start := 0, d_pos := 0, d_limit := 0, d_full := 0\<rparr>"

definition dict_limit :: "dictionary \<Rightarrow> nat \<Rightarrow> dictionary" where
  "dict_limit dict out_max =
    (if d_end dict - d_pos dict \<le> out_max then dict\<lparr>d_limit := d_end dict\<rparr>
     else dict\<lparr>d_limit := d_pos dict + out_max\<rparr>)"

definition dict_has_space :: "dictionary \<Rightarrow> bool" where
  "dict_has_space dict \<longleftrightarrow> d_pos dict < d_limit dict"

text \<open>The index \<open>dist + 1\<close> bytes back, wrapping around at the end of the buffer.\<close>

definition dict_back :: "dictionary \<Rightarrow> u32 \<Rightarrow> nat option" where
  "dict_back dict dist =
    (let offset = int (d_pos dict) - int (unat dist) - 1;
         offset = (if d_pos dict \<le> unat dist then offset + int (d_end dict) else offset)
     in if offset < 0 then None else Some (nat offset))"

definition dict_get :: "dictionary \<Rightarrow> u32 \<Rightarrow> u32 option" where
  "dict_get dict dist =
    (if d_full dict > 0
     then do { offset \<leftarrow> dict_back dict dist; b \<leftarrow> fetch (d_buf dict) offset; Some (ucast b) }
     else Some 0)"

definition dict_put :: "dictionary \<Rightarrow> u8 \<Rightarrow> dictionary option" where
  "dict_put dict byte =
    do { buf \<leftarrow> store (d_buf dict) (d_pos dict) byte;
         let dict = dict\<lparr>d_buf := buf, d_pos := d_pos dict + 1\<rparr>;
         Some (if d_full dict < d_pos dict then dict\<lparr>d_full := d_pos dict\<rparr> else dict) }"

lemma unat_pred_less: "left \<noteq> 1 \<Longrightarrow> unat (left - 2) < unat (left - 1 :: u32)"
  using measure_unat [of "left - 1"] by simp

function repeat_loop :: "u32 \<Rightarrow> nat \<Rightarrow> u8 list \<Rightarrow> nat \<Rightarrow> nat \<Rightarrow> (u8 list \<times> nat) option" where
  "repeat_loop left end' buf pos back =
    do { b \<leftarrow> fetch buf back;
         buf \<leftarrow> store buf pos b;
         let back = (if back + 1 = end' then 0 else back + 1);
         if left - 1 > 0 then repeat_loop (left - 1) end' buf (pos + 1) back
         else Some (buf, pos + 1) }"
  by pat_completeness auto

termination
  by (relation "measure (\<lambda>(left, _). unat (left - 1))") (auto simp: word_greater_zero_iff unat_pred_less)

declare repeat_loop.simps [simp del]

definition dict_repeat :: "dictionary \<Rightarrow> u32 \<Rightarrow> u32 \<Rightarrow> (bool \<times> u32 \<times> dictionary) option" where
  "dict_repeat dict len dist =
    (if d_full dict \<le> unat dist \<or> d_size dict \<le> dist then Some (False, len, dict)
     else
       do { let left = of_nat (min (d_limit dict - d_pos dict) (unat len));
            let len = len - left;
            back \<leftarrow> dict_back dict dist;
            (buf, pos) \<leftarrow> repeat_loop left (d_end dict) (d_buf dict) (d_pos dict) back;
            let dict = dict\<lparr>d_buf := buf, d_pos := pos\<rparr>;
            Some (True, len, if d_full dict < d_pos dict then dict\<lparr>d_full := d_pos dict\<rparr> else dict) })"

text \<open>One round of the copy loop: how much is copied, and the copy.\<close>

definition uncompressed_size :: "dictionary \<Rightarrow> xz_buf \<Rightarrow> u32 \<Rightarrow> nat" where
  "uncompressed_size dict b left =
    (let copy_size = min (in_size b - in_pos b) (out_size b - out_pos b);
         copy_size = (if copy_size > d_end dict - d_pos dict then d_end dict - d_pos dict else copy_size)
     in if copy_size > unat left then unat left else copy_size)"

definition uncompressed_copy :: "dictionary \<Rightarrow> xz_buf \<Rightarrow> nat \<Rightarrow> (dictionary \<times> xz_buf) option" where
  "uncompressed_copy dict b copy_size =
    do { buf \<leftarrow> copy_array (d_buf dict) (d_pos dict) (b_in b) (in_pos b) copy_size;
         let dict = dict\<lparr>d_buf := buf, d_pos := d_pos dict + copy_size\<rparr>;
         let dict = (if d_full dict < d_pos dict then dict\<lparr>d_full := d_pos dict\<rparr> else dict);
         let dict = (if d_pos dict = d_end dict then dict\<lparr>d_pos := 0\<rparr> else dict);
         out \<leftarrow> copy_array (b_out b) (out_pos b) (b_in b) (in_pos b) copy_size;
         let dict = dict\<lparr>d_start := d_pos dict\<rparr>;
         Some (dict, b\<lparr>b_out := out, out_pos := out_pos b + copy_size, in_pos := in_pos b + copy_size\<rparr>) }"

partial_function (option) dict_uncompressed ::
    "dictionary \<Rightarrow> xz_buf \<Rightarrow> u32 \<Rightarrow> (dictionary \<times> xz_buf \<times> u32) option" where
  "dict_uncompressed dict b left =
    (if left > 0 \<and> in_pos b < in_size b \<and> out_pos b < out_size b
     then
       do { let copy_size = uncompressed_size dict b left;
            (dict, b) \<leftarrow> uncompressed_copy dict b copy_size;
            dict_uncompressed dict b (left - of_nat copy_size) }
     else Some (dict, b, left))"

definition dict_flush :: "dictionary \<Rightarrow> xz_buf \<Rightarrow> (u32 \<times> dictionary \<times> xz_buf) option" where
  "dict_flush dict b =
    do { let copy_size = d_pos dict - d_start dict;
         let dict = (if d_pos dict = d_end dict then dict\<lparr>d_pos := 0\<rparr> else dict);
         out \<leftarrow> copy_array (b_out b) (out_pos b) (d_buf dict) (d_start dict) copy_size;
         let dict = dict\<lparr>d_start := d_pos dict\<rparr>;
         Some (of_nat copy_size, dict, b\<lparr>b_out := out, out_pos := out_pos b + copy_size\<rparr>) }"

section \<open>The history a dictionary holds\<close>

definition dict_inv :: "dictionary \<Rightarrow> bool" where
  "dict_inv d \<longleftrightarrow> 0 < d_end d \<and> d_end d \<le> length (d_buf d) \<and> d_start d \<le> d_pos d \<and> d_pos d \<le> d_full d \<and>
    d_full d \<le> d_end d \<and> d_end d = unat (d_size d) \<and> (d_full d < d_end d \<longrightarrow> d_pos d = d_full d)"

text \<open>Oldest byte first.\<close>

definition hist :: "dictionary \<Rightarrow> u8 list" where
  "hist d = drop (d_pos d) (take (d_full d) (d_buf d)) @ take (d_pos d) (d_buf d)"

text \<open>The dictionary holds the last \<open>d_end d\<close> bytes of the output.\<close>

definition dict_rep :: "dictionary \<Rightarrow> u8 list \<Rightarrow> bool" where
  "dict_rep d out \<longleftrightarrow> dict_inv d \<and> hist d = drop (length out - d_end d) out"

fun lz_copy :: "nat \<Rightarrow> nat \<Rightarrow> u8 list \<Rightarrow> u8 list" where
  "lz_copy 0 dist out = out"
| "lz_copy (Suc n) dist out = lz_copy n dist (out @ [out ! (length out - 1 - dist)])"

lemma length_hist [simp]: "dict_inv d \<Longrightarrow> length (hist d) = d_full d"
  by (auto simp: dict_inv_def hist_def)

lemma dict_rep_full: "dict_rep d out \<Longrightarrow> d_full d = min (length out) (d_end d)"
  using length_hist [of d] by (auto simp: dict_rep_def min_def)

lemma hist_nth:
  assumes "dict_inv d" "k < d_full d"
  shows "hist d ! k = d_buf d ! (if k < d_full d - d_pos d then d_pos d + k else k - (d_full d - d_pos d))"
  using assms by (auto simp: dict_inv_def hist_def nth_append)

lemma dict_rep_nth:
  assumes "dict_rep d out" "dist < d_full d"
  shows "hist d ! (d_full d - 1 - dist) = out ! (length out - 1 - dist)"
  using assms dict_rep_full [OF assms(1)] by (auto simp: dict_rep_def min_def split: if_splits)

definition back_of :: "dictionary \<Rightarrow> nat \<Rightarrow> nat" where
  "back_of d dist = (if dist < d_pos d then d_pos d - 1 - dist else d_pos d + d_end d - 1 - dist)"

lemma dict_back_ok:
  assumes "dict_rep d out" "d_pos d < d_end d" "unat dist < d_full d"
  shows "dict_back d dist = Some (back_of d (unat dist))" "back_of d (unat dist) < d_end d"
    "d_buf d ! back_of d (unat dist) = out ! (length out - 1 - unat dist)"
proof -
  have inv: "dict_inv d" using assms(1) by (simp add: dict_rep_def)
  define k where "k = unat dist"
  have o: "k < d_full d" "d_full d \<le> d_end d" "d_pos d \<le> d_full d" "d_full d < d_end d \<longrightarrow> d_pos d = d_full d"
    using inv assms(3) by (auto simp: dict_inv_def k_def)
  show "dict_back d dist = Some (back_of d (unat dist))" "back_of d (unat dist) < d_end d"
    unfolding dict_back_def back_of_def Let_def k_def [symmetric] using o assms(2) by auto
  have "hist d ! (d_full d - 1 - k) = d_buf d ! back_of d k"
    using o assms(2) hist_nth [OF inv, of "d_full d - 1 - k"]
    by (auto simp: back_of_def Suc_diff_Suc intro!: arg_cong [of _ _ "(!) (d_buf d)"])
  then show "d_buf d ! back_of d (unat dist) = out ! (length out - 1 - unat dist)"
    using dict_rep_nth [OF assms(1,3)] unfolding k_def by argo
qed

lemma dict_get_ok:
  assumes "dict_rep d out" "d_pos d < d_end d" "unat dist < d_full d \<or> d_full d = 0"
  shows "dict_get d dist = Some (if d_full d = 0 then 0 else ucast (out ! (length out - 1 - unat dist)))"
proof (cases "d_full d = 0")
  case False
  then have l: "unat dist < d_full d" using assms(3) by simp
  have "back_of d (unat dist) < length (d_buf d)"
    using dict_back_ok(2) [OF assms(1,2) l] assms(1) by (simp add: dict_rep_def dict_inv_def)
  then show ?thesis using dict_back_ok(1,3) [OF assms(1,2) l] False by (simp add: dict_get_def)
qed (simp add: dict_get_def)

lemma dict_put_ok:
  fixes b :: u8
  assumes "dict_rep d out" "d_pos d < d_end d"
  defines "d' \<equiv> d\<lparr>d_buf := (d_buf d)[d_pos d := b], d_pos := d_pos d + 1, d_full := max (d_full d) (d_pos d + 1)\<rparr>"
  shows "dict_put d b = Some d'" "dict_rep d' (out @ [b])"
proof -
  have inv: "dict_inv d" and h: "hist d = drop (length out - d_end d) out" using assms(1) by (simp_all add: dict_rep_def)
  then have le: "d_end d \<le> length (d_buf d)" by (simp add: dict_inv_def)
  then have len: "d_pos d < length (d_buf d)" using assms(2) by simp
  then show "dict_put d b = Some d'" by (cases d) (auto simp: dict_put_def d'_def max_def Let_def)
  have t: "take (Suc (d_pos d)) ((d_buf d)[d_pos d := b]) = take (d_pos d) (d_buf d) @ [b]"
    using len by (simp add: take_Suc_conv_app_nth)
  have inv': "dict_inv d'" using inv assms(2) by (auto simp: dict_inv_def d'_def)
  have full: "d_full d = min (length out) (d_end d)" by (rule dict_rep_full [OF assms(1)])
  have "hist d' = drop (length out + 1 - d_end d) (out @ [b])"
  proof (cases "d_full d < d_end d")
    case True
    then have "d_pos d = d_full d" "length out < d_end d" using inv full by (auto simp: dict_inv_def)
    then show ?thesis
      using h full t by (simp add: hist_def d'_def)
  next
    case False
    then have f: "d_full d = d_end d" "d_end d \<le> length out" using inv full by (auto simp: dict_inv_def)
    then have "hist d' = drop 1 (hist d) @ [b]"
      using assms(2) t le by (simp add: hist_def d'_def take_update_swap drop_update_cancel max_def min_def)
    also have "\<dots> = drop (Suc (length out - d_end d)) out @ [b]" by (simp add: h)
    finally show ?thesis using f inv by (simp add: Suc_diff_le dict_inv_def)
  qed
  then show "dict_rep d' (out @ [b])" using inv' by (simp add: dict_rep_def d'_def)
qed

lemma lz_copy_length [simp]: "length (lz_copy n dist out) = length out + n"
  by (induction n dist out rule: lz_copy.induct) auto

lemma back_of_next:
  assumes "dict_rep d out" "d_pos d < d_end d" "k < d_full d"
  shows "(if back_of d k + 1 = d_end d then 0 else back_of d k + 1) =
    back_of (d\<lparr>d_buf := xs, d_pos := d_pos d + 1, d_full := f\<rparr>) k"
  using assms by (auto simp: back_of_def dict_rep_def dict_inv_def)

lemma repeat_step:
  fixes dist :: u32
  assumes "dict_rep d out" "d_pos d < d_end d" "unat dist < d_full d"
  defines "b \<equiv> out ! (length out - 1 - unat dist)"
  defines "d1 \<equiv> d\<lparr>d_buf := (d_buf d)[d_pos d := b], d_pos := d_pos d + 1, d_full := max (d_full d) (d_pos d + 1)\<rparr>"
  shows "repeat_loop left (d_end d) (d_buf d) (d_pos d) (back_of d (unat dist)) =
      (if left - 1 > 0 then repeat_loop (left - 1) (d_end d1) (d_buf d1) (d_pos d1) (back_of d1 (unat dist))
       else Some (d_buf d1, d_pos d1))"
    and "dict_rep d1 (out @ [b])"
proof -
  have le: "d_end d \<le> length (d_buf d)" using assms(1) by (simp add: dict_rep_def dict_inv_def)
  note bk = dict_back_ok [OF assms(1-3)]
  have f: "fetch (d_buf d) (back_of d (unat dist)) = Some b"
    using fetch_ok [OF order_less_le_trans [OF bk(2) le]] bk(3) unfolding b_def by argo
  have st: "store (d_buf d) (d_pos d) b = Some (d_buf d1)" using assms(2) le by (simp add: d1_def)
  have nx: "(if back_of d (unat dist) + 1 = d_end d then 0 else back_of d (unat dist) + 1) = back_of d1 (unat dist)"
    unfolding d1_def by (rule back_of_next [OF assms(1-3)])
  have e: "d_end d1 = d_end d" "d_pos d1 = d_pos d + 1" by (simp_all add: d1_def)
  show "repeat_loop left (d_end d) (d_buf d) (d_pos d) (back_of d (unat dist)) =
      (if left - 1 > 0 then repeat_loop (left - 1) (d_end d1) (d_buf d1) (d_pos d1) (back_of d1 (unat dist))
       else Some (d_buf d1, d_pos d1))"
    unfolding e by (subst repeat_loop.simps) (simp only: f st nx Let_def Option.bind.simps)
  show "dict_rep d1 (out @ [b])" unfolding d1_def by (rule dict_put_ok(2) [OF assms(1,2)])
qed

lemma repeat_loop_ok:
  fixes dist :: u32
  assumes "dict_rep d out" "d_pos d + Suc n \<le> d_end d" "unat dist < d_full d" "unat left = Suc n"
  shows "\<exists>buf. repeat_loop left (d_end d) (d_buf d) (d_pos d) (back_of d (unat dist)) = Some (buf, d_pos d + Suc n) \<and>
    length buf = length (d_buf d) \<and>
    dict_rep (d\<lparr>d_buf := buf, d_pos := d_pos d + Suc n, d_full := max (d_full d) (d_pos d + Suc n)\<rparr>)
      (lz_copy (Suc n) (unat dist) out)"
  using assms
proof (induction n arbitrary: d out left)
  case (0 d out left)
  then have "left = 1" by (simp add: word_unat_eq_iff)
  moreover have "d_pos d < d_end d" using 0 by simp
  ultimately show ?case using repeat_step(1) [of d out dist left] repeat_step(2) [of d out dist] 0 by simp
next
  case (Suc n d out left)
  let ?b = "out ! (length out - 1 - unat dist)"
  define d1 where "d1 = d\<lparr>d_buf := (d_buf d)[d_pos d := ?b], d_pos := d_pos d + 1, d_full := max (d_full d) (d_pos d + 1)\<rparr>"
  have lt: "d_pos d < d_end d" using Suc.prems by simp
  have l: "left - 1 > 0" "unat (left - 1) = Suc n"
  proof -
    show "unat (left - 1) = Suc n" using Suc.prems(4) unat_minus_one [of left] by (cases "left = 0") auto
    then show "left - 1 > 0" by (simp add: word_less_nat_alt)
  qed
  note st = repeat_step(1) [OF Suc.prems(1) lt Suc.prems(3), of left, folded d1_def]
    repeat_step(2) [OF Suc.prems(1) lt Suc.prems(3), folded d1_def]
  have "\<exists>buf. repeat_loop (left - 1) (d_end d1) (d_buf d1) (d_pos d1) (back_of d1 (unat dist)) = Some (buf, d_pos d1 + Suc n) \<and>
    length buf = length (d_buf d1) \<and>
    dict_rep (d1\<lparr>d_buf := buf, d_pos := d_pos d1 + Suc n, d_full := max (d_full d1) (d_pos d1 + Suc n)\<rparr>)
      (lz_copy (Suc n) (unat dist) (out @ [?b]))"
    using Suc.prems l(2) st(2) by (intro Suc.IH) (auto simp: d1_def)
  then obtain buf where buf: "repeat_loop (left - 1) (d_end d1) (d_buf d1) (d_pos d1) (back_of d1 (unat dist)) = Some (buf, d_pos d1 + Suc n)"
    "length buf = length (d_buf d1)"
    "dict_rep (d1\<lparr>d_buf := buf, d_pos := d_pos d1 + Suc n, d_full := max (d_full d1) (d_pos d1 + Suc n)\<rparr>)
      (lz_copy (Suc n) (unat dist) (out @ [?b]))" by blast
  have eq: "d1\<lparr>d_buf := buf, d_pos := d_pos d1 + Suc n, d_full := max (d_full d1) (d_pos d1 + Suc n)\<rparr> =
      d\<lparr>d_buf := buf, d_pos := d_pos d + Suc (Suc n), d_full := max (d_full d) (d_pos d + Suc (Suc n))\<rparr>"
    by (simp add: d1_def max.assoc)
  have "length buf = length (d_buf d)" using buf(2) by (simp add: d1_def)
  moreover have "d_pos d1 + Suc n = d_pos d + Suc (Suc n)" by (simp add: d1_def)
  ultimately show ?case using buf(1,3) st(1) l(1) unfolding eq by auto
qed

lemma dict_repeat_bad:
  assumes "dict_rep d out" "d_full d \<le> unat dist"
  shows "dict_repeat d len dist = Some (False, len, d)"
  using assms by (simp add: dict_repeat_def)

lemma dict_repeat_ok:
  assumes rep: "dict_rep d out" and lim: "d_pos d < d_limit d" "d_limit d \<le> d_end d" and len: "0 < len" and dist: "unat dist < d_full d"
  defines "n \<equiv> min (d_limit d - d_pos d) (unat len)"
  shows "\<exists>buf. dict_repeat d len dist = Some (True, len - of_nat n,
      d\<lparr>d_buf := buf, d_pos := d_pos d + n, d_full := max (d_full d) (d_pos d + n)\<rparr>) \<and>
    length buf = length (d_buf d) \<and> 0 < n \<and>
    dict_rep (d\<lparr>d_buf := buf, d_pos := d_pos d + n, d_full := max (d_full d) (d_pos d + n)\<rparr>) (lz_copy n (unat dist) out)"
proof -
  have pos: "0 < n" using lim(1) len by (simp add: n_def word_less_nat_alt)
  then obtain m where m: "n = Suc m" by (cases n) auto
  have n32: "n < 2 ^ 32" using unat_lt32 [of len] by (simp add: n_def)
  have left: "unat (of_nat n :: u32) = Suc m" using unat_of_nat32 [OF n32] m by simp
  have lt: "d_pos d < d_end d" "d_pos d + Suc m \<le> d_end d" using lim m by (auto simp: n_def)
  have size: "\<not> d_size d \<le> dist"
    using rep dist by (simp add: dict_rep_def dict_inv_def word_le_nat_alt)
  obtain buf where buf: "repeat_loop (of_nat n) (d_end d) (d_buf d) (d_pos d) (back_of d (unat dist)) = Some (buf, d_pos d + n)"
    "length buf = length (d_buf d)"
    "dict_rep (d\<lparr>d_buf := buf, d_pos := d_pos d + n, d_full := max (d_full d) (d_pos d + n)\<rparr>) (lz_copy n (unat dist) out)"
    using repeat_loop_ok [OF rep lt(2) dist left] by (auto simp: m)
  have "dict_repeat d len dist = Some (True, len - of_nat n,
      d\<lparr>d_buf := buf, d_pos := d_pos d + n, d_full := max (d_full d) (d_pos d + n)\<rparr>)"
    using size dist dict_back_ok(1) [OF rep lt(1) dist] buf(1) unfolding dict_repeat_def n_def [symmetric]
    by (cases d) (auto simp: Let_def max_def not_le)
  then show ?thesis using buf(2,3) pos by blast
qed

lemma hist_wrap:
  assumes "d_pos d = d_end d" "dict_inv d"
  shows "hist (d\<lparr>d_pos := 0, d_start := 0\<rparr>) = hist d" "dict_inv (d\<lparr>d_pos := 0, d_start := 0\<rparr>)"
  using assms by (auto simp: hist_def dict_inv_def)

text \<open>After a flush or a copy the unflushed part is empty and the position is inside the buffer.\<close>

definition dict_idle :: "dictionary \<Rightarrow> bool" where
  "dict_idle d \<longleftrightarrow> d_start d = d_pos d \<and> d_pos d < d_end d"

text \<open>What no dictionary operation changes.\<close>

definition dict_same :: "dictionary \<Rightarrow> dictionary \<Rightarrow> bool" where
  "dict_same d d' \<longleftrightarrow> d_end d' = d_end d \<and> d_size d' = d_size d \<and> d_size_max d' = d_size_max d \<and>
    d_allocated d' = d_allocated d \<and> d_mode d' = d_mode d \<and> length (d_buf d') = length (d_buf d)"

lemma dict_same_refl [simp]: "dict_same d d"
  by (simp add: dict_same_def)

lemma dict_same_trans: "dict_same d d' \<Longrightarrow> dict_same d' d'' \<Longrightarrow> dict_same d d''"
  by (simp add: dict_same_def)

lemma dict_settle:
  assumes "dict_rep d out"
  defines "d' \<equiv> (let d = (if d_pos d = d_end d then d\<lparr>d_pos := 0\<rparr> else d) in d\<lparr>d_start := d_pos d\<rparr>)"
  shows "dict_rep d' out" "dict_idle d'" "dict_same d d'" "d_full d' = d_full d" "d_buf d' = d_buf d" "d_limit d' = d_limit d"
proof -
  have inv: "dict_inv d" "hist d = drop (length out - d_end d) out" using assms(1) by (simp_all add: dict_rep_def)
  have "dict_inv d' \<and> hist d' = hist d \<and> dict_idle d'"
  proof (cases "d_pos d = d_end d")
    case True
    then show ?thesis using hist_wrap [OF True inv(1)] inv(1) by (simp add: d'_def dict_idle_def dict_inv_def)
  next
    case False
    then show ?thesis using inv(1) by (auto simp: d'_def dict_inv_def dict_idle_def hist_def)
  qed
  then show "dict_rep d' out" "dict_idle d'" using inv(2) by (simp_all add: dict_rep_def d'_def Let_def)
  show "dict_same d d'" "d_full d' = d_full d" "d_buf d' = d_buf d" "d_limit d' = d_limit d"
    by (simp_all add: d'_def dict_same_def Let_def)
qed

definition buf_ok :: "xz_buf \<Rightarrow> bool" where
  "buf_ok b \<longleftrightarrow> in_pos b \<le> in_size b \<and> in_size b \<le> length (b_in b) \<and> out_pos b \<le> out_size b \<and> out_size b \<le> length (b_out b)"

text \<open>The bytes written so far.\<close>

definition written :: "xz_buf \<Rightarrow> u8 list" where
  "written b = take (out_pos b) (b_out b)"

lemma copy_array_out:
  assumes "i + n \<le> length dst" "j + n \<le> length src"
  obtains ys where "copy_array dst i src j n = Some ys" "length ys = length dst"
    "take (i + n) ys = take i dst @ take n (drop j src)"
proof -
  let ?a = "take i dst @ take n (drop j src)" and ?c = "drop (i + n) dst"
  have l: "length ?a = i + n" using assms by simp
  have "copy_array dst i src j n = Some (?a @ ?c)" using assms by (simp add: copy_array_def)
  moreover have "length (?a @ ?c) = length dst" using l assms by (metis append_take_drop_id length_append length_drop length_take min.absorb2)
  moreover have "take (i + n) (?a @ ?c) = ?a" using l by (metis append_eq_conv_conj)
  ultimately show ?thesis by (rule that)
qed

lemma rep_suffix:
  assumes "dict_rep d out" "n \<le> d_pos d"
  shows "drop (length out - n) out = take n (drop (d_pos d - n) (d_buf d))"
proof -
  have inv: "dict_inv d" and h: "hist d = drop (length out - d_end d) out" using assms(1) by (simp_all add: dict_rep_def)
  have full: "d_full d = min (length out) (d_end d)" by (rule dict_rep_full [OF assms(1)])
  have o: "d_pos d \<le> d_full d" "d_full d \<le> d_end d" "d_end d \<le> length (d_buf d)" using inv by (auto simp: dict_inv_def)
  have "drop (d_full d - n) (hist d) = drop (d_pos d - n) (take (d_pos d) (d_buf d))"
    using o assms(2) by (simp add: hist_def)
  also have "\<dots> = take n (drop (d_pos d - n) (d_buf d))" using assms(2) by (simp add: drop_take)
  finally have "take n (drop (d_pos d - n) (d_buf d)) = drop (d_full d - n + (length out - d_end d)) out" by (simp add: h)
  moreover have "d_full d - n + (length out - d_end d) = length out - n"
    using full assms(2) o by (auto simp: min_def split: if_splits)
  ultimately show ?thesis by simp
qed

lemma dict_flush_ok:
  assumes rep: "dict_rep d out" and b: "buf_ok b" "out_pos b + (d_pos d - d_start d) \<le> out_size b"
  defines "n \<equiv> d_pos d - d_start d"
  obtains d' o' where "dict_flush d b = Some (of_nat n, d', b\<lparr>b_out := o', out_pos := out_pos b + n\<rparr>)"
    "dict_rep d' out" "dict_idle d'" "dict_same d d'" "length o' = length (b_out b)"
    "take (out_pos b + n) o' = written b @ drop (length out - n) out"
proof -
  let ?d = "let d = (if d_pos d = d_end d then d\<lparr>d_pos := 0\<rparr> else d) in d\<lparr>d_start := d_pos d\<rparr>"
  have inv: "d_start d \<le> d_pos d" "d_pos d \<le> d_end d" "d_end d \<le> length (d_buf d)"
    using rep by (auto simp: dict_rep_def dict_inv_def)
  have "out_pos b + n \<le> length (b_out b)" "d_start d + n \<le> length (d_buf d)" using b inv by (auto simp: buf_ok_def n_def)
  then obtain o' where o': "copy_array (b_out b) (out_pos b) (d_buf d) (d_start d) n = Some o'" "length o' = length (b_out b)"
    "take (out_pos b + n) o' = take (out_pos b) (b_out b) @ take n (drop (d_start d) (d_buf d))" by (rule copy_array_out)
  have "dict_flush d b = Some (of_nat n, ?d, b\<lparr>b_out := o', out_pos := out_pos b + n\<rparr>)"
    using o'(1) by (cases "d_pos d = d_end d") (simp_all add: dict_flush_def n_def Let_def)
  moreover have "take n (drop (d_start d) (d_buf d)) = drop (length out - n) out"
    using rep_suffix [OF rep, of n] inv(1) by (simp add: n_def)
  ultimately show ?thesis using that [of ?d o'] o'(2,3) dict_settle(1-3) [OF rep] by (simp add: written_def)
qed

lemma dict_block_ok:
  assumes "dict_rep d out" "d_pos d + length xs \<le> d_end d"
  shows "dict_rep (d\<lparr>d_buf := take (d_pos d) (d_buf d) @ xs @ drop (d_pos d + length xs) (d_buf d),
      d_pos := d_pos d + length xs, d_full := max (d_full d) (d_pos d + length xs)\<rparr>) (out @ xs)"
  using assms(2)
proof (induction xs rule: rev_induct)
  case Nil
  have "max (d_full d) (d_pos d) = d_full d" using assms(1) by (simp add: dict_rep_def dict_inv_def max_def)
  then show ?case using assms(1) by simp
next
  case (snoc x xs)
  let ?d = "d\<lparr>d_buf := take (d_pos d) (d_buf d) @ xs @ drop (d_pos d + length xs) (d_buf d),
      d_pos := d_pos d + length xs, d_full := max (d_full d) (d_pos d + length xs)\<rparr>"
  have le: "d_end d \<le> length (d_buf d)" using assms(1) by (simp add: dict_rep_def dict_inv_def)
  have rep: "dict_rep ?d (out @ xs)" using snoc by simp
  have "d_pos ?d < d_end ?d" using snoc.prems by simp
  note put = dict_put_ok(2) [OF rep this, of x]
  have d: "drop (d_pos d + length xs) (d_buf d) = d_buf d ! (d_pos d + length xs) # drop (Suc (d_pos d + length xs)) (d_buf d)"
    using snoc.prems le by (simp add: Cons_nth_drop_Suc)
  have "(d_buf ?d)[d_pos ?d := x] = take (d_pos d) (d_buf d) @ (xs @ [x]) @ drop (d_pos d + length (xs @ [x])) (d_buf d)"
    using snoc.prems le d by (simp add: list_update_append)
  then show ?case using put by (simp add: max.assoc)
qed

lemma min_if: "(if b < a then b else a) = min b (a::nat)"
  by auto

lemma take_drop_split: "c \<le> n \<Longrightarrow> take c (drop p xs) @ take (n - c) (drop (p + c) xs) = take n (drop p xs)"
  using take_add [of c "n - c" "drop p xs"] by (simp add: add.commute)

text \<open>Stored data: as many bytes as input, output room and the chunk allow.\<close>

lemma dict_uncompressed_ok:
  fixes left :: u32
  assumes "dict_rep d out" "dict_idle d" "buf_ok b"
  defines "n \<equiv> min (unat left) (min (in_size b - in_pos b) (out_size b - out_pos b))"
  shows "\<exists>d' o'. dict_uncompressed d b left =
      Some (d', b\<lparr>b_out := o', out_pos := out_pos b + n, in_pos := in_pos b + n\<rparr>, left - of_nat n) \<and>
    dict_rep d' (out @ take n (drop (in_pos b) (b_in b))) \<and> dict_idle d' \<and> dict_same d d' \<and>
    length o' = length (b_out b) \<and> take (out_pos b + n) o' = written b @ take n (drop (in_pos b) (b_in b))"
  using assms(1-3) unfolding n_def
proof (induction "unat left" arbitrary: d out b left rule: less_induct)
  case less
  let ?n = "min (unat left) (min (in_size b - in_pos b) (out_size b - out_pos b))"
  show ?case
  proof (cases "left > 0 \<and> in_pos b < in_size b \<and> out_pos b < out_size b")
    case False
    then have "?n = 0" by (auto simp: word_less_nat_alt)
    moreover have "dict_uncompressed d b left = Some (d, b, left)"
      by (subst dict_uncompressed.simps) (simp only: False if_False)
    moreover have "b\<lparr>b_out := b_out b, out_pos := out_pos b + 0, in_pos := in_pos b + 0\<rparr> = b" by (cases b) simp
    ultimately show ?thesis
      using less.prems by (intro exI [of _ d] exI [of _ "b_out b"]) (simp add: written_def)
  next
    case True
    define c where "c = min (unat left) (min (d_end d - d_pos d) (min (in_size b - in_pos b) (out_size b - out_pos b)))"
    have c0: "0 < c" using True less.prems by (auto simp: c_def dict_idle_def word_less_nat_alt)
    have le: "c \<le> unat left" "d_pos d + c \<le> d_end d" "in_pos b + c \<le> in_size b" "out_pos b + c \<le> out_size b"
      using True less.prems(2) unfolding c_def dict_idle_def by linarith+
    let ?xs = "take c (drop (in_pos b) (b_in b))"
    have len: "length ?xs = c" "d_pos d + c \<le> length (d_buf d)" "in_pos b + c \<le> length (b_in b)" "out_pos b + c \<le> length (b_out b)"
      using le less.prems by (auto simp: buf_ok_def dict_rep_def dict_inv_def)
    define d1 where "d1 = d\<lparr>d_buf := take (d_pos d) (d_buf d) @ ?xs @ drop (d_pos d + c) (d_buf d),
      d_pos := d_pos d + c, d_full := max (d_full d) (d_pos d + c)\<rparr>"
    have rep1: "dict_rep d1 (out @ ?xs)" using dict_block_ok [OF less.prems(1), of ?xs] le(2) len(1) by (simp add: d1_def)
    define d2 where "d2 = (let d = (if d_pos d1 = d_end d1 then d1\<lparr>d_pos := 0\<rparr> else d1) in d\<lparr>d_start := d_pos d\<rparr>)"
    note d2 = dict_settle(1-3) [OF rep1, folded d2_def]
    obtain o1 where o1: "copy_array (b_out b) (out_pos b) (b_in b) (in_pos b) c = Some o1" "length o1 = length (b_out b)"
      "take (out_pos b + c) o1 = take (out_pos b) (b_out b) @ ?xs" using len(4,3) by (rule copy_array_out)
    define b2 where "b2 = b\<lparr>b_out := o1, out_pos := out_pos b + c, in_pos := in_pos b + c\<rparr>"
    have ul: "unat (left - of_nat c) = unat left - c"
    proof -
      have "unat (of_nat c :: u32) = c" using le(1) unat_lt32 [of left] by (intro unat_of_nat32) simp
      then show ?thesis using le(1) unat_sub [of "of_nat c" left] by (simp add: word_le_nat_alt)
    qed
    have cs: "uncompressed_size d b left = c" unfolding uncompressed_size_def c_def Let_def min_if ..
    have cp: "copy_array (d_buf d) (d_pos d) (b_in b) (in_pos b) c = Some (d_buf d1)"
      using len(2,3) by (simp add: copy_array_def d1_def)
    have fl: "(let d = d\<lparr>d_buf := d_buf d1, d_pos := d_pos d + c\<rparr> in if d_full d < d_pos d then d\<lparr>d_full := d_pos d\<rparr> else d) = d1"
      by (cases d) (auto simp: d1_def max_def Let_def)
    have st: "uncompressed_copy d b c = Some (d2, b2)"
      using fl unfolding uncompressed_copy_def cp d2_def b2_def by (simp add: o1(1) Let_def)
    have step: "dict_uncompressed d b left = dict_uncompressed d2 b2 (left - of_nat c)"
      using True by (subst dict_uncompressed.simps) (simp add: cs st)
    define m where "m = min (unat (left - of_nat c)) (min (in_size b2 - in_pos b2) (out_size b2 - out_pos b2))"
    have b2: "buf_ok b2" "in_size b2 = in_size b" "out_size b2 = out_size b" "b_in b2 = b_in b"
      "in_pos b2 = in_pos b + c" "out_pos b2 = out_pos b + c" "b_out b2 = o1" "written b2 = written b @ ?xs"
      using less.prems(3) le o1 by (simp_all add: b2_def buf_ok_def written_def)
    have mm: "m = ?n - c" "c \<le> ?n" using le unfolding m_def b2 ul by linarith+
    have "unat (left - of_nat c) < unat left" using ul c0 le(1) by simp
    from less.hyps [OF this d2(1,2) b2(1), folded m_def] obtain d3 o3 where r:
      "dict_uncompressed d2 b2 (left - of_nat c) =
        Some (d3, b2\<lparr>b_out := o3, out_pos := out_pos b2 + m, in_pos := in_pos b2 + m\<rparr>, left - of_nat c - of_nat m)"
      "dict_rep d3 ((out @ ?xs) @ take m (drop (in_pos b2) (b_in b2)))" "dict_idle d3" "dict_same d2 d3"
      "length o3 = length (b_out b2)" "take (out_pos b2 + m) o3 = written b2 @ take m (drop (in_pos b2) (b_in b2))"
      by blast
    have xs: "?xs @ take m (drop (in_pos b2) (b_in b2)) = take ?n (drop (in_pos b) (b_in b))"
      using take_drop_split [OF mm(2)] unfolding mm(1) b2 .
    have e1: "b2\<lparr>b_out := o3, out_pos := out_pos b2 + m, in_pos := in_pos b2 + m\<rparr> =
        b\<lparr>b_out := o3, out_pos := out_pos b + ?n, in_pos := in_pos b + ?n\<rparr>"
      using mm unfolding mm(1) by (simp add: b2_def)
    have e2: "left - of_nat c - of_nat m = left - of_nat ?n" using mm unfolding mm(1) by (simp add: of_nat_diff)
    have e3: "out_pos b2 + m = out_pos b + ?n" using mm unfolding mm(1) b2 by simp
    show ?thesis
    proof (intro exI conjI)
      show "dict_uncompressed d b left =
          Some (d3, b\<lparr>b_out := o3, out_pos := out_pos b + ?n, in_pos := in_pos b + ?n\<rparr>, left - of_nat ?n)"
        unfolding step r(1) e1 e2 ..
      show "dict_rep d3 (out @ take ?n (drop (in_pos b) (b_in b)))" using r(2) unfolding append_assoc xs .
      show "dict_same d d3" using dict_same_trans [OF d2(3) r(4)] len by (simp add: d1_def dict_same_def)
      show "length o3 = length (b_out b)" using r(5) o1(2) b2(7) by simp
      show "take (out_pos b + ?n) o3 = written b @ take ?n (drop (in_pos b) (b_in b))"
        using r(6) unfolding e3 b2(8) append_assoc xs .
    qed (fact r(3))
  qed
qed

section \<open>The window interface\<close>

datatype lz_token = Lit u8 | Match u32 u32

text \<open>What a sequence of literals and matches stands for: \<open>Match len dist\<close> repeats \<open>len\<close> bytes from \<open>dist + 1\<close> bytes back.\<close>

fun lz_expand :: "lz_token list \<Rightarrow> u8 list \<Rightarrow> u8 list" where
  "lz_expand [] out = out"
| "lz_expand (Lit b # ts) out = lz_expand ts (out @ [b])"
| "lz_expand (Match len dist # ts) out = lz_expand ts (lz_copy (unat len) (unat dist) out)"

text \<open>Matches are not empty and reach into the last \<open>w\<close> bytes of what is there already.\<close>

fun lz_valid :: "nat \<Rightarrow> lz_token list \<Rightarrow> nat \<Rightarrow> bool" where
  "lz_valid w [] n = True"
| "lz_valid w (Lit b # ts) n = lz_valid w ts (n + 1)"
| "lz_valid w (Match len dist # ts) n = (0 < len \<and> unat dist < min n w \<and> lz_valid w ts (n + unat len))"

fun lz_size :: "lz_token list \<Rightarrow> nat" where
  "lz_size [] = 0"
| "lz_size (Lit b # ts) = 1 + lz_size ts"
| "lz_size (Match len dist # ts) = unat len + lz_size ts"

text \<open>Running a token sequence on any window.\<close>

fun lz_feed :: "('d \<Rightarrow> u8 \<Rightarrow> 'd option) \<Rightarrow> ('d \<Rightarrow> u32 \<Rightarrow> u32 \<Rightarrow> (bool \<times> u32 \<times> 'd) option) \<Rightarrow> lz_token list \<Rightarrow> 'd \<Rightarrow> 'd option" where
  "lz_feed put rpt [] d = Some d"
| "lz_feed put rpt (Lit b # ts) d = do { d \<leftarrow> put d b; lz_feed put rpt ts d }"
| "lz_feed put rpt (Match len dist # ts) d =
    do { (ok, _, d) \<leftarrow> rpt d len dist; if ok then lz_feed put rpt ts d else None }"

locale lz_window =
  fixes rep :: "'d \<Rightarrow> u8 list \<Rightarrow> bool"
    and room :: "'d \<Rightarrow> nat"
    and win :: "'d \<Rightarrow> nat"
    and put :: "'d \<Rightarrow> u8 \<Rightarrow> 'd option"
    and repeat' :: "'d \<Rightarrow> u32 \<Rightarrow> u32 \<Rightarrow> (bool \<times> u32 \<times> 'd) option"
  assumes put_rep: "rep d out \<Longrightarrow> 0 < room d \<Longrightarrow>
      \<exists>d'. put d b = Some d' \<and> rep d' (out @ [b]) \<and> room d' = room d - 1 \<and> win d' = win d"
    and repeat_rep: "rep d out \<Longrightarrow> 0 < len \<Longrightarrow> unat len \<le> room d \<Longrightarrow> unat dist < min (length out) (win d) \<Longrightarrow>
      \<exists>d'. repeat' d len dist = Some (True, 0, d') \<and> rep d' (lz_copy (unat len) (unat dist) out) \<and>
        room d' = room d - unat len \<and> win d' = win d"
begin

lemma feed_expand:
  assumes "rep d out" "lz_size ts \<le> room d" "lz_valid (win d) ts (length out)"
  shows "\<exists>d'. lz_feed put repeat' ts d = Some d' \<and> rep d' (lz_expand ts out) \<and> room d' = room d - lz_size ts"
  using assms
proof (induction ts arbitrary: d out)
  case (Cons t ts)
  show ?case
  proof (cases t)
    case (Lit b)
    obtain d' where d': "put d b = Some d'" "rep d' (out @ [b])" "room d' = room d - 1" "win d' = win d"
      using put_rep [OF Cons.prems(1), of b] Cons.prems(2) Lit by auto
    then show ?thesis using Cons.IH [OF d'(2)] Cons.prems(2,3) Lit by simp
  next
    case (Match len dist)
    obtain d' where d': "repeat' d len dist = Some (True, 0, d')" "rep d' (lz_copy (unat len) (unat dist) out)"
      "room d' = room d - unat len" "win d' = win d"
      using repeat_rep [OF Cons.prems(1), of len dist] Cons.prems(2,3) Match by auto
    then show ?thesis using Cons.IH [OF d'(2)] Cons.prems(2,3) Match by simp
  qed
qed simp

end

definition window_rep :: "dictionary \<Rightarrow> u8 list \<Rightarrow> bool" where
  "window_rep d out \<longleftrightarrow> dict_rep d out \<and> d_limit d \<le> d_end d"

definition window_room :: "dictionary \<Rightarrow> nat" where
  "window_room d = d_limit d - d_pos d"

interpretation window: lz_window window_rep window_room d_end dict_put dict_repeat
proof
  fix d out b assume a: "window_rep d out" "0 < window_room d"
  then have p: "dict_rep d out" "d_pos d < d_end d" by (auto simp: window_rep_def window_room_def)
  show "\<exists>d'. dict_put d b = Some d' \<and> window_rep d' (out @ [b]) \<and> window_room d' = window_room d - 1 \<and> d_end d' = d_end d"
    using dict_put_ok [OF p, of b] a by (simp add: window_rep_def window_room_def)
next
  fix d out len dist
  assume a: "window_rep d out" "(0::u32) < len" "unat len \<le> window_room d" "unat (dist::u32) < min (length out) (d_end d)"
  then have p: "dict_rep d out" "d_pos d < d_limit d" "d_limit d \<le> d_end d" "min (d_limit d - d_pos d) (unat len) = unat len"
    by (auto simp: window_rep_def window_room_def word_less_nat_alt)
  have f: "unat dist < d_full d" using a(4) dict_rep_full [OF p(1)] by simp
  show "\<exists>d'. dict_repeat d len dist = Some (True, 0, d') \<and> window_rep d' (lz_copy (unat len) (unat dist) out) \<and>
      window_room d' = window_room d - unat len \<and> d_end d' = d_end d"
    using dict_repeat_ok [OF p(1-3) a(2) f] p(3,4) by (auto simp: window_rep_def window_room_def)
qed

text \<open>Claim C31 (the ring buffer implements the LZ77 window): starting from a dictionary that holds the tail of the output,
  putting literals and repeating matches that fit below the write limit succeeds without leaving
  the buffer, and the dictionary then holds the tail of the expanded output. A distance that reaches
  before the beginning of the output or of the dictionary is refused.\<close>

theorem dict_refines_lz:
  assumes "dict_rep d out" "d_limit d \<le> d_end d" "d_pos d + lz_size ts \<le> d_limit d"
    and "lz_valid (d_end d) ts (length out)"
  shows "(\<exists>d'. lz_feed dict_put dict_repeat ts d = Some d' \<and> dict_rep d' (lz_expand ts out) \<and>
      d_limit d' - d_pos d' = d_limit d - d_pos d - lz_size ts) \<and>
    (\<forall>len dist. min (length out) (d_end d) \<le> unat dist \<longrightarrow> dict_repeat d len dist = Some (False, len, d))"
proof
  have "window_rep d out" "lz_size ts \<le> window_room d" using assms(1-3) by (auto simp: window_rep_def window_room_def)
  from window.feed_expand [OF this assms(4)]
  show "\<exists>d'. lz_feed dict_put dict_repeat ts d = Some d' \<and> dict_rep d' (lz_expand ts out) \<and>
      d_limit d' - d_pos d' = d_limit d - d_pos d - lz_size ts"
    unfolding window_rep_def window_room_def by blast
  show "\<forall>len dist. min (length out) (d_end d) \<le> unat dist \<longrightarrow> dict_repeat d len dist = Some (False, len, d)"
    using dict_rep_full [OF assms(1)] dict_repeat_bad [OF assms(1)] by simp
qed

text \<open>An empty dictionary of four bytes, and tokens that wrap around its end.\<close>

definition demo_dict :: dictionary where
  "demo_dict = \<lparr>d_buf = [0, 0, 0, 0], d_start = 0, d_pos = 0, d_full = 0, d_limit = 4, d_end = 4, d_size = 4,
     d_size_max = 4, d_allocated = 4, d_mode = XZ_DYNALLOC\<rparr>"

lemma demo_dict_rep: "dict_rep demo_dict []"
  by (simp add: dict_rep_def dict_inv_def hist_def demo_dict_def)

theorem dict_refines_lz_witness:
  "\<exists>d'. lz_feed dict_put dict_repeat [Lit 7, Match 3 0] demo_dict = Some d' \<and> dict_rep d' [7, 7, 7, 7]"
proof -
  have "lz_copy (Suc (Suc (Suc 0))) 0 [7] = [7, 7, 7, 7]" by simp
  then have "lz_copy (unat (3::u32)) (unat (0::u32)) [7] = [7, 7, 7, 7]" by (simp add: numeral_3_eq_3 [symmetric])
  then show ?thesis
    using dict_refines_lz [OF demo_dict_rep, of "[Lit 7, Match 3 0]"] by (auto simp: demo_dict_def)
qed

end
