(* ===== verification/Xz_Range.thy ===== *)
theory Xz_Range
  imports Xz_Dict
begin

text \<open>
  The range decoder of \<open>xz_dec_lzma2.c\<close>. The input pointer \<open>rc->in\<close> is the array it points to; a read
  behind its end yields \<open>None\<close>. A probability passed by pointer is passed by value and its new
  value returned. Shown: probabilities stay between 31 and 2017, and an amortised bound on the
  input bytes that a number of decoded bits can take.
\<close>

section \<open>The decoder\<close>

definition RC_TOP_VALUE :: u32 where
  "RC_TOP_VALUE = push_bit 24 1"

definition RC_INIT_BYTES :: u32 where
  "RC_INIT_BYTES = 5"

record rc_dec =
  rc_range :: u32
  rc_code :: u32
  init_bytes_left :: u32
  rc_in :: "u8 list"
  rc_in_pos :: nat
  rc_in_limit :: nat

definition rc_reset :: "rc_dec \<Rightarrow> rc_dec" where
  "rc_reset rc = rc\<lparr>rc_range := - 1, rc_code := 0, init_bytes_left := RC_INIT_BYTES\<rparr>"

function rc_read_init :: "rc_dec \<Rightarrow> xz_buf \<Rightarrow> (bool \<times> rc_dec \<times> xz_buf) option" where
  "rc_read_init rc b =
    (if init_bytes_left rc > 0 then
       if in_pos b = in_size b then Some (False, rc, b)
       else
         do { c \<leftarrow> fetch (b_in b) (in_pos b);
              rc_read_init
                (rc\<lparr>rc_code := push_bit 8 (rc_code rc) + ucast c, init_bytes_left := init_bytes_left rc - 1\<rparr>)
                (b\<lparr>in_pos := in_pos b + 1\<rparr>) }
     else Some (True, rc, b))"
  by pat_completeness auto

termination
  by (relation "measure (\<lambda>(rc, _). unat (init_bytes_left rc))")
    (auto simp: word_greater_zero_iff intro: measure_unat)

declare rc_read_init.simps [simp del]

definition rc_limit_exceeded :: "rc_dec \<Rightarrow> bool" where
  "rc_limit_exceeded rc \<longleftrightarrow> rc_in_pos rc > rc_in_limit rc"

definition rc_is_finished :: "rc_dec \<Rightarrow> bool" where
  "rc_is_finished rc \<longleftrightarrow> rc_code rc = 0"

definition rc_normalize :: "rc_dec \<Rightarrow> rc_dec option" where
  "rc_normalize rc =
    (if rc_range rc < RC_TOP_VALUE
     then do { c \<leftarrow> fetch (rc_in rc) (rc_in_pos rc);
               Some (rc\<lparr>rc_range := push_bit 8 (rc_range rc),
                 rc_code := push_bit 8 (rc_code rc) + ucast c, rc_in_pos := rc_in_pos rc + 1\<rparr>) }
     else Some rc)"

text \<open>The sums over \<open>*prob\<close> are computed in \<open>int\<close> and truncated to 16 bits.\<close>

definition rc_bit :: "rc_dec \<Rightarrow> u16 \<Rightarrow> (bool \<times> u16 \<times> rc_dec) option" where
  "rc_bit rc prob =
    do { rc \<leftarrow> rc_normalize rc;
         let bound = drop_bit 11 (rc_range rc) * ucast prob;
         if rc_code rc < bound
         then Some (False, prob + word_of_int (drop_bit 5 (2048 - uint prob)), rc\<lparr>rc_range := bound\<rparr>)
         else Some (True, prob - drop_bit 5 prob,
           rc\<lparr>rc_range := rc_range rc - bound, rc_code := rc_code rc - bound\<rparr>) }"

text \<open>\<open>probs[i]\<close> as the argument of \<open>rc_bit\<close>.\<close>

definition rc_bit_at :: "rc_dec \<Rightarrow> u16 list \<Rightarrow> nat \<Rightarrow> (bool \<times> u16 list \<times> rc_dec) option" where
  "rc_bit_at rc probs i =
    do { p \<leftarrow> fetch probs i;
         (bit', p, rc) \<leftarrow> rc_bit rc p;
         probs \<leftarrow> store probs i p;
         Some (bit', probs, rc) }"

partial_function (option) rc_bittree_loop ::
    "rc_dec \<Rightarrow> u16 list \<Rightarrow> u32 \<Rightarrow> u32 \<Rightarrow> (u32 \<times> u16 list \<times> rc_dec) option" where
  "rc_bittree_loop rc probs limit symbol =
    do { (bit', probs, rc) \<leftarrow> rc_bit_at rc probs (unat symbol);
         let symbol = (if bit' then push_bit 1 symbol + 1 else push_bit 1 symbol);
         if symbol < limit then rc_bittree_loop rc probs limit symbol
         else Some (symbol, probs, rc) }"

definition rc_bittree :: "rc_dec \<Rightarrow> u16 list \<Rightarrow> u32 \<Rightarrow> (u32 \<times> u16 list \<times> rc_dec) option" where
  "rc_bittree rc probs limit = rc_bittree_loop rc probs limit 1"

text \<open>The pointer \<open>probs\<close> is an array and the index of its first element, which may lie one before the array.\<close>

partial_function (option) rc_bittree_reverse_loop ::
    "rc_dec \<Rightarrow> u16 list \<Rightarrow> int \<Rightarrow> u32 \<Rightarrow> u32 \<Rightarrow> u32 \<Rightarrow> u32 \<Rightarrow> (u32 \<times> u16 list \<times> rc_dec) option" where
  "rc_bittree_reverse_loop rc probs base dest limit symbol i =
    (if base + int (unat symbol) < 0 then None
     else
       do { (bit', probs, rc) \<leftarrow> rc_bit_at rc probs (nat (base + int (unat symbol)));
            let symbol' = (if bit' then push_bit 1 symbol + 1 else push_bit 1 symbol);
            let dest = (if bit' then dest + push_bit (unat i) 1 else dest);
            if i + 1 < limit then rc_bittree_reverse_loop rc probs base dest limit symbol' (i + 1)
            else Some (dest, probs, rc) })"

definition rc_bittree_reverse ::
    "rc_dec \<Rightarrow> u16 list \<Rightarrow> int \<Rightarrow> u32 \<Rightarrow> u32 \<Rightarrow> (u32 \<times> u16 list \<times> rc_dec) option" where
  "rc_bittree_reverse rc probs base dest limit = rc_bittree_reverse_loop rc probs base dest limit 1 0"

partial_function (option) rc_direct :: "rc_dec \<Rightarrow> u32 \<Rightarrow> u32 \<Rightarrow> (u32 \<times> rc_dec) option" where
  "rc_direct rc dest limit =
    do { rc \<leftarrow> rc_normalize rc;
         let rc = rc\<lparr>rc_range := drop_bit 1 (rc_range rc)\<rparr>;
         let rc = rc\<lparr>rc_code := rc_code rc - rc_range rc\<rparr>;
         let mask' = 0 - drop_bit 31 (rc_code rc);
         let rc = rc\<lparr>rc_code := rc_code rc + (rc_range rc AND mask')\<rparr>;
         let dest = push_bit 1 dest + (mask' + 1);
         if limit - 1 > 0 then rc_direct rc dest (limit - 1) else Some (dest, rc) }"

section \<open>Probabilities and the input budget\<close>

definition prob_ok :: "u16 \<Rightarrow> bool" where
  "prob_ok p \<longleftrightarrow> 31 \<le> unat p \<and> unat p \<le> 2017"

definition probs_ok :: "nat \<Rightarrow> u16 list \<Rightarrow> bool" where
  "probs_ok n ps \<longleftrightarrow> length ps = n \<and> list_all prob_ok ps"

text \<open>The range after reading \<open>c\<close> bytes, decoding \<open>a\<close> bits with probabilities and \<open>d\<close> direct bits, from a
  range of at least \<open>31 * 2 ^ 13\<close>. Every byte multiplies the range by 256; a bit with a probability leaves at least
  \<open>31 / 2048\<close> of it and a direct bit half of it, up to rounding.\<close>

definition range_lb :: "nat \<Rightarrow> nat \<Rightarrow> nat \<Rightarrow> nat \<Rightarrow> bool" where
  "range_lb c a d r \<longleftrightarrow>
    253952 * 256 ^ c * (31 * 8191) ^ a * (2 ^ 24 - 1) ^ d \<le> r * (2 ^ 24) ^ a * (2 ^ 25) ^ d"

definition rc_at :: "nat \<Rightarrow> nat \<Rightarrow> nat \<Rightarrow> rc_dec \<Rightarrow> bool" where
  "rc_at p a d rc \<longleftrightarrow> (\<exists>c \<le> 20. rc_in_pos rc = p + c \<and> range_lb c a d (unat (rc_range rc))) \<and>
    p + 21 \<le> length (rc_in rc) \<and> 253952 \<le> unat (rc_range rc)"

definition rc_same :: "rc_dec \<Rightarrow> rc_dec \<Rightarrow> bool" where
  "rc_same rc rc' \<longleftrightarrow> rc_in rc' = rc_in rc \<and> rc_in_limit rc' = rc_in_limit rc \<and>
    init_bytes_left rc' = init_bytes_left rc \<and> rc_in_pos rc \<le> rc_in_pos rc'"

lemma rc_same_refl [simp]: "rc_same rc rc"
  by (simp add: rc_same_def)

lemma rc_same_trans [trans]: "rc_same rc rc' \<Longrightarrow> rc_same rc' rc'' \<Longrightarrow> rc_same rc rc''"
  by (auto simp: rc_same_def)

lemma rc_at_start: "253952 \<le> unat (rc_range rc) \<Longrightarrow> rc_in_pos rc + 21 \<le> length (rc_in rc) \<Longrightarrow> rc_at (rc_in_pos rc) 0 0 rc"
  by (auto simp: rc_at_def range_lb_def)

lemma rc_at_bound: "rc_at p a d rc \<Longrightarrow> p \<le> rc_in_pos rc \<and> rc_in_pos rc \<le> p + 20 \<and> 253952 \<le> unat (rc_range rc)"
  by (auto simp: rc_at_def)

lemma range_lb_Suc:
  assumes "range_lb c a d r"
  shows "range_lb c (Suc a) d r" "range_lb c a (Suc d) r" "range_lb (Suc c) a d (256 * r)"
proof -
  let ?L = "253952 * 256 ^ c * (31 * 8191) ^ a * (2 ^ 24 - 1) ^ d :: nat" and ?R = "r * (2 ^ 24) ^ a * (2 ^ 25) ^ d :: nat"
  have le: "?L \<le> ?R" using assms by (simp only: range_lb_def)
  have "?L * (31 * 8191) \<le> ?R * 2 ^ 24" by (rule mult_le_mono [OF le]) simp
  then show "range_lb c (Suc a) d r" by (simp only: range_lb_def power_Suc ac_simps)
  have "?L * (2 ^ 24 - 1) \<le> ?R * 2 ^ 25" by (rule mult_le_mono [OF le]) simp
  then show "range_lb c a (Suc d) r" by (simp only: range_lb_def power_Suc ac_simps)
  have "256 * ?L \<le> 256 * ?R" using le by (rule mult_le_mono2)
  then show "range_lb (Suc c) a d (256 * r)" by (simp only: range_lb_def power_Suc ac_simps)
qed

lemma range_lb_mono:
  assumes "range_lb c a d r" "a \<le> a'" "d \<le> d'"
  shows "range_lb c a' d' r"
proof -
  have a: "range_lb c a' d r" using assms(2) by (induction a' rule: dec_induct) (auto intro: assms(1) range_lb_Suc(1))
  show ?thesis using assms(3) by (induction d' rule: dec_induct) (auto intro: a range_lb_Suc(2))
qed

text \<open>With 21 more bits decoded after the twentieth byte was read, the range is still normalized.\<close>

lemma range_lb_20:
  assumes "range_lb 20 a d r" "a \<le> 21" "d \<le> 26"
  shows "2 ^ 24 \<le> r"
proof (rule ccontr)
  assume "\<not> 2 ^ 24 \<le> r"
  then have r: "r \<le> 2 ^ 24 - 1" by simp
  have "253952 * 256 ^ 20 * (31 * 8191) ^ 21 * (2 ^ 24 - 1) ^ 26 \<le> r * (2 ^ 24) ^ 21 * (2 ^ 25) ^ 26"
    using range_lb_mono [OF assms] by (simp only: range_lb_def)
  also have "\<dots> \<le> (2 ^ 24 - 1) * (2 ^ 24) ^ 21 * (2 ^ 25) ^ 26" by (rule mult_le_mono1 [OF mult_le_mono1 [OF r]])
  finally show False by simp
qed

lemma range_lb_bit:
  assumes "range_lb c a d r" "2 ^ 24 \<le> r" "r div 2048 * 31 \<le> r'"
  shows "range_lb c (Suc a) d r'"
proof -
  let ?L = "253952 * 256 ^ c * (31 * 8191) ^ a * (2 ^ 24 - 1) ^ d :: nat" and ?X = "(2 ^ 24) ^ a * (2 ^ 25) ^ d :: nat"
  have le: "?L \<le> r * ?X" using assms(1) by (simp only: range_lb_def ac_simps)
  have "r * 8191 \<le> r div 2048 * 2 ^ 24"
  proof -
    have "r = r div 2048 * 2048 + r mod 2048" "r mod 2048 < 2048" by simp_all
    then show ?thesis using assms(2) by simp
  qed
  then have "r * (31 * 8191) \<le> r' * 2 ^ 24" using assms(3) by simp
  then have "r * (31 * 8191) * ?X \<le> r' * 2 ^ 24 * ?X" by (rule mult_le_mono1)
  moreover have "?L * (31 * 8191) \<le> r * ?X * (31 * 8191)" using le by (rule mult_le_mono1)
  ultimately have "?L * (31 * 8191) \<le> r' * 2 ^ 24 * ?X" by (simp only: ac_simps)
  then show ?thesis by (simp only: range_lb_def power_Suc ac_simps)
qed

lemma range_lb_direct:
  assumes "range_lb c a d r" "2 ^ 24 \<le> r"
  shows "range_lb c a (Suc d) (r div 2)"
proof -
  let ?L = "253952 * 256 ^ c * (31 * 8191) ^ a * (2 ^ 24 - 1) ^ d :: nat" and ?X = "(2 ^ 24) ^ a * (2 ^ 25) ^ d :: nat"
  have le: "?L \<le> r * ?X" using assms(1) by (simp only: range_lb_def ac_simps)
  have "r * (2 ^ 24 - 1) \<le> r div 2 * 2 ^ 25"
  proof -
    have "r = r div 2 * 2 + r mod 2" "r mod 2 < 2" by simp_all
    then show ?thesis using assms(2) by simp
  qed
  then have "r * (2 ^ 24 - 1) * ?X \<le> r div 2 * 2 ^ 25 * ?X" by (rule mult_le_mono1)
  moreover have "?L * (2 ^ 24 - 1) \<le> r * ?X * (2 ^ 24 - 1)" using le by (rule mult_le_mono1)
  ultimately have "?L * (2 ^ 24 - 1) \<le> r div 2 * 2 ^ 25 * ?X" by (simp only: ac_simps)
  then show ?thesis by (simp only: range_lb_def power_Suc ac_simps)
qed

section \<open>Decoding within the budget\<close>

lemma unat_RC_TOP_VALUE [simp]: "unat RC_TOP_VALUE = 2 ^ 24"
  by (simp add: RC_TOP_VALUE_def)

lemma unat_push_8: "unat (r::u32) < 2 ^ 24 \<Longrightarrow> unat (push_bit 8 r) = 256 * unat r"
  by (simp add: push_bit_eq_mult unat_word_ariths)

lemma rc_normalize_ok:
  assumes "rc_at p a d rc" "a \<le> 21" "d \<le> 26"
  obtains rc' where "rc_normalize rc = Some rc'" "rc_at p a d rc'" "2 ^ 24 \<le> unat (rc_range rc')" "rc_same rc rc'"
proof (cases "rc_range rc < RC_TOP_VALUE")
  case True
  then have r: "unat (rc_range rc) < 2 ^ 24" by (simp add: word_less_nat_alt)
  obtain c where c: "c \<le> 20" "rc_in_pos rc = p + c" "range_lb c a d (unat (rc_range rc))"
    using assms(1) by (auto simp: rc_at_def)
  have "c \<noteq> 20" using range_lb_20 [of a d "unat (rc_range rc)"] c(3) assms(2,3) r by auto
  then have c20: "Suc c \<le> 20" using c(1) by simp
  have "rc_in_pos rc < length (rc_in rc)" using assms(1) c(1,2) by (simp add: rc_at_def)
  moreover have "range_lb (Suc c) a d (unat (push_bit 8 (rc_range rc)))" using range_lb_Suc(3) [OF c(3)] unat_push_8 [OF r] by simp
  moreover have "253952 \<le> unat (rc_range rc)" using assms(1) by (simp add: rc_at_def)
  ultimately show ?thesis
    using that True c20 c(2) assms(1) unat_push_8 [OF r] by (auto simp: rc_normalize_def rc_at_def rc_same_def)
next
  case False
  then show ?thesis using that [of rc] assms(1) by (simp add: rc_normalize_def word_less_nat_alt)
qed

lemma prob_ok_up: "prob_ok p \<Longrightarrow> prob_ok (p + word_of_int (drop_bit 5 (2048 - uint p)))"
proof -
  assume p: "prob_ok p"
  have "drop_bit 5 (2048 - uint p) = int ((2048 - unat p) div 32)"
    using p by (simp add: prob_ok_def drop_bit_eq_div zdiv_int of_nat_diff)
  then have e: "p + word_of_int (drop_bit 5 (2048 - uint p)) = p + of_nat ((2048 - unat p) div 32)" by simp
  have "unat (of_nat ((2048 - unat p) div 32) :: u16) = (2048 - unat p) div 32"
    by (simp add: unat_of_nat take_bit_nat_eq_self)
  moreover have "(2048 - unat p) div 32 \<le> 2048" by (rule order_trans [OF div_le_dividend]) simp
  then have "unat p + (2048 - unat p) div 32 < 65536" using p by (simp add: prob_ok_def)
  ultimately have "unat (p + of_nat ((2048 - unat p) div 32)) = unat p + (2048 - unat p) div 32"
    by (simp add: unat_word_ariths)
  then show ?thesis unfolding e using p by (auto simp: prob_ok_def)
qed

lemma prob_ok_down: "prob_ok p \<Longrightarrow> prob_ok (p - drop_bit 5 p)"
proof -
  assume p: "prob_ok p"
  have "unat (drop_bit 5 p) = unat p div 32" by (simp add: drop_bit_eq_div unat_div)
  then have "unat (p - drop_bit 5 p) = unat p - unat p div 32"
    by (subst unat_sub) (simp_all add: word_le_nat_alt)
  then show ?thesis using p by (auto simp: prob_ok_def)
qed

lemma rc_bound:
  assumes "prob_ok p"
  shows "unat (drop_bit 11 r * ucast p :: u32) = unat r div 2048 * unat p"
    "unat r div 2048 * 31 \<le> unat r div 2048 * unat p" "unat r div 2048 * 31 + unat r div 2048 * unat p \<le> unat r"
proof -
  have p: "31 \<le> unat p" "unat p \<le> 2017" using assms by (simp_all add: prob_ok_def)
  have d: "unat (drop_bit 11 r) = unat r div 2048" by (simp add: drop_bit_eq_div unat_div)
  have u: "unat (ucast p :: u32) = unat p" using p by (simp add: unsigned_ucast_eq take_bit_nat_eq_self)
  show "unat r div 2048 * 31 \<le> unat r div 2048 * unat p" using p(1) by (rule mult_le_mono2)
  have "unat r div 2048 * unat p \<le> unat r div 2048 * 2017" using p(2) by (rule mult_le_mono2)
  then show le: "unat r div 2048 * 31 + unat r div 2048 * unat p \<le> unat r" by linarith
  then have "unat r div 2048 * unat p < 2 ^ 32" using unat_lt32 [of r] by simp
  then show "unat (drop_bit 11 r * ucast p :: u32) = unat r div 2048 * unat p"
    by (simp add: unat_word_ariths d u)
qed

lemma rc_bit_ok:
  assumes "rc_at p0 a d rc" "a \<le> 21" "d \<le> 26" "prob_ok p"
  obtains b p' rc' where "rc_bit rc p = Some (b, p', rc')" "prob_ok p'" "rc_at p0 (Suc a) d rc'" "rc_same rc rc'"
proof -
  obtain rn where rn: "rc_normalize rc = Some rn" "rc_at p0 a d rn" "2 ^ 24 \<le> unat (rc_range rn)" "rc_same rc rn"
    using rc_normalize_ok [OF assms(1-3)] by blast
  let ?bound = "drop_bit 11 (rc_range rn) * ucast p :: u32"
  note bd = rc_bound [OF assms(4), of "rc_range rn"]
  have step: "rc_at p0 (Suc a) d (rn\<lparr>rc_range := r, rc_code := x\<rparr>)"
    if r: "unat (rc_range rn) div 2048 * 31 \<le> unat r" for r x
  proof -
    obtain c where c: "c \<le> 20" "rc_in_pos rn = p0 + c" "range_lb c a d (unat (rc_range rn))"
      using rn(2) by (auto simp: rc_at_def)
    have "range_lb c (Suc a) d (unat r)" by (rule range_lb_bit [OF c(3) rn(3) r])
    moreover have "253952 \<le> unat r" using r div_le_mono [OF rn(3), of 2048] by simp
    ultimately show ?thesis using c rn(2) by (auto simp: rc_at_def)
  qed
  show ?thesis
  proof (cases "rc_code rn < ?bound")
    case True
    have "rc_bit rc p = Some (False, p + word_of_int (drop_bit 5 (2048 - uint p)), rn\<lparr>rc_range := ?bound\<rparr>)"
      using rn(1) True by (simp add: rc_bit_def)
    moreover have "rc_at p0 (Suc a) d (rn\<lparr>rc_range := ?bound\<rparr>)" using step [of ?bound "rc_code rn"] bd(1,2) by simp
    moreover have "rc_same rc (rn\<lparr>rc_range := ?bound\<rparr>)" using rn(4) by (simp add: rc_same_def)
    ultimately show ?thesis using that prob_ok_up [OF assms(4)] by blast
  next
    case False
    have "unat (rc_range rn - ?bound) = unat (rc_range rn) - unat ?bound"
      using bd(1,3) by (subst unat_sub) (simp_all add: word_le_nat_alt)
    then have "rc_at p0 (Suc a) d (rn\<lparr>rc_range := rc_range rn - ?bound, rc_code := rc_code rn - ?bound\<rparr>)"
      using bd(1,3) by (intro step) linarith
    moreover have "rc_bit rc p = Some (True, p - drop_bit 5 p,
        rn\<lparr>rc_range := rc_range rn - ?bound, rc_code := rc_code rn - ?bound\<rparr>)"
      using rn(1) False by (simp add: rc_bit_def Let_def)
    moreover have "rc_same rc (rn\<lparr>rc_range := rc_range rn - ?bound, rc_code := rc_code rn - ?bound\<rparr>)"
      using rn(4) by (simp add: rc_same_def)
    ultimately show ?thesis using that prob_ok_down [OF assms(4)] by blast
  qed
qed

lemma probs_ok_nth: "probs_ok n ps \<Longrightarrow> i < n \<Longrightarrow> i < length ps \<and> prob_ok (ps ! i)"
  by (simp add: probs_ok_def list_all_length)

lemma probs_ok_update: "probs_ok n ps \<Longrightarrow> prob_ok p \<Longrightarrow> probs_ok n (ps[i := p])"
  by (cases "i < length ps") (auto simp: probs_ok_def list_all_length nth_list_update)

lemma rc_bit_at_ok:
  assumes "rc_at p0 a d rc" "a \<le> 21" "d \<le> 26" "probs_ok n ps" "i < n"
  obtains b ps' rc' where "rc_bit_at rc ps i = Some (b, ps', rc')" "probs_ok n ps'" "rc_at p0 (Suc a) d rc'" "rc_same rc rc'"
proof -
  note i = probs_ok_nth [OF assms(4,5)]
  obtain b p' rc' where r: "rc_bit rc (ps ! i) = Some (b, p', rc')" "prob_ok p'" "rc_at p0 (Suc a) d rc'" "rc_same rc rc'"
    using rc_bit_ok [OF assms(1-3)] i by blast
  show ?thesis using that [of b "ps[i := p']" rc'] r i probs_ok_update [OF assms(4) r(2)] by (simp add: rc_bit_at_def)
qed

lemma unat_symbol:
  assumes "2 ^ j \<le> unat s" "unat (s::u32) < 2 ^ Suc j" "j < 30"
  shows "2 ^ Suc j \<le> unat (if b then push_bit 1 s + 1 else push_bit 1 s)"
    "unat (if b then push_bit 1 s + 1 else push_bit 1 s) < 2 ^ Suc (Suc j)"
proof -
  have "(2::nat) ^ Suc j \<le> 2 ^ 30" using assms(3) by (intro power_increasing) simp_all
  then have s: "unat s < 2 ^ 30" using assms(2) by simp
  have "unat (push_bit 1 s) = 2 * unat s" using s by (simp add: push_bit_eq_mult unat_word_ariths)
  moreover from this have "unat (push_bit 1 s + 1) = 2 * unat s + 1" using s by (simp add: unat_word_ariths)
  ultimately show "2 ^ Suc j \<le> unat (if b then push_bit 1 s + 1 else push_bit 1 s)"
    "unat (if b then push_bit 1 s + 1 else push_bit 1 s) < 2 ^ Suc (Suc j)" using assms(1,2) by auto
qed

lemma rc_bittree_loop_ok:
  assumes "rc_at p0 a d rc" "a + (m - j) \<le> 22" "d \<le> 26" "probs_ok n ps" "2 ^ m \<le> n" "j < m" "m < 30"
    and "2 ^ j \<le> unat s" "unat s < 2 ^ Suc j" "unat limit = 2 ^ m"
  shows "\<exists>t ps' rc'. rc_bittree_loop rc ps limit s = Some (t, ps', rc') \<and> probs_ok n ps' \<and>
    rc_at p0 (a + (m - j)) d rc' \<and> rc_same rc rc' \<and> 2 ^ m \<le> unat t \<and> unat t < 2 ^ Suc m"
  using assms
proof (induction "m - j" arbitrary: a rc ps j s)
  case (Suc k)
  have "(2::nat) ^ Suc j \<le> 2 ^ m" using Suc.prems(6) by (intro power_increasing) simp_all
  then have i: "unat s < n" using Suc.prems(5,9) by simp
  have "a \<le> 21" using Suc.prems(2,6) by simp
  then obtain b ps1 rc1 where r: "rc_bit_at rc ps (unat s) = Some (b, ps1, rc1)" "probs_ok n ps1" "rc_at p0 (Suc a) d rc1" "rc_same rc rc1"
    using rc_bit_at_ok [OF Suc.prems(1) _ Suc.prems(3,4) i] by blast
  define t where "t = (if b then push_bit 1 s + 1 else push_bit 1 s)"
  have t: "2 ^ Suc j \<le> unat t" "unat t < 2 ^ Suc (Suc j)"
    using unat_symbol [OF Suc.prems(8,9), of b] Suc.prems(6,7) by (auto simp: t_def)
  have step: "rc_bittree_loop rc ps limit s = (if t < limit then rc_bittree_loop rc1 ps1 limit t else Some (t, ps1, rc1))"
    by (subst rc_bittree_loop.simps) (simp add: r(1) t_def Let_def)
  show ?case
  proof (cases "Suc j = m")
    case True
    then have "\<not> t < limit" using t Suc.prems(10) by (simp add: word_less_nat_alt)
    moreover have "a + (m - j) = Suc a" using True by auto
    ultimately show ?thesis using step r t True by simp
  next
    case False
    then have m: "Suc j < m" using Suc.prems(6) by simp
    then have "(2::nat) ^ Suc (Suc j) \<le> 2 ^ m" by (intro power_increasing) simp_all
    then have lt: "t < limit" using t(2) Suc.prems(10) by (simp add: word_less_nat_alt)
    have eq: "Suc a + (m - Suc j) = a + (m - j)" using m by simp
    have "\<exists>t' ps' rc'. rc_bittree_loop rc1 ps1 limit t = Some (t', ps', rc') \<and> probs_ok n ps' \<and>
      rc_at p0 (Suc a + (m - Suc j)) d rc' \<and> rc_same rc1 rc' \<and> 2 ^ m \<le> unat t' \<and> unat t' < 2 ^ Suc m"
      using Suc.hyps(2) Suc.prems m r t by (intro Suc.hyps(1)) auto
    then show ?thesis unfolding eq using step lt rc_same_trans [OF r(4)] by (metis (no_types, lifting))
  qed
qed simp

lemma rc_bittree_ok:
  assumes "rc_at p0 a d rc" "a + m \<le> 22" "d \<le> 26" "probs_ok n ps" "2 ^ m \<le> n" "0 < m" "m < 30" "unat limit = 2 ^ m"
  obtains t ps' rc' where "rc_bittree rc ps limit = Some (t, ps', rc')" "probs_ok n ps'"
    "rc_at p0 (a + m) d rc'" "rc_same rc rc'" "2 ^ m \<le> unat t" "unat t < 2 ^ Suc m"
  using rc_bittree_loop_ok [of p0 a d rc m 0 n ps 1 limit] assms by (auto simp: rc_bittree_def)

lemma rc_bittree_reverse_loop_ok:
  assumes "rc_at p0 a d rc" "a + (m - j) \<le> 22" "d \<le> 26" "probs_ok n ps" "j < m" "m < 30"
    and "2 ^ j \<le> unat s" "unat s < 2 ^ Suc j" "unat limit = m" "unat i = j" "0 \<le> base + 1" "base + 2 ^ m \<le> int n"
  shows "\<exists>t ps' rc'. rc_bittree_reverse_loop rc ps base dest limit s i = Some (t, ps', rc') \<and> probs_ok n ps' \<and>
    rc_at p0 (a + (m - j)) d rc' \<and> rc_same rc rc'"
  using assms
proof (induction "m - j" arbitrary: a rc ps j s i dest)
  case (Suc k)
  have "(2::nat) ^ Suc j \<le> 2 ^ m" using Suc.prems(5) by (intro power_increasing) simp_all
  then have lt: "unat s < 2 ^ m" using Suc.prems(8) by simp
  have pos: "1 \<le> unat s" by (rule order_trans [OF one_le_power Suc.prems(7)]) simp
  define q where "q = nat (base + int (unat s))"
  have q: "\<not> base + int (unat s) < 0" "q < n"
  proof -
    define v where "v = unat s"
    have "int v < 2 ^ m" "1 \<le> int v"
      using lt pos by (simp_all add: v_def [symmetric])
    then show "\<not> base + int (unat s) < 0" "q < n"
      unfolding q_def v_def [symmetric] using Suc.prems(11,12) by linarith+
  qed
  have "a \<le> 21" using Suc.prems(2,5) by simp
  then obtain b ps1 rc1 where r: "rc_bit_at rc ps q = Some (b, ps1, rc1)" "probs_ok n ps1" "rc_at p0 (Suc a) d rc1" "rc_same rc rc1"
    using rc_bit_at_ok [OF Suc.prems(1) _ Suc.prems(3,4) q(2)] by blast
  define t where "t = (if b then push_bit 1 s + 1 else push_bit 1 s)"
  have t: "2 ^ Suc j \<le> unat t" "unat t < 2 ^ Suc (Suc j)"
    using unat_symbol [OF Suc.prems(7,8), of b] Suc.prems(5,6) by (auto simp: t_def)
  have i1: "unat (i + 1) = Suc j" using Suc.prems(5,6,10) by (simp add: unat_word_ariths)
  define e where "e = (if b then dest + push_bit (unat i) 1 else dest)"
  have step: "rc_bittree_reverse_loop rc ps base dest limit s i =
      (if i + 1 < limit then rc_bittree_reverse_loop rc1 ps1 base e limit t (i + 1) else Some (e, ps1, rc1))"
    by (subst rc_bittree_reverse_loop.simps)
      (simp only: q(1) if_False q_def [symmetric] r(1) Option.bind.simps prod.case Let_def t_def e_def)
  show ?case
  proof (cases "Suc j = m")
    case True
    then have "\<not> i + 1 < limit" using i1 Suc.prems(9) by (simp add: word_less_nat_alt)
    moreover have "a + (m - j) = Suc a" using True by auto
    ultimately show ?thesis using step r by simp
  next
    case False
    then have m: "Suc j < m" using Suc.prems(5) by simp
    then have lt: "i + 1 < limit" using i1 Suc.prems(9) by (simp add: word_less_nat_alt)
    have eq: "Suc a + (m - Suc j) = a + (m - j)" using m by simp
    have "\<exists>t' ps' rc'. rc_bittree_reverse_loop rc1 ps1 base e limit t (i + 1) = Some (t', ps', rc') \<and> probs_ok n ps' \<and>
      rc_at p0 (Suc a + (m - Suc j)) d rc' \<and> rc_same rc1 rc'"
      using Suc.hyps(2) Suc.prems m r t i1 by (intro Suc.hyps(1)) auto
    then show ?thesis unfolding eq using step lt rc_same_trans [OF r(4)] by (metis (no_types, lifting))
  qed
qed simp

lemma rc_bittree_reverse_ok:
  assumes "rc_at p0 a d rc" "a + m \<le> 22" "d \<le> 26" "probs_ok n ps" "0 < m" "m < 30" "unat limit = m"
    and "0 \<le> base + 1" "base + 2 ^ m \<le> int n"
  obtains t ps' rc' where "rc_bittree_reverse rc ps base dest limit = Some (t, ps', rc')" "probs_ok n ps'"
    "rc_at p0 (a + m) d rc'" "rc_same rc rc'"
  using rc_bittree_reverse_loop_ok [of p0 a d rc m 0 n ps 1 limit 0 base dest] assms by (auto simp: rc_bittree_reverse_def)

lemma rc_direct_step:
  assumes "rc_at p0 a d rc" "a \<le> 21" "d \<le> 25"
  obtains rc' e where "rc_direct rc dest limit = (if limit - 1 > 0 then rc_direct rc' e (limit - 1) else Some (e, rc'))"
    "rc_at p0 a (Suc d) rc'" "rc_same rc rc'"
proof -
  have "d \<le> 26" using assms(3) by simp
  then obtain rn where rn: "rc_normalize rc = Some rn" "rc_at p0 a d rn" "2 ^ 24 \<le> unat (rc_range rn)" "rc_same rc rn"
    using rc_normalize_ok [OF assms(1,2)] by blast
  define r where "r = drop_bit 1 (rc_range rn)"
  define mk where "mk = 0 - drop_bit 31 (rc_code rn - r)"
  define rc' where "rc' = rn\<lparr>rc_range := r, rc_code := rc_code rn - r + (r AND mk)\<rparr>"
  have ur: "unat r = unat (rc_range rn) div 2" unfolding r_def drop_bit_eq_div by (simp only: unat_div) simp
  obtain c where c: "c \<le> 20" "rc_in_pos rn = p0 + c" "range_lb c a d (unat (rc_range rn))" using rn(2) by (auto simp: rc_at_def)
  have "253952 \<le> unat r" using ur div_le_mono [OF rn(3), of 2] by simp
  then have at: "rc_at p0 a (Suc d) rc'"
    using c rn(2) range_lb_direct [OF c(3) rn(3)] by (auto simp: rc'_def rc_at_def ur)
  have "rc_direct rc dest limit =
      (if limit - 1 > 0 then rc_direct rc' (push_bit 1 dest + (mk + 1)) (limit - 1) else Some (push_bit 1 dest + (mk + 1), rc'))"
    by (subst rc_direct.simps) (simp add: rn(1) r_def mk_def rc'_def Let_def)
  moreover have "rc_same rc rc'" using rn(4) by (simp add: rc'_def rc_same_def)
  ultimately show ?thesis using that at by blast
qed

lemma rc_direct_ok:
  assumes "rc_at p0 a d rc" "a \<le> 21" "d + Suc m \<le> 26" "unat limit = Suc m"
  shows "\<exists>t rc'. rc_direct rc dest limit = Some (t, rc') \<and> rc_at p0 a (d + Suc m) rc' \<and> rc_same rc rc'"
  using assms
proof (induction m arbitrary: d rc dest limit)
  case (0 d rc dest limit)
  then have "limit = 1" by (simp add: word_unat_eq_iff)
  then have l: "limit - 1 = 0" by simp
  have "d \<le> 25" using 0 by simp
  from rc_direct_step [OF "0.prems"(1,2) this, of dest limit] l show ?case by (metis add_Suc_right add_0_right less_irrefl)
next
  case (Suc m d rc dest limit)
  have l: "limit - 1 > 0" "unat (limit - 1) = Suc m"
  proof -
    show "unat (limit - 1) = Suc m" using Suc.prems(4) unat_minus_one [of limit] by (cases "limit = 0") auto
    then show "limit - 1 > 0" by (simp add: word_less_nat_alt)
  qed
  have "d \<le> 25" using Suc.prems(3) by simp
  then obtain rc1 e where r: "rc_direct rc dest limit = (if limit - 1 > 0 then rc_direct rc1 e (limit - 1) else Some (e, rc1))"
    "rc_at p0 a (Suc d) rc1" "rc_same rc rc1"
    using rc_direct_step [OF Suc.prems(1,2), of dest limit] by blast
  have "\<exists>t rc'. rc_direct rc1 e (limit - 1) = Some (t, rc') \<and> rc_at p0 a (Suc d + Suc m) rc' \<and> rc_same rc1 rc'"
    using Suc.prems(2,3) r(2) l(2) by (intro Suc.IH) simp_all
  then show ?case using r l(1) rc_same_trans [OF r(3)] by auto
qed

lemma rc_read_init_ok:
  assumes "buf_ok b"
  shows "\<exists>ok rc' n. rc_read_init rc b = Some (ok, rc', b\<lparr>in_pos := in_pos b + n\<rparr>) \<and>
    in_pos b + n \<le> in_size b \<and> unat (init_bytes_left rc') + n = unat (init_bytes_left rc) \<and>
    (ok \<longleftrightarrow> init_bytes_left rc' = 0) \<and> (\<not> ok \<longrightarrow> in_pos b + n = in_size b) \<and>
    rc_range rc' = rc_range rc \<and> rc_in rc' = rc_in rc \<and> rc_in_pos rc' = rc_in_pos rc \<and> rc_in_limit rc' = rc_in_limit rc"
  using assms
proof (induction rc b rule: rc_read_init.induct)
  case (1 rc b)
  consider (ready) "init_bytes_left rc = 0" | (stop) "init_bytes_left rc > 0" "in_pos b = in_size b"
    | (read) "init_bytes_left rc > 0" "in_pos b < in_size b"
    using "1.prems" unfolding buf_ok_def word_greater_zero_iff by linarith
  then show ?case
  proof cases
    case ready
    then have "rc_read_init rc b = Some (True, rc, b\<lparr>in_pos := in_pos b + 0\<rparr>)" by (subst rc_read_init.simps) simp
    then show ?thesis using ready "1.prems" by (intro exI [of _ True] exI [of _ rc] exI [of _ 0]) (simp add: buf_ok_def)
  next
    case stop
    then have "rc_read_init rc b = Some (False, rc, b\<lparr>in_pos := in_pos b + 0\<rparr>)" by (subst rc_read_init.simps) simp
    then show ?thesis using stop by (intro exI [of _ False] exI [of _ rc] exI [of _ 0]) (simp add: word_greater_zero_iff)
  next
    case read
    let ?c = "b_in b ! in_pos b"
    let ?rc = "rc\<lparr>rc_code := push_bit 8 (rc_code rc) + ucast ?c, init_bytes_left := init_bytes_left rc - 1\<rparr>"
    let ?b = "b\<lparr>in_pos := in_pos b + 1\<rparr>"
    have f: "fetch (b_in b) (in_pos b) = Some ?c" using read(2) "1.prems" by (simp add: buf_ok_def)
    have step: "rc_read_init rc b = rc_read_init ?rc ?b" using read by (subst rc_read_init.simps) (simp add: f)
    have "buf_ok ?b" and ne: "in_pos b \<noteq> in_size b" using read(2) "1.prems" by (simp_all add: buf_ok_def)
    with "1.IH" [OF read(1) ne f] obtain ok rc' n where r: "rc_read_init ?rc ?b = Some (ok, rc', ?b\<lparr>in_pos := in_pos ?b + n\<rparr>)"
      "in_pos ?b + n \<le> in_size ?b" "unat (init_bytes_left rc') + n = unat (init_bytes_left ?rc)"
      "ok \<longleftrightarrow> init_bytes_left rc' = 0" "\<not> ok \<longrightarrow> in_pos ?b + n = in_size ?b"
      "rc_range rc' = rc_range ?rc" "rc_in rc' = rc_in ?rc" "rc_in_pos rc' = rc_in_pos ?rc" "rc_in_limit rc' = rc_in_limit ?rc"
      by blast
    have "unat (init_bytes_left rc - 1) = unat (init_bytes_left rc) - 1" "0 < unat (init_bytes_left rc)"
      using read(1) by (simp_all add: unat_minus_one word_greater_zero_iff unat_gt_0)
    then have "unat (init_bytes_left rc') + Suc n = unat (init_bytes_left rc)" using r(3) by simp
    then show ?thesis
      using step r by (intro exI [of _ ok] exI [of _ rc'] exI [of _ "Suc n"]) simp
  qed
qed

end
