(* ===== verification/Xz_Lzma.thy ===== *)
theory Xz_Lzma
  imports Xz_Range
begin

text \<open>
  The LZMA decoder of \<open>xz_dec_lzma2.c\<close> with the state machine of \<open>xz_lzma2.h\<close>: literals, match lengths and
  distances, the symbol loop, and the decoding of the properties byte. The probability tables are
  nested lists of the sizes the source declares, and every access is checked. Shown: with
  probabilities in range and 21 bytes of input behind the input limit, no symbol reads or writes outside a table, the
  input or the dictionary, one symbol takes at most 20 bytes, and the symbol loop ends.
\<close>

section \<open>States\<close>

datatype lzma_state =
    STATE_LIT_LIT | STATE_MATCH_LIT_LIT | STATE_REP_LIT_LIT | STATE_SHORTREP_LIT_LIT
  | STATE_MATCH_LIT | STATE_REP_LIT | STATE_SHORTREP_LIT | STATE_LIT_MATCH
  | STATE_LIT_LONGREP | STATE_LIT_SHORTREP | STATE_NONLIT_MATCH | STATE_NONLIT_REP

text \<open>The numbering of the enumeration.\<close>

definition lzma_states :: "lzma_state list" where
  "lzma_states =
    [STATE_LIT_LIT, STATE_MATCH_LIT_LIT, STATE_REP_LIT_LIT, STATE_SHORTREP_LIT_LIT,
     STATE_MATCH_LIT, STATE_REP_LIT, STATE_SHORTREP_LIT, STATE_LIT_MATCH,
     STATE_LIT_LONGREP, STATE_LIT_SHORTREP, STATE_NONLIT_MATCH, STATE_NONLIT_REP]"

fun state_num :: "lzma_state \<Rightarrow> nat" where
  "state_num STATE_LIT_LIT = 0"
| "state_num STATE_MATCH_LIT_LIT = 1"
| "state_num STATE_REP_LIT_LIT = 2"
| "state_num STATE_SHORTREP_LIT_LIT = 3"
| "state_num STATE_MATCH_LIT = 4"
| "state_num STATE_REP_LIT = 5"
| "state_num STATE_SHORTREP_LIT = 6"
| "state_num STATE_LIT_MATCH = 7"
| "state_num STATE_LIT_LONGREP = 8"
| "state_num STATE_LIT_SHORTREP = 9"
| "state_num STATE_NONLIT_MATCH = 10"
| "state_num STATE_NONLIT_REP = 11"

definition LIT_STATES :: nat where
  "LIT_STATES = 7"

definition lzma_state_literal :: "lzma_state \<Rightarrow> lzma_state" where
  "lzma_state_literal state =
    (if state_num state \<le> state_num STATE_SHORTREP_LIT_LIT then STATE_LIT_LIT
     else if state_num state \<le> state_num STATE_LIT_SHORTREP then lzma_states ! (state_num state - 3)
     else lzma_states ! (state_num state - 6))"

definition lzma_state_match :: "lzma_state \<Rightarrow> lzma_state" where
  "lzma_state_match state = (if state_num state < LIT_STATES then STATE_LIT_MATCH else STATE_NONLIT_MATCH)"

definition lzma_state_long_rep :: "lzma_state \<Rightarrow> lzma_state" where
  "lzma_state_long_rep state = (if state_num state < LIT_STATES then STATE_LIT_LONGREP else STATE_NONLIT_REP)"

definition lzma_state_short_rep :: "lzma_state \<Rightarrow> lzma_state" where
  "lzma_state_short_rep state = (if state_num state < LIT_STATES then STATE_LIT_SHORTREP else STATE_NONLIT_REP)"

definition lzma_state_is_literal :: "lzma_state \<Rightarrow> bool" where
  "lzma_state_is_literal state \<longleftrightarrow> state_num state < LIT_STATES"

definition lzma_get_dist_state :: "u32 \<Rightarrow> u32" where
  "lzma_get_dist_state len = (if len < 4 + 2 then len - 2 else 4 - 1)"

section \<open>Decoder state\<close>

record lzma_len_dec =
  choice :: u16
  choice2 :: u16
  low :: "u16 list list"
  mid :: "u16 list list"
  high :: "u16 list"

record lzma_dec =
  rep0 :: u32
  rep1 :: u32
  rep2 :: u32
  rep3 :: u32
  lz_state :: lzma_state
  lz_len :: u32
  lc :: u32
  literal_pos_mask :: u32
  pos_mask :: u32
  is_match :: "u16 list list"
  is_rep :: "u16 list"
  is_rep0 :: "u16 list"
  is_rep1 :: "u16 list"
  is_rep2 :: "u16 list"
  is_rep0_long :: "u16 list list"
  dist_slot :: "u16 list list"
  dist_special :: "u16 list"
  dist_align :: "u16 list"
  match_len_dec :: lzma_len_dec
  rep_len_dec :: lzma_len_dec
  literal :: "u16 list list"

text \<open>The part of \<open>struct xz_dec_lzma2\<close> the LZMA decoder works on.\<close>

record lzma_core =
  s_rc :: rc_dec
  s_dict :: dictionary
  s_lzma :: lzma_dec

text \<open>\<open>probs[i][j]\<close> as the argument of \<open>rc_bit\<close>, and \<open>probs[i]\<close> as that of \<open>rc_bittree\<close>.\<close>

definition rc_bit_at2 :: "rc_dec \<Rightarrow> u16 list list \<Rightarrow> nat \<Rightarrow> nat \<Rightarrow> (bool \<times> u16 list list \<times> rc_dec) option" where
  "rc_bit_at2 rc probs i j =
    do { row \<leftarrow> fetch probs i;
         (bit', row, rc) \<leftarrow> rc_bit_at rc row j;
         probs \<leftarrow> store probs i row;
         Some (bit', probs, rc) }"

definition rc_bittree_at :: "rc_dec \<Rightarrow> u16 list list \<Rightarrow> nat \<Rightarrow> u32 \<Rightarrow> (u32 \<times> u16 list list \<times> rc_dec) option" where
  "rc_bittree_at rc probs i limit =
    do { row \<leftarrow> fetch probs i;
         (symbol, row, rc) \<leftarrow> rc_bittree rc row limit;
         probs \<leftarrow> store probs i row;
         Some (symbol, probs, rc) }"

section \<open>Literals\<close>

text \<open>The index of the literal coder.\<close>

definition lzma_literal_probs :: "lzma_core \<Rightarrow> nat option" where
  "lzma_literal_probs s =
    do { prev_byte \<leftarrow> dict_get (s_dict s) 0;
         let low' = drop_bit (unat (8 - lc (s_lzma s))) prev_byte;
         let high' = push_bit (unat (lc (s_lzma s))) (of_nat (d_pos (s_dict s)) AND literal_pos_mask (s_lzma s));
         Some (unat (low' + high')) }"

partial_function (option) literal_loop ::
    "rc_dec \<Rightarrow> u16 list \<Rightarrow> u32 \<Rightarrow> u32 \<Rightarrow> u32 \<Rightarrow> (u32 \<times> u16 list \<times> rc_dec) option" where
  "literal_loop rc probs symbol match_byte offset =
    do { let match_bit = match_byte AND offset;
         let match_byte = push_bit 1 match_byte;
         (bit', probs, rc) \<leftarrow> rc_bit_at rc probs (unat (offset + match_bit + symbol));
         let symbol = (if bit' then push_bit 1 symbol + 1 else push_bit 1 symbol);
         let offset = (if bit' then offset AND match_bit else offset AND NOT match_bit);
         if symbol < 0x100 then literal_loop rc probs symbol match_byte offset
         else Some (symbol, probs, rc) }"

definition lzma_literal :: "lzma_core \<Rightarrow> lzma_core option" where
  "lzma_literal s =
    do { i \<leftarrow> lzma_literal_probs s;
         probs \<leftarrow> fetch (literal (s_lzma s)) i;
         (symbol, probs, rc) \<leftarrow>
           (if lzma_state_is_literal (lz_state (s_lzma s)) then rc_bittree (s_rc s) probs 0x100
            else do { b \<leftarrow> dict_get (s_dict s) (rep0 (s_lzma s));
                      literal_loop (s_rc s) probs 1 (push_bit 1 b) 0x100 });
         lit \<leftarrow> store (literal (s_lzma s)) i probs;
         dict \<leftarrow> dict_put (s_dict s) (ucast symbol);
         Some (s\<lparr>s_rc := rc, s_dict := dict,
           s_lzma := (s_lzma s)\<lparr>literal := lit, lz_state := lzma_state_literal (lz_state (s_lzma s))\<rparr>\<rparr>) }"

section \<open>Matches\<close>

text \<open>The decoded length, the updated coder and the range decoder.\<close>

definition lzma_len :: "rc_dec \<Rightarrow> lzma_len_dec \<Rightarrow> nat \<Rightarrow> (u32 \<times> lzma_len_dec \<times> rc_dec) option" where
  "lzma_len rc l pos_state =
    do { (b, p, rc) \<leftarrow> rc_bit rc (choice l);
         let l = l\<lparr>choice := p\<rparr>;
         if \<not> b then
           do { (t, probs, rc) \<leftarrow> rc_bittree_at rc (low l) pos_state 8;
                Some (2 + (t - 8), l\<lparr>low := probs\<rparr>, rc) }
         else
           do { (b, p, rc) \<leftarrow> rc_bit rc (choice2 l);
                let l = l\<lparr>choice2 := p\<rparr>;
                if \<not> b then
                  do { (t, probs, rc) \<leftarrow> rc_bittree_at rc (mid l) pos_state 8;
                       Some (2 + 8 + (t - 8), l\<lparr>mid := probs\<rparr>, rc) }
                else
                  do { (t, probs, rc) \<leftarrow> rc_bittree rc (high l) 256;
                       Some (2 + 8 + 8 + (t - 256), l\<lparr>high := probs\<rparr>, rc) } } }"

definition lzma_match :: "lzma_core \<Rightarrow> nat \<Rightarrow> lzma_core option" where
  "lzma_match s pos_state =
    do { let z = s_lzma s;
         let z = z\<lparr>lz_state := lzma_state_match (lz_state z)\<rparr>;
         let z = z\<lparr>rep3 := rep2 z, rep2 := rep1 z, rep1 := rep0 z\<rparr>;
         (len, l, rc) \<leftarrow> lzma_len (s_rc s) (match_len_dec z) pos_state;
         let z = z\<lparr>lz_len := len, match_len_dec := l\<rparr>;
         (t, probs, rc) \<leftarrow> rc_bittree_at rc (dist_slot z) (unat (lzma_get_dist_state len)) 64;
         let z = z\<lparr>dist_slot := probs\<rparr>;
         let slot = t - 64;
         if slot < 4 then Some (s\<lparr>s_rc := rc, s_lzma := z\<lparr>rep0 := slot\<rparr>\<rparr>)
         else
           do { let limit = drop_bit 1 slot - 1;
                let dist = 2 + (slot AND 1);
                if slot < 14 then
                  do { let dist = push_bit (unat limit) dist;
                       (dist, probs, rc) \<leftarrow> rc_bittree_reverse rc (dist_special z) (int (unat dist) - int (unat slot) - 1) dist limit;
                       Some (s\<lparr>s_rc := rc, s_lzma := z\<lparr>rep0 := dist, dist_special := probs\<rparr>\<rparr>) }
                else
                  do { (dist, rc) \<leftarrow> rc_direct rc dist (limit - 4);
                       let dist = push_bit 4 dist;
                       (dist, probs, rc) \<leftarrow> rc_bittree_reverse rc (dist_align z) 0 dist 4;
                       Some (s\<lparr>s_rc := rc, s_lzma := z\<lparr>rep0 := dist, dist_align := probs\<rparr>\<rparr>) } } }"

text \<open>The choice of the distance, which is \<open>True\<close> for a repetition of one byte, and the rest.\<close>

definition rep_match_select :: "lzma_dec \<Rightarrow> rc_dec \<Rightarrow> nat \<Rightarrow> (bool \<times> lzma_dec \<times> rc_dec) option" where
  "rep_match_select z rc pos_state =
    do { let st = state_num (lz_state z);
         (b, probs, rc) \<leftarrow> rc_bit_at rc (is_rep0 z) st;
         let z = z\<lparr>is_rep0 := probs\<rparr>;
         if \<not> b then
           do { (b, probs, rc) \<leftarrow> rc_bit_at2 rc (is_rep0_long z) st pos_state;
                Some (\<not> b, z\<lparr>is_rep0_long := probs\<rparr>, rc) }
         else
           do { (b, probs, rc) \<leftarrow> rc_bit_at rc (is_rep1 z) st;
                let z = z\<lparr>is_rep1 := probs\<rparr>;
                (tmp, z, rc) \<leftarrow>
                  (if \<not> b then Some (rep1 z, z, rc)
                   else
                     do { (b, probs, rc) \<leftarrow> rc_bit_at rc (is_rep2 z) st;
                          let z = z\<lparr>is_rep2 := probs\<rparr>;
                          let (tmp, z) = (if \<not> b then (rep2 z, z) else (rep3 z, z\<lparr>rep3 := rep2 z\<rparr>));
                          Some (tmp, z\<lparr>rep2 := rep1 z\<rparr>, rc) });
                Some (False, z\<lparr>rep1 := rep0 z, rep0 := tmp\<rparr>, rc) } }"

definition lzma_rep_match :: "lzma_core \<Rightarrow> nat \<Rightarrow> lzma_core option" where
  "lzma_rep_match s pos_state =
    do { (short, z, rc) \<leftarrow> rep_match_select (s_lzma s) (s_rc s) pos_state;
         if short then
           Some (s\<lparr>s_rc := rc, s_lzma := z\<lparr>lz_state := lzma_state_short_rep (lz_state z), lz_len := 1\<rparr>\<rparr>)
         else
           do { let z = z\<lparr>lz_state := lzma_state_long_rep (lz_state z)\<rparr>;
                (len, l, rc) \<leftarrow> lzma_len rc (rep_len_dec z) pos_state;
                Some (s\<lparr>s_rc := rc, s_lzma := z\<lparr>lz_len := len, rep_len_dec := l\<rparr>\<rparr>) } }"

section \<open>The symbol loop\<close>

definition lzma_repeat :: "lzma_core \<Rightarrow> (bool \<times> lzma_core) option" where
  "lzma_repeat s =
    do { (ok, len, dict) \<leftarrow> dict_repeat (s_dict s) (lz_len (s_lzma s)) (rep0 (s_lzma s));
         Some (ok, s\<lparr>s_dict := dict, s_lzma := (s_lzma s)\<lparr>lz_len := len\<rparr>\<rparr>) }"

text \<open>The body of the loop: one symbol. The result is \<open>False\<close> where the function returns.\<close>

definition lzma_symbol :: "lzma_core \<Rightarrow> (bool \<times> lzma_core) option" where
  "lzma_symbol s =
    do { let pos_state = unat (of_nat (d_pos (s_dict s)) AND pos_mask (s_lzma s));
         let st = state_num (lz_state (s_lzma s));
         (b, probs, rc) \<leftarrow> rc_bit_at2 (s_rc s) (is_match (s_lzma s)) st pos_state;
         let s = s\<lparr>s_rc := rc, s_lzma := (s_lzma s)\<lparr>is_match := probs\<rparr>\<rparr>;
         if \<not> b then do { s \<leftarrow> lzma_literal s; Some (True, s) }
         else
           do { (b, probs, rc) \<leftarrow> rc_bit_at (s_rc s) (is_rep (s_lzma s)) st;
                let s = s\<lparr>s_rc := rc, s_lzma := (s_lzma s)\<lparr>is_rep := probs\<rparr>\<rparr>;
                s \<leftarrow> (if b then lzma_rep_match s pos_state else lzma_match s pos_state);
                lzma_repeat s } }"

partial_function (option) lzma_loop :: "lzma_core \<Rightarrow> (bool \<times> lzma_core) option" where
  "lzma_loop s =
    (if dict_has_space (s_dict s) \<and> \<not> rc_limit_exceeded (s_rc s)
     then do { (ok, s) \<leftarrow> lzma_symbol s; if ok then lzma_loop s else Some (False, s) }
     else Some (True, s))"

definition lzma_main :: "lzma_core \<Rightarrow> (bool \<times> lzma_core) option" where
  "lzma_main s =
    do { s \<leftarrow> (if dict_has_space (s_dict s) \<and> lz_len (s_lzma s) > 0
                then do { (_, s) \<leftarrow> lzma_repeat s; Some s } else Some s);
         (ok, s) \<leftarrow> lzma_loop s;
         if \<not> ok then Some (False, s)
         else do { rc \<leftarrow> rc_normalize (s_rc s); Some (True, s\<lparr>s_rc := rc\<rparr>) } }"

section \<open>Reset and properties\<close>

text \<open>The loop over all probabilities covers every table from \<open>is_match\<close> to \<open>literal\<close>.\<close>

definition RC_HALF :: u16 where
  "RC_HALF = 1024"

definition len_dec_reset :: lzma_len_dec where
  "len_dec_reset = \<lparr>choice = RC_HALF, choice2 = RC_HALF, low = replicate 16 (replicate 8 RC_HALF),
     mid = replicate 16 (replicate 8 RC_HALF), high = replicate 256 RC_HALF\<rparr>"

definition lzma_reset :: "lzma_core \<Rightarrow> lzma_core" where
  "lzma_reset s =
    s\<lparr>s_lzma := (s_lzma s)\<lparr>lz_state := STATE_LIT_LIT, rep0 := 0, rep1 := 0, rep2 := 0, rep3 := 0, lz_len := 0,
        is_match := replicate 12 (replicate 16 RC_HALF), is_rep := replicate 12 RC_HALF,
        is_rep0 := replicate 12 RC_HALF, is_rep1 := replicate 12 RC_HALF, is_rep2 := replicate 12 RC_HALF,
        is_rep0_long := replicate 12 (replicate 16 RC_HALF), dist_slot := replicate 4 (replicate 64 RC_HALF),
        dist_special := replicate (128 - 14) RC_HALF, dist_align := replicate 16 RC_HALF,
        match_len_dec := len_dec_reset, rep_len_dec := len_dec_reset,
        literal := replicate 16 (replicate 0x300 RC_HALF)\<rparr>,
      s_rc := rc_reset (s_rc s)\<rparr>"

text \<open>Repeated subtraction: the remainder and the number of rounds.\<close>

function count_sub :: "u8 \<Rightarrow> u8 \<Rightarrow> u32 \<Rightarrow> u8 \<times> u32" where
  "count_sub d props n = (if d \<noteq> 0 \<and> props \<ge> d then count_sub d (props - d) (n + 1) else (props, n))"
  by pat_completeness auto

termination
  by (relation "measure (\<lambda>(d, props, n). unat props)")
    (auto simp: unat_sub word_le_nat_alt unat_gt_0 unat_eq_zero intro!: diff_less)

declare count_sub.simps [simp del]

definition lzma_props :: "lzma_core \<Rightarrow> u8 \<Rightarrow> bool \<times> lzma_core" where
  "lzma_props s props =
    (if props > (4 * 5 + 4) * 9 + 8 then (False, s)
     else
       let (props, pb) = count_sub (9 * 5) props 0;
           s = s\<lparr>s_lzma := (s_lzma s)\<lparr>pos_mask := push_bit (unat pb) 1 - 1\<rparr>\<rparr>;
           (props, lp) = count_sub 9 props 0;
           s = s\<lparr>s_lzma := (s_lzma s)\<lparr>literal_pos_mask := lp, lc := ucast props\<rparr>\<rparr>
       in if ucast props + lp > 4 then (False, s)
          else (True, lzma_reset (s\<lparr>s_lzma := (s_lzma s)\<lparr>literal_pos_mask := push_bit (unat lp) 1 - 1\<rparr>\<rparr>)))"

section \<open>The tables\<close>

definition tab_ok :: "nat \<Rightarrow> nat \<Rightarrow> u16 list list \<Rightarrow> bool" where
  "tab_ok n m t \<longleftrightarrow> length t = n \<and> list_all (probs_ok m) t"

definition len_dec_ok :: "lzma_len_dec \<Rightarrow> bool" where
  "len_dec_ok l \<longleftrightarrow> prob_ok (choice l) \<and> prob_ok (choice2 l) \<and> tab_ok 16 8 (low l) \<and> tab_ok 16 8 (mid l) \<and> probs_ok 256 (high l)"

definition tables_ok :: "lzma_dec \<Rightarrow> bool" where
  "tables_ok z \<longleftrightarrow> tab_ok 12 16 (is_match z) \<and> probs_ok 12 (is_rep z) \<and> probs_ok 12 (is_rep0 z) \<and> probs_ok 12 (is_rep1 z) \<and>
    probs_ok 12 (is_rep2 z) \<and> tab_ok 12 16 (is_rep0_long z) \<and> tab_ok 4 64 (dist_slot z) \<and> probs_ok 114 (dist_special z) \<and>
    probs_ok 16 (dist_align z) \<and> len_dec_ok (match_len_dec z) \<and> len_dec_ok (rep_len_dec z) \<and> tab_ok 16 0x300 (literal z)"

text \<open>The properties \<open>lc\<close>, \<open>lp\<close> and \<open>pb\<close> are in range: \<open>lc + lp \<le> 4\<close> and \<open>pb \<le> 4\<close>.\<close>

definition params_ok :: "lzma_dec \<Rightarrow> bool" where
  "params_ok z \<longleftrightarrow> unat (lc z) \<le> 4 \<and> unat (literal_pos_mask z) < 2 ^ (4 - unat (lc z)) \<and> unat (pos_mask z) < 16"

lemma tab_ok_nth: "tab_ok n m t \<Longrightarrow> i < n \<Longrightarrow> i < length t \<and> probs_ok m (t ! i)"
  by (simp add: tab_ok_def list_all_length)

lemma tab_ok_update: "tab_ok n m t \<Longrightarrow> probs_ok m r \<Longrightarrow> tab_ok n m (t[i := r])"
  by (cases "i < length t") (auto simp: tab_ok_def list_all_length nth_list_update)

lemma rc_at_mono: "rc_at p a d rc \<Longrightarrow> a \<le> a' \<Longrightarrow> d \<le> d' \<Longrightarrow> rc_at p a' d' rc"
  by (auto simp: rc_at_def intro: range_lb_mono)

lemma rc_bit_at2_ok:
  assumes "rc_at p a d rc" "a \<le> 21" "d \<le> 26" "tab_ok n m t" "i < n" "j < m"
  obtains b t' rc' where "rc_bit_at2 rc t i j = Some (b, t', rc')" "tab_ok n m t'" "rc_at p (Suc a) d rc'" "rc_same rc rc'"
proof -
  note i = tab_ok_nth [OF assms(4,5)]
  obtain b r rc' where r: "rc_bit_at rc (t ! i) j = Some (b, r, rc')" "probs_ok m r" "rc_at p (Suc a) d rc'" "rc_same rc rc'"
    using rc_bit_at_ok [OF assms(1-3)] i assms(6) by blast
  then show ?thesis using that [of b "t[i := r]" rc'] i tab_ok_update [OF assms(4)] by (simp add: rc_bit_at2_def)
qed

lemma rc_bittree_at_ok:
  assumes "rc_at p a d rc" "a + m \<le> 22" "d \<le> 26" "tab_ok n k t" "i < n" "2 ^ m \<le> k" "0 < m" "m < 30" "unat limit = 2 ^ m"
  obtains s t' rc' where "rc_bittree_at rc t i limit = Some (s, t', rc')" "tab_ok n k t'"
    "rc_at p (a + m) d rc'" "rc_same rc rc'" "2 ^ m \<le> unat s" "unat s < 2 ^ Suc m"
proof -
  note i = tab_ok_nth [OF assms(4,5)]
  obtain s r rc' where r: "rc_bittree rc (t ! i) limit = Some (s, r, rc')" "probs_ok k r" "rc_at p (a + m) d rc'" "rc_same rc rc'"
    "2 ^ m \<le> unat s" "unat s < 2 ^ Suc m"
    using rc_bittree_ok [OF assms(1-3) _ assms(6-9)] i by blast
  then show ?thesis using that [of s "t[i := r]" rc'] i tab_ok_update [OF assms(4)] by (simp add: rc_bittree_at_def)
qed

section \<open>Literals stay in bounds\<close>

lemma state_num_less [simp]: "state_num s < 12"
  by (cases s) simp_all

lemma literal_index:
  fixes lcb mask prev x :: u32
  assumes "unat lcb \<le> 4" "unat mask < 2 ^ (4 - unat lcb)" "unat prev < 256"
  shows "unat (drop_bit (unat (8 - lcb)) prev + push_bit (unat lcb) (x AND mask)) < 16"
proof -
  define n where "n = unat lcb"
  have n: "n \<le> 4" and l: "lcb = of_nat n" using assms(1) by (simp_all add: n_def)
  have "unat (8 - lcb) = 8 - n" using n by (subst unat_sub) (simp_all add: word_le_nat_alt n_def)
  then have "unat (drop_bit (unat (8 - lcb)) prev) = unat prev div 2 ^ (8 - n)"
    by (simp only: unat_drop_bit_eq) (simp add: drop_bit_eq_div)
  moreover have "unat prev div 2 ^ (8 - n) < 2 ^ n"
  proof -
    have "(256::nat) = 2 ^ n * 2 ^ (8 - n)" using n by (simp flip: power_add)
    then show ?thesis using assms(3) by (simp add: less_mult_imp_div_less)
  qed
  ultimately have lo: "unat (drop_bit (unat (8 - lcb)) prev) < 2 ^ n" by simp
  have am: "unat (x AND mask) < 2 ^ (4 - n)"
    using assms(2) word_and_le1 [of x mask] by (simp add: n_def word_le_nat_alt)
  then have "unat (x AND mask) * 2 ^ n + 2 ^ n \<le> 2 ^ (4 - n) * 2 ^ n"
    by (metis Suc_leI add.commute mult_Suc mult_le_mono1)
  also have "(2::nat) ^ (4 - n) * 2 ^ n = 16" using n by (simp flip: power_add)
  finally have hi: "unat (x AND mask) * 2 ^ n + 2 ^ n \<le> 16" .
  have "unat (push_bit n (x AND mask)) = unat (x AND mask) * 2 ^ n"
    using hi by (simp only: unsigned_push_bit_eq) (simp add: push_bit_eq_mult take_bit_nat_eq_self)
  then show ?thesis using lo hi by (simp add: n_def unat_word_ariths)
qed

lemma offset_cases:
  fixes m x :: u32
  assumes "x = 0 \<or> x = 0x100"
  shows "(m AND x = 0 \<or> m AND x = x)"
proof (cases "x = 0")
  case False
  then have x: "x = 0x100" using assms by simp
  show ?thesis
  proof (cases "bit m 8")
    case True
    then have "m AND x = x" unfolding x word32_eq_iff all_less_32 by (simp add: bit_simps)
    then show ?thesis by simp
  next
    case False
    then have "m AND x = 0" unfolding x word32_eq_iff all_less_32 by (simp add: bit_simps)
    then show ?thesis by simp
  qed
qed simp

lemma literal_loop_ok:
  assumes "rc_at p a d rc" "a + (8 - j) \<le> 22" "d \<le> 26" "probs_ok 0x300 ps" "j < 8"
    and "2 ^ j \<le> unat s" "unat s < 2 ^ Suc j" "offset = 0 \<or> offset = 0x100"
  shows "\<exists>t ps' rc'. literal_loop rc ps s mb offset = Some (t, ps', rc') \<and> probs_ok 0x300 ps' \<and>
    rc_at p (a + (8 - j)) d rc' \<and> rc_same rc rc'"
  using assms
proof (induction "8 - j" arbitrary: a rc ps j s mb offset)
  case (Suc k)
  define mbit where "mbit = mb AND offset"
  have mbit: "mbit = 0 \<or> mbit = offset" using offset_cases [OF Suc.prems(8)] by (simp add: mbit_def)
  have "(2::nat) ^ Suc j \<le> 2 ^ 8" using Suc.prems(5) by (intro power_increasing) simp_all
  then have s: "unat s < 256" using Suc.prems(7) by simp
  have i: "unat (offset + mbit + s) < 0x300"
    using Suc.prems(8) mbit s by (auto simp: unat_word_ariths)
  have "a \<le> 21" using Suc.prems(2,5) by simp
  then obtain b ps1 rc1 where r: "rc_bit_at rc ps (unat (offset + mbit + s)) = Some (b, ps1, rc1)" "probs_ok 0x300 ps1"
    "rc_at p (Suc a) d rc1" "rc_same rc rc1"
    using rc_bit_at_ok [OF Suc.prems(1) _ Suc.prems(3,4) i] by blast
  define t where "t = (if b then push_bit 1 s + 1 else push_bit 1 s)"
  define o' where "o' = (if b then offset AND mbit else offset AND NOT mbit)"
  have t: "2 ^ Suc j \<le> unat t" "unat t < 2 ^ Suc (Suc j)"
    using unat_symbol [OF Suc.prems(6,7), of b] Suc.prems(5) by (auto simp: t_def)
  have o': "o' = 0 \<or> o' = 0x100" using mbit Suc.prems(8) by (auto simp: o'_def)
  have step: "literal_loop rc ps s mb offset =
      (if t < 0x100 then literal_loop rc1 ps1 t (push_bit 1 mb) o' else Some (t, ps1, rc1))"
    by (subst literal_loop.simps)
      (simp only: mbit_def [symmetric] r(1) Option.bind.simps prod.case Let_def t_def o'_def)
  show ?case
  proof (cases "j = 7")
    case True
    then have "\<not> t < 0x100" using t by (simp add: word_less_nat_alt)
    then show ?thesis using step r True by simp
  next
    case False
    then have j: "Suc j < 8" using Suc.prems(5) by simp
    then have "(2::nat) ^ Suc (Suc j) \<le> 2 ^ 8" by (intro power_increasing) simp_all
    then have lt: "t < 0x100" using t(2) by (simp add: word_less_nat_alt)
    have eq: "Suc a + (8 - Suc j) = a + (8 - j)" using j by simp
    have "\<exists>t' ps' rc'. literal_loop rc1 ps1 t (push_bit 1 mb) o' = Some (t', ps', rc') \<and> probs_ok 0x300 ps' \<and>
      rc_at p (Suc a + (8 - Suc j)) d rc' \<and> rc_same rc1 rc'"
      using Suc.hyps(2) Suc.prems j r t o' by (intro Suc.hyps(1)) auto
    then show ?thesis unfolding eq using step lt rc_same_trans [OF r(4)] by (metis (no_types, lifting))
  qed
qed simp

section \<open>Symbols within the input budget\<close>

text \<open>After a match the latest distance lies in the dictionary.\<close>

definition core_ok :: "lzma_core \<Rightarrow> u8 list \<Rightarrow> bool" where
  "core_ok s out \<longleftrightarrow> dict_rep (s_dict s) out \<and> d_limit (s_dict s) \<le> d_end (s_dict s) \<and>
    tables_ok (s_lzma s) \<and> params_ok (s_lzma s) \<and>
    (\<not> lzma_state_is_literal (lz_state (s_lzma s)) \<longrightarrow> unat (rep0 (s_lzma s)) < d_full (s_dict s))"

lemma unat_ucast8: "unat (ucast (x::u8) :: u32) < 256"
proof -
  have x: "unat x < 256" by (rule order_less_le_trans [OF unsigned_less]) simp
  then show ?thesis by (simp add: unsigned_ucast_eq take_bit_nat_eq_self)
qed

lemma lzma_literal_probs_ok:
  assumes "dict_rep (s_dict s) out" "d_pos (s_dict s) < d_end (s_dict s)" "params_ok (s_lzma s)"
  obtains i where "lzma_literal_probs s = Some i" "i < 16"
proof -
  have "unat (0::u32) < d_full (s_dict s) \<or> d_full (s_dict s) = 0" by auto
  then obtain v :: u32 where v: "dict_get (s_dict s) 0 = Some v" "unat v < 256"
    using dict_get_ok [OF assms(1,2), of 0]
    by (auto intro: unat_ucast8 split: if_splits)
  let ?i = "unat (drop_bit (unat (8 - lc (s_lzma s))) v + push_bit (unat (lc (s_lzma s)))
    (of_nat (d_pos (s_dict s)) AND literal_pos_mask (s_lzma s)))"
  have "?i < 16" using literal_index [of "lc (s_lzma s)"] assms(3) v(2) by (simp add: params_ok_def)
  then show ?thesis using that [of ?i] v(1) by (simp add: lzma_literal_probs_def)
qed

lemma lzma_literal_ok:
  assumes core: "core_ok s out" and pos: "d_pos (s_dict s) < d_limit (s_dict s)"
    and rc: "rc_at p a d (s_rc s)" "a + 8 \<le> 22" "d \<le> 26"
  obtains s' x where "lzma_literal s = Some s'" "core_ok s' (out @ [x])" "rc_at p (a + 8) d (s_rc s')"
    "rc_same (s_rc s) (s_rc s')" "dict_same (s_dict s) (s_dict s')" "d_limit (s_dict s') = d_limit (s_dict s)"
    "d_start (s_dict s') = d_start (s_dict s)" "d_pos (s_dict s') = d_pos (s_dict s) + 1"
    "lz_len (s_lzma s') = lz_len (s_lzma s)"
proof -
  have rep: "dict_rep (s_dict s) out" and lt: "d_pos (s_dict s) < d_end (s_dict s)" using core pos by (auto simp: core_ok_def)
  obtain i where i: "lzma_literal_probs s = Some i" "i < 16"
    using lzma_literal_probs_ok [OF rep lt] core by (auto simp: core_ok_def)
  have lit: "i < length (literal (s_lzma s))" "probs_ok 0x300 (literal (s_lzma s) ! i)"
    using tab_ok_nth [OF _ i(2)] core by (auto simp: core_ok_def tables_ok_def)
  let ?probs = "literal (s_lzma s) ! i"
  let ?dec = "if lzma_state_is_literal (lz_state (s_lzma s)) then rc_bittree (s_rc s) ?probs 0x100
    else do { b \<leftarrow> dict_get (s_dict s) (rep0 (s_lzma s)); literal_loop (s_rc s) ?probs 1 (push_bit 1 b) 0x100 }"
  obtain t ps rc' where t: "?dec = Some (t, ps, rc')" "probs_ok 0x300 ps" "rc_at p (a + 8) d rc'" "rc_same (s_rc s) rc'"
  proof (cases "lzma_state_is_literal (lz_state (s_lzma s))")
    case True
    obtain t ps rc' where "rc_bittree (s_rc s) ?probs 0x100 = Some (t, ps, rc')" "probs_ok 0x300 ps"
      "rc_at p (a + 8) d rc'" "rc_same (s_rc s) rc'"
      by (rule rc_bittree_ok [OF rc lit(2), where limit = "0x100"]) simp_all
    then show ?thesis using that True by simp
  next
    case False
    then have "unat (rep0 (s_lzma s)) < d_full (s_dict s)" using core by (simp add: core_ok_def)
    then obtain b where b: "dict_get (s_dict s) (rep0 (s_lzma s)) = Some b" using dict_get_ok [OF rep lt] by blast
    have "\<exists>t ps' rc'. literal_loop (s_rc s) ?probs 1 (push_bit 1 b) 0x100 = Some (t, ps', rc') \<and> probs_ok 0x300 ps' \<and>
      rc_at p (a + (8 - 0)) d rc' \<and> rc_same (s_rc s) rc'"
      using rc lit(2) by (intro literal_loop_ok) simp_all
    then show ?thesis using that False b by auto
  qed
  note put = dict_put_ok [OF rep lt, of "ucast t"]
  let ?d = "(s_dict s)\<lparr>d_buf := (d_buf (s_dict s))[d_pos (s_dict s) := ucast t], d_pos := d_pos (s_dict s) + 1,
    d_full := max (d_full (s_dict s)) (d_pos (s_dict s) + 1)\<rparr>"
  let ?z = "(s_lzma s)\<lparr>literal := (literal (s_lzma s))[i := ps], lz_state := lzma_state_literal (lz_state (s_lzma s))\<rparr>"
  have "lzma_literal s = Some (s\<lparr>s_rc := rc', s_dict := ?d, s_lzma := ?z\<rparr>)"
    unfolding lzma_literal_def i(1) Option.bind.simps fetch_ok [OF lit(1)] t(1) prod.case store_ok [OF lit(1)] put(1) ..
  moreover have "core_ok (s\<lparr>s_rc := rc', s_dict := ?d, s_lzma := ?z\<rparr>) (out @ [ucast t])"
  proof -
    have "\<not> lzma_state_is_literal (lzma_state_literal (lz_state (s_lzma s))) \<Longrightarrow> \<not> lzma_state_is_literal (lz_state (s_lzma s))"
      by (cases "lz_state (s_lzma s)")
        (simp_all add: lzma_state_literal_def lzma_state_is_literal_def lzma_states_def LIT_STATES_def)
    then show ?thesis using core put(2) tab_ok_update [OF _ t(2)]
      by (auto simp: core_ok_def tables_ok_def params_ok_def)
  qed
  ultimately show ?thesis using that t by (auto simp: dict_same_def)
qed

text \<open>A length takes at most ten bits.\<close>

lemma unat_sub_limit: "2 ^ m \<le> unat t \<Longrightarrow> unat t < 2 ^ Suc m \<Longrightarrow> unat limit = 2 ^ m \<Longrightarrow> unat (t - limit :: u32) < 2 ^ m"
  by (subst unat_sub) (auto simp: word_le_nat_alt)

lemma unat_len_sum:
  fixes c t limit :: u32
  assumes "2 ^ m \<le> unat t" "unat t < 2 ^ Suc m" "unat limit = 2 ^ m" "m \<le> 8" "unat c \<le> 18"
  shows "unat c \<le> unat (c + (t - limit))" "unat (c + (t - limit)) < unat c + 2 ^ m"
proof -
  have lt: "unat (t - limit) < 2 ^ m" using unat_sub_limit [OF assms(1-3)] .
  have "(2::nat) ^ m \<le> 2 ^ 8" using assms(4) by (intro power_increasing) simp_all
  then have "unat (c + (t - limit)) = unat c + unat (t - limit)" using lt assms(5) by (simp only: unat_word_ariths) simp
  then show "unat c \<le> unat (c + (t - limit))" "unat (c + (t - limit)) < unat c + 2 ^ m" using lt by simp_all
qed

lemma lzma_len_ok:
  assumes rc: "rc_at p a d rc" "a + 10 \<le> 22" "d \<le> 26" and l: "len_dec_ok l" and ps: "ps < 16"
  obtains len l' rc' where "lzma_len rc l ps = Some (len, l', rc')" "len_dec_ok l'" "rc_at p (a + 10) d rc'" "rc_same rc rc'"
    "2 \<le> unat len" "unat len \<le> 273"
proof -
  have a: "a \<le> 21" "Suc a \<le> 21" "Suc a + 3 \<le> 22" "Suc (Suc a) + 3 \<le> 22" "Suc (Suc a) + 8 \<le> 22" using rc(2) by simp_all
  have lo: "prob_ok (choice l)" "prob_ok (choice2 l)" "tab_ok 16 8 (low l)" "tab_ok 16 8 (mid l)" "probs_ok 256 (high l)"
    using l by (simp_all add: len_dec_ok_def)
  obtain b c rc1 where r1: "rc_bit rc (choice l) = Some (b, c, rc1)" "prob_ok c" "rc_at p (Suc a) d rc1" "rc_same rc rc1"
    using rc_bit_ok [OF rc(1) a(1) rc(3) lo(1)] by blast
  show ?thesis
  proof (cases b)
    case False
    obtain t tb rc2 where r2: "rc_bittree_at rc1 (low l) ps 8 = Some (t, tb, rc2)" "tab_ok 16 8 tb"
      "rc_at p (Suc a + 3) d rc2" "rc_same rc1 rc2" "2 ^ 3 \<le> unat t" "unat t < 2 ^ Suc 3"
      by (rule rc_bittree_at_ok [OF r1(3) a(3) rc(3) lo(3) ps, where limit = 8]) simp_all
    have "2 \<le> unat (2 + (t - 8))" "unat (2 + (t - 8)) \<le> 273"
      using unat_len_sum [OF r2(5,6), of 8 2] by simp_all
    moreover have "lzma_len rc l ps = Some (2 + (t - 8), l\<lparr>choice := c, low := tb\<rparr>, rc2)"
      using False r1 r2 by (simp add: lzma_len_def)
    moreover have "rc_at p (a + 10) d rc2" using r2(3) by (rule rc_at_mono) simp_all
    ultimately show ?thesis
      using that [of "2 + (t - 8)"] l r1(2) r2(2) rc_same_trans [OF r1(4) r2(4)] by (simp add: len_dec_ok_def)
  next
    case b: True
    obtain b' c' rc2 where r2: "rc_bit rc1 (choice2 l) = Some (b', c', rc2)" "prob_ok c'" "rc_at p (Suc (Suc a)) d rc2" "rc_same rc1 rc2"
      using rc_bit_ok [OF r1(3) a(2) rc(3) lo(2)] by blast
    show ?thesis
    proof (cases b')
      case False
      obtain t tb rc3 where r3: "rc_bittree_at rc2 (mid l) ps 8 = Some (t, tb, rc3)" "tab_ok 16 8 tb"
        "rc_at p (Suc (Suc a) + 3) d rc3" "rc_same rc2 rc3" "2 ^ 3 \<le> unat t" "unat t < 2 ^ Suc 3"
        by (rule rc_bittree_at_ok [OF r2(3) a(4) rc(3) lo(4) ps, where limit = 8]) simp_all
    have "2 \<le> unat (10 + (t - 8))" "unat (10 + (t - 8)) \<le> 273"
      using unat_len_sum [OF r3(5,6), of 8 10] by simp_all
      moreover have "lzma_len rc l ps = Some (10 + (t - 8), l\<lparr>choice := c, choice2 := c', mid := tb\<rparr>, rc3)"
        using b False r1 r2 r3 by (simp add: lzma_len_def)
      moreover have "rc_at p (a + 10) d rc3" using r3(3) by (rule rc_at_mono) simp_all
      ultimately show ?thesis
        using that [of "10 + (t - 8)"] l r1(2) r2(2) r3(2) rc_same_trans [OF rc_same_trans [OF r1(4) r2(4)] r3(4)]
        by (simp add: len_dec_ok_def)
    next
      case True
      obtain t tb rc3 where r3: "rc_bittree rc2 (high l) 256 = Some (t, tb, rc3)" "probs_ok 256 tb"
        "rc_at p (Suc (Suc a) + 8) d rc3" "rc_same rc2 rc3" "2 ^ 8 \<le> unat t" "unat t < 2 ^ Suc 8"
        by (rule rc_bittree_ok [OF r2(3) a(5) rc(3) lo(5), where limit = 256]) simp_all
    have "2 \<le> unat (18 + (t - 256))" "unat (18 + (t - 256)) \<le> 273"
      using unat_len_sum [OF r3(5,6), of 256 18] by simp_all
      moreover have "lzma_len rc l ps = Some (18 + (t - 256), l\<lparr>choice := c, choice2 := c', high := tb\<rparr>, rc3)"
        using b True r1 r2 r3 by (simp add: lzma_len_def)
      moreover have "rc_at p (a + 10) d rc3" using r3(3) by (rule rc_at_mono) simp_all
      ultimately show ?thesis
        using that [of "18 + (t - 256)"] l r1(2) r2(2) r3(2) rc_same_trans [OF rc_same_trans [OF r1(4) r2(4)] r3(4)]
        by (simp add: len_dec_ok_def)
    qed
  qed
qed

lemma special_slot:
  fixes slot :: u32
  assumes "4 \<le> slot" "slot < 14"
  defines "limit \<equiv> drop_bit 1 slot - 1"
  defines "base \<equiv> int (unat (push_bit (unat limit) (2 + (slot AND 1)))) - int (unat slot) - 1"
  shows "0 < unat limit" "unat limit \<le> 5" "0 \<le> base + 1" "base + 2 ^ unat limit \<le> 114"
proof -
  have n: "4 \<le> unat slot" "unat slot < 14" using assms(1,2) by (simp_all add: word_le_nat_alt word_less_nat_alt)
  then have "unat slot \<in> {4..<14}" by simp
  also have "{4..<14} = {4, 5, 6, 7, 8, 9, 10, 11, 12, 13::nat}" by (auto simp flip: set_upt)
  finally have "unat slot \<in> {4, 5, 6, 7, 8, 9, 10, 11, 12, 13}" .
  then have "slot \<in> {4, 5, 6, 7, 8, 9, 10, 11, 12, 13}" by (auto simp: word_unat_eq_iff)
  then show "0 < unat limit" "unat limit \<le> 5" "0 \<le> base + 1" "base + 2 ^ unat limit \<le> 114"
    by (auto simp: limit_def base_def)
qed

lemma direct_slot:
  fixes slot :: u32
  assumes "14 \<le> slot" "unat slot < 64"
  shows "\<exists>m. unat (drop_bit 1 slot - 1 - 4) = Suc m \<and> m \<le> 25"
proof -
  have n: "14 \<le> unat slot" using assms(1) by (simp add: word_le_nat_alt)
  have d: "unat (drop_bit 1 slot) = unat slot div 2" by (simp only: unat_drop_bit_eq) (simp add: drop_bit_eq_div)
  have "unat (drop_bit 1 slot - 5) = unat slot div 2 - 5" using n d by (subst unat_sub) (simp_all add: word_le_nat_alt)
  then show ?thesis using n assms(2) by (intro exI [of _ "unat slot div 2 - 6"]) auto
qed

lemma dist_state_less: "2 \<le> unat len \<Longrightarrow> unat (lzma_get_dist_state len) < 4"
  by (auto simp: lzma_get_dist_state_def word_less_nat_alt unat_sub word_le_nat_alt)

text \<open>A bit with a probability narrows the range by no more than seven direct bits do.\<close>

lemma range_lb_trade:
  assumes "range_lb c (Suc a) d r"
  shows "range_lb c a (d + 7) r"
proof -
  let ?L = "253952 * 256 ^ c * (31 * 8191) ^ a * (2 ^ 24 - 1) ^ d :: nat" and ?R = "r * (2 ^ 24) ^ a * (2 ^ 25) ^ d :: nat"
  have "?L * (31 * 8191) \<le> ?R * 2 ^ 24" using assms by (simp only: range_lb_def power_Suc ac_simps)
  then have "?L * (31 * 8191) * (2 ^ 25) ^ 7 \<le> ?R * 2 ^ 24 * (2 ^ 25) ^ 7" by (rule mult_le_mono1)
  moreover have "?L * ((2 ^ 24 - 1) ^ 7 * 2 ^ 24) \<le> ?L * ((31 * 8191) * (2 ^ 25) ^ 7)" by (rule mult_le_mono2) simp
  ultimately have "2 ^ 24 * (?L * (2 ^ 24 - 1) ^ 7) \<le> 2 ^ 24 * (?R * (2 ^ 25) ^ 7)" by (simp only: ac_simps)
  then have "?L * (2 ^ 24 - 1) ^ 7 \<le> ?R * (2 ^ 25) ^ 7" by (subst (asm) mult_le_cancel1) simp
  then show ?thesis by (simp only: range_lb_def power_add ac_simps)
qed

lemma rc_at_trade: "rc_at p (Suc a) d rc \<Longrightarrow> rc_at p a (d + 7) rc"
  by (auto simp: rc_at_def intro: range_lb_trade)

definition match_ok :: "lzma_core \<Rightarrow> lzma_core \<Rightarrow> nat \<Rightarrow> bool" where
  "match_ok s s' p \<longleftrightarrow> s_dict s' = s_dict s \<and> tables_ok (s_lzma s') \<and> params_ok (s_lzma s') \<and> rc_same (s_rc s) (s_rc s') \<and>
    rc_at p 22 26 (s_rc s') \<and> 0 < lz_len (s_lzma s')"

lemma lzma_match_ok:
  assumes t: "tables_ok (s_lzma s)" "params_ok (s_lzma s)" and rc: "rc_at p 2 0 (s_rc s)" and ps: "ps < 16"
  obtains s' where "lzma_match s ps = Some s'" "match_ok s s' p"
proof -
  let ?z = "s_lzma s"
  have tb: "len_dec_ok (match_len_dec ?z)" "tab_ok 4 64 (dist_slot ?z)" using t by (simp_all add: tables_ok_def)
  obtain len l rc1 where r1: "lzma_len (s_rc s) (match_len_dec ?z) ps = Some (len, l, rc1)" "len_dec_ok l"
    "rc_at p 12 0 rc1" "rc_same (s_rc s) rc1" "2 \<le> unat len"
    by (rule lzma_len_ok [OF rc _ _ tb(1) ps]) simp_all
  obtain x tb' rc2 where r2: "rc_bittree_at rc1 (dist_slot ?z) (unat (lzma_get_dist_state len)) 64 = Some (x, tb', rc2)"
    "tab_ok 4 64 tb'" "rc_at p 18 0 rc2" "rc_same rc1 rc2" "2 ^ 6 \<le> unat x" "unat x < 2 ^ Suc 6"
    by (rule rc_bittree_at_ok [OF r1(3) _ _ tb(2) dist_state_less [OF r1(5)], where m = 6 and limit = 64]) simp_all
  define slot where "slot = x - 64"
  have slot: "unat slot < 64" using unat_sub_limit [OF r2(5,6), of 64] by (simp add: slot_def)
  define z where "z = ?z\<lparr>lz_state := lzma_state_match (lz_state ?z), rep3 := rep2 ?z, rep2 := rep1 ?z, rep1 := rep0 ?z,
    lz_len := len, match_len_dec := l, dist_slot := tb'\<rparr>"
  have z: "tables_ok z" "params_ok z" "0 < lz_len z" using t r1(2,5) r2(2)
    by (auto simp: z_def tables_ok_def params_ok_def word_less_nat_alt)
  note same = rc_same_trans [OF r1(4) r2(4)]
  let ?limit = "drop_bit 1 slot - 1" and ?dist = "2 + (slot AND 1)"
  consider (short) "slot < 4" | (special) "4 \<le> slot" "slot < 14" | (direct) "14 \<le> slot" by force
  then show ?thesis
  proof cases
    case short
    then have "lzma_match s ps = Some (s\<lparr>s_rc := rc2, s_lzma := z\<lparr>rep0 := slot\<rparr>\<rparr>)"
      using r1(1) r2(1) by (simp add: lzma_match_def z_def slot_def [symmetric] Let_def)
    moreover have "match_ok s (s\<lparr>s_rc := rc2, s_lzma := z\<lparr>rep0 := slot\<rparr>\<rparr>) p"
      using z same rc_at_mono [OF r2(3)] by (simp add: match_ok_def tables_ok_def params_ok_def)
    ultimately show ?thesis using that by blast
  next
    case special
    note sp = special_slot [OF special]
    let ?d = "push_bit (unat ?limit) ?dist"
    have ds: "probs_ok 114 (dist_special ?z)" using t by (simp add: tables_ok_def)
    have at: "rc_at p 17 7 rc2" using rc_at_trade [of p 17 0 rc2] r2(3) by simp
    obtain e pb' rc3 where r3: "rc_bittree_reverse rc2 (dist_special ?z) (int (unat ?d) - int (unat slot) - 1) ?d ?limit = Some (e, pb', rc3)"
      "probs_ok 114 pb'" "rc_at p (17 + unat ?limit) 7 rc3" "rc_same rc2 rc3"
    proof (rule rc_bittree_reverse_ok [OF at _ _ ds, where m = "unat ?limit" and limit = ?limit and dest = ?d and base = "int (unat ?d) - int (unat slot) - 1"])
      show "int (unat ?d) - int (unat slot) - 1 + 2 ^ unat ?limit \<le> int 114" using sp(4) by simp
    qed (use sp in simp_all)
    have "lzma_match s ps = Some (s\<lparr>s_rc := rc3, s_lzma := z\<lparr>rep0 := e, dist_special := pb'\<rparr>\<rparr>)"
      using special r1(1) r2(1) r3(1) by (simp add: lzma_match_def z_def slot_def [symmetric] Let_def)
    moreover have "match_ok s (s\<lparr>s_rc := rc3, s_lzma := z\<lparr>rep0 := e, dist_special := pb'\<rparr>\<rparr>) p"
      using z rc_same_trans [OF same r3(4)] r3(2) rc_at_mono [OF r3(3)] sp(2) by (simp add: match_ok_def tables_ok_def params_ok_def)
    ultimately show ?thesis using that by blast
  next
    case direct
    have nlt: "\<not> slot < 4" "\<not> slot < 14" using direct by (auto simp: word_less_nat_alt word_le_nat_alt)
    obtain m where m: "unat (?limit - 4) = Suc m" "m \<le> 25" using direct_slot [OF direct slot] by auto
    obtain e rc3 where r3: "rc_direct rc2 ?dist (?limit - 4) = Some (e, rc3)" "rc_at p 18 (Suc m) rc3" "rc_same rc2 rc3"
      using rc_direct_ok [OF r2(3) _ _ m(1)] m(2) by fastforce
    have da: "probs_ok 16 (dist_align ?z)" using t by (simp add: tables_ok_def)
    obtain f pb' rc4 where r4: "rc_bittree_reverse rc3 (dist_align ?z) 0 (push_bit 4 e) 4 = Some (f, pb', rc4)"
      "probs_ok 16 pb'" "rc_at p (18 + 4) (Suc m) rc4" "rc_same rc3 rc4"
      by (rule rc_bittree_reverse_ok [OF r3(2) _ _ da, where m = 4 and limit = 4 and base = 0]) (use m(2) in simp_all)
    have "lzma_match s ps = Some (s\<lparr>s_rc := rc4, s_lzma := z\<lparr>rep0 := f, dist_align := pb'\<rparr>\<rparr>)"
      using nlt r1(1) r2(1) r3(1) r4(1) by (simp add: lzma_match_def z_def slot_def [symmetric] Let_def)
    moreover have "match_ok s (s\<lparr>s_rc := rc4, s_lzma := z\<lparr>rep0 := f, dist_align := pb'\<rparr>\<rparr>) p"
      using z rc_same_trans [OF rc_same_trans [OF same r3(3)] r4(4)] r4(2) rc_at_mono [OF r4(3)] m(2)
      by (simp add: match_ok_def tables_ok_def params_ok_def)
    ultimately show ?thesis using that by blast
  qed
qed

lemma rep_match_select_ok:
  assumes t: "tables_ok z" "params_ok z" and rc: "rc_at p 2 0 rc" and ps: "ps < 16"
  shows "\<exists>short z' rc'. rep_match_select z rc ps = Some (short, z', rc') \<and> tables_ok z' \<and> params_ok z' \<and>
    rc_at p 5 0 rc' \<and> rc_same rc rc'"
proof -
  let ?st = "state_num (lz_state z)"
  have tb: "probs_ok 12 (is_rep0 z)" "tab_ok 12 16 (is_rep0_long z)" "probs_ok 12 (is_rep1 z)" "probs_ok 12 (is_rep2 z)"
    using t by (simp_all add: tables_ok_def)
  obtain b0 p0 rc0 where r0: "rc_bit_at rc (is_rep0 z) ?st = Some (b0, p0, rc0)" "probs_ok 12 p0" "rc_at p 3 0 rc0" "rc_same rc rc0"
    by (rule rc_bit_at_ok [OF rc _ _ tb(1) state_num_less]) simp_all
  show ?thesis
  proof (cases b0)
    case False
    obtain b q rc1 where r: "rc_bit_at2 rc0 (is_rep0_long z) ?st ps = Some (b, q, rc1)" "tab_ok 12 16 q" "rc_at p 4 0 rc1" "rc_same rc0 rc1"
      by (rule rc_bit_at2_ok [OF r0(3) _ _ tb(2) state_num_less ps]) simp_all
    then show ?thesis using False t r0 rc_at_mono [OF r(3), of 5 0] rc_same_trans [OF r0(4) r(4)]
      by (simp add: rep_match_select_def tables_ok_def params_ok_def)
  next
    case True
    obtain b q rc1 where r: "rc_bit_at rc0 (is_rep1 z) ?st = Some (b, q, rc1)" "probs_ok 12 q" "rc_at p 4 0 rc1" "rc_same rc0 rc1"
      by (rule rc_bit_at_ok [OF r0(3) _ _ tb(3) state_num_less]) simp_all
    obtain b' q' rc2 where r': "rc_bit_at rc1 (is_rep2 z) ?st = Some (b', q', rc2)" "probs_ok 12 q'" "rc_at p 5 0 rc2" "rc_same rc1 rc2"
      by (rule rc_bit_at_ok [OF r(3) _ _ tb(4) state_num_less]) simp_all
    note same = rc_same_trans [OF r0(4) r(4)]
    show ?thesis using True t r0 r r' rc_at_mono [OF r(3), of 5 0] same rc_same_trans [OF same r'(4)]
      by (cases b; cases b') (auto simp: rep_match_select_def Let_def tables_ok_def params_ok_def)
  qed
qed

lemma lzma_rep_match_ok:
  assumes t: "tables_ok (s_lzma s)" "params_ok (s_lzma s)" and rc: "rc_at p 2 0 (s_rc s)" and ps: "ps < 16"
  obtains s' where "lzma_rep_match s ps = Some s'" "match_ok s s' p"
proof -
  obtain short z rc1 where r1: "rep_match_select (s_lzma s) (s_rc s) ps = Some (short, z, rc1)" "tables_ok z" "params_ok z"
    "rc_at p 5 0 rc1" "rc_same (s_rc s) rc1" using rep_match_select_ok [OF assms] by blast
  show ?thesis
  proof (cases short)
    case True
    have "lzma_rep_match s ps = Some (s\<lparr>s_rc := rc1, s_lzma := z\<lparr>lz_state := lzma_state_short_rep (lz_state z), lz_len := 1\<rparr>\<rparr>)"
      using True r1(1) by (simp add: lzma_rep_match_def)
    then show ?thesis using that r1 rc_at_mono [OF r1(4), of 22 26]
      by (simp add: match_ok_def tables_ok_def params_ok_def)
  next
    case False
    have lo: "len_dec_ok (rep_len_dec z)" using r1(2) by (simp add: tables_ok_def)
    obtain len l rc2 where r2: "lzma_len rc1 (rep_len_dec z) ps = Some (len, l, rc2)"
      "len_dec_ok l" "rc_at p 15 0 rc2" "rc_same rc1 rc2" "2 \<le> unat len"
      by (rule lzma_len_ok [OF r1(4) _ _ lo ps]) simp_all
    have "lzma_rep_match s ps = Some (s\<lparr>s_rc := rc2, s_lzma := z\<lparr>lz_state := lzma_state_long_rep (lz_state z), lz_len := len, rep_len_dec := l\<rparr>\<rparr>)"
      using False r1(1) r2(1) by (simp add: lzma_rep_match_def)
    then show ?thesis using that r1 r2 rc_same_trans [OF r1(5) r2(4)] rc_at_mono [OF r2(3), of 22 26]
      by (auto simp: match_ok_def tables_ok_def params_ok_def word_less_nat_alt)
  qed
qed

text \<open>What one symbol, and the loop, keep: with 21 bytes of input behind \<open>p\<close>, at most 20 are used.\<close>

definition core_same :: "lzma_core \<Rightarrow> lzma_core \<Rightarrow> bool" where
  "core_same s s' \<longleftrightarrow> rc_same (s_rc s) (s_rc s') \<and> dict_same (s_dict s) (s_dict s') \<and>
    d_limit (s_dict s') = d_limit (s_dict s) \<and> d_start (s_dict s') = d_start (s_dict s)"

definition core_step :: "lzma_core \<Rightarrow> u8 list \<Rightarrow> lzma_core \<Rightarrow> u8 list \<Rightarrow> bool" where
  "core_step s out s' xs \<longleftrightarrow> core_ok s' (out @ xs) \<and> core_same s s' \<and>
    d_pos (s_dict s') = d_pos (s_dict s) + length xs \<and> d_pos (s_dict s') \<le> d_limit (s_dict s')"

lemma core_same_refl [simp]: "core_same s s"
  by (simp add: core_same_def)

lemma core_same_trans: "core_same s s' \<Longrightarrow> core_same s' s'' \<Longrightarrow> core_same s s''"
  by (auto simp: core_same_def intro: rc_same_trans dict_same_trans)

lemma core_step_trans: "core_step s out s' xs \<Longrightarrow> core_step s' (out @ xs) s'' ys \<Longrightarrow> core_step s out s'' (xs @ ys)"
  by (auto simp: core_step_def intro: core_same_trans)

lemma lz_copy_append: "\<exists>xs. lz_copy n dist out = out @ xs \<and> length xs = n"
proof (induction n dist out rule: lz_copy.induct)
  case (2 n dist out)
  then obtain xs where "lz_copy n dist (out @ [out ! (length out - 1 - dist)]) = (out @ [out ! (length out - 1 - dist)]) @ xs" "length xs = n"
    by blast
  then show ?case by (intro exI [of _ "out ! (length out - 1 - dist) # xs"]) simp
qed simp

lemma lzma_repeat_ok:
  assumes rep: "dict_rep (s_dict s) out" "d_limit (s_dict s) \<le> d_end (s_dict s)" "d_pos (s_dict s) < d_limit (s_dict s)"
    and t: "tables_ok (s_lzma s)" "params_ok (s_lzma s)" and len: "0 < lz_len (s_lzma s)"
  obtains (bad) "lzma_repeat s = Some (False, s)" "d_full (s_dict s) \<le> unat (rep0 (s_lzma s))"
  | (ok) s' xs where "lzma_repeat s = Some (True, s')" "core_step s out s' xs" "xs \<noteq> []" "s_rc s' = s_rc s"
      "unat (lz_len (s_lzma s')) < unat (lz_len (s_lzma s))"
proof (cases "unat (rep0 (s_lzma s)) < d_full (s_dict s)")
  case False
  then have "lzma_repeat s = Some (False, s)" using dict_repeat_bad [OF rep(1)] by (simp add: lzma_repeat_def)
  then show ?thesis using bad False by simp
next
  case True
  let ?d = "s_dict s" and ?z = "s_lzma s"
  define n where "n = min (d_limit ?d - d_pos ?d) (unat (lz_len ?z))"
  have n: "0 < n" "n \<le> unat (lz_len ?z)" "d_pos ?d + n \<le> d_limit ?d" using rep(3) len by (auto simp: n_def word_less_nat_alt)
  obtain buf where r: "dict_repeat ?d (lz_len ?z) (rep0 ?z) = Some (True, lz_len ?z - of_nat n,
      ?d\<lparr>d_buf := buf, d_pos := d_pos ?d + n, d_full := max (d_full ?d) (d_pos ?d + n)\<rparr>)" "length buf = length (d_buf ?d)"
    and rep': "dict_rep (?d\<lparr>d_buf := buf, d_pos := d_pos ?d + n, d_full := max (d_full ?d) (d_pos ?d + n)\<rparr>) (lz_copy n (unat (rep0 ?z)) out)"
    using dict_repeat_ok [OF rep(1,3,2) len True] unfolding n_def [symmetric] by blast
  obtain xs where xs: "lz_copy n (unat (rep0 ?z)) out = out @ xs" "length xs = n" using lz_copy_append by blast
  have "unat (lz_len ?z - of_nat n) < unat (lz_len ?z)"
    using n(1,2) unat_lt32 [of "lz_len ?z"] by (subst unat_sub) (simp_all add: word_le_nat_alt unat_of_nat32)
  then show ?thesis
    using ok [of "s\<lparr>s_dict := ?d\<lparr>d_buf := buf, d_pos := d_pos ?d + n, d_full := max (d_full ?d) (d_pos ?d + n)\<rparr>, s_lzma := ?z\<lparr>lz_len := lz_len ?z - of_nat n\<rparr>\<rparr>" xs]
      r rep' t True n rep(2) xs
    by (auto simp: lzma_repeat_def core_step_def core_ok_def core_same_def dict_same_def tables_ok_def params_ok_def less_max_iff_disj)
qed

lemma lzma_symbol_ok:
  assumes core: "core_ok s out" and pos: "d_pos (s_dict s) < d_limit (s_dict s)" and rc: "rc_at p 0 0 (s_rc s)"
  obtains (bad) s' where "lzma_symbol s = Some (False, s')" "core_same s s'" "rc_at p 22 26 (s_rc s')"
  | (ok) s' xs where "lzma_symbol s = Some (True, s')" "core_step s out s' xs" "xs \<noteq> []" "rc_at p 22 26 (s_rc s')"
proof -
  let ?z = "s_lzma s" and ?st = "state_num (lz_state (s_lzma s))"
  define ps where "ps = unat (of_nat (d_pos (s_dict s)) AND pos_mask ?z)"
  have ps: "ps < 16"
    using core word_and_le1 [of "of_nat (d_pos (s_dict s))" "pos_mask ?z"] by (simp add: core_ok_def params_ok_def ps_def word_le_nat_alt)
  have tb: "tab_ok 12 16 (is_match ?z)" "probs_ok 12 (is_rep ?z)" using core by (simp_all add: core_ok_def tables_ok_def)
  obtain b q rc1 where r1: "rc_bit_at2 (s_rc s) (is_match ?z) ?st ps = Some (b, q, rc1)" "tab_ok 12 16 q" "rc_at p 1 0 rc1" "rc_same (s_rc s) rc1"
    by (rule rc_bit_at2_ok [OF rc _ _ tb(1) state_num_less ps]) simp_all
  define s1 where "s1 = s\<lparr>s_rc := rc1, s_lzma := ?z\<lparr>is_match := q\<rparr>\<rparr>"
  have s1: "core_ok s1 out" "d_pos (s_dict s1) < d_limit (s_dict s1)" "s_rc s1 = rc1" "s_dict s1 = s_dict s" "core_same s s1"
    using core r1(2,4) pos by (simp_all add: s1_def core_ok_def tables_ok_def params_ok_def core_same_def)
  show ?thesis
  proof (cases b)
    case False
    obtain s' x where l: "lzma_literal s1 = Some s'" "core_ok s' (out @ [x])" "rc_at p (1 + 8) 0 (s_rc s')" "rc_same (s_rc s1) (s_rc s')"
      "dict_same (s_dict s1) (s_dict s')" "d_limit (s_dict s') = d_limit (s_dict s1)" "d_start (s_dict s') = d_start (s_dict s1)"
      "d_pos (s_dict s') = d_pos (s_dict s1) + 1"
      by (rule lzma_literal_ok [OF s1(1,2), of p 1 0]) (use r1(3) s1(3) in simp_all)
    have "lzma_symbol s = Some (True, s')" using False r1(1) l(1) by (simp add: lzma_symbol_def ps_def [symmetric] s1_def)
    moreover have "core_same s1 s'" using l by (simp add: core_same_def)
    then have "core_step s out s' [x]" using l s1(2,4) core_same_trans [OF s1(5)] by (simp add: core_step_def)
    ultimately show ?thesis using ok rc_at_mono [OF l(3), of 22 26] by simp
  next
    case b: True
    obtain b' q' rc2 where r2: "rc_bit_at rc1 (is_rep ?z) ?st = Some (b', q', rc2)" "probs_ok 12 q'" "rc_at p 2 0 rc2" "rc_same rc1 rc2"
      by (rule rc_bit_at_ok [OF r1(3) _ _ tb(2) state_num_less [of "lz_state ?z"]]) (simp_all add: numeral_2_eq_2)
    define s2 where "s2 = s1\<lparr>s_rc := rc2, s_lzma := (s_lzma s1)\<lparr>is_rep := q'\<rparr>\<rparr>"
    have s2: "tables_ok (s_lzma s2)" "params_ok (s_lzma s2)" "rc_at p 2 0 (s_rc s2)" "s_dict s2 = s_dict s" "rc_same (s_rc s) (s_rc s2)"
      using s1 r2 rc_same_trans [OF r1(4) r2(4)] by (simp_all add: s2_def core_ok_def tables_ok_def params_ok_def)
    obtain s3 where s3: "(if b' then lzma_rep_match s2 ps else lzma_match s2 ps) = Some s3" "match_ok s2 s3 p"
      by (cases b') (auto intro: lzma_match_ok [OF s2(1-3) ps] lzma_rep_match_ok [OF s2(1-3) ps])
    have "s\<lparr>s_rc := rc2, s_lzma := ?z\<lparr>is_match := q, is_rep := q'\<rparr>\<rparr> = s2" by (simp add: s1_def s2_def)
    then have eq: "lzma_symbol s = lzma_repeat s3"
      using b r1(1) r2(1) s3(1) by (cases b') (simp_all add: lzma_symbol_def ps_def [symmetric] Let_def)
    have m: "dict_rep (s_dict s3) out" "d_limit (s_dict s3) \<le> d_end (s_dict s3)" "d_pos (s_dict s3) < d_limit (s_dict s3)"
      "tables_ok (s_lzma s3)" "params_ok (s_lzma s3)" "0 < lz_len (s_lzma s3)" "rc_at p 22 26 (s_rc s3)" "core_same s s3" "s_dict s3 = s_dict s"
      using s3(2) s2(4) core pos rc_same_trans [OF s2(5)] by (auto simp: match_ok_def core_ok_def core_same_def)
    show ?thesis
    proof (cases rule: lzma_repeat_ok [OF m(1-6)])
      case 1
      then show ?thesis using bad eq m(7,8) by simp
    next
      case (2 s' xs)
      then have "core_step s out s' xs" using core_same_trans [OF m(8)] m(9) by (auto simp: core_step_def)
      then show ?thesis using ok eq 2 m(7) by simp
    qed
  qed
qed

section \<open>The symbol loop\<close>

text \<open>The range is large enough and 21 bytes follow the input limit.\<close>

definition rc_ready :: "rc_dec \<Rightarrow> bool" where
  "rc_ready rc \<longleftrightarrow> 253952 \<le> unat (rc_range rc) \<and> rc_in_limit rc + 21 \<le> length (rc_in rc) \<and> rc_in_pos rc \<le> rc_in_limit rc + 20"

lemma rc_ready_step:
  assumes "rc_ready rc" "rc_at (rc_in_pos rc) 22 26 rc'" "rc_same rc rc'" "\<not> rc_limit_exceeded rc"
  shows "rc_ready rc'"
  using assms rc_at_bound [OF assms(2)] by (auto simp: rc_ready_def rc_same_def rc_limit_exceeded_def)

lemma lzma_loop_ok:
  assumes "core_ok s out" "rc_ready (s_rc s)" "d_pos (s_dict s) \<le> d_limit (s_dict s)"
  shows "\<exists>ok s'. lzma_loop s = Some (ok, s') \<and> core_same s s' \<and> rc_ready (s_rc s') \<and>
    (ok \<longrightarrow> (\<exists>xs. core_step s out s' xs) \<and> (d_pos (s_dict s') = d_limit (s_dict s') \<or> rc_limit_exceeded (s_rc s')))"
  using assms
proof (induction "d_limit (s_dict s) - d_pos (s_dict s)" arbitrary: s out rule: less_induct)
  case less
  show ?case
  proof (cases "dict_has_space (s_dict s) \<and> \<not> rc_limit_exceeded (s_rc s)")
    case False
    then have "lzma_loop s = Some (True, s)" by (subst lzma_loop.simps) auto
    moreover have "core_step s out s []" using less.prems by (simp add: core_step_def)
    ultimately show ?thesis using False less.prems by (auto simp: dict_has_space_def intro!: exI [of _ "[]"])
  next
    case True
    then have pos: "d_pos (s_dict s) < d_limit (s_dict s)" and lim: "\<not> rc_limit_exceeded (s_rc s)" by (simp_all add: dict_has_space_def)
    have at: "rc_at (rc_in_pos (s_rc s)) 0 0 (s_rc s)"
      using less.prems(2) lim by (intro rc_at_start) (auto simp: rc_ready_def rc_limit_exceeded_def)
    show ?thesis
    proof (cases rule: lzma_symbol_ok [OF less.prems(1) pos at])
      case (1 s')
      then have "lzma_loop s = Some (False, s')" using True by (subst lzma_loop.simps) simp
      moreover have "rc_ready (s_rc s')" using rc_ready_step [OF less.prems(2) 1(3)] 1(2) lim by (simp add: core_same_def)
      ultimately show ?thesis using 1 by auto
    next
      case (2 s' xs)
      have loop: "lzma_loop s = lzma_loop s'" using 2(1) True by (subst lzma_loop.simps) simp
      have s': "core_ok s' (out @ xs)" "core_same s s'" "d_pos (s_dict s') \<le> d_limit (s_dict s')"
        "d_limit (s_dict s') - d_pos (s_dict s') < d_limit (s_dict s) - d_pos (s_dict s)"
        using 2(2,3) pos by (auto simp: core_step_def core_same_def neq_Nil_conv)
      have "rc_ready (s_rc s')" using rc_ready_step [OF less.prems(2) 2(4)] s'(2) lim by (simp add: core_same_def)
      from less.hyps [OF s'(4,1) this s'(3)] obtain ok s'' where r: "lzma_loop s' = Some (ok, s'')" "core_same s' s''" "rc_ready (s_rc s'')"
        "ok \<longrightarrow> (\<exists>ys. core_step s' (out @ xs) s'' ys) \<and> (d_pos (s_dict s'') = d_limit (s_dict s'') \<or> rc_limit_exceeded (s_rc s''))" by blast
      then show ?thesis using loop core_same_trans [OF s'(2) r(2)] core_step_trans [OF 2(2)] by fastforce
    qed
  qed
qed

lemma lzma_main_ok:
  assumes "core_ok s out" "rc_ready (s_rc s)" "d_pos (s_dict s) \<le> d_limit (s_dict s)"
  shows "\<exists>ok s'. lzma_main s = Some (ok, s') \<and> core_same s s' \<and>
    (ok \<longrightarrow> (\<exists>xs. core_step s out s' xs) \<and> 253952 \<le> unat (rc_range (s_rc s')) \<and> rc_in_pos (s_rc s') \<le> rc_in_limit (s_rc s') + 21 \<and>
      (d_pos (s_dict s') = d_limit (s_dict s') \<or> rc_limit_exceeded (s_rc s')))"
proof -
  define pend where "pend = (if dict_has_space (s_dict s) \<and> lz_len (s_lzma s) > 0
                then do { (_, s) \<leftarrow> lzma_repeat s; Some s } else Some s)"
  obtain s1 xs where s1: "pend = Some s1" "core_step s out s1 xs" "s_rc s1 = s_rc s"
  proof (cases "dict_has_space (s_dict s) \<and> lz_len (s_lzma s) > 0")
    case False
    then have "pend = Some s" by (auto simp: pend_def)
    then show ?thesis using that [of s "[]"] assms by (simp add: core_step_def)
  next
    case True
    then have pre: "dict_rep (s_dict s) out" "d_limit (s_dict s) \<le> d_end (s_dict s)" "d_pos (s_dict s) < d_limit (s_dict s)"
      "tables_ok (s_lzma s)" "params_ok (s_lzma s)" "0 < lz_len (s_lzma s)" using assms(1) by (simp_all add: core_ok_def dict_has_space_def)
    show ?thesis
    proof (cases rule: lzma_repeat_ok [OF pre])
      case 1
      then show ?thesis using that [of s "[]"] True assms by (simp add: core_step_def pend_def)
    next
      case (2 s' xs)
      then show ?thesis using that [of s' xs] True by (simp add: pend_def)
    qed
  qed
  have pre: "core_ok s1 (out @ xs)" "rc_ready (s_rc s1)" "d_pos (s_dict s1) \<le> d_limit (s_dict s1)" "core_same s s1"
    using s1 assms(2) by (simp_all add: core_step_def)
  obtain ok s2 where r: "lzma_loop s1 = Some (ok, s2)" "core_same s1 s2" "rc_ready (s_rc s2)"
    "ok \<longrightarrow> (\<exists>ys. core_step s1 (out @ xs) s2 ys) \<and> (d_pos (s_dict s2) = d_limit (s_dict s2) \<or> rc_limit_exceeded (s_rc s2))"
    using lzma_loop_ok [OF pre(1-3)] by blast
  have eq: "lzma_main s = (if \<not> ok then Some (False, s2) else do { rc \<leftarrow> rc_normalize (s_rc s2); Some (True, s2\<lparr>s_rc := rc\<rparr>) })"
    unfolding lzma_main_def pend_def [symmetric] s1(1) Option.bind.simps r(1) prod.case ..
  note same = core_same_trans [OF pre(4) r(2)]
  show ?thesis
  proof (cases ok)
    case False
    then show ?thesis using eq same by (intro exI [of _ False] exI [of _ s2]) simp
  next
    case True
    then obtain ys where ys: "core_step s1 (out @ xs) s2 ys" "d_pos (s_dict s2) = d_limit (s_dict s2) \<or> rc_limit_exceeded (s_rc s2)"
      using r(4) by blast
    have "rc_in_pos (s_rc s2) < length (rc_in (s_rc s2))" using r(3) by (simp add: rc_ready_def)
    then obtain rc where rc: "rc_normalize (s_rc s2) = Some rc" "rc_same (s_rc s2) rc" "253952 \<le> unat (rc_range rc)"
      "rc_in_pos rc \<le> rc_in_limit rc + 21"
      using r(3) unat_push_8 [of "rc_range (s_rc s2)"]
      by (cases "rc_range (s_rc s2) < RC_TOP_VALUE") (auto simp: rc_normalize_def rc_same_def rc_ready_def word_less_nat_alt)
    let ?s = "s2\<lparr>s_rc := rc\<rparr>"
    have st: "core_step s1 (out @ xs) ?s ys"
      using ys(1) rc_same_trans [OF _ rc(2)] by (auto simp: core_step_def core_ok_def core_same_def)
    have "rc_limit_exceeded (s_rc s2) \<longrightarrow> rc_limit_exceeded rc" using rc(2) by (auto simp: rc_limit_exceeded_def rc_same_def)
    then show ?thesis using eq True rc ys(2) core_step_trans [OF s1(2) st]
      by (intro exI [of _ True] exI [of _ ?s]) (auto simp: core_step_def)
  qed
qed

section \<open>Reset and properties\<close>

lemma prob_ok_half: "prob_ok RC_HALF"
  by (simp add: prob_ok_def RC_HALF_def)

lemma tab_reset: "probs_ok n (replicate n RC_HALF)" "tab_ok k n (replicate k (replicate n RC_HALF))"
  by (simp_all add: probs_ok_def tab_ok_def list_all_length prob_ok_half)

lemma lzma_reset_ok:
  "tables_ok (s_lzma (lzma_reset s))" "params_ok (s_lzma s) \<Longrightarrow> params_ok (s_lzma (lzma_reset s))"
  "s_dict (lzma_reset s) = s_dict s" "lz_state (s_lzma (lzma_reset s)) = STATE_LIT_LIT" "s_rc (lzma_reset s) = rc_reset (s_rc s)"
  "lz_len (s_lzma (lzma_reset s)) = 0"
  by (simp_all add: lzma_reset_def tables_ok_def len_dec_ok_def len_dec_reset_def params_ok_def tab_reset prob_ok_half)

lemma count_sub_ok:
  "0 < unat d \<Longrightarrow> count_sub d props n = (of_nat (unat props mod unat d), n + of_nat (unat props div unat d))"
proof (induction d props n rule: count_sub.induct)
  case (1 d props n)
  show ?case
  proof (cases "props \<ge> d")
    case True
    then have le: "unat d \<le> unat props" and sub: "unat (props - d) = unat props - unat d"
      by (simp_all add: word_le_nat_alt unat_sub)
    have "d \<noteq> 0" using 1(2) by auto
    moreover have "unat props div unat d = Suc (unat (props - d) div unat d)" using le 1(2) sub by (simp add: le_div_geq)
    moreover have "unat props mod unat d = unat (props - d) mod unat d" using le sub by (simp add: le_mod_geq)
    ultimately show ?thesis using 1(1) [OF _ 1(2)] True by (subst count_sub.simps) simp
  next
    case False
    then have "unat props < unat d" by (simp add: word_le_nat_alt)
    then show ?thesis using False by (subst count_sub.simps) simp
  qed
qed

lemma props_commute: "z\<lparr>lc := a, literal_pos_mask := b\<rparr> = z\<lparr>literal_pos_mask := b, lc := a\<rparr>"
  by simp

lemma lzma_props_eq:
  fixes s :: lzma_core
  assumes "l < 9" "q < 5" "k < 5"
  defines "t \<equiv> \<lambda>m. (s_lzma s)\<lparr>pos_mask := push_bit k 1 - 1, literal_pos_mask := m, lc := of_nat l\<rparr>"
  shows "lzma_props s (of_nat ((k * 5 + q) * 9 + l)) =
    (if l + q > 4 then (False, s\<lparr>s_lzma := t (of_nat q)\<rparr>) else (True, lzma_reset (s\<lparr>s_lzma := t (push_bit q 1 - 1)\<rparr>)))"
proof -
  define p :: u8 where "p = of_nat ((k * 5 + q) * 9 + l)"
  define r :: u8 where "r = of_nat (q * 9 + l)"
  have le: "(k * 5 + q) * 9 + l \<le> 224" using assms(1-3) by simp
  then have u: "unat p = k * 45 + (q * 9 + l)" by (simp only: p_def unat_of_nat) simp
  have m: "q * 9 + l < 45" using assms(1,2) by simp
  have pb: "count_sub 45 p 0 = (r, of_nat k)"
    using count_sub_ok [of 45 p 0] unfolding u r_def using m by simp
  have u2: "unat r = q * 9 + l" using m by (simp only: r_def unat_of_nat) simp
  have lp: "count_sub 9 r 0 = (of_nat l, of_nat q)"
    using count_sub_ok [of 9 r 0] unfolding u2 using assms(1) by simp
  have ul: "ucast (of_nat l :: u8) = (of_nat l :: u32)" using assms(1) by (simp add: word_unat_eq_iff unsigned_ucast_eq unat_of_nat take_bit_nat_eq_self)
  have un: "unat (of_nat k :: u32) = k" "unat (of_nat q :: u32) = q" using assms(2,3) by (simp_all add: unat_of_nat32)
  have "\<not> p > (4 * 5 + 4) * 9 + 8" using u m assms(3) by (simp add: word_less_nat_alt)
  moreover have "(of_nat l + of_nat q > (4::u32)) \<longleftrightarrow> l + q > 4"
    using assms(1,2) by (simp add: word_less_nat_alt unat_of_nat32 flip: of_nat_add)
  ultimately show ?thesis
    unfolding lzma_props_def p_def [symmetric] by (simp add: pb lp ul un t_def Let_def props_commute)
qed

lemma props_split: "unat (props::u8) \<le> 224 \<Longrightarrow>
    \<exists>k q l. k < 5 \<and> q < 5 \<and> l < 9 \<and> props = of_nat ((k * 5 + q) * 9 + l)"
proof -
  assume le: "unat props \<le> 224"
  let ?n = "unat props"
  have "(?n div 45 * 5 + ?n div 9 mod 5) * 9 + ?n mod 9 = ?n"
    using div_mult2_eq [of ?n 9 5] by (simp add: div_mult_mod_eq)
  then have "props = of_nat ((?n div 45 * 5 + ?n div 9 mod 5) * 9 + ?n mod 9)" by simp
  moreover have "?n div 45 < 5" using le by simp
  ultimately show ?thesis by (intro exI conjI [of "_ < (5::nat)"] conjI [of "_ < (9::nat)"]) simp_all
qed

lemma mask_bound: "k \<le> 4 \<Longrightarrow> unat (push_bit k 1 - 1 :: u32) = 2 ^ k - 1"
proof -
  assume "k \<le> 4"
  then have "k = 0 \<or> k = 1 \<or> k = 2 \<or> k = 3 \<or> k = 4" by linarith
  then show ?thesis by auto
qed

lemma lzma_props_ok:
  assumes "lzma_props s props = (True, s')"
  shows "params_ok (s_lzma s')" "tables_ok (s_lzma s')" "lz_state (s_lzma s') = STATE_LIT_LIT" "lz_len (s_lzma s') = 0"
    "s_dict s' = s_dict s" "s_rc s' = rc_reset (s_rc s)"
proof -
  have "\<not> props > (4 * 5 + 4) * 9 + 8" using assms by (auto simp: lzma_props_def)
  then have "unat props \<le> 224" by (simp add: word_less_nat_alt)
  then obtain k q l where p: "k < 5" "q < 5" "l < 9" "props = of_nat ((k * 5 + q) * 9 + l)" using props_split by blast
  define t where "t = (s_lzma s)\<lparr>pos_mask := push_bit k 1 - 1, literal_pos_mask := push_bit q 1 - 1, lc := of_nat l\<rparr>"
  have le: "l + q \<le> 4" and s': "s' = lzma_reset (s\<lparr>s_lzma := t\<rparr>)"
    using assms lzma_props_eq [OF p(3,2,1), of s] unfolding p(4) t_def by (auto split: if_splits)
  have "(2::nat) ^ q \<le> 2 ^ (4 - l)" "(2::nat) ^ k \<le> 16" using le p(1) power_increasing [of k 4 "2::nat"] by (simp_all add: power_increasing)
  moreover have "(0::nat) < 2 ^ q" by simp
  ultimately have "(2::nat) ^ q - 1 < 2 ^ (4 - l)" "(2::nat) ^ k - 1 < 16" by linarith+
  then have "params_ok t" using le p(1) by (simp add: t_def params_ok_def mask_bound [unfolded push_bit_of_1] unat_of_nat32)
  then show "params_ok (s_lzma s')" using s' by (simp add: lzma_reset_ok)
  show "tables_ok (s_lzma s')" "lz_state (s_lzma s') = STATE_LIT_LIT" "lz_len (s_lzma s') = 0"
    "s_dict s' = s_dict s" "s_rc s' = rc_reset (s_rc s)" using s' by (simp_all add: lzma_reset_ok)
qed

section \<open>Properties\<close>

text \<open>Claim C30 (the input one symbol takes). With the tables in range, room in the dictionary and 21 bytes of input left, decoding
  a symbol returns: no table, input or dictionary access is out of bounds. It takes at most 20 bytes of input, and
  either the distance of a match lies outside the dictionary, or at least one byte is added to the output and the
  decoder state is again in range.\<close>

theorem lzma_symbol_bound:
  assumes "core_ok s out" "d_pos (s_dict s) < d_limit (s_dict s)"
    and "31 * 2 ^ 13 \<le> unat (rc_range (s_rc s))" "rc_in_pos (s_rc s) + 21 \<le> length (rc_in (s_rc s))"
  shows "\<exists>ok s'. lzma_symbol s = Some (ok, s') \<and> rc_in_pos (s_rc s') \<le> rc_in_pos (s_rc s) + 20 \<and>
    31 * 2 ^ 13 \<le> unat (rc_range (s_rc s')) \<and>
    (ok \<longrightarrow> (\<exists>x xs. core_ok s' (out @ x # xs) \<and> d_pos (s_dict s') = d_pos (s_dict s) + Suc (length xs)))"
proof -
  have at: "rc_at (rc_in_pos (s_rc s)) 0 0 (s_rc s)" using assms(3,4) by (intro rc_at_start) simp_all
  show ?thesis
  proof (cases rule: lzma_symbol_ok [OF assms(1,2) at])
    case (1 s')
    then show ?thesis using rc_at_bound [OF 1(3)] by auto
  next
    case (2 s' xs)
    then obtain y ys where "xs = y # ys" by (auto simp: neq_Nil_conv)
    then show ?thesis using 2 rc_at_bound [OF 2(4)]
      by (intro exI [of _ True] exI [of _ s']) (auto simp: core_step_def intro!: exI [of _ y] exI [of _ ys])
  qed
qed

definition demo_len :: lzma_len_dec where
  "demo_len = \<lparr>choice = 0, choice2 = 0, low = [], mid = [], high = []\<rparr>"

definition demo_lzma :: lzma_dec where
  "demo_lzma = \<lparr>rep0 = 0, rep1 = 0, rep2 = 0, rep3 = 0, lz_state = STATE_LIT_LIT, lz_len = 0, lc = 0, literal_pos_mask = 0,
     pos_mask = 0, is_match = [], is_rep = [], is_rep0 = [], is_rep1 = [], is_rep2 = [], is_rep0_long = [], dist_slot = [],
     dist_special = [], dist_align = [], match_len_dec = demo_len, rep_len_dec = demo_len, literal = []\<rparr>"

definition demo_core :: lzma_core where
  "demo_core = lzma_reset \<lparr>s_rc = \<lparr>rc_range = 0, rc_code = 0, init_bytes_left = 0, rc_in = replicate 21 0, rc_in_pos = 0, rc_in_limit = 0\<rparr>,
     s_dict = demo_dict, s_lzma = demo_lzma\<rparr>"

lemma demo_core_ok: "core_ok demo_core []" "s_rc demo_core =
    \<lparr>rc_range = - 1, rc_code = 0, init_bytes_left = 5, rc_in = replicate 21 0, rc_in_pos = 0, rc_in_limit = 0\<rparr>" "s_dict demo_core = demo_dict"
proof -
  have "params_ok demo_lzma" by (simp add: params_ok_def demo_lzma_def)
  then show "core_ok demo_core []"
    by (simp add: core_ok_def demo_core_def lzma_reset_ok demo_dict_rep lzma_state_is_literal_def LIT_STATES_def)
      (simp add: demo_dict_def)
qed (simp_all add: demo_core_def lzma_reset_ok rc_reset_def RC_INIT_BYTES_def)

theorem lzma_symbol_bound_witness:
  "\<exists>ok s'. lzma_symbol demo_core = Some (ok, s') \<and> rc_in_pos (s_rc s') \<le> 20"
proof -
  have "31 * 2 ^ 13 \<le> unat (- 1 :: u32)" by (simp add: unsigned_minus_1_eq_mask mask_eq_exp_minus_1)
  then show ?thesis using lzma_symbol_bound [OF demo_core_ok(1)] by (auto simp: demo_core_ok(2,3) demo_dict_def)
qed

text \<open>Claim C10 (the symbol loop). With 21 bytes behind the input limit, \<open>lzma_main\<close> returns. When it reports success the dictionary
  has reached its limit or the input position has passed the input limit, by at most 21 bytes; what it decoded
  is the output so far and as many bytes as the dictionary position moved.\<close>

theorem lzma_main_returns:
  assumes "core_ok s out" "rc_ready (s_rc s)" "d_pos (s_dict s) \<le> d_limit (s_dict s)"
  shows "\<exists>ok s'. lzma_main s = Some (ok, s') \<and>
    (ok \<longrightarrow> (\<exists>xs. core_ok s' (out @ xs) \<and> d_pos (s_dict s') = d_pos (s_dict s) + length xs) \<and>
      rc_in_pos (s_rc s') \<le> rc_in_limit (s_rc s) + 21 \<and>
      (d_pos (s_dict s') = d_limit (s_dict s) \<or> rc_in_pos (s_rc s') > rc_in_limit (s_rc s)))"
  using lzma_main_ok [OF assms] by (fastforce simp: core_step_def core_same_def rc_same_def rc_limit_exceeded_def)

theorem lzma_main_returns_witness:
  "\<exists>ok s'. lzma_main demo_core = Some (ok, s') \<and>
    (ok \<longrightarrow> rc_in_pos (s_rc s') \<le> 21 \<and> (d_pos (s_dict s') = 4 \<or> rc_in_pos (s_rc s') > 0))"
proof -
  have "rc_ready (s_rc demo_core)" by (simp add: rc_ready_def demo_core_ok(2) unsigned_minus_1_eq_mask mask_eq_exp_minus_1)
  then show ?thesis using lzma_main_returns [OF demo_core_ok(1)] by (fastforce simp: demo_core_ok(2,3) demo_dict_def)
qed

text \<open>The properties byte: The byte \<open>(pb * 5 + lp) * 9 + lc\<close> is decoded to the bit masks of \<open>lp\<close> and \<open>pb\<close> and to \<open>lc\<close>,
  the decoder is reset, and the byte is accepted exactly when \<open>lc + lp \<le> 4\<close>; the bytes above 224 are rejected.\<close>

lemma lzma_props_decode:
  assumes "lcb < 9" "lpb < 5" "pb < 5"
  shows "(\<exists>s'. lzma_props s (of_nat ((pb * 5 + lpb) * 9 + lcb)) = (lcb + lpb \<le> 4, s') \<and>
      (lcb + lpb \<le> 4 \<longrightarrow> lc (s_lzma s') = of_nat lcb \<and> literal_pos_mask (s_lzma s') = 2 ^ lpb - 1 \<and>
        pos_mask (s_lzma s') = 2 ^ pb - 1 \<and> tables_ok (s_lzma s') \<and> params_ok (s_lzma s') \<and>
        lz_state (s_lzma s') = STATE_LIT_LIT \<and> s_dict s' = s_dict s)) \<and>
    (224 < props \<longrightarrow> lzma_props s props = (False, s))"
proof (intro conjI)
  obtain ok s' where e: "lzma_props s (of_nat ((pb * 5 + lpb) * 9 + lcb)) = (ok, s')" by fastforce
  have ok: "ok \<longleftrightarrow> lcb + lpb \<le> 4" using e lzma_props_eq [OF assms, of s] by (auto split: if_splits)
  have "lc (s_lzma s') = of_nat lcb \<and> literal_pos_mask (s_lzma s') = 2 ^ lpb - 1 \<and> pos_mask (s_lzma s') = 2 ^ pb - 1" if "lcb + lpb \<le> 4"
    using e that lzma_props_eq [OF assms, of s] by (auto simp: lzma_reset_def)
  then show "\<exists>s'. lzma_props s (of_nat ((pb * 5 + lpb) * 9 + lcb)) = (lcb + lpb \<le> 4, s') \<and>
      (lcb + lpb \<le> 4 \<longrightarrow> lc (s_lzma s') = of_nat lcb \<and> literal_pos_mask (s_lzma s') = 2 ^ lpb - 1 \<and>
        pos_mask (s_lzma s') = 2 ^ pb - 1 \<and> tables_ok (s_lzma s') \<and> params_ok (s_lzma s') \<and>
        lz_state (s_lzma s') = STATE_LIT_LIT \<and> s_dict s' = s_dict s)"
    using e lzma_props_ok [of s _ s'] unfolding ok by (intro exI [of _ s']) auto
qed (simp add: lzma_props_def)

lemma lzma_props_decode_witness:
  "\<exists>s'. lzma_props demo_core 0x5D = (True, s') \<and> lc (s_lzma s') = 3 \<and> pos_mask (s_lzma s') = 3 \<and> literal_pos_mask (s_lzma s') = 0"
  using lzma_props_decode [of 3 0 2 demo_core 0] by auto

end
