(* ===== verification/Xz_Lzma2.thy ===== *)
theory Xz_Lzma2
  imports Xz_Lzma
begin

text \<open>
  The LZMA2 layer of \<open>xz_dec_lzma2.c\<close>: the wrapper that lets the LZMA decoder read from the caller's input or from
  the 63 byte buffer \<open>temp\<close>, the chunk state machine, and the creation and reset of the decoder. Memory from \<open>malloc\<close> is a
  parameter: the answer to each call, \<open>None\<close> or an array. Shown: from a decoder in a
  valid state every call returns, no array access is out of bounds, and the state is valid again unless the
  data is rejected.
\<close>

section \<open>State\<close>

datatype lzma2_seq =
    SEQ_CONTROL | SEQ_UNCOMPRESSED_1 | SEQ_UNCOMPRESSED_2 | SEQ_COMPRESSED_0 | SEQ_COMPRESSED_1
  | SEQ_PROPERTIES | SEQ_LZMA_PREPARE | SEQ_LZMA_RUN | SEQ_COPY

record lzma2_dec =
  l2_sequence :: lzma2_seq
  next_sequence :: lzma2_seq
  l2_uncompressed :: u32
  l2_compressed :: u32
  need_dict_reset :: bool
  need_props :: bool

text \<open>\<open>s_core\<close> is \<open>rc\<close>, \<open>dict\<close> and \<open>lzma\<close>; \<open>allocs\<close> counts the calls of \<open>malloc\<close>.\<close>

record xz_dec_lzma2 =
  s_core :: lzma_core
  s_lzma2 :: lzma2_dec
  t_size :: u32
  t_buf :: "u8 list"
  allocs :: nat

definition LZMA_IN_REQUIRED :: nat where
  "LZMA_IN_REQUIRED = 21"

abbreviation s_dict2 :: "xz_dec_lzma2 \<Rightarrow> dictionary" where
  "s_dict2 s \<equiv> s_dict (s_core s)"

abbreviation s_rc2 :: "xz_dec_lzma2 \<Rightarrow> rc_dec" where
  "s_rc2 s \<equiv> s_rc (s_core s)"

definition set_rc :: "xz_dec_lzma2 \<Rightarrow> rc_dec \<Rightarrow> xz_dec_lzma2" where
  "set_rc s rc = s\<lparr>s_core := (s_core s)\<lparr>s_rc := rc\<rparr>\<rparr>"

definition set_dict :: "xz_dec_lzma2 \<Rightarrow> dictionary \<Rightarrow> xz_dec_lzma2" where
  "set_dict s d = s\<lparr>s_core := (s_core s)\<lparr>s_dict := d\<rparr>\<rparr>"

definition set_seq :: "xz_dec_lzma2 \<Rightarrow> lzma2_seq \<Rightarrow> xz_dec_lzma2" where
  "set_seq s q = s\<lparr>s_lzma2 := (s_lzma2 s)\<lparr>l2_sequence := q\<rparr>\<rparr>"

definition set_compressed :: "xz_dec_lzma2 \<Rightarrow> u32 \<Rightarrow> xz_dec_lzma2" where
  "set_compressed s n = s\<lparr>s_lzma2 := (s_lzma2 s)\<lparr>l2_compressed := n\<rparr>\<rparr>"

definition set_uncompressed :: "xz_dec_lzma2 \<Rightarrow> u32 \<Rightarrow> xz_dec_lzma2" where
  "set_uncompressed s n = s\<lparr>s_lzma2 := (s_lzma2 s)\<lparr>l2_uncompressed := n\<rparr>\<rparr>"

section \<open>Feeding the LZMA decoder\<close>

text \<open>The number of bytes to add to \<open>temp\<close>.\<close>

definition temp_fill :: "xz_dec_lzma2 \<Rightarrow> nat \<Rightarrow> u32" where
  "temp_fill s in_avail =
    (let tmp = 2 * of_nat LZMA_IN_REQUIRED - t_size s;
         tmp = (if tmp > l2_compressed (s_lzma2 s) - t_size s then l2_compressed (s_lzma2 s) - t_size s else tmp)
     in if unat tmp > in_avail then of_nat in_avail else tmp)"

text \<open>The buffer the decoder reads and its input limit, \<open>n\<close> bytes being in \<open>temp\<close>.\<close>

definition temp_window :: "xz_dec_lzma2 \<Rightarrow> u8 list \<Rightarrow> u32 \<Rightarrow> (u8 list \<times> nat) option" where
  "temp_window s buf n =
    (if n = l2_compressed (s_lzma2 s) then
       do { buf \<leftarrow> copy_array buf (unat n) (replicate (length buf - unat n) 0) 0 (length buf - unat n);
            Some (buf, unat n) }
     else Some (buf, unat n - LZMA_IN_REQUIRED))"

text \<open>After the decoder: account for the bytes it used. The first result is the value the function returns, \<open>None\<close> where it goes on.\<close>

definition temp_finish :: "xz_dec_lzma2 \<Rightarrow> xz_buf \<Rightarrow> (bool option \<times> xz_dec_lzma2 \<times> xz_buf) option" where
  "temp_finish s b =
    do { let n = rc_in_pos (s_rc2 s);
         let s = set_compressed s (l2_compressed (s_lzma2 s) - of_nat n);
         if n < unat (t_size s) then
           do { let left = t_size s - of_nat n;
                buf \<leftarrow> copy_array (t_buf s) 0 (t_buf s) n (unat left);
                Some (Some True, s\<lparr>t_buf := buf, t_size := left\<rparr>, b) }
         else Some (None, s\<lparr>t_size := 0\<rparr>, b\<lparr>in_pos := in_pos b + (n - unat (t_size s))\<rparr>) }"

text \<open>Decode from \<open>temp\<close>. The pointer \<open>rc.in\<close> is set to the array; \<open>temp.buf\<close> is not written before the next time it is set.\<close>

definition lzma2_from_temp :: "xz_dec_lzma2 \<Rightarrow> xz_buf \<Rightarrow> (bool option \<times> xz_dec_lzma2 \<times> xz_buf) option" where
  "lzma2_from_temp s b =
    do { let tmp = temp_fill s (in_size b - in_pos b);
         buf \<leftarrow> copy_array (t_buf s) (unat (t_size s)) (b_in b) (in_pos b) (unat tmp);
         if t_size s + tmp \<noteq> l2_compressed (s_lzma2 s) \<and> unat (t_size s + tmp) < LZMA_IN_REQUIRED then
           Some (Some True, s\<lparr>t_buf := buf, t_size := t_size s + tmp\<rparr>, b\<lparr>in_pos := in_pos b + unat tmp\<rparr>)
         else
           do { (buf, limit) \<leftarrow> temp_window s buf (t_size s + tmp);
                (ok, core) \<leftarrow> lzma_main ((s_core s)\<lparr>s_rc := (s_rc2 s)\<lparr>rc_in_limit := limit, rc_in := buf, rc_in_pos := 0\<rparr>\<rparr>);
                let s = s\<lparr>t_buf := buf, s_core := core\<rparr>;
                if \<not> ok \<or> rc_in_pos (s_rc2 s) > unat (t_size s + tmp) then Some (Some False, s, b)
                else temp_finish s b } }"

text \<open>Decode from the input buffer.\<close>

definition input_limit :: "xz_dec_lzma2 \<Rightarrow> xz_buf \<Rightarrow> nat" where
  "input_limit s b =
    (if in_size b - in_pos b \<ge> unat (l2_compressed (s_lzma2 s) + of_nat LZMA_IN_REQUIRED)
     then in_pos b + unat (l2_compressed (s_lzma2 s)) else in_size b - LZMA_IN_REQUIRED)"

definition lzma2_from_input :: "xz_dec_lzma2 \<Rightarrow> xz_buf \<Rightarrow> (bool \<times> xz_dec_lzma2 \<times> xz_buf) option" where
  "lzma2_from_input s b =
    do { (ok, core) \<leftarrow> lzma_main ((s_core s)\<lparr>s_rc := (s_rc2 s)\<lparr>rc_in_limit := input_limit s b, rc_in := b_in b, rc_in_pos := in_pos b\<rparr>\<rparr>);
         let s = s\<lparr>s_core := core\<rparr>;
         let in_avail = rc_in_pos (s_rc2 s) - in_pos b;
         if \<not> ok \<or> in_avail > unat (l2_compressed (s_lzma2 s)) then Some (False, s, b)
         else Some (True, set_compressed s (l2_compressed (s_lzma2 s) - of_nat in_avail), b\<lparr>in_pos := rc_in_pos (s_rc2 s)\<rparr>) }"

text \<open>Keep the last bytes of the input in \<open>temp\<close>.\<close>

definition lzma2_save :: "xz_dec_lzma2 \<Rightarrow> xz_buf \<Rightarrow> (xz_dec_lzma2 \<times> xz_buf) option" where
  "lzma2_save s b =
    (let in_avail = in_size b - in_pos b
     in if in_avail < LZMA_IN_REQUIRED
        then do { let in_avail = (if in_avail > unat (l2_compressed (s_lzma2 s)) then unat (l2_compressed (s_lzma2 s)) else in_avail);
                  buf \<leftarrow> copy_array (t_buf s) 0 (b_in b) (in_pos b) in_avail;
                  Some (s\<lparr>t_buf := buf, t_size := of_nat in_avail\<rparr>, b\<lparr>in_pos := in_pos b + in_avail\<rparr>) }
        else Some (s, b))"

definition lzma2_tail :: "xz_dec_lzma2 \<Rightarrow> xz_buf \<Rightarrow> (bool \<times> xz_dec_lzma2 \<times> xz_buf) option" where
  "lzma2_tail s b =
    do { (ok, s, b) \<leftarrow> (if in_size b - in_pos b \<ge> LZMA_IN_REQUIRED then lzma2_from_input s b else Some (True, s, b));
         if \<not> ok then Some (False, s, b)
         else do { (s, b) \<leftarrow> lzma2_save s b; Some (True, s, b) } }"

definition lzma2_lzma :: "xz_dec_lzma2 \<Rightarrow> xz_buf \<Rightarrow> (bool \<times> xz_dec_lzma2 \<times> xz_buf) option" where
  "lzma2_lzma s b =
    do { (r, s, b) \<leftarrow> (if t_size s > 0 \<or> l2_compressed (s_lzma2 s) = 0 then lzma2_from_temp s b else Some (None, s, b));
         case r of Some ok \<Rightarrow> Some (ok, s, b) | None \<Rightarrow> lzma2_tail s b }"

section \<open>The chunk state machine\<close>

text \<open>One case of the switch per definition. The first result is the value the function returns, \<open>None\<close> for \<open>break\<close>.\<close>

definition next_byte :: "xz_buf \<Rightarrow> (u8 \<times> xz_buf) option" where
  "next_byte b = do { c \<leftarrow> fetch (b_in b) (in_pos b); Some (c, b\<lparr>in_pos := in_pos b + 1\<rparr>) }"

definition run_control :: "xz_dec_lzma2 \<Rightarrow> xz_buf \<Rightarrow> (xz_ret option \<times> xz_dec_lzma2 \<times> xz_buf) option" where
  "run_control s b =
    do { (c, b) \<leftarrow> next_byte b;
         let tmp = (ucast c :: u32);
         if tmp = 0 then Some (Some XZ_STREAM_END, s, b)
         else if \<not> (tmp \<ge> 0xE0 \<or> tmp = 1) \<and> need_dict_reset (s_lzma2 s) then Some (Some XZ_DATA_ERROR, s, b)
         else
           do { let s = (if tmp \<ge> 0xE0 \<or> tmp = 1
                         then set_dict (s\<lparr>s_lzma2 := (s_lzma2 s)\<lparr>need_props := True, need_dict_reset := False\<rparr>\<rparr>) (dict_reset (s_dict2 s))
                         else s);
                if tmp \<ge> 0x80 then
                  do { let s = set_seq (set_uncompressed s (push_bit 16 (tmp AND 0x1F))) SEQ_UNCOMPRESSED_1;
                       if tmp \<ge> 0xC0 then
                         Some (None, s\<lparr>s_lzma2 := (s_lzma2 s)\<lparr>need_props := False, next_sequence := SEQ_PROPERTIES\<rparr>\<rparr>, b)
                       else if need_props (s_lzma2 s) then Some (Some XZ_DATA_ERROR, s, b)
                       else
                         do { let s = s\<lparr>s_lzma2 := (s_lzma2 s)\<lparr>next_sequence := SEQ_LZMA_PREPARE\<rparr>\<rparr>;
                              Some (None, (if tmp \<ge> 0xA0 then s\<lparr>s_core := lzma_reset (s_core s)\<rparr> else s), b) } }
                else if tmp > 2 then Some (Some XZ_DATA_ERROR, s, b)
                else Some (None, s\<lparr>s_lzma2 := (s_lzma2 s)\<lparr>l2_sequence := SEQ_COMPRESSED_0, next_sequence := SEQ_COPY\<rparr>\<rparr>, b) } }"

definition run_uncompressed_1 :: "xz_dec_lzma2 \<Rightarrow> xz_buf \<Rightarrow> (xz_ret option \<times> xz_dec_lzma2 \<times> xz_buf) option" where
  "run_uncompressed_1 s b =
    do { (c, b) \<leftarrow> next_byte b;
         Some (None, set_seq (set_uncompressed s (l2_uncompressed (s_lzma2 s) + push_bit 8 (ucast c))) SEQ_UNCOMPRESSED_2, b) }"

definition run_uncompressed_2 :: "xz_dec_lzma2 \<Rightarrow> xz_buf \<Rightarrow> (xz_ret option \<times> xz_dec_lzma2 \<times> xz_buf) option" where
  "run_uncompressed_2 s b =
    do { (c, b) \<leftarrow> next_byte b;
         Some (None, set_seq (set_uncompressed s (l2_uncompressed (s_lzma2 s) + (ucast c + 1))) SEQ_COMPRESSED_0, b) }"

definition run_compressed_0 :: "xz_dec_lzma2 \<Rightarrow> xz_buf \<Rightarrow> (xz_ret option \<times> xz_dec_lzma2 \<times> xz_buf) option" where
  "run_compressed_0 s b =
    do { (c, b) \<leftarrow> next_byte b;
         Some (None, set_seq (set_compressed s (push_bit 8 (ucast c))) SEQ_COMPRESSED_1, b) }"

definition run_compressed_1 :: "xz_dec_lzma2 \<Rightarrow> xz_buf \<Rightarrow> (xz_ret option \<times> xz_dec_lzma2 \<times> xz_buf) option" where
  "run_compressed_1 s b =
    do { (c, b) \<leftarrow> next_byte b;
         Some (None, set_seq (set_compressed s (l2_compressed (s_lzma2 s) + (ucast c + 1))) (next_sequence (s_lzma2 s)), b) }"

text \<open>Check if the chunk is finished.\<close>

definition run_finish :: "xz_dec_lzma2 \<Rightarrow> xz_buf \<Rightarrow> xz_ret option \<times> xz_dec_lzma2 \<times> xz_buf" where
  "run_finish s b =
    (if l2_uncompressed (s_lzma2 s) = 0 then
       if l2_compressed (s_lzma2 s) > 0 \<or> lz_len (s_lzma (s_core s)) > 0 \<or> \<not> rc_is_finished (s_rc2 s)
       then (Some XZ_DATA_ERROR, s, b)
       else (None, set_seq (set_rc s (rc_reset (s_rc2 s))) SEQ_CONTROL, b)
     else if out_pos b = out_size b \<or> in_pos b = in_size b \<and> t_size s < l2_compressed (s_lzma2 s)
     then (Some XZ_OK, s, b)
     else (None, s, b))"

definition run_lzma :: "xz_dec_lzma2 \<Rightarrow> xz_buf \<Rightarrow> (xz_ret option \<times> xz_dec_lzma2 \<times> xz_buf) option" where
  "run_lzma s b =
    do { (ok, s, b) \<leftarrow> lzma2_lzma
           (set_dict s (dict_limit (s_dict2 s) (min (out_size b - out_pos b) (unat (l2_uncompressed (s_lzma2 s)))))) b;
         if \<not> ok then Some (Some XZ_DATA_ERROR, s, b)
         else
           do { (n, dict, b) \<leftarrow> dict_flush (s_dict2 s) b;
                Some (run_finish (set_uncompressed (set_dict s dict) (l2_uncompressed (s_lzma2 s) - n)) b) } }"

text \<open>A case that falls through goes on with the next one.\<close>

definition run_prepare :: "xz_dec_lzma2 \<Rightarrow> xz_buf \<Rightarrow> (xz_ret option \<times> xz_dec_lzma2 \<times> xz_buf) option" where
  "run_prepare s b =
    (if l2_compressed (s_lzma2 s) < RC_INIT_BYTES then Some (Some XZ_DATA_ERROR, s, b)
     else
       do { (ready, rc, b) \<leftarrow> rc_read_init (s_rc2 s) b;
            let s = set_rc s rc;
            if \<not> ready then Some (Some XZ_OK, s, b)
            else run_lzma (set_seq (set_compressed s (l2_compressed (s_lzma2 s) - RC_INIT_BYTES)) SEQ_LZMA_RUN) b })"

definition run_properties :: "xz_dec_lzma2 \<Rightarrow> xz_buf \<Rightarrow> (xz_ret option \<times> xz_dec_lzma2 \<times> xz_buf) option" where
  "run_properties s b =
    do { (c, b) \<leftarrow> next_byte b;
         let (ok, core) = lzma_props (s_core s) c;
         let s = s\<lparr>s_core := core\<rparr>;
         if \<not> ok then Some (Some XZ_DATA_ERROR, s, b) else run_prepare (set_seq s SEQ_LZMA_PREPARE) b }"

definition run_copy :: "xz_dec_lzma2 \<Rightarrow> xz_buf \<Rightarrow> (xz_ret option \<times> xz_dec_lzma2 \<times> xz_buf) option" where
  "run_copy s b =
    do { (dict, b, left) \<leftarrow> dict_uncompressed (s_dict2 s) b (l2_compressed (s_lzma2 s));
         let s = set_compressed (set_dict s dict) left;
         if left > 0 then Some (Some XZ_OK, s, b) else Some (None, set_seq s SEQ_CONTROL, b) }"

definition lzma2_step :: "xz_dec_lzma2 \<Rightarrow> xz_buf \<Rightarrow> (xz_ret option \<times> xz_dec_lzma2 \<times> xz_buf) option" where
  "lzma2_step s b =
    (case l2_sequence (s_lzma2 s) of
       SEQ_CONTROL \<Rightarrow> run_control s b
     | SEQ_UNCOMPRESSED_1 \<Rightarrow> run_uncompressed_1 s b
     | SEQ_UNCOMPRESSED_2 \<Rightarrow> run_uncompressed_2 s b
     | SEQ_COMPRESSED_0 \<Rightarrow> run_compressed_0 s b
     | SEQ_COMPRESSED_1 \<Rightarrow> run_compressed_1 s b
     | SEQ_PROPERTIES \<Rightarrow> run_properties s b
     | SEQ_LZMA_PREPARE \<Rightarrow> run_prepare s b
     | SEQ_LZMA_RUN \<Rightarrow> run_lzma s b
     | SEQ_COPY \<Rightarrow> run_copy s b)"

partial_function (option) xz_dec_lzma2_run :: "xz_dec_lzma2 \<Rightarrow> xz_buf \<Rightarrow> (xz_ret \<times> xz_dec_lzma2 \<times> xz_buf) option" where
  "xz_dec_lzma2_run s b =
    (if in_pos b < in_size b \<or> l2_sequence (s_lzma2 s) = SEQ_LZMA_RUN
     then do { (r, s, b) \<leftarrow> lzma2_step s b;
               case r of Some ret \<Rightarrow> Some (ret, s, b) | None \<Rightarrow> xz_dec_lzma2_run s b }
     else Some (XZ_OK, s, b))"

section \<open>Creation and reset\<close>

text \<open>\<open>calloc\<close> yields a zeroed object.\<close>

definition zero_len :: lzma_len_dec where
  "zero_len = \<lparr>choice = 0, choice2 = 0, low = replicate 16 (replicate 8 0), mid = replicate 16 (replicate 8 0), high = replicate 256 0\<rparr>"

definition zero_lzma :: lzma_dec where
  "zero_lzma = \<lparr>rep0 = 0, rep1 = 0, rep2 = 0, rep3 = 0, lz_state = STATE_LIT_LIT, lz_len = 0, lc = 0, literal_pos_mask = 0, pos_mask = 0,
     is_match = replicate 12 (replicate 16 0), is_rep = replicate 12 0, is_rep0 = replicate 12 0, is_rep1 = replicate 12 0,
     is_rep2 = replicate 12 0, is_rep0_long = replicate 12 (replicate 16 0), dist_slot = replicate 4 (replicate 64 0),
     dist_special = replicate 114 0, dist_align = replicate 16 0, match_len_dec = zero_len, rep_len_dec = zero_len,
     literal = replicate 16 (replicate 0x300 0)\<rparr>"

definition zero_lzma2 :: xz_dec_lzma2 where
  "zero_lzma2 =
    \<lparr>s_core = \<lparr>s_rc = \<lparr>rc_range = 0, rc_code = 0, init_bytes_left = 0, rc_in = [], rc_in_pos = 0, rc_in_limit = 0\<rparr>,
       s_dict = \<lparr>d_buf = [], d_start = 0, d_pos = 0, d_full = 0, d_limit = 0, d_end = 0, d_size = 0, d_size_max = 0,
         d_allocated = 0, d_mode = XZ_SINGLE\<rparr>,
       s_lzma = zero_lzma\<rparr>,
     s_lzma2 = \<lparr>l2_sequence = SEQ_CONTROL, next_sequence = SEQ_CONTROL, l2_uncompressed = 0, l2_compressed = 0,
       need_dict_reset = False, need_props = False\<rparr>,
     t_size = 0, t_buf = replicate 63 0, allocs = 0\<rparr>"

definition xz_dec_lzma2_create :: "bool \<Rightarrow> xz_mode \<Rightarrow> u32 \<Rightarrow> xz_dec_lzma2 option" where
  "xz_dec_lzma2_create calloc_ok mode dict_max =
    (if \<not> calloc_ok then None
     else
       let s = set_dict zero_lzma2 ((s_dict2 zero_lzma2)\<lparr>d_mode := mode, d_size_max := dict_max\<rparr>)
       in Some (if mode = XZ_DYNALLOC then set_dict s ((s_dict2 s)\<lparr>d_buf := [], d_allocated := 0\<rparr>) else s))"

definition lzma2_dict_size :: "u8 \<Rightarrow> u32" where
  "lzma2_dict_size props = push_bit (unat (drop_bit 1 props + 11)) (2 + (ucast props AND 1))"

definition xz_dec_lzma2_reset ::
    "(nat \<Rightarrow> nat \<Rightarrow> u8 list option) \<Rightarrow> xz_dec_lzma2 \<Rightarrow> u8 \<Rightarrow> xz_ret \<times> xz_dec_lzma2" where
  "xz_dec_lzma2_reset malloc s props =
    (if props > 39 then (XZ_OPTIONS_ERROR, s)
     else
       let size = lzma2_dict_size props;
           s = set_dict s ((s_dict2 s)\<lparr>d_size := size\<rparr>)
       in if size > d_size_max (s_dict2 s) then (XZ_MEMLIMIT_ERROR, s)
          else
            let s = set_dict s ((s_dict2 s)\<lparr>d_end := unat size\<rparr>);
                fresh = d_mode (s_dict2 s) = XZ_DYNALLOC \<and> d_allocated (s_dict2 s) < size;
                answer = malloc (allocs s) (unat size)
            in if fresh \<and> answer = None
               then (XZ_MEM_ERROR, set_dict (s\<lparr>allocs := allocs s + 1\<rparr>) ((s_dict2 s)\<lparr>d_buf := [], d_allocated := 0\<rparr>))
               else
                 let s = (if fresh
                          then set_dict (s\<lparr>allocs := allocs s + 1\<rparr>) ((s_dict2 s)\<lparr>d_buf := the answer, d_allocated := size\<rparr>)
                          else s)
                 in (XZ_OK, s\<lparr>s_lzma2 := (s_lzma2 s)\<lparr>l2_sequence := SEQ_CONTROL, need_dict_reset := True\<rparr>, t_size := 0\<rparr>))"

section \<open>The wrapper is safe\<close>

lemmas setters = set_rc_def set_dict_def set_seq_def set_compressed_def set_uncompressed_def

text \<open>The input not yet used: what the caller's buffer and \<open>temp\<close> hold.\<close>

definition avail :: "xz_dec_lzma2 \<Rightarrow> xz_buf \<Rightarrow> nat" where
  "avail s b = in_size b - in_pos b + unat (t_size s)"

definition feed_inv :: "xz_dec_lzma2 \<Rightarrow> u8 list \<Rightarrow> bool" where
  "feed_inv s out \<longleftrightarrow> core_ok (s_core s) out \<and> d_pos (s_dict2 s) \<le> d_limit (s_dict2 s) \<and> 253952 \<le> unat (rc_range (s_rc2 s)) \<and>
    unat (t_size s) < 21 \<and> unat (t_size s) \<le> unat (l2_compressed (s_lzma2 s)) \<and> unat (l2_compressed (s_lzma2 s)) \<le> 65536 \<and> length (t_buf s) = 63"

definition dict_step :: "dictionary \<Rightarrow> dictionary \<Rightarrow> nat \<Rightarrow> bool" where
  "dict_step d d' n \<longleftrightarrow> dict_same d d' \<and> d_limit d' = d_limit d \<and> d_start d' = d_start d \<and> d_pos d' = d_pos d + n"

definition feed_step :: "xz_dec_lzma2 \<Rightarrow> xz_buf \<Rightarrow> u8 list \<Rightarrow> xz_dec_lzma2 \<Rightarrow> xz_buf \<Rightarrow> u8 list \<Rightarrow> bool" where
  "feed_step s b out s' b' xs \<longleftrightarrow> feed_inv s' (out @ xs) \<and> dict_step (s_dict2 s) (s_dict2 s') (length xs) \<and>
    (\<exists>p. b' = b\<lparr>in_pos := p\<rparr> \<and> in_pos b \<le> p \<and> p \<le> in_size b) \<and>
    unat (l2_compressed (s_lzma2 s')) + avail s b = unat (l2_compressed (s_lzma2 s)) + avail s' b' \<and> avail s' b' \<le> avail s b \<and>
    (\<exists>c. s_lzma2 s' = (s_lzma2 s)\<lparr>l2_compressed := c\<rparr>) \<and> allocs s' = allocs s"

lemma dict_step_trans: "dict_step d d' m \<Longrightarrow> dict_step d' d'' n \<Longrightarrow> dict_step d d'' (m + n)"
  by (auto simp: dict_step_def intro: dict_same_trans)

lemma feed_step_trans:
  assumes "feed_step s b out s1 b1 xs" "feed_step s1 b1 (out @ xs) s2 b2 ys"
  shows "feed_step s b out s2 b2 (xs @ ys)"
proof -
  have "dict_step (s_dict2 s) (s_dict2 s2) (length (xs @ ys))" using assms dict_step_trans by (fastforce simp: feed_step_def)
  moreover have "\<exists>c. s_lzma2 s2 = (s_lzma2 s)\<lparr>l2_compressed := c\<rparr>" using assms by (auto simp: feed_step_def)
  moreover have "\<exists>p. b2 = b\<lparr>in_pos := p\<rparr> \<and> in_pos b \<le> p \<and> p \<le> in_size b" using assms by (force simp: feed_step_def)
  ultimately show ?thesis using assms by (simp add: feed_step_def)
qed

lemma feed_step_refl: "feed_inv s out \<Longrightarrow> buf_ok b \<Longrightarrow> feed_step s b out s b []"
  by (auto simp: feed_step_def dict_step_def buf_ok_def intro!: exI [of _ "in_pos b"] exI [of _ "l2_compressed (s_lzma2 s)"])

lemma feed_main:
  assumes inv: "feed_inv s out" and rc: "limit + 21 \<le> length buf" "p \<le> limit + 20"
  shows "\<exists>ok core. lzma_main ((s_core s)\<lparr>s_rc := (s_rc2 s)\<lparr>rc_in_limit := limit, rc_in := buf, rc_in_pos := p\<rparr>\<rparr>) = Some (ok, core) \<and>
    (ok \<longrightarrow> (\<exists>xs. core_ok core (out @ xs) \<and> dict_step (s_dict2 s) (s_dict core) (length xs) \<and> d_pos (s_dict core) \<le> d_limit (s_dict core) \<and>
      253952 \<le> unat (rc_range (s_rc core)) \<and> p \<le> rc_in_pos (s_rc core) \<and> rc_in_pos (s_rc core) \<le> limit + 21 \<and>
      (d_pos (s_dict core) = d_limit (s_dict core) \<or> rc_in_pos (s_rc core) > limit)))"
proof -
  let ?c = "(s_core s)\<lparr>s_rc := (s_rc2 s)\<lparr>rc_in_limit := limit, rc_in := buf, rc_in_pos := p\<rparr>\<rparr>"
  have "core_ok ?c out" "rc_ready (s_rc ?c)" "d_pos (s_dict ?c) \<le> d_limit (s_dict ?c)"
    using inv rc by (simp_all add: feed_inv_def core_ok_def rc_ready_def)
  then obtain ok core where r: "lzma_main ?c = Some (ok, core)" "core_same ?c core"
    "ok \<longrightarrow> (\<exists>xs. core_step ?c out core xs) \<and> 253952 \<le> unat (rc_range (s_rc core)) \<and> rc_in_pos (s_rc core) \<le> rc_in_limit (s_rc core) + 21 \<and>
      (d_pos (s_dict core) = d_limit (s_dict core) \<or> rc_limit_exceeded (s_rc core))" using lzma_main_ok by blast
  have lim: "rc_in_limit (s_rc core) = limit" "p \<le> rc_in_pos (s_rc core)" using r(2) by (simp_all add: core_same_def rc_same_def)
  show ?thesis
  proof (cases ok)
    case True
    then obtain xs where "core_step ?c out core xs" using r(3) by blast
    then show ?thesis using r lim True
      by (intro exI [of _ ok] exI [of _ core]) (auto simp: core_step_def core_same_def dict_step_def rc_limit_exceeded_def)
  qed (use r(1) in auto)
qed

lemma temp_fill_ok:
  assumes "unat (t_size s) < 21" "unat (t_size s) \<le> unat (l2_compressed (s_lzma2 s))"
  shows "unat (temp_fill s n) = min n (min (42 - unat (t_size s)) (unat (l2_compressed (s_lzma2 s)) - unat (t_size s)))"
proof -
  have a: "unat (42 - t_size s) = 42 - unat (t_size s)" using assms(1) by (subst unat_sub) (simp_all add: word_le_nat_alt)
  have c: "unat (l2_compressed (s_lzma2 s) - t_size s) = unat (l2_compressed (s_lzma2 s)) - unat (t_size s)"
    using assms(2) by (subst unat_sub) (simp_all add: word_le_nat_alt)
  define m where "m = (if 42 - t_size s > l2_compressed (s_lzma2 s) - t_size s then l2_compressed (s_lzma2 s) - t_size s else 42 - t_size s)"
  have m: "unat m = min (42 - unat (t_size s)) (unat (l2_compressed (s_lzma2 s)) - unat (t_size s))"
    using a c by (auto simp: m_def word_less_nat_alt)
  have e: "temp_fill s n = (if unat m > n then of_nat n else m)" by (simp add: temp_fill_def m_def LZMA_IN_REQUIRED_def Let_def)
  have "unat (temp_fill s n) = min n (unat m)"
  proof (cases "unat m > n")
    case True
    then have "n < 2 ^ 32" using unat_lt32 [of m] by simp
    then show ?thesis using True e by (simp add: unat_of_nat32)
  next
    case False
    then show ?thesis using e by simp
  qed
  then show ?thesis unfolding m .
qed

text \<open>Input was used, or the dictionary reached its limit, or all input is in \<open>temp\<close> and more is needed.\<close>

definition feed_prog :: "xz_dec_lzma2 \<Rightarrow> xz_buf \<Rightarrow> xz_dec_lzma2 \<Rightarrow> xz_buf \<Rightarrow> bool" where
  "feed_prog s b s' b' \<longleftrightarrow> avail s' b' < avail s b \<or> in_pos b < in_pos b' \<or> d_pos (s_dict2 s') = d_limit (s_dict2 s') \<or>
    in_pos b' = in_size b' \<and> t_size s' < l2_compressed (s_lzma2 s')"

lemma temp_sum:
  assumes "feed_inv s out"
  shows "unat (t_size s + temp_fill s n) = unat (t_size s) + unat (temp_fill s n)"
    "unat (t_size s) + unat (temp_fill s n) \<le> 42" "unat (temp_fill s n) \<le> n"
    "unat (t_size s) + unat (temp_fill s n) \<le> unat (l2_compressed (s_lzma2 s))"
proof -
  have t: "unat (t_size s) < 21" "unat (t_size s) \<le> unat (l2_compressed (s_lzma2 s))" using assms by (simp_all add: feed_inv_def)
  have f: "unat (temp_fill s n) \<le> 42 - unat (t_size s)" "unat (temp_fill s n) \<le> unat (l2_compressed (s_lzma2 s)) - unat (t_size s)"
    "unat (temp_fill s n) \<le> n" unfolding temp_fill_ok [OF t, of n] by linarith+
  show s: "unat (t_size s) + unat (temp_fill s n) \<le> 42" "unat (t_size s) + unat (temp_fill s n) \<le> unat (l2_compressed (s_lzma2 s))"
    using f t by linarith+
  then show "unat (t_size s + temp_fill s n) = unat (t_size s) + unat (temp_fill s n)" by (simp only: unat_word_ariths) simp
  show "unat (temp_fill s n) \<le> n" by (rule f(3))
qed

lemma temp_early:
  assumes inv: "feed_inv s out" and b: "buf_ok b" and tmp: "tmp = temp_fill s (in_size b - in_pos b)"
    and early: "t_size s + tmp \<noteq> l2_compressed (s_lzma2 s)" "unat (t_size s + tmp) < 21" and buf: "length buf = 63"
  defines "s' \<equiv> s\<lparr>t_buf := buf, t_size := t_size s + tmp\<rparr>" and "b' \<equiv> b\<lparr>in_pos := in_pos b + unat tmp\<rparr>"
  shows "feed_step s b out s' b' []" "feed_prog s b s' b'"
proof -
  note ts = temp_sum [OF inv, of "in_size b - in_pos b", folded tmp]
  have t: "unat (t_size s) < 21" "unat (t_size s) \<le> unat (l2_compressed (s_lzma2 s))" using inv by (simp_all add: feed_inv_def)
  have ne: "unat (t_size s) + unat tmp \<noteq> unat (l2_compressed (s_lzma2 s))" using early(1) ts(1) by (metis word_unat_eq_iff)
  have all: "unat tmp = in_size b - in_pos b"
    using temp_fill_ok [OF t, of "in_size b - in_pos b", folded tmp] early(2) ne ts(1,4) by (simp add: min_def split: if_splits)
  then show "feed_step s b out s' b' []"
    using inv b early(2) ts buf
    by (auto simp: feed_step_def feed_inv_def dict_step_def avail_def s'_def b'_def buf_ok_def core_ok_def intro!: exI [of _ "l2_compressed (s_lzma2 s)"])
  show "feed_prog s b s' b'" using all b ne ts(1,4) by (auto simp: feed_prog_def s'_def b'_def buf_ok_def word_less_nat_alt)
qed

lemma unat_minus_nat: "n \<le> unat c \<Longrightarrow> unat (c - of_nat n :: u32) = unat c - n"
  using unat_lt32 [of c] by (subst unat_sub) (simp_all add: word_le_nat_alt unat_of_nat32)

text \<open>After the decoder used \<open>n\<close> bytes of \<open>temp\<close>.\<close>

lemma temp_used:
  assumes inv: "feed_inv s out" and b: "buf_ok b" and sum: "unat (t_size s) + k \<le> unat (l2_compressed (s_lzma2 s))" "k \<le> in_size b - in_pos b"
    and core: "core_ok core (out @ xs)" "dict_step (s_dict2 s) (s_dict core) (length xs)" "d_pos (s_dict core) \<le> d_limit (s_dict core)"
      "253952 \<le> unat (rc_range (s_rc core))"
    and n: "n \<le> unat (t_size s) + k" and lim: "d_pos (s_dict core) = d_limit (s_dict core) \<or> 0 < n" and buf: "length buf = 63"
  defines "s1 \<equiv> s\<lparr>s_core := core, s_lzma2 := (s_lzma2 s)\<lparr>l2_compressed := l2_compressed (s_lzma2 s) - of_nat n\<rparr>, t_buf := buf\<rparr>"
  shows "n < unat (t_size s) \<Longrightarrow> feed_step s b out (s1\<lparr>t_size := t_size s - of_nat n\<rparr>) b xs \<and> feed_prog s b (s1\<lparr>t_size := t_size s - of_nat n\<rparr>) b"
    "unat (t_size s) \<le> n \<Longrightarrow> feed_step s b out (s1\<lparr>t_size := 0\<rparr>) (b\<lparr>in_pos := in_pos b + (n - unat (t_size s))\<rparr>) xs \<and>
      feed_prog s b (s1\<lparr>t_size := 0\<rparr>) (b\<lparr>in_pos := in_pos b + (n - unat (t_size s))\<rparr>)"
proof -
  have c: "unat (l2_compressed (s_lzma2 s) - of_nat n) = unat (l2_compressed (s_lzma2 s)) - n" using n sum by (intro unat_minus_nat) simp
  show "feed_step s b out (s1\<lparr>t_size := t_size s - of_nat n\<rparr>) b xs \<and> feed_prog s b (s1\<lparr>t_size := t_size s - of_nat n\<rparr>) b" if lt: "n < unat (t_size s)"
  proof
    have t: "unat (t_size s - of_nat n) = unat (t_size s) - n" using lt by (intro unat_minus_nat) simp
    show "feed_step s b out (s1\<lparr>t_size := t_size s - of_nat n\<rparr>) b xs"
      using inv b core buf lt c t
      by (auto simp: feed_step_def feed_inv_def avail_def s1_def buf_ok_def intro!: exI [of _ "in_pos b"])
    show "feed_prog s b (s1\<lparr>t_size := t_size s - of_nat n\<rparr>) b" using lim lt t by (auto simp: feed_prog_def avail_def s1_def)
  qed
  show "feed_step s b out (s1\<lparr>t_size := 0\<rparr>) (b\<lparr>in_pos := in_pos b + (n - unat (t_size s))\<rparr>) xs \<and>
      feed_prog s b (s1\<lparr>t_size := 0\<rparr>) (b\<lparr>in_pos := in_pos b + (n - unat (t_size s))\<rparr>)" if ge: "unat (t_size s) \<le> n"
  proof
    have p: "in_pos b + (n - unat (t_size s)) \<le> in_size b" "unat (l2_compressed (s_lzma2 s)) - n + (in_size b - in_pos b + unat (t_size s)) =
        unat (l2_compressed (s_lzma2 s)) + (in_size b - (in_pos b + (n - unat (t_size s))))"
      "0 < n \<Longrightarrow> in_size b - (in_pos b + (n - unat (t_size s))) < in_size b - in_pos b + unat (t_size s)"
      using n sum b ge by (auto simp: buf_ok_def)
    show "feed_step s b out (s1\<lparr>t_size := 0\<rparr>) (b\<lparr>in_pos := in_pos b + (n - unat (t_size s))\<rparr>) xs"
      using inv b core buf c p
      by (auto simp: feed_step_def feed_inv_def avail_def s1_def buf_ok_def intro!: exI [of _ "in_pos b + (n - unat (t_size s))"])
    show "feed_prog s b (s1\<lparr>t_size := 0\<rparr>) (b\<lparr>in_pos := in_pos b + (n - unat (t_size s))\<rparr>)"
      using lim p(3) by (auto simp: feed_prog_def avail_def s1_def)
  qed
qed

lemma lzma2_from_temp_ok:
  assumes inv: "feed_inv s out" and b: "buf_ok b" and cond: "t_size s > 0 \<or> l2_compressed (s_lzma2 s) = 0"
  shows "\<exists>r s' b'. lzma2_from_temp s b = Some (r, s', b') \<and> (r = Some False \<and> b' = b \<or>
    (r = Some True \<or> r = None \<and> t_size s' = 0) \<and> feed_prog s b s' b' \<and> (\<exists>xs. feed_step s b out s' b' xs))"
proof -
  define tmp where "tmp = temp_fill s (in_size b - in_pos b)"
  note ts = temp_sum [OF inv, of "in_size b - in_pos b", folded tmp_def]
  have len: "length (t_buf s) = 63" and t21: "unat (t_size s) < 21" using inv by (simp_all add: feed_inv_def)
  have bounds: "unat (t_size s) + unat tmp \<le> length (t_buf s)" "in_pos b + unat tmp \<le> length (b_in b)"
    using ts(2,3) len b by (auto simp: buf_ok_def)
  obtain buf where buf: "copy_array (t_buf s) (unat (t_size s)) (b_in b) (in_pos b) (unat tmp) = Some buf" "length buf = 63"
    by (rule copy_array_out [OF bounds]) (simp add: len)
  show ?thesis
  proof (cases "t_size s + tmp \<noteq> l2_compressed (s_lzma2 s) \<and> unat (t_size s + tmp) < 21")
    case True
    then show ?thesis using temp_early [OF inv b tmp_def, of buf] buf
      by (auto simp: lzma2_from_temp_def Let_def tmp_def [symmetric] LZMA_IN_REQUIRED_def)
  next
    case False
    obtain buf' limit where z: "temp_window s buf (t_size s + tmp) = Some (buf', limit)" "length buf' = 63" "limit + 21 \<le> length buf'"
    proof (cases "t_size s + tmp = l2_compressed (s_lzma2 s)")
      case True
      let ?n = "length buf - unat (t_size s + tmp)"
      have bounds': "unat (t_size s + tmp) + ?n \<le> length buf" "0 + ?n \<le> length (replicate ?n (0::u8))" using ts(1,2) buf(2) by simp_all
      obtain buf' where "copy_array buf (unat (t_size s + tmp)) (replicate ?n 0) 0 ?n = Some buf'" "length buf' = length buf"
        by (rule copy_array_out [OF bounds'])
      then show ?thesis using that True buf(2) ts(1,2) by (simp add: temp_window_def)
    next
      case False
      then show ?thesis using that buf(2) ts(1,2) by (simp add: temp_window_def LZMA_IN_REQUIRED_def)
    qed
    obtain ok core where m: "lzma_main ((s_core s)\<lparr>s_rc := (s_rc2 s)\<lparr>rc_in_limit := limit, rc_in := buf', rc_in_pos := 0\<rparr>\<rparr>) = Some (ok, core)"
      "ok \<longrightarrow> (\<exists>xs. core_ok core (out @ xs) \<and> dict_step (s_dict2 s) (s_dict core) (length xs) \<and> d_pos (s_dict core) \<le> d_limit (s_dict core) \<and>
        253952 \<le> unat (rc_range (s_rc core)) \<and> (d_pos (s_dict core) = d_limit (s_dict core) \<or> rc_in_pos (s_rc core) > limit))"
      using feed_main [OF inv z(3), of 0] by auto
    let ?s = "s\<lparr>t_buf := buf', s_core := core\<rparr>" and ?n = "rc_in_pos (s_rc core)"
    have eq: "lzma2_from_temp s b = (if \<not> ok \<or> ?n > unat (t_size s + tmp) then Some (Some False, ?s, b) else temp_finish ?s b)"
      using False by (auto simp: lzma2_from_temp_def tmp_def [symmetric] LZMA_IN_REQUIRED_def buf(1) z(1) m(1))
    show ?thesis
    proof (cases "\<not> ok \<or> ?n > unat (t_size s + tmp)")
      case True
      then show ?thesis using eq by auto
    next
      case ok: False
      then obtain xs where xs: "core_ok core (out @ xs)" "dict_step (s_dict2 s) (s_dict core) (length xs)" "d_pos (s_dict core) \<le> d_limit (s_dict core)"
        "253952 \<le> unat (rc_range (s_rc core))" "d_pos (s_dict core) = d_limit (s_dict core) \<or> 0 < ?n" using m(2) by fastforce
      have n: "?n \<le> unat (t_size s) + unat tmp" using ok ts(1) by simp
      note used = temp_used [OF inv b ts(4,3) xs(1-4) n xs(5)]
      show ?thesis
      proof (cases "?n < unat (t_size s)")
        case True
        have size: "unat (t_size s - of_nat ?n) = unat (t_size s) - ?n" using True by (intro unat_minus_nat) simp
        have bounds': "0 + unat (t_size s - of_nat ?n) \<le> length buf'" "?n + unat (t_size s - of_nat ?n) \<le> length buf'"
          using size t21 z(2) True by simp_all
        obtain buf2 where b2: "copy_array buf' 0 buf' ?n (unat (t_size s - of_nat ?n)) = Some buf2" "length buf2 = 63"
          by (rule copy_array_out [OF bounds']) (simp add: z(2))
        show ?thesis using eq ok True b2(1) used(1) [OF b2(2) True]
          by (intro exI [of _ "Some True"] exI) (auto simp: temp_finish_def set_compressed_def Let_def)
      next
        case False
        let ?z = "(s_lzma2 s)\<lparr>l2_compressed := l2_compressed (s_lzma2 s) - of_nat ?n\<rparr>"
        let ?s' = "s\<lparr>s_core := core, s_lzma2 := ?z, t_buf := buf', t_size := 0\<rparr>"
        have "lzma2_from_temp s b = Some (None, ?s', b\<lparr>in_pos := in_pos b + (?n - unat (t_size s))\<rparr>)"
          using eq ok False by (simp add: temp_finish_def set_compressed_def Let_def)
        then show ?thesis using used(2) [OF z(2)] False by (intro exI [of _ None] exI [of _ ?s'] exI) auto
      qed
    qed
  qed
qed

lemma lzma2_from_input_ok:
  assumes inv: "feed_inv s out" and b: "buf_ok b" and t: "t_size s = 0" and ge: "21 \<le> in_size b - in_pos b"
  shows "\<exists>ok s' b'. lzma2_from_input s b = Some (ok, s', b') \<and> (\<not> ok \<and> b' = b \<or>
    ok \<and> t_size s' = 0 \<and> feed_prog s b s' b' \<and> (\<exists>xs. feed_step s b out s' b' xs))"
proof -
  let ?c = "l2_compressed (s_lzma2 s)"
  define limit where "limit = input_limit s b"
  have c: "unat ?c \<le> 65536" using inv by (simp add: feed_inv_def)
  then have "unat (?c + 21) = unat ?c + 21" by (simp only: unat_word_ariths) simp
  then have lim: "limit + 21 \<le> length (b_in b)" "in_pos b \<le> limit + 20" "in_pos b \<le> limit" "limit + 21 \<le> in_size b"
    using ge b by (auto simp: limit_def input_limit_def LZMA_IN_REQUIRED_def buf_ok_def)
  obtain ok core where m: "lzma_main ((s_core s)\<lparr>s_rc := (s_rc2 s)\<lparr>rc_in_limit := limit, rc_in := b_in b, rc_in_pos := in_pos b\<rparr>\<rparr>) = Some (ok, core)"
    "ok \<longrightarrow> (\<exists>xs. core_ok core (out @ xs) \<and> dict_step (s_dict2 s) (s_dict core) (length xs) \<and> d_pos (s_dict core) \<le> d_limit (s_dict core) \<and>
      253952 \<le> unat (rc_range (s_rc core)) \<and> in_pos b \<le> rc_in_pos (s_rc core) \<and> rc_in_pos (s_rc core) \<le> limit + 21 \<and>
      (d_pos (s_dict core) = d_limit (s_dict core) \<or> rc_in_pos (s_rc core) > limit))"
    using feed_main [OF inv lim(1,2)] by blast
  define n where "n = rc_in_pos (s_rc core) - in_pos b"
  let ?s' = "s\<lparr>s_core := core, s_lzma2 := (s_lzma2 s)\<lparr>l2_compressed := ?c - of_nat n\<rparr>\<rparr>"
  have eq: "lzma2_from_input s b = (if \<not> ok \<or> n > unat ?c then Some (False, s\<lparr>s_core := core\<rparr>, b)
      else Some (True, ?s', b\<lparr>in_pos := rc_in_pos (s_rc core)\<rparr>))"
    using m(1) by (simp add: lzma2_from_input_def Let_def limit_def [symmetric] n_def [symmetric] set_compressed_def)
  show ?thesis
  proof (cases "\<not> ok \<or> n > unat ?c")
    case True
    then show ?thesis using eq by auto
  next
    case False
    then obtain xs where xs: "core_ok core (out @ xs)" "dict_step (s_dict2 s) (s_dict core) (length xs)" "d_pos (s_dict core) \<le> d_limit (s_dict core)"
      "253952 \<le> unat (rc_range (s_rc core))" "in_pos b \<le> rc_in_pos (s_rc core)" "rc_in_pos (s_rc core) \<le> in_size b"
      "d_pos (s_dict core) = d_limit (s_dict core) \<or> rc_in_pos (s_rc core) > in_pos b" using m(2) lim(3,4) by fastforce
    have n: "n \<le> unat ?c" "rc_in_pos (s_rc core) = in_pos b + n" using False xs(5) by (simp_all add: n_def)
    have uc: "unat (?c - of_nat n) = unat ?c - n" using n(1) by (rule unat_minus_nat)
    have "feed_step s b out ?s' (b\<lparr>in_pos := rc_in_pos (s_rc core)\<rparr>) xs"
      using inv xs(1-4,6) t uc n by (auto simp: feed_step_def feed_inv_def avail_def intro!: exI [of _ "rc_in_pos (s_rc core)"])
    moreover have "feed_prog s b ?s' (b\<lparr>in_pos := rc_in_pos (s_rc core)\<rparr>)" using xs(7) by (auto simp: feed_prog_def)
    ultimately show ?thesis using eq False t by auto
  qed
qed

lemma lzma2_save_ok:
  assumes inv: "feed_inv s out" and b: "buf_ok b" and t: "t_size s = 0"
  obtains s' b' where "lzma2_save s b = Some (s', b')" "feed_step s b out s' b' []"
    "in_size b - in_pos b < 21 \<Longrightarrow> 0 < l2_compressed (s_lzma2 s) \<Longrightarrow> feed_prog s b s' b'" "s_core s' = s_core s"
proof (cases "in_size b - in_pos b < 21")
  case True
  let ?c = "l2_compressed (s_lzma2 s)"
  define n where "n = (if in_size b - in_pos b > unat ?c then unat ?c else in_size b - in_pos b)"
  have n: "n < 21" "n \<le> unat ?c" "n \<le> in_size b - in_pos b" using True by (auto simp: n_def)
  have len: "length (t_buf s) = 63" using inv by (simp add: feed_inv_def)
  have bounds: "0 + n \<le> length (t_buf s)" "in_pos b + n \<le> length (b_in b)" using n len b by (auto simp: buf_ok_def)
  obtain buf where buf: "copy_array (t_buf s) 0 (b_in b) (in_pos b) n = Some buf" "length buf = 63"
    by (rule copy_array_out [OF bounds]) (simp add: len)
  have un: "unat (of_nat n :: u32) = n" using n(1) by (simp add: unat_of_nat32)
  let ?s' = "s\<lparr>t_buf := buf, t_size := of_nat n\<rparr>" and ?b' = "b\<lparr>in_pos := in_pos b + n\<rparr>"
  have "lzma2_save s b = Some (?s', ?b')"
    using True buf(1) by (simp add: lzma2_save_def LZMA_IN_REQUIRED_def Let_def n_def [symmetric])
  moreover have "feed_step s b out ?s' ?b' []"
    using inv b n t un buf(2) by (auto simp: feed_step_def feed_inv_def avail_def dict_step_def buf_ok_def intro!: exI [of _ "in_pos b + n"] exI [of _ ?c])
  moreover have "feed_prog s b ?s' ?b'" if "0 < ?c"
    using that un b by (cases "n = 0") (auto simp: feed_prog_def n_def word_less_nat_alt buf_ok_def split: if_splits)
  ultimately show ?thesis using that by simp
next
  case False
  then show ?thesis using that [of s b] feed_step_refl [OF inv b] by (simp add: lzma2_save_def LZMA_IN_REQUIRED_def)
qed

lemma feed_step_inv: "feed_step s b out s' b' xs \<Longrightarrow> buf_ok b \<Longrightarrow> feed_inv s' (out @ xs) \<and> buf_ok b'"
  by (auto simp: feed_step_def buf_ok_def)

text \<open>Progress is kept by what follows.\<close>

lemma feed_prog_before:
  assumes "feed_prog s b s1 b1" "feed_step s b out s1 b1 xs" "feed_step s1 b1 (out @ xs) s2 b2 ys"
    "in_pos b1 = in_size b1 \<Longrightarrow> t_size s1 < l2_compressed (s_lzma2 s1) \<Longrightarrow> feed_prog s1 b1 s2 b2"
  shows "feed_prog s b s2 b2"
proof -
  have le: "avail s1 b1 \<le> avail s b" "avail s2 b2 \<le> avail s1 b1" "in_pos b \<le> in_pos b1" "in_pos b1 \<le> in_pos b2"
    using assms(2,3) by (auto simp: feed_step_def)
  consider (used) "avail s1 b1 < avail s b" | (moved) "in_pos b < in_pos b1" | (full) "d_pos (s_dict2 s1) = d_limit (s_dict2 s1)"
    | (more) "in_pos b1 = in_size b1" "t_size s1 < l2_compressed (s_lzma2 s1)" using assms(1) by (auto simp: feed_prog_def)
  then show ?thesis
  proof cases
    case full
    then have "d_pos (s_dict2 s2) = d_limit (s_dict2 s2)" using assms(3) by (auto simp: feed_step_def dict_step_def feed_inv_def)
    then show ?thesis by (simp add: feed_prog_def)
  next
    case more
    then show ?thesis using assms(4) le by (auto simp: feed_prog_def)
  qed (use le in \<open>auto simp: feed_prog_def\<close>)
qed

lemma lzma2_tail_ok:
  assumes inv: "feed_inv s out" and b: "buf_ok b" and t: "t_size s = 0"
  shows "\<exists>ok s' b'. lzma2_tail s b = Some (ok, s', b') \<and> (\<not> ok \<and> b' = b \<or>
    ok \<and> (\<exists>xs. feed_step s b out s' b' xs) \<and> (0 < l2_compressed (s_lzma2 s) \<longrightarrow> feed_prog s b s' b'))"
proof (cases "21 \<le> in_size b - in_pos b")
  case True
  obtain ok s1 b1 where r: "lzma2_from_input s b = Some (ok, s1, b1)"
    "\<not> ok \<and> b1 = b \<or> ok \<and> t_size s1 = 0 \<and> feed_prog s b s1 b1 \<and> (\<exists>xs. feed_step s b out s1 b1 xs)"
    using lzma2_from_input_ok [OF inv b t True] by blast
  show ?thesis
  proof (cases ok)
    case False
    then show ?thesis using r True by (intro exI [of _ False] exI) (simp add: lzma2_tail_def LZMA_IN_REQUIRED_def)
  next
    case ok: True
    then obtain xs where xs: "t_size s1 = 0" "feed_prog s b s1 b1" "feed_step s b out s1 b1 xs" using r(2) by blast
    note i1 = feed_step_inv [OF xs(3) b]
    obtain s2 b2 where r2: "lzma2_save s1 b1 = Some (s2, b2)" "feed_step s1 b1 (out @ xs) s2 b2 []"
      "in_size b1 - in_pos b1 < 21 \<Longrightarrow> 0 < l2_compressed (s_lzma2 s1) \<Longrightarrow> feed_prog s1 b1 s2 b2"
      using lzma2_save_ok [of s1 "out @ xs" b1] i1 xs(1) by blast
    have "feed_prog s b s2 b2"
      by (rule feed_prog_before [OF xs(2,3) r2(2)]) (use r2(3) xs(1) in simp)
    moreover have "feed_step s b out s2 b2 (xs @ [])" by (rule feed_step_trans [OF xs(3) r2(2)])
    ultimately show ?thesis using True ok r(1) r2(1) by (auto simp: lzma2_tail_def LZMA_IN_REQUIRED_def)
  qed
next
  case False
  obtain s2 b2 where r2: "lzma2_save s b = Some (s2, b2)" "feed_step s b out s2 b2 []"
    "in_size b - in_pos b < 21 \<Longrightarrow> 0 < l2_compressed (s_lzma2 s) \<Longrightarrow> feed_prog s b s2 b2"
    using lzma2_save_ok [OF inv b t] by blast
  then show ?thesis using False by (auto simp: lzma2_tail_def LZMA_IN_REQUIRED_def)
qed

lemma lzma2_lzma_ok:
  assumes inv: "feed_inv s out" and b: "buf_ok b"
  shows "\<exists>ok s' b'. lzma2_lzma s b = Some (ok, s', b') \<and> (ok \<longrightarrow> (\<exists>xs. feed_step s b out s' b' xs) \<and> feed_prog s b s' b')
    \<and> (\<exists>p. b' = b\<lparr>in_pos := p\<rparr> \<and> in_pos b \<le> p \<and> p \<le> in_size b)"
proof -
  have id: "\<exists>p. b = b\<lparr>in_pos := p\<rparr> \<and> in_pos b \<le> p \<and> p \<le> in_size b" using b by (intro exI [of _ "in_pos b"]) (simp add: buf_ok_def)
  show ?thesis
  proof (cases "t_size s > 0 \<or> l2_compressed (s_lzma2 s) = 0")
    case False
    then have "t_size s = 0" "0 < l2_compressed (s_lzma2 s)" by (auto simp: word_gt_0)
    then show ?thesis using lzma2_tail_ok [OF inv b] False id by (fastforce simp: lzma2_lzma_def feed_step_def)
  next
    case True
    obtain r s1 b1 where r: "lzma2_from_temp s b = Some (r, s1, b1)" "r = Some False \<and> b1 = b \<or>
      (r = Some True \<or> r = None \<and> t_size s1 = 0) \<and> feed_prog s b s1 b1 \<and> (\<exists>xs. feed_step s b out s1 b1 xs)"
      using lzma2_from_temp_ok [OF inv b True] by blast
    show ?thesis
    proof (cases r)
      case (Some ok)
      then show ?thesis using r True id by (cases ok) (auto simp: lzma2_lzma_def feed_step_def)
    next
      case None
      then obtain xs where xs: "t_size s1 = 0" "feed_prog s b s1 b1" "feed_step s b out s1 b1 xs" using r(2) by auto
      have i1: "feed_inv s1 (out @ xs)" "buf_ok b1" using feed_step_inv [OF xs(3) b] by simp_all
      obtain ok s2 b2 where r2: "lzma2_tail s1 b1 = Some (ok, s2, b2)" "\<not> ok \<and> b2 = b1 \<or>
        ok \<and> (\<exists>ys. feed_step s1 b1 (out @ xs) s2 b2 ys) \<and> (0 < l2_compressed (s_lzma2 s1) \<longrightarrow> feed_prog s1 b1 s2 b2)"
        using lzma2_tail_ok [OF i1 xs(1)] by blast
      have eq: "lzma2_lzma s b = Some (ok, s2, b2)" using True r(1) None r2(1) by (simp add: lzma2_lzma_def)
      show ?thesis
      proof (cases ok)
        case False
        then show ?thesis using eq r2(2) xs(3) by (auto simp: feed_step_def)
      next
        case True
        then obtain ys where ys: "feed_step s1 b1 (out @ xs) s2 b2 ys" using r2(2) by blast
        have "feed_prog s b s2 b2"
          by (rule feed_prog_before [OF xs(2,3) ys]) (use True r2(2) xs(1) in simp)
        moreover note feed_step_trans [OF xs(3) ys]
        moreover from this have "\<exists>p. b2 = b\<lparr>in_pos := p\<rparr> \<and> in_pos b \<le> p \<and> p \<le> in_size b" by (auto simp: feed_step_def)
        ultimately show ?thesis using eq by blast
      qed
    qed
  qed
qed

end
