(* ===== verification/Xz_Chunks.thy ===== *)
theory Xz_Chunks
  imports Xz_Lzma2
begin

text \<open>
  The invariant of the LZMA2 decoder between calls, its preservation by every case of the state machine, and the
  measure that makes \<open>xz_dec_lzma2_run\<close> return: input left, then output left in the chunk, then input not yet moved
  to \<open>temp\<close>.
\<close>

section \<open>The invariant\<close>

fun header_seq :: "lzma2_seq \<Rightarrow> bool" where
  "header_seq SEQ_UNCOMPRESSED_1 = True"
| "header_seq SEQ_UNCOMPRESSED_2 = True"
| "header_seq SEQ_COMPRESSED_0 = True"
| "header_seq SEQ_COMPRESSED_1 = True"
| "header_seq _ = False"

text \<open>The LZMA state has been reset after the last dictionary reset.\<close>

definition live :: "lzma2_dec \<Rightarrow> bool" where
  "live z \<longleftrightarrow> \<not> need_dict_reset z \<and> \<not> need_props z \<and> l2_sequence z \<noteq> SEQ_PROPERTIES \<and>
    \<not> (header_seq (l2_sequence z) \<and> next_sequence z = SEQ_PROPERTIES)"

definition lzma_live :: "lzma_core \<Rightarrow> bool" where
  "lzma_live c \<longleftrightarrow> tables_ok (s_lzma c) \<and> params_ok (s_lzma c) \<and> 253952 \<le> unat (rc_range (s_rc c)) \<and>
    (\<not> lzma_state_is_literal (lz_state (s_lzma c)) \<longrightarrow> unat (rep0 (s_lzma c)) < d_full (s_dict c))"

definition next_lzma :: "lzma2_dec \<Rightarrow> bool" where
  "next_lzma z \<longleftrightarrow> (next_sequence z = SEQ_PROPERTIES \<or> next_sequence z = SEQ_LZMA_PREPARE) \<and> \<not> need_props z"

definition size_range :: "nat \<Rightarrow> u32 \<Rightarrow> bool" where
  "size_range m n \<longleftrightarrow> 0 < unat n \<and> unat n \<le> m"

fun chunk_ok :: "lzma2_seq \<Rightarrow> lzma2_dec \<Rightarrow> bool" where
  "chunk_ok SEQ_CONTROL z = True"
| "chunk_ok SEQ_UNCOMPRESSED_1 z = (next_lzma z \<and> unat (l2_uncompressed z) \<le> 0x1F0000)"
| "chunk_ok SEQ_UNCOMPRESSED_2 z = (next_lzma z \<and> unat (l2_uncompressed z) \<le> 0x1FFF00)"
| "chunk_ok SEQ_COMPRESSED_0 z = (next_sequence z = SEQ_COPY \<or> next_lzma z \<and> size_range 0x200000 (l2_uncompressed z))"
| "chunk_ok SEQ_COMPRESSED_1 z =
    ((next_sequence z = SEQ_COPY \<or> next_lzma z \<and> size_range 0x200000 (l2_uncompressed z)) \<and> unat (l2_compressed z) \<le> 0xFF00)"
| "chunk_ok SEQ_PROPERTIES z =
    (\<not> need_props z \<and> size_range 0x200000 (l2_uncompressed z) \<and> size_range 0x10000 (l2_compressed z))"
| "chunk_ok SEQ_LZMA_PREPARE z =
    (\<not> need_props z \<and> size_range 0x200000 (l2_uncompressed z) \<and> size_range 0x10000 (l2_compressed z))"
| "chunk_ok SEQ_LZMA_RUN z =
    (\<not> need_props z \<and> size_range 0x200000 (l2_uncompressed z) \<and> unat (l2_compressed z) \<le> 0x10000)"
| "chunk_ok SEQ_COPY z = size_range 0x10000 (l2_compressed z)"

definition room_ok :: "dictionary \<Rightarrow> bool" where
  "room_ok d \<longleftrightarrow> 0 < d_end d \<and> d_end d \<le> length (d_buf d) \<and> d_end d = unat (d_size d)"

definition lzma2_inv :: "xz_dec_lzma2 \<Rightarrow> u8 list \<Rightarrow> bool" where
  "lzma2_inv s out \<longleftrightarrow> length (t_buf s) = 63 \<and> room_ok (s_dict2 s) \<and> chunk_ok (l2_sequence (s_lzma2 s)) (s_lzma2 s) \<and>
    (need_dict_reset (s_lzma2 s) \<longrightarrow> l2_sequence (s_lzma2 s) = SEQ_CONTROL) \<and>
    (\<not> need_dict_reset (s_lzma2 s) \<longrightarrow> dict_rep (s_dict2 s) out \<and> dict_idle (s_dict2 s)) \<and>
    (live (s_lzma2 s) \<longrightarrow> lzma_live (s_core s)) \<and>
    (if l2_sequence (s_lzma2 s) = SEQ_LZMA_RUN then unat (t_size s) < 21 \<and> unat (t_size s) \<le> unat (l2_compressed (s_lzma2 s))
     else t_size s = 0)"

section \<open>Progress\<close>

definition lex3 :: "((nat \<times> nat \<times> nat) \<times> (nat \<times> nat \<times> nat)) set" where
  "lex3 = less_than <*lex*> less_than <*lex*> less_than"

definition prog3 :: "xz_dec_lzma2 \<Rightarrow> xz_buf \<Rightarrow> nat \<times> nat \<times> nat" where
  "prog3 s b = (avail s b, unat (l2_uncompressed (s_lzma2 s)), in_size b - in_pos b)"

definition prog_lt :: "xz_dec_lzma2 \<Rightarrow> xz_buf \<Rightarrow> xz_dec_lzma2 \<Rightarrow> xz_buf \<Rightarrow> bool" where
  "prog_lt s b s' b' \<longleftrightarrow> (prog3 s' b', prog3 s b) \<in> lex3"

definition prog_le :: "xz_dec_lzma2 \<Rightarrow> xz_buf \<Rightarrow> xz_dec_lzma2 \<Rightarrow> xz_buf \<Rightarrow> bool" where
  "prog_le s b s' b' \<longleftrightarrow> prog_lt s b s' b' \<or> prog3 s' b' = prog3 s b \<and> in_pos b' = in_pos b \<and> out_pos b' = out_pos b"

definition buf_step :: "xz_buf \<Rightarrow> xz_buf \<Rightarrow> bool" where
  "buf_step b b' \<longleftrightarrow> buf_ok b' \<and> b_in b' = b_in b \<and> in_size b' = in_size b \<and> out_size b' = out_size b \<and>
    length (b_out b') = length (b_out b) \<and> in_pos b \<le> in_pos b' \<and> out_pos b \<le> out_pos b' \<and> take (out_pos b) (b_out b') = written b"

lemma wf_lex3: "wf lex3"
  by (simp add: lex3_def wf_lex_prod)

lemma lex3_trans: "(x, y) \<in> lex3 \<Longrightarrow> (y, z) \<in> lex3 \<Longrightarrow> (x, z) \<in> lex3"
  unfolding lex3_def by (auto simp: lex_prod_def)

lemma lex3I: "a' \<le> a \<Longrightarrow> b' \<le> b \<Longrightarrow> c' \<le> c \<Longrightarrow> a' < a \<or> b' < b \<or> c' < c \<Longrightarrow> ((a', b', c'), (a, b, c)) \<in> lex3"
  by (auto simp: lex3_def)

lemma lex3_first: "a' < a \<Longrightarrow> ((a', b', c'), (a, b, c)) \<in> lex3"
  by (simp add: lex3_def)

lemma prog_lt_trans: "prog_lt s b s' b' \<Longrightarrow> prog_lt s' b' s'' b'' \<Longrightarrow> prog_lt s b s'' b''"
  unfolding prog_lt_def by (rule lex3_trans)

lemma prog_le_lt: "prog_le s b s' b' \<Longrightarrow> prog_lt s' b' s'' b'' \<Longrightarrow> prog_lt s b s'' b''"
  unfolding prog_le_def prog_lt_def by (metis lex3_trans)

lemma prog_lt_le: "prog_lt s b s' b' \<Longrightarrow> prog_le s' b' s'' b'' \<Longrightarrow> prog_lt s b s'' b''"
  unfolding prog_le_def prog_lt_def by (metis lex3_trans)

lemma prog_le_trans: "prog_le s b s' b' \<Longrightarrow> prog_le s' b' s'' b'' \<Longrightarrow> prog_le s b s'' b''"
  unfolding prog_le_def prog_lt_def by (metis lex3_trans)

lemma prog_lt_imp_le: "prog_lt s b s' b' \<Longrightarrow> prog_le s b s' b'"
  by (simp add: prog_le_def)

lemma prog_le_refl: "prog_le s b s b"
  by (simp add: prog_le_def)

lemma buf_step_refl: "buf_ok b \<Longrightarrow> buf_step b b"
  by (simp add: buf_step_def written_def)

lemma buf_step_trans: "buf_step b b' \<Longrightarrow> buf_step b' b'' \<Longrightarrow> buf_step b b''"
  unfolding buf_step_def written_def by (metis min.absorb1 order_trans take_take)

lemma buf_step_ok: "buf_step b b' \<Longrightarrow> buf_ok b'"
  by (simp add: buf_step_def)

lemma buf_step_in: "buf_ok b \<Longrightarrow> in_pos b + n \<le> in_size b \<Longrightarrow> buf_step b (b\<lparr>in_pos := in_pos b + n\<rparr>)"
  by (simp add: buf_step_def buf_ok_def written_def)

text \<open>The input moved by \<open>n\<close> bytes, the decoder used none of what it held.\<close>

lemma prog_in:
  assumes "in_pos b + n \<le> in_size b" "t_size s' = t_size s" "n = 0 \<Longrightarrow> l2_uncompressed (s_lzma2 s') = l2_uncompressed (s_lzma2 s)"
  shows "prog_le s b s' (b\<lparr>in_pos := in_pos b + n\<rparr>)" "0 < n \<Longrightarrow> prog_lt s b s' (b\<lparr>in_pos := in_pos b + n\<rparr>)"
proof -
  show lt: "prog_lt s b s' (b\<lparr>in_pos := in_pos b + n\<rparr>)" if "0 < n"
    unfolding prog_lt_def prog3_def using assms(1,2) that by (intro lex3_first) (simp add: avail_def)
  show "prog_le s b s' (b\<lparr>in_pos := in_pos b + n\<rparr>)"
    using lt assms(2,3) by (cases "n = 0") (auto simp: prog_le_def prog3_def avail_def)
qed

section \<open>The cases of the state machine\<close>

text \<open>What a case guarantees: the buffers stay in bounds; where it goes on or returns without rejecting the data, the invariant holds
  again; where it goes on, the measure is smaller.\<close>

definition case_ok :: "xz_dec_lzma2 \<Rightarrow> xz_buf \<Rightarrow> (xz_ret option \<times> xz_dec_lzma2 \<times> xz_buf) option \<Rightarrow> bool" where
  "case_ok s b res \<longleftrightarrow> (\<exists>r s' b'. res = Some (r, s', b') \<and> buf_step b b' \<and>
    (r = Some XZ_DATA_ERROR \<or> (\<exists>out. lzma2_inv s' out) \<and> dict_same (s_dict2 s) (s_dict2 s') \<and> allocs s' = allocs s \<and>
      (r = None \<and> prog_lt s b s' b' \<or> r = Some XZ_OK \<and> prog_le s b s' b' \<or>
       r = Some XZ_STREAM_END \<and> prog_lt s b s' b' \<and> l2_sequence (s_lzma2 s') = SEQ_CONTROL)))"

lemma case_ok_error: "buf_ok b \<Longrightarrow> buf_step b b' \<Longrightarrow> case_ok s b (Some (Some XZ_DATA_ERROR, s', b'))"
  by (simp add: case_ok_def)

lemma case_ok_next:
  "buf_step b b' \<Longrightarrow> lzma2_inv s' out \<Longrightarrow> dict_same (s_dict2 s) (s_dict2 s') \<Longrightarrow> allocs s' = allocs s \<Longrightarrow> prog_lt s b s' b' \<Longrightarrow>
    case_ok s b (Some (None, s', b'))"
  by (auto simp: case_ok_def)

text \<open>A case that falls through.\<close>

lemma case_ok_after:
  assumes "case_ok s1 b1 res" "buf_step b b1" "prog_le s b s1 b1" "dict_same (s_dict2 s) (s_dict2 s1)" "allocs s1 = allocs s"
  shows "case_ok s b res"
proof -
  obtain r s' b' where r: "res = Some (r, s', b')" "buf_step b1 b'"
    "r = Some XZ_DATA_ERROR \<or> (\<exists>out. lzma2_inv s' out) \<and> dict_same (s_dict2 s1) (s_dict2 s') \<and> allocs s' = allocs s1 \<and>
      (r = None \<and> prog_lt s1 b1 s' b' \<or> r = Some XZ_OK \<and> prog_le s1 b1 s' b' \<or>
       r = Some XZ_STREAM_END \<and> prog_lt s1 b1 s' b' \<and> l2_sequence (s_lzma2 s') = SEQ_CONTROL)"
    using assms(1) by (auto simp: case_ok_def)
  then show ?thesis
    using buf_step_trans [OF assms(2) r(2)] dict_same_trans [OF assms(4)] prog_le_lt [OF assms(3)] prog_le_trans [OF assms(3)] assms(5)
    unfolding case_ok_def by auto
qed

lemma next_byte_ok:
  assumes "buf_ok b" "in_pos b < in_size b"
  shows "next_byte b = Some (b_in b ! in_pos b, b\<lparr>in_pos := in_pos b + 1\<rparr>)"
  using assms by (simp add: next_byte_def buf_ok_def)

text \<open>A case that reads one byte and goes on.\<close>

lemma case_ok_byte:
  assumes "buf_ok b" "in_pos b < in_size b" "lzma2_inv s' out" "dict_same (s_dict2 s) (s_dict2 s')" "allocs s' = allocs s" "t_size s' = t_size s"
  shows "case_ok s b (Some (None, s', b\<lparr>in_pos := in_pos b + 1\<rparr>))"
proof -
  have le: "in_pos b + 1 \<le> in_size b" using assms(2) by simp
  show ?thesis by (rule case_ok_next [OF buf_step_in [OF assms(1) le] assms(3-5)]) (use prog_in(2) [OF le assms(6)] in simp)
qed

lemma dict_reset_ok: "room_ok d \<Longrightarrow> dict_rep (dict_reset d) [] \<and> dict_idle (dict_reset d) \<and> dict_same d (dict_reset d) \<and> room_ok (dict_reset d)"
  by (simp add: room_ok_def dict_reset_def dict_rep_def dict_inv_def dict_idle_def dict_same_def hist_def)

lemma unat_minus_1 [simp]: "unat (- 1 :: u32) = 4294967295"
  by (simp add: unsigned_minus_1_eq_mask mask_eq_exp_minus_1)

lemma lzma_live_reset: "params_ok (s_lzma c) \<Longrightarrow> lzma_live (lzma_reset c)"
  by (simp add: lzma_live_def lzma_reset_ok lzma_state_is_literal_def LIT_STATES_def rc_reset_def)

lemma uncompressed_top: "unat (push_bit 16 (x AND 0x1F) :: u32) \<le> 0x1F0000"
proof -
  have "unat (x AND 0x1F) \<le> unat (0x1F :: u32)" using word_and_le1 [of x "0x1F"] by (simp only: word_le_nat_alt)
  then have "unat (x AND 0x1F) \<le> 31" by simp
  then show ?thesis by (simp only: unsigned_push_bit_eq) (simp add: push_bit_eq_mult take_bit_nat_eq_self)
qed

lemma unat_byte_sum:
  fixes x :: u32 and c :: u8
  assumes "unat x \<le> 0x1FFFFF"
  shows "unat (x + push_bit 8 (ucast c)) \<le> unat x + 0xFF00" "unat (x + (ucast c + 1)) = unat x + unat c + 1" "unat (push_bit 8 (ucast c) :: u32) \<le> 0xFF00"
proof -
  have "unat c < 256" by (rule order_less_le_trans [OF unsigned_less]) simp
  then have c: "unat (ucast c :: u32) < 256" "unat (ucast c :: u32) = unat c" by (simp_all add: unsigned_ucast_eq take_bit_nat_eq_self)
  show p: "unat (push_bit 8 (ucast c) :: u32) \<le> 0xFF00"
    using c(1) by (simp only: unsigned_push_bit_eq) (simp add: push_bit_eq_mult take_bit_nat_eq_self)
  show "unat (x + push_bit 8 (ucast c)) \<le> unat x + 0xFF00" using p assms by (simp only: unat_word_ariths) simp
  show "unat (x + (ucast c + 1)) = unat x + unat c + 1" using c assms by (simp only: unat_word_ariths) simp
qed

lemma run_control_ok:
  assumes inv: "lzma2_inv s out" and q: "l2_sequence (s_lzma2 s) = SEQ_CONTROL" and b: "buf_ok b" "in_pos b < in_size b"
  shows "case_ok s b (run_control s b)"
proof -
  define c where "c = b_in b ! in_pos b"
  define tmp :: u32 where "tmp = ucast c"
  define rst where "rst \<longleftrightarrow> tmp \<ge> 0xE0 \<or> tmp = 1"
  let ?b = "b\<lparr>in_pos := in_pos b + 1\<rparr>"
  have t: "t_size s = 0" "room_ok (s_dict2 s)" "length (t_buf s) = 63" using inv q by (simp_all add: lzma2_inv_def)
  have bs: "buf_step b ?b" using buf_step_in [OF b(1), of 1] b(2) by simp
  define s1 where "s1 = (if rst then set_dict (s\<lparr>s_lzma2 := (s_lzma2 s)\<lparr>need_props := True, need_dict_reset := False\<rparr>\<rparr>) (dict_reset (s_dict2 s)) else s)"
  have eq: "run_control s b = (if tmp = 0 then Some (Some XZ_STREAM_END, s, ?b)
      else if \<not> rst \<and> need_dict_reset (s_lzma2 s) then Some (Some XZ_DATA_ERROR, s, ?b)
      else if tmp \<ge> 0x80 then
        if tmp \<ge> 0xC0 then Some (None, s1\<lparr>s_lzma2 := (s_lzma2 s1)\<lparr>l2_uncompressed := push_bit 16 (tmp AND 0x1F), l2_sequence := SEQ_UNCOMPRESSED_1,
            need_props := False, next_sequence := SEQ_PROPERTIES\<rparr>\<rparr>, ?b)
        else if need_props (s_lzma2 s1) then Some (Some XZ_DATA_ERROR, set_seq (set_uncompressed s1 (push_bit 16 (tmp AND 0x1F))) SEQ_UNCOMPRESSED_1, ?b)
        else Some (None, (let s = s1\<lparr>s_lzma2 := (s_lzma2 s1)\<lparr>l2_uncompressed := push_bit 16 (tmp AND 0x1F), l2_sequence := SEQ_UNCOMPRESSED_1,
            next_sequence := SEQ_LZMA_PREPARE\<rparr>\<rparr> in if tmp \<ge> 0xA0 then s\<lparr>s_core := lzma_reset (s_core s)\<rparr> else s), ?b)
      else if tmp > 2 then Some (Some XZ_DATA_ERROR, s1, ?b)
      else Some (None, s1\<lparr>s_lzma2 := (s_lzma2 s1)\<lparr>l2_sequence := SEQ_COMPRESSED_0, next_sequence := SEQ_COPY\<rparr>\<rparr>, ?b))"
    unfolding run_control_def next_byte_ok [OF b] Option.bind.simps prod.case c_def [symmetric] Let_def
      tmp_def [symmetric] rst_def [symmetric] s1_def [symmetric]
    by (simp add: set_seq_def set_uncompressed_def)
  have same: "dict_same (s_dict2 s) (s_dict2 s1)" "allocs s1 = allocs s" "t_size s1 = 0" "length (t_buf s1) = 63" "room_ok (s_dict2 s1)"
    using t dict_reset_ok [OF t(2)] by (auto simp: s1_def set_dict_def)
  show ?thesis
  proof (cases "tmp = 0 \<or> \<not> rst \<and> need_dict_reset (s_lzma2 s)")
    case True
    have "prog_lt s b s ?b" using prog_in(2) [of b 1 s s] b(2) by simp
    then show ?thesis using True eq bs inv q b(1) by (auto simp: case_ok_def)
  next
    case False
    then have n1: "\<not> need_dict_reset (s_lzma2 s1)" by (auto simp: s1_def set_dict_def)
    obtain out1 where d1: "dict_rep (s_dict2 s1) out1" "dict_idle (s_dict2 s1)"
    proof (cases rst)
      case True
      then show ?thesis using that [of "[]"] dict_reset_ok [OF t(2)] by (simp add: s1_def set_dict_def)
    next
      case nr: False
      then show ?thesis using that [of out] inv False by (simp add: s1_def lzma2_inv_def)
    qed
    have live1: "lzma_live (s_core s1)" if "\<not> need_props (s_lzma2 s1)"
      using that inv q False by (cases rst) (auto simp: s1_def set_dict_def lzma2_inv_def live_def)
    have ok: "case_ok s b (Some (None, s2, ?b))" if "lzma2_inv s2 out1" "s_dict2 s2 = s_dict2 s1" "allocs s2 = allocs s1" "t_size s2 = 0" for s2
      using case_ok_byte [OF b that(1)] that(2-4) same t(1) by simp
    have inv2: "lzma2_inv (s1\<lparr>s_lzma2 := z, s_core := c\<rparr>) out1"
      if "s_dict c = s_dict2 s1" "chunk_ok (l2_sequence z) z" "\<not> need_dict_reset z" "l2_sequence z \<noteq> SEQ_LZMA_RUN" "live z \<longrightarrow> lzma_live c" for z c
      using that same d1 by (simp add: lzma2_inv_def)
    consider (err) "\<not> tmp \<ge> 0xC0 \<and> tmp \<ge> 0x80 \<and> need_props (s_lzma2 s1) \<or> \<not> tmp \<ge> 0x80 \<and> tmp > 2"
      | (props) "tmp \<ge> 0x80" "tmp \<ge> 0xC0"
      | (lzma) "tmp \<ge> 0x80" "\<not> tmp \<ge> 0xC0" "\<not> need_props (s_lzma2 s1)" | (copy) "\<not> tmp \<ge> 0x80" "\<not> tmp > 2"
      by blast
    then show ?thesis
    proof cases
      case err
      then show ?thesis using False eq case_ok_error [OF b(1) bs] by auto
    next
      case props
      let ?z = "(s_lzma2 s1)\<lparr>l2_uncompressed := push_bit 16 (tmp AND 0x1F), l2_sequence := SEQ_UNCOMPRESSED_1, need_props := False, next_sequence := SEQ_PROPERTIES\<rparr>"
      have "lzma2_inv (s1\<lparr>s_lzma2 := ?z, s_core := s_core s1\<rparr>) out1"
        by (rule inv2) (use n1 uncompressed_top in \<open>simp_all add: next_lzma_def live_def\<close>)
      then show ?thesis using False props eq ok [of "s1\<lparr>s_lzma2 := ?z\<rparr>"] same(3) by auto
    next
      case lzma
      let ?z = "(s_lzma2 s1)\<lparr>l2_uncompressed := push_bit 16 (tmp AND 0x1F), l2_sequence := SEQ_UNCOMPRESSED_1, next_sequence := SEQ_LZMA_PREPARE\<rparr>"
      let ?c = "if tmp \<ge> 0xA0 then lzma_reset (s_core s1) else s_core s1"
      have "lzma_live ?c" using live1 [OF lzma(3)] lzma_live_reset [of "s_core s1"] by (simp add: lzma_live_def)
      then have "lzma2_inv (s1\<lparr>s_lzma2 := ?z, s_core := ?c\<rparr>) out1"
        by (intro inv2) (use n1 lzma(3) uncompressed_top in \<open>simp_all add: next_lzma_def lzma_reset_ok\<close>)
      then show ?thesis using False lzma eq ok [of "s1\<lparr>s_lzma2 := ?z, s_core := ?c\<rparr>"] same(3)
        by (cases "tmp \<ge> 0xA0") (auto simp: Let_def lzma_reset_ok)
    next
      case copy
      let ?z = "(s_lzma2 s1)\<lparr>l2_sequence := SEQ_COMPRESSED_0, next_sequence := SEQ_COPY\<rparr>"
      have "lzma2_inv (s1\<lparr>s_lzma2 := ?z, s_core := s_core s1\<rparr>) out1"
        by (rule inv2) (use n1 live1 in \<open>simp_all add: live_def\<close>)
      then show ?thesis using False copy eq ok [of "s1\<lparr>s_lzma2 := ?z\<rparr>"] same(3) by auto
    qed
  qed
qed

text \<open>The four cases that read a size byte change only the sequence and the sizes.\<close>

lemma sizes_ok:
  assumes inv: "lzma2_inv s out" and q: "header_seq (l2_sequence (s_lzma2 s))" and b: "buf_ok b" "in_pos b < in_size b"
    and z: "chunk_ok (l2_sequence z) z" "l2_sequence z \<noteq> SEQ_LZMA_RUN" "l2_sequence z \<noteq> SEQ_CONTROL" "need_dict_reset z = need_dict_reset (s_lzma2 s)"
      "live z \<longrightarrow> live (s_lzma2 s)"
  shows "case_ok s b (Some (None, s\<lparr>s_lzma2 := z\<rparr>, b\<lparr>in_pos := in_pos b + 1\<rparr>))"
proof -
  have t: "t_size s = 0" "\<not> need_dict_reset (s_lzma2 s)" using inv q by (auto simp: lzma2_inv_def split: if_splits)
  have "lzma2_inv (s\<lparr>s_lzma2 := z\<rparr>) out" using inv t z by (auto simp: lzma2_inv_def)
  then show ?thesis using b t by (intro case_ok_byte) simp_all
qed

lemma run_sizes_ok:
  assumes inv: "lzma2_inv s out" and b: "buf_ok b" "in_pos b < in_size b"
  shows "l2_sequence (s_lzma2 s) = SEQ_UNCOMPRESSED_1 \<Longrightarrow> case_ok s b (run_uncompressed_1 s b)"
    "l2_sequence (s_lzma2 s) = SEQ_UNCOMPRESSED_2 \<Longrightarrow> case_ok s b (run_uncompressed_2 s b)"
    "l2_sequence (s_lzma2 s) = SEQ_COMPRESSED_0 \<Longrightarrow> case_ok s b (run_compressed_0 s b)"
    "l2_sequence (s_lzma2 s) = SEQ_COMPRESSED_1 \<Longrightarrow> case_ok s b (run_compressed_1 s b)"
proof -
  let ?c = "b_in b ! in_pos b" and ?z = "s_lzma2 s"
  have c: "unat ?c < 256" by (rule order_less_le_trans [OF unsigned_less]) simp
  have ok: "chunk_ok (l2_sequence ?z) ?z" using inv by (simp add: lzma2_inv_def)
  note nb = next_byte_ok [OF b]
  show "case_ok s b (run_uncompressed_1 s b)" if q: "l2_sequence ?z = SEQ_UNCOMPRESSED_1"
  proof -
    have "case_ok s b (Some (None, s\<lparr>s_lzma2 := ?z\<lparr>l2_uncompressed := l2_uncompressed ?z + push_bit 8 (ucast ?c), l2_sequence := SEQ_UNCOMPRESSED_2\<rparr>\<rparr>,
        b\<lparr>in_pos := in_pos b + 1\<rparr>))"
      using ok q unat_byte_sum(1) [of "l2_uncompressed ?z" ?c] by (intro sizes_ok [OF inv _ b]) (auto simp: next_lzma_def live_def)
    then show ?thesis by (simp add: run_uncompressed_1_def nb setters)
  qed
  show "case_ok s b (run_uncompressed_2 s b)" if q: "l2_sequence ?z = SEQ_UNCOMPRESSED_2"
  proof -
    have "case_ok s b (Some (None, s\<lparr>s_lzma2 := ?z\<lparr>l2_uncompressed := l2_uncompressed ?z + (ucast ?c + 1), l2_sequence := SEQ_COMPRESSED_0\<rparr>\<rparr>,
        b\<lparr>in_pos := in_pos b + 1\<rparr>))"
      using ok q c unat_byte_sum(2) [of "l2_uncompressed ?z" ?c] by (intro sizes_ok [OF inv _ b]) (auto simp: next_lzma_def live_def size_range_def)
    then show ?thesis by (simp add: run_uncompressed_2_def nb setters)
  qed
  show "case_ok s b (run_compressed_0 s b)" if q: "l2_sequence ?z = SEQ_COMPRESSED_0"
  proof -
    have "case_ok s b (Some (None, s\<lparr>s_lzma2 := ?z\<lparr>l2_compressed := push_bit 8 (ucast ?c), l2_sequence := SEQ_COMPRESSED_1\<rparr>\<rparr>,
        b\<lparr>in_pos := in_pos b + 1\<rparr>))"
      using ok q unat_byte_sum(3) [of 0 ?c] by (intro sizes_ok [OF inv _ b]) (auto simp: next_lzma_def live_def)
    then show ?thesis by (simp add: run_compressed_0_def nb setters)
  qed
  show "case_ok s b (run_compressed_1 s b)" if q: "l2_sequence ?z = SEQ_COMPRESSED_1"
  proof -
    have "case_ok s b (Some (None, s\<lparr>s_lzma2 := ?z\<lparr>l2_compressed := l2_compressed ?z + (ucast ?c + 1), l2_sequence := next_sequence ?z\<rparr>\<rparr>,
        b\<lparr>in_pos := in_pos b + 1\<rparr>))"
      using ok q c unat_byte_sum(2) [of "l2_compressed ?z" ?c] by (intro sizes_ok [OF inv _ b]) (auto simp: next_lzma_def live_def size_range_def)
    then show ?thesis by (simp add: run_compressed_1_def nb setters)
  qed
qed

lemma full_mono:
  assumes "dict_rep d out" "dict_rep d' (out @ xs)" "dict_same d d'"
  shows "d_full d \<le> d_full d'"
  using dict_rep_full [OF assms(1)] dict_rep_full [OF assms(2)] assms(3) by (simp add: dict_same_def)

lemma room_same: "room_ok d \<Longrightarrow> dict_same d d' \<Longrightarrow> room_ok d'"
  by (auto simp: room_ok_def dict_same_def)

text \<open>Stored data.\<close>

lemma run_copy_ok:
  assumes inv: "lzma2_inv s out" and q: "l2_sequence (s_lzma2 s) = SEQ_COPY" and b: "buf_ok b"
  shows "case_ok s b (run_copy s b)"
proof -
  let ?c = "l2_compressed (s_lzma2 s)"
  have i: "dict_rep (s_dict2 s) out" "dict_idle (s_dict2 s)" "t_size s = 0" "size_range 0x10000 ?c" "length (t_buf s) = 63" "room_ok (s_dict2 s)"
    "\<not> need_dict_reset (s_lzma2 s)" using inv q by (auto simp: lzma2_inv_def)
  define n where "n = min (unat ?c) (min (in_size b - in_pos b) (out_size b - out_pos b))"
  obtain d' o' where r: "dict_uncompressed (s_dict2 s) b ?c =
      Some (d', b\<lparr>b_out := o', out_pos := out_pos b + n, in_pos := in_pos b + n\<rparr>, ?c - of_nat n)"
    "dict_rep d' (out @ take n (drop (in_pos b) (b_in b)))" "dict_idle d'" "dict_same (s_dict2 s) d'"
    "length o' = length (b_out b)" "take (out_pos b + n) o' = written b @ take n (drop (in_pos b) (b_in b))"
    using dict_uncompressed_ok [OF i(1,2) b, of ?c] unfolding n_def [symmetric] by blast
  let ?b' = "b\<lparr>b_out := o', out_pos := out_pos b + n, in_pos := in_pos b + n\<rparr>"
  have n: "n \<le> unat ?c" "in_pos b + n \<le> in_size b" "out_pos b + n \<le> out_size b" using b by (auto simp: n_def buf_ok_def)
  have uc: "unat (?c - of_nat n) = unat ?c - n" using n(1) by (rule unat_minus_nat)
  have "take (out_pos b) o' = take (out_pos b) (take (out_pos b + n) o')" by simp
  also have "\<dots> = written b" using b unfolding r(6) by (simp add: written_def buf_ok_def)
  finally have w: "take (out_pos b) o' = written b" .
  have bs: "buf_step b ?b'" using b n w r(5) by (simp add: buf_step_def buf_ok_def)
  define s' where "s' = s\<lparr>s_core := (s_core s)\<lparr>s_dict := d'\<rparr>, s_lzma2 := (s_lzma2 s)\<lparr>l2_compressed := ?c - of_nat n\<rparr>\<rparr>"
  have le: "prog_le s b s' ?b'" and lt: "0 < n \<Longrightarrow> prog_lt s b s' ?b'"
  proof -
    show lt: "prog_lt s b s' ?b'" if "0 < n"
      unfolding prog_lt_def prog3_def using that n(2) by (intro lex3_first) (simp add: avail_def s'_def)
    show "prog_le s b s' ?b'" using lt by (cases "n = 0") (auto simp: prog_le_def prog3_def avail_def s'_def)
  qed
  have live: "live (s_lzma2 s) \<longrightarrow> lzma_live (s_core s')"
    using inv full_mono [OF i(1) r(2,4)] by (auto simp: lzma2_inv_def lzma_live_def s'_def)
  have inv': "lzma2_inv (s'\<lparr>s_lzma2 := (s_lzma2 s')\<lparr>l2_sequence := x\<rparr>\<rparr>) (out @ take n (drop (in_pos b) (b_in b)))"
    if "x = SEQ_CONTROL \<or> x = SEQ_COPY \<and> 0 < unat ?c - n" for x
    using that i r(2-4) uc live q room_same [OF i(6) r(4)] by (auto simp: lzma2_inv_def s'_def size_range_def live_def lzma_live_def)
  have eq: "run_copy s b = (if ?c - of_nat n > 0 then Some (Some XZ_OK, s', ?b') else Some (None, s'\<lparr>s_lzma2 := (s_lzma2 s')\<lparr>l2_sequence := SEQ_CONTROL\<rparr>\<rparr>, ?b'))"
    using r(1) by (simp add: run_copy_def setters s'_def Let_def)
  show ?thesis
  proof (cases "?c - of_nat n > 0")
    case True
    then have "lzma2_inv (s'\<lparr>s_lzma2 := (s_lzma2 s')\<lparr>l2_sequence := SEQ_COPY\<rparr>\<rparr>) (out @ take n (drop (in_pos b) (b_in b)))"
      using uc by (intro inv') (simp add: word_less_nat_alt)
    moreover have "s'\<lparr>s_lzma2 := (s_lzma2 s')\<lparr>l2_sequence := SEQ_COPY\<rparr>\<rparr> = s'" using q by (simp add: s'_def)
    ultimately show ?thesis using eq True bs le r(4) by (auto simp: case_ok_def s'_def)
  next
    case False
    let ?s = "s'\<lparr>s_lzma2 := (s_lzma2 s')\<lparr>l2_sequence := SEQ_CONTROL\<rparr>\<rparr>"
    have "n = unat ?c" using False uc n(1) by (simp add: word_gt_0 unat_eq_zero [symmetric])
    then have "prog_lt s b ?s ?b'" using lt i(4) by (simp add: size_range_def prog_lt_def prog3_def avail_def)
    then show ?thesis using eq False case_ok_next [OF bs inv' [of SEQ_CONTROL], of s] r(4) by (simp add: s'_def)
  qed
qed

text \<open>Setting the limit of the dictionary.\<close>

lemma dict_limit_ok:
  assumes "dict_rep d out" "dict_idle d"
  shows "dict_rep (dict_limit d m) out" "d_limit (dict_limit d m) \<le> d_end (dict_limit d m)" "d_pos (dict_limit d m) \<le> d_limit (dict_limit d m)"
    "d_limit (dict_limit d m) \<le> d_pos d + m" "0 < m \<Longrightarrow> d_pos d < d_limit (dict_limit d m)" "dict_same d (dict_limit d m)"
    "d_pos (dict_limit d m) = d_pos d" "d_start (dict_limit d m) = d_start d" "d_full (dict_limit d m) = d_full d"
  using assms by (auto simp: dict_limit_def dict_rep_def dict_inv_def dict_idle_def hist_def dict_same_def)

text \<open>The state after \<open>lzma2_lzma\<close> succeeded and the dictionary was flushed.\<close>

lemma run_flush:
  assumes inv: "lzma2_inv s out" and q: "l2_sequence (s_lzma2 s) = SEQ_LZMA_RUN" and b: "buf_ok b"
  defines "m \<equiv> min (out_size b - out_pos b) (unat (l2_uncompressed (s_lzma2 s)))"
  defines "s0 \<equiv> set_dict s (dict_limit (s_dict2 s) m)"
  shows "\<exists>ok s1 b1. lzma2_lzma s0 b = Some (ok, s1, b1) \<and> buf_step b b1 \<and>
    (ok \<longrightarrow> (\<exists>n d o' xs. n \<le> m \<and> n = length xs \<and> dict_flush (s_dict2 s1) b1 = Some (of_nat n, d, b1\<lparr>b_out := o', out_pos := out_pos b1 + n\<rparr>) \<and>
      buf_step b (b1\<lparr>b_out := o', out_pos := out_pos b1 + n\<rparr>) \<and> dict_rep d (out @ xs) \<and> dict_idle d \<and> dict_same (s_dict2 s) d \<and>
      lzma_live ((s_core s1)\<lparr>s_dict := d\<rparr>) \<and> unat (t_size s1) < 21 \<and> unat (t_size s1) \<le> unat (l2_compressed (s_lzma2 s1)) \<and>
      unat (l2_compressed (s_lzma2 s1)) \<le> 65536 \<and> length (t_buf s1) = 63 \<and> (\<exists>c. s_lzma2 s1 = (s_lzma2 s)\<lparr>l2_compressed := c\<rparr>) \<and>
      allocs s1 = allocs s \<and> avail s1 b1 \<le> avail s b \<and> out_pos b1 = out_pos b \<and>
      (avail s1 b1 < avail s b \<or> in_pos b < in_pos b1 \<or> m = 0 \<or> 0 < n \<or> in_pos b1 = in_size b1 \<and> t_size s1 < l2_compressed (s_lzma2 s1))))"
proof -
  have live: "live (s_lzma2 s)" using inv q by (auto simp: lzma2_inv_def live_def)
  then have i: "dict_rep (s_dict2 s) out" "dict_idle (s_dict2 s)" "lzma_live (s_core s)" "unat (t_size s) < 21"
    "unat (t_size s) \<le> unat (l2_compressed (s_lzma2 s))" "unat (l2_compressed (s_lzma2 s)) \<le> 65536" "length (t_buf s) = 63"
    using inv q by (auto simp: lzma2_inv_def live_def)
  note dl = dict_limit_ok [OF i(1,2), of m]
  have f0: "feed_inv s0 out" using i dl by (auto simp: feed_inv_def s0_def set_dict_def core_ok_def lzma_live_def)
  obtain ok s1 b1 p where r: "lzma2_lzma s0 b = Some (ok, s1, b1)" "ok \<longrightarrow> (\<exists>xs. feed_step s0 b out s1 b1 xs) \<and> feed_prog s0 b s1 b1"
    "b1 = b\<lparr>in_pos := p\<rparr>" "in_pos b \<le> p" "p \<le> in_size b" using lzma2_lzma_ok [OF f0 b] by blast
  have bs: "buf_step b b1" using r(3-5) b by (simp add: buf_step_def buf_ok_def written_def)
  show ?thesis
  proof (cases ok)
    case False
    then show ?thesis using r(1) bs by blast
  next
    case True
    then obtain xs where xs: "feed_step s0 b out s1 b1 xs" "feed_prog s0 b s1 b1" using r(2) by blast
    define n where "n = length xs"
    have f1: "feed_inv s1 (out @ xs)" "dict_same (s_dict2 s0) (s_dict2 s1)" "d_limit (s_dict2 s1) = d_limit (s_dict2 s0)"
      "d_start (s_dict2 s1) = d_pos (s_dict2 s)" "d_pos (s_dict2 s1) = d_pos (s_dict2 s) + n"
      using xs(1) dl(7,8) i(2) by (auto simp: feed_step_def dict_step_def s0_def set_dict_def n_def dict_idle_def)
    have nm: "n \<le> m" using f1 dl(4) by (simp add: feed_inv_def s0_def set_dict_def)
    have rep1: "dict_rep (s_dict2 s1) (out @ xs)" and b1: "buf_ok b1" using f1(1) bs by (simp_all add: feed_inv_def core_ok_def buf_step_def)
    have room: "out_pos b1 + (d_pos (s_dict2 s1) - d_start (s_dict2 s1)) \<le> out_size b1"
      using nm f1 r(3) b by (auto simp: m_def buf_ok_def)
    obtain d o' where fl: "dict_flush (s_dict2 s1) b1 = Some (of_nat n, d, b1\<lparr>b_out := o', out_pos := out_pos b1 + n\<rparr>)"
      "dict_rep d (out @ xs)" "dict_idle d" "dict_same (s_dict2 s1) d" "length o' = length (b_out b1)"
      "take (out_pos b1 + n) o' = written b1 @ drop (length (out @ xs) - n) (out @ xs)"
      using dict_flush_ok [OF rep1 b1 room] f1 by auto
    let ?b' = "b1\<lparr>b_out := o', out_pos := out_pos b1 + n\<rparr>"
    have "take (out_pos b1) o' = take (out_pos b1) (take (out_pos b1 + n) o')" by simp
    also have "\<dots> = written b1" using b1 unfolding fl(6) by (simp add: written_def buf_ok_def)
    finally have "buf_step b1 ?b'" using b1 room f1 fl(5) by (simp add: buf_step_def buf_ok_def)
    then have bs': "buf_step b ?b'" by (rule buf_step_trans [OF bs])
    have same: "dict_same (s_dict2 s) d"
      using dl(6) f1(2) fl(4) by (auto simp: s0_def set_dict_def intro: dict_same_trans)
    have "d_full (s_dict2 s1) = d_full d" using dict_rep_full [OF rep1] dict_rep_full [OF fl(2)] fl(4) by (simp add: dict_same_def)
    then have lv: "lzma_live ((s_core s1)\<lparr>s_dict := d\<rparr>)" using f1(1) by (auto simp: feed_inv_def core_ok_def lzma_live_def)
    have prog: "avail s1 b1 < avail s b \<or> in_pos b < in_pos b1 \<or> m = 0 \<or> 0 < n \<or> in_pos b1 = in_size b1 \<and> t_size s1 < l2_compressed (s_lzma2 s1)"
      using xs(2) f1 dl(5) by (auto simp: feed_prog_def s0_def set_dict_def avail_def)
    have k: "unat (t_size s1) < 21" "unat (t_size s1) \<le> unat (l2_compressed (s_lzma2 s1))" "unat (l2_compressed (s_lzma2 s1)) \<le> 65536"
      "length (t_buf s1) = 63" "\<exists>c. s_lzma2 s1 = (s_lzma2 s)\<lparr>l2_compressed := c\<rparr>" "allocs s1 = allocs s" "avail s1 b1 \<le> avail s b" "out_pos b1 = out_pos b"
      using xs(1) f1(1) r(3) by (auto simp: feed_step_def feed_inv_def s0_def set_dict_def avail_def)
    show ?thesis using r(1) bs nm fl(1-3) bs' same lv prog k n_def by blast
  qed
qed

lemma run_lzma_ok:
  assumes inv: "lzma2_inv s out" and q: "l2_sequence (s_lzma2 s) = SEQ_LZMA_RUN" and b: "buf_ok b"
  shows "case_ok s b (run_lzma s b)"
proof -
  let ?u = "l2_uncompressed (s_lzma2 s)"
  define m where "m = min (out_size b - out_pos b) (unat ?u)"
  define s0 where "s0 = set_dict s (dict_limit (s_dict2 s) m)"
  have i: "size_range 0x200000 ?u" "\<not> need_props (s_lzma2 s)" "\<not> need_dict_reset (s_lzma2 s)" "room_ok (s_dict2 s)"
    using inv q by (auto simp: lzma2_inv_def)
  obtain ok s1 b1 where r: "lzma2_lzma s0 b = Some (ok, s1, b1)" "buf_step b b1"
    and good: "ok \<longrightarrow> (\<exists>n d o' xs. n \<le> m \<and> n = length xs \<and> dict_flush (s_dict2 s1) b1 = Some (of_nat n, d, b1\<lparr>b_out := o', out_pos := out_pos b1 + n\<rparr>) \<and>
      buf_step b (b1\<lparr>b_out := o', out_pos := out_pos b1 + n\<rparr>) \<and> dict_rep d (out @ xs) \<and> dict_idle d \<and> dict_same (s_dict2 s) d \<and>
      lzma_live ((s_core s1)\<lparr>s_dict := d\<rparr>) \<and> unat (t_size s1) < 21 \<and> unat (t_size s1) \<le> unat (l2_compressed (s_lzma2 s1)) \<and>
      unat (l2_compressed (s_lzma2 s1)) \<le> 65536 \<and> length (t_buf s1) = 63 \<and> (\<exists>c. s_lzma2 s1 = (s_lzma2 s)\<lparr>l2_compressed := c\<rparr>) \<and>
      allocs s1 = allocs s \<and> avail s1 b1 \<le> avail s b \<and> out_pos b1 = out_pos b \<and>
      (avail s1 b1 < avail s b \<or> in_pos b < in_pos b1 \<or> m = 0 \<or> 0 < n \<or> in_pos b1 = in_size b1 \<and> t_size s1 < l2_compressed (s_lzma2 s1)))"
    using run_flush [OF inv q b] unfolding m_def [symmetric] s0_def [symmetric] by blast
  show ?thesis
  proof (cases ok)
    case False
    then show ?thesis using r case_ok_error [OF b r(2)] by (simp add: run_lzma_def m_def [symmetric] s0_def [symmetric])
  next
    case True
    then obtain n d o' xs where g: "n \<le> m" "n = length xs" "dict_flush (s_dict2 s1) b1 = Some (of_nat n, d, b1\<lparr>b_out := o', out_pos := out_pos b1 + n\<rparr>)"
      and bs: "buf_step b (b1\<lparr>b_out := o', out_pos := out_pos b1 + n\<rparr>)" and d: "dict_rep d (out @ xs)" "dict_idle d" "dict_same (s_dict2 s) d"
      "lzma_live ((s_core s1)\<lparr>s_dict := d\<rparr>)" and t: "unat (t_size s1) < 21" "unat (t_size s1) \<le> unat (l2_compressed (s_lzma2 s1))"
      "unat (l2_compressed (s_lzma2 s1)) \<le> 65536" "length (t_buf s1) = 63" and c: "\<exists>c. s_lzma2 s1 = (s_lzma2 s)\<lparr>l2_compressed := c\<rparr>" "allocs s1 = allocs s"
      and av: "avail s1 b1 \<le> avail s b" "out_pos b1 = out_pos b"
      and pr: "avail s1 b1 < avail s b \<or> in_pos b < in_pos b1 \<or> m = 0 \<or> 0 < n \<or> in_pos b1 = in_size b1 \<and> t_size s1 < l2_compressed (s_lzma2 s1)"
      using good by blast
    define b2 where "b2 = b1\<lparr>b_out := o', out_pos := out_pos b1 + n\<rparr>"
    define s2 where "s2 = s1\<lparr>s_core := (s_core s1)\<lparr>s_dict := d\<rparr>, s_lzma2 := (s_lzma2 s1)\<lparr>l2_uncompressed := ?u - of_nat n\<rparr>\<rparr>"
    obtain c' where c': "s_lzma2 s1 = (s_lzma2 s)\<lparr>l2_compressed := c'\<rparr>" using c(1) by blast
    have u: "unat (?u - of_nat n) = unat ?u - n" using g(1) by (intro unat_minus_nat) (simp add: m_def)
    have "set_uncompressed (set_dict s1 d) (l2_uncompressed (s_lzma2 s1) - of_nat n) = s2" using c' by (simp add: s2_def set_dict_def set_uncompressed_def)
    then have eq: "run_lzma s b = Some (run_finish s2 b2)"
      using True r(1) g(3) by (simp add: run_lzma_def m_def [symmetric] s0_def [symmetric] b2_def)
    have u2: "l2_uncompressed (s_lzma2 s2) = ?u - of_nat n" by (simp add: s2_def)
    have bs2: "buf_step b b2" using bs by (simp add: b2_def)
    have p3: "prog3 s2 b2 = (avail s1 b1, unat ?u - n, in_size b1 - in_pos b1)" "in_size b1 = in_size b" "in_pos b \<le> in_pos b1"
      using r(2) u by (simp_all add: prog3_def avail_def s2_def b2_def buf_step_def)
    have lt: "prog_lt s b s2 b2" if "avail s1 b1 < avail s b \<or> in_pos b < in_pos b1 \<or> 0 < n"
      unfolding prog_lt_def p3(1) unfolding prog3_def
      using that av(1) p3(2,3) i(1) bs2 by (intro lex3I) (auto simp: size_range_def buf_step_def buf_ok_def b2_def)
    have le: "prog_le s b s2 b2"
    proof (cases "avail s1 b1 < avail s b \<or> in_pos b < in_pos b1 \<or> 0 < n")
      case True
      then show ?thesis using lt by (simp add: prog_le_def)
    next
      case False
      then show ?thesis using av p3 by (auto simp: prog_le_def prog3_def b2_def)
    qed
    have room: "room_ok d" using room_same [OF i(4) d(3)] .
    show ?thesis
    proof (cases "?u - of_nat n = 0")
      case z: True
      then have "0 < n" using u i(1) g(1) by (simp add: size_range_def m_def)
      then have lt2: "prog_lt s b (set_seq (set_rc s2 (rc_reset (s_rc2 s2))) SEQ_CONTROL) b2"
        using lt by (simp add: prog_lt_def prog3_def avail_def setters)
      show ?thesis
      proof (cases "l2_compressed (s_lzma2 s2) > 0 \<or> lz_len (s_lzma (s_core s2)) > 0 \<or> \<not> rc_is_finished (s_rc2 s2)")
        case True
        then show ?thesis using eq z u2 case_ok_error [OF b bs2] by (simp add: run_finish_def)
      next
        case False
        then have "l2_compressed (s_lzma2 s1) = 0" by (simp add: s2_def word_gt_0)
        then have "t_size s1 = 0" using t(2) by (simp add: unat_eq_zero)
        then have "lzma2_inv (set_seq (set_rc s2 (rc_reset (s_rc2 s2))) SEQ_CONTROL) (out @ xs)"
          using d t(4) room c' i(3) by (auto simp: lzma2_inv_def setters s2_def lzma_live_def rc_reset_def)
        then show ?thesis using eq z u2 False case_ok_next [OF bs2 _ _ _ lt2] d(3) c(2) by (auto simp: run_finish_def setters s2_def)
      qed
    next
      case nz: False
      have nz': "0 < unat ?u - n" using nz u by (metis neq0_conv unat_eq_zero)
      have inv2: "lzma2_inv s2 (out @ xs)"
        using d t room c' i nz' u q by (auto simp: lzma2_inv_def s2_def size_range_def)
      show ?thesis
      proof (cases "out_pos b2 = out_size b2 \<or> in_pos b2 = in_size b2 \<and> t_size s2 < l2_compressed (s_lzma2 s2)")
        case True
        then show ?thesis using eq nz u2 inv2 le bs2 d(3) c(2) by (auto simp: run_finish_def case_ok_def s2_def)
      next
        case False
        have "m \<noteq> 0"
        proof
          assume "m = 0"
          then have "out_size b - out_pos b = 0" using i(1) by (auto simp: m_def size_range_def min_def split: if_splits)
          then have "out_pos b2 = out_size b2" using bs2 b by (auto simp: buf_step_def buf_ok_def)
          then show False using False by simp
        qed
        then have "avail s1 b1 < avail s b \<or> in_pos b < in_pos b1 \<or> 0 < n" using pr False by (auto simp: b2_def s2_def)
        then have "prog_lt s b s2 b2" by (rule lt)
        moreover have "run_finish s2 b2 = (None, s2, b2)" using nz u2 False by (auto simp: run_finish_def)
        moreover have "dict_same (s_dict2 s) (s_dict2 s2)" "allocs s2 = allocs s" using d(3) c(2) by (simp_all add: s2_def)
        ultimately show ?thesis unfolding eq using case_ok_next [OF bs2 inv2, of s] by simp
      qed
    qed
  qed
qed

lemma run_prepare_ok:
  assumes inv: "lzma2_inv s out" and q: "l2_sequence (s_lzma2 s) = SEQ_LZMA_PREPARE" and b: "buf_ok b"
  shows "case_ok s b (run_prepare s b)"
proof (cases "l2_compressed (s_lzma2 s) < RC_INIT_BYTES")
  case True
  then show ?thesis using case_ok_error [OF b buf_step_refl [OF b]] by (simp add: run_prepare_def)
next
  case False
  let ?c = "l2_compressed (s_lzma2 s)"
  have i: "dict_rep (s_dict2 s) out" "dict_idle (s_dict2 s)" "lzma_live (s_core s)" "t_size s = 0" "room_ok (s_dict2 s)" "length (t_buf s) = 63"
    "size_range 0x200000 (l2_uncompressed (s_lzma2 s))" "size_range 0x10000 ?c" "\<not> need_props (s_lzma2 s)" "\<not> need_dict_reset (s_lzma2 s)"
    using inv q by (auto simp: lzma2_inv_def live_def)
  obtain ready rc n where r: "rc_read_init (s_rc2 s) b = Some (ready, rc, b\<lparr>in_pos := in_pos b + n\<rparr>)" "in_pos b + n \<le> in_size b"
    "rc_range rc = rc_range (s_rc2 s)" using rc_read_init_ok [OF b, of "s_rc2 s"] by blast
  let ?b = "b\<lparr>in_pos := in_pos b + n\<rparr>"
  have bs: "buf_step b ?b" by (rule buf_step_in [OF b r(2)])
  have live: "lzma_live ((s_core s)\<lparr>s_rc := rc\<rparr>)" using i(3) r(3) by (simp add: lzma_live_def)
  show ?thesis
  proof (cases ready)
    case False
    have "lzma2_inv (set_rc s rc) out" using inv q live by (auto simp: lzma2_inv_def set_rc_def)
    moreover have "prog_le s b (set_rc s rc) ?b" by (rule prog_in(1) [OF r(2)]) (simp_all add: set_rc_def)
    ultimately show ?thesis using False r(1) bs \<open>\<not> ?c < RC_INIT_BYTES\<close> by (auto simp: run_prepare_def case_ok_def set_rc_def)
  next
    case True
    define s1 where "s1 = set_seq (set_compressed (set_rc s rc) (?c - RC_INIT_BYTES)) SEQ_LZMA_RUN"
    have "unat (?c - RC_INIT_BYTES) \<le> 65536"
      using False i(8) by (subst unat_sub) (auto simp: word_less_nat_alt word_le_nat_alt size_range_def)
    then have inv1: "lzma2_inv s1 out" using i live by (auto simp: lzma2_inv_def s1_def setters lzma_live_def)
    have q1: "l2_sequence (s_lzma2 s1) = SEQ_LZMA_RUN" by (simp add: s1_def setters)
    have "case_ok s b (run_lzma s1 ?b)"
      by (rule case_ok_after [OF run_lzma_ok [OF inv1 q1 buf_step_ok [OF bs]] bs prog_in(1) [OF r(2)]]) (simp_all add: s1_def setters)
    moreover have "run_prepare s b = run_lzma s1 ?b" using True False r(1) by (simp add: run_prepare_def s1_def set_rc_def)
    ultimately show ?thesis by simp
  qed
qed

lemma run_properties_ok:
  assumes inv: "lzma2_inv s out" and q: "l2_sequence (s_lzma2 s) = SEQ_PROPERTIES" and b: "buf_ok b" "in_pos b < in_size b"
  shows "case_ok s b (run_properties s b)"
proof -
  let ?b = "b\<lparr>in_pos := in_pos b + 1\<rparr>"
  have le: "in_pos b + 1 \<le> in_size b" using b(2) by simp
  have bs: "buf_step b ?b" by (rule buf_step_in [OF b(1) le])
  obtain ok core where p: "lzma_props (s_core s) (b_in b ! in_pos b) = (ok, core)" by fastforce
  show ?thesis
  proof (cases ok)
    case False
    then show ?thesis using p case_ok_error [OF b(1) bs] by (simp add: run_properties_def next_byte_ok [OF b])
  next
    case True
    then have "lzma_props (s_core s) (b_in b ! in_pos b) = (True, core)" using p by simp
    note pk = lzma_props_ok [OF this]
    define s1 where "s1 = set_seq (s\<lparr>s_core := core\<rparr>) SEQ_LZMA_PREPARE"
    have "lzma_live core" using pk by (simp add: lzma_live_def rc_reset_def lzma_state_is_literal_def LIT_STATES_def)
    then have inv1: "lzma2_inv s1 out" using inv q pk(5) by (auto simp: lzma2_inv_def s1_def set_seq_def)
    have q1: "l2_sequence (s_lzma2 s1) = SEQ_LZMA_PREPARE" by (simp add: s1_def set_seq_def)
    have "case_ok s b (run_prepare s1 ?b)"
      by (rule case_ok_after [OF run_prepare_ok [OF inv1 q1 buf_step_ok [OF bs]] bs prog_in(1) [OF le]]) (simp_all add: s1_def set_seq_def pk(5))
    moreover have "run_properties s b = run_prepare s1 ?b" using p True by (simp add: run_properties_def next_byte_ok [OF b] s1_def)
    ultimately show ?thesis by simp
  qed
qed

lemma lzma2_step_ok:
  assumes inv: "lzma2_inv s out" and b: "buf_ok b" "in_pos b < in_size b \<or> l2_sequence (s_lzma2 s) = SEQ_LZMA_RUN"
  shows "case_ok s b (lzma2_step s b)"
proof (cases "l2_sequence (s_lzma2 s)")
  case SEQ_LZMA_RUN
  then show ?thesis using run_lzma_ok [OF inv _ b(1)] by (simp add: lzma2_step_def)
qed (use b run_control_ok [OF inv _ b(1)] run_sizes_ok [OF inv b(1)] run_properties_ok [OF inv _ b(1)]
    run_prepare_ok [OF inv _ b(1)] run_copy_ok [OF inv _ b(1)] in \<open>simp_all add: lzma2_step_def\<close>)

section \<open>The run loop returns\<close>

definition run_ok :: "xz_dec_lzma2 \<Rightarrow> xz_buf \<Rightarrow> xz_ret \<Rightarrow> xz_dec_lzma2 \<Rightarrow> xz_buf \<Rightarrow> bool" where
  "run_ok s b ret s' b' \<longleftrightarrow> buf_step b b' \<and> ret \<in> {XZ_OK, XZ_STREAM_END, XZ_DATA_ERROR} \<and>
    (ret \<noteq> XZ_DATA_ERROR \<longrightarrow> (\<exists>out. lzma2_inv s' out) \<and> dict_same (s_dict2 s) (s_dict2 s') \<and> allocs s' = allocs s \<and> prog_le s b s' b') \<and>
    (ret = XZ_STREAM_END \<longrightarrow> prog_lt s b s' b' \<and> l2_sequence (s_lzma2 s') = SEQ_CONTROL)"

lemma lzma2_run_ok:
  assumes "lzma2_inv s out" "buf_ok b"
  shows "\<exists>ret s' b'. xz_dec_lzma2_run s b = Some (ret, s', b') \<and> run_ok s b ret s' b'"
  using assms
proof (induction "prog3 s b" arbitrary: s b out rule: wf_induct_rule [OF wf_lex3])
  case 1
  show ?case
  proof (cases "in_pos b < in_size b \<or> l2_sequence (s_lzma2 s) = SEQ_LZMA_RUN")
    case False
    then have "xz_dec_lzma2_run s b = Some (XZ_OK, s, b)" by (subst xz_dec_lzma2_run.simps) auto
    then show ?thesis using 1(2,3) buf_step_refl prog_le_refl by (auto simp: run_ok_def)
  next
    case True
    obtain r s1 b1 where r: "lzma2_step s b = Some (r, s1, b1)" "buf_step b b1"
      "r = Some XZ_DATA_ERROR \<or> (\<exists>out. lzma2_inv s1 out) \<and> dict_same (s_dict2 s) (s_dict2 s1) \<and> allocs s1 = allocs s \<and>
        (r = None \<and> prog_lt s b s1 b1 \<or> r = Some XZ_OK \<and> prog_le s b s1 b1 \<or>
         r = Some XZ_STREAM_END \<and> prog_lt s b s1 b1 \<and> l2_sequence (s_lzma2 s1) = SEQ_CONTROL)"
      using lzma2_step_ok [OF 1(2,3) True] by (auto simp: case_ok_def)
    show ?thesis
    proof (cases r)
      case (Some ret)
      then have "xz_dec_lzma2_run s b = Some (ret, s1, b1)" using True r(1) by (subst xz_dec_lzma2_run.simps) auto
      then show ?thesis using r(2,3) Some prog_lt_imp_le by (auto simp: run_ok_def)
    next
      case None
      then have eq: "xz_dec_lzma2_run s b = xz_dec_lzma2_run s1 b1" using True r(1) by (subst xz_dec_lzma2_run.simps) auto
      from None r(3) obtain out1 where s1: "lzma2_inv s1 out1" "prog_lt s b s1 b1" "dict_same (s_dict2 s) (s_dict2 s1)" "allocs s1 = allocs s" by auto
      obtain ret s2 b2 where r2: "xz_dec_lzma2_run s1 b1 = Some (ret, s2, b2)" "run_ok s1 b1 ret s2 b2"
        using 1(1) [OF s1(2) [unfolded prog_lt_def] s1(1) buf_step_ok [OF r(2)]] by blast
      have "run_ok s b ret s2 b2"
        using r2(2) buf_step_trans [OF r(2)] dict_same_trans [OF s1(3)] s1(4) prog_lt_le [OF s1(2)] prog_lt_trans [OF s1(2)] prog_lt_imp_le
        unfolding run_ok_def by metis
      then show ?thesis using eq r2(1) by auto
    qed
  qed
qed

section \<open>Reset\<close>

text \<open>What \<open>malloc\<close> promises: an array of the size asked for.\<close>

definition malloc_ok :: "(nat \<Rightarrow> nat \<Rightarrow> u8 list option) \<Rightarrow> bool" where
  "malloc_ok malloc \<longleftrightarrow> (\<forall>i n xs. malloc i n = Some xs \<longrightarrow> length xs = n)"

text \<open>Between blocks the buffer has the size recorded for it.\<close>

definition idle_ok :: "xz_dec_lzma2 \<Rightarrow> bool" where
  "idle_ok s \<longleftrightarrow> length (t_buf s) = 63 \<and> unat (d_allocated (s_dict2 s)) \<le> length (d_buf (s_dict2 s)) \<and> d_mode (s_dict2 s) = XZ_DYNALLOC"

lemma create_ok: "xz_dec_lzma2_create True XZ_DYNALLOC m = Some s \<Longrightarrow> idle_ok s \<and> d_size_max (s_dict2 s) = m \<and> t_size s = 0"
  by (auto simp: xz_dec_lzma2_create_def idle_ok_def set_dict_def zero_lzma2_def)

lemma dict_size_pos: "unat (props::u8) \<le> 39 \<Longrightarrow> 0 < unat (lzma2_dict_size props)"
proof -
  assume le: "unat props \<le> 39"
  have d: "unat (drop_bit 1 props) = unat props div 2" by (simp only: unat_drop_bit_eq) (simp add: drop_bit_eq_div)
  have k: "unat (drop_bit 1 props + 11) \<le> 30" using le d by (simp only: unat_word_ariths) simp
  have a: "(ucast props AND 1 :: u32) = 0 \<or> (ucast props AND 1 :: u32) = 1" unfolding and_one_eq by (metis not_mod_2_eq_0_eq_1)
  have "unat (push_bit k x) \<noteq> 0" if "k \<le> 30" "x = 2 \<or> x = 3" for k and x :: u32
  proof -
    have "unat x * 2 ^ k < 2 ^ 32"
    proof -
      have "(2::nat) ^ k \<le> 2 ^ 30" using that(1) by (rule power_increasing) simp
      then have "unat x * 2 ^ k \<le> 3 * 2 ^ 30" using that(2) by (intro mult_mono) auto
      then show ?thesis by simp
    qed
    then have "unat (push_bit k x) = unat x * 2 ^ k"
      by (simp only: unsigned_push_bit_eq) (simp add: push_bit_eq_mult take_bit_nat_eq_self)
    then show ?thesis using that(2) by auto
  qed
  from this [OF k, of "2 + (ucast props AND 1)"] a show ?thesis unfolding lzma2_dict_size_def by fastforce
qed

lemma reset_ok:
  assumes "malloc_ok malloc" "idle_ok s" "xz_dec_lzma2_reset malloc s props = (XZ_OK, s')"
  shows "lzma2_inv s' [] \<and> idle_ok s' \<and> t_size s' = 0 \<and> l2_uncompressed (s_lzma2 s') = l2_uncompressed (s_lzma2 s)"
proof -
  define sz where "sz = lzma2_dict_size props"
  have p: "\<not> props > 39" using assms(3) by (auto simp: xz_dec_lzma2_reset_def)
  then have pos: "0 < unat sz" using dict_size_pos [of props] by (simp add: sz_def word_less_nat_alt)
  show ?thesis
  proof (cases "d_allocated (s_dict2 s) < sz")
    case True
    then obtain xs where "malloc (allocs s) (unat sz) = Some xs"
      using assms(2,3) p by (auto simp: xz_dec_lzma2_reset_def sz_def [symmetric] Let_def set_dict_def idle_ok_def split: if_splits)
    moreover from this have "length xs = unat sz" using assms(1) by (auto simp: malloc_ok_def)
    ultimately show ?thesis using assms(2,3) p pos True
      by (auto simp: xz_dec_lzma2_reset_def sz_def [symmetric] Let_def set_dict_def idle_ok_def lzma2_inv_def room_ok_def live_def split: if_splits)
  next
    case False
    then have "unat sz \<le> length (d_buf (s_dict2 s))" using assms(2) by (simp add: idle_ok_def word_less_nat_alt)
    then show ?thesis using assms(2,3) p pos False
      by (auto simp: xz_dec_lzma2_reset_def sz_def [symmetric] Let_def set_dict_def idle_ok_def lzma2_inv_def room_ok_def live_def split: if_splits)
  qed
qed

section \<open>Properties\<close>

text \<open>Claim C11 (the LZMA2 decoder returns on every input): from a state that satisfies the invariant, whatever the input
  bytes and the room for output, \<open>xz_dec_lzma2_run\<close> returns; it does not access memory out of bounds. It stays inside the input and output
  buffers and leaves earlier output alone. The result is \<open>XZ_OK\<close>, \<open>XZ_STREAM_END\<close> or \<open>XZ_DATA_ERROR\<close>, and the invariant
  holds again unless it is \<open>XZ_DATA_ERROR\<close>.\<close>

theorem lzma2_run_returns:
  assumes "lzma2_inv s out" "buf_ok b"
  shows "\<exists>ret s' b'. xz_dec_lzma2_run s b = Some (ret, s', b') \<and> ret \<in> {XZ_OK, XZ_STREAM_END, XZ_DATA_ERROR} \<and>
    (ret \<noteq> XZ_DATA_ERROR \<longrightarrow> (\<exists>out'. lzma2_inv s' out')) \<and>
    in_pos b \<le> in_pos b' \<and> in_pos b' \<le> in_size b \<and> out_pos b \<le> out_pos b' \<and> out_pos b' \<le> out_size b \<and>
    b_in b' = b_in b \<and> length (b_out b') = length (b_out b) \<and> take (out_pos b) (b_out b') = take (out_pos b) (b_out b)"
  using lzma2_run_ok [OF assms] by (fastforce simp: run_ok_def buf_step_def buf_ok_def written_def)

definition demo_buf :: "u8 list \<Rightarrow> nat \<Rightarrow> xz_buf" where
  "demo_buf xs n = \<lparr>b_in = xs, in_pos = 0, in_size = length xs, b_out = replicate n 0, out_pos = 0, out_size = n\<rparr>"

definition demo_malloc :: "nat \<Rightarrow> nat \<Rightarrow> u8 list option" where
  "demo_malloc i n = Some (replicate n 0)"

definition demo_lzma2 :: xz_dec_lzma2 where
  "demo_lzma2 = snd (xz_dec_lzma2_reset demo_malloc (the (xz_dec_lzma2_create True XZ_DYNALLOC 0x4000000)) 0)"

lemma demo_lzma2_inv: "lzma2_inv demo_lzma2 []"
proof -
  let ?s = "the (xz_dec_lzma2_create True XZ_DYNALLOC 0x4000000)"
  have c: "xz_dec_lzma2_create True XZ_DYNALLOC 0x4000000 = Some ?s" by (simp add: xz_dec_lzma2_create_def Let_def)
  have "xz_dec_lzma2_reset demo_malloc ?s 0 = (XZ_OK, demo_lzma2)"
    by (simp add: demo_lzma2_def xz_dec_lzma2_reset_def xz_dec_lzma2_create_def set_dict_def zero_lzma2_def demo_malloc_def lzma2_dict_size_def Let_def)
  moreover have "malloc_ok demo_malloc" by (simp add: malloc_ok_def demo_malloc_def)
  ultimately show ?thesis using reset_ok create_ok [OF c] by blast
qed

theorem lzma2_run_returns_witness:
  "\<exists>ret s' b'. xz_dec_lzma2_run demo_lzma2 (demo_buf [1, 0, 1, 65, 66, 0] 10) = Some (ret, s', b') \<and> in_pos b' \<le> 6 \<and> out_pos b' \<le> 10"
proof -
  have "buf_ok (demo_buf [1, 0, 1, 65, 66, 0] 10)" by (simp add: buf_ok_def demo_buf_def)
  from lzma2_run_returns [OF demo_lzma2_inv this] show ?thesis by (auto simp: demo_buf_def)
qed

end
