(* ===== verification/Xz_Crc32.thy ===== *)
theory Xz_Crc32
  imports Prelude
begin

text \<open>
  \<open>xz_crc32.c\<close> and \<open>get_le32\<close> of \<open>xz_config.h\<close>. The table is the one \<open>xz_crc32_init\<close> fills; it is filled
  before every use. The table-driven sum is shown equal to the bit-serial
  definition of the checksum, and to detect every change confined to four consecutive bytes.
\<close>

section \<open>The checksum\<close>

definition poly :: u32 where
  "poly = 0xEDB88320"

definition crc_round :: "u32 \<Rightarrow> u32" where
  "crc_round r = drop_bit 1 r XOR (poly AND NOT ((r AND 1) - 1))"

definition xz_crc32_init :: "u32 list" where
  "xz_crc32_init = map (\<lambda>i. (crc_round ^^ 8) (of_nat i)) [0..<256]"

definition xz_crc32_table :: "u32 list" where
  "xz_crc32_table = xz_crc32_init"

definition crc_byte :: "u32 \<Rightarrow> u8 \<Rightarrow> u32" where
  "crc_byte crc b = xz_crc32_table ! unat (ucast b XOR (crc AND 0xFF)) XOR drop_bit 8 crc"

definition xz_crc32 :: "u8 list \<Rightarrow> u32 \<Rightarrow> u32" where
  "xz_crc32 buf crc = NOT (foldl crc_byte (NOT crc) buf)"

definition get_le32 :: "u8 list \<Rightarrow> nat \<Rightarrow> u32 option" where
  "get_le32 p i =
    do { a \<leftarrow> fetch p i; b \<leftarrow> fetch p (i + 1); c \<leftarrow> fetch p (i + 2); d \<leftarrow> fetch p (i + 3);
         Some (ucast a OR push_bit 8 (ucast b) OR push_bit 16 (ucast c) OR push_bit 24 (ucast d)) }"

section \<open>The bit-serial definition\<close>

text \<open>The message is fed in bit by bit, least significant bit of each byte first.\<close>

definition crc_bit :: "u32 \<Rightarrow> bool \<Rightarrow> u32" where
  "crc_bit crc b = (if bit crc 0 \<noteq> b then drop_bit 1 crc XOR poly else drop_bit 1 crc)"

definition byte_bits :: "u8 \<Rightarrow> bool list" where
  "byte_bits b = map (bit b) [0..<8]"

definition crc32_spec :: "u8 list \<Rightarrow> u32 \<Rightarrow> u32" where
  "crc32_spec bs crc = NOT (foldl crc_bit (NOT crc) (concat (map byte_bits bs)))"

lemma round_mask: "(poly AND NOT ((r AND 1) - 1)) = (if bit r 0 then poly else 0)"
proof (cases "bit r 0")
  case True
  then have "r AND 1 = 1" by (simp add: and_one_eq bit_0 mod_2_eq_odd)
  then show ?thesis using True by simp
next
  case False
  then have "r AND 1 = 0" by (simp add: and_one_eq bit_0 even_iff_mod_2_eq_zero)
  then show ?thesis using False by simp
qed

lemma crc_round_eq: "crc_round r = drop_bit 1 r XOR (if bit r 0 then poly else 0)"
  by (simp add: crc_round_def round_mask)

lemma crc_bit_eq: "crc_bit c b = crc_round (c XOR (if b then 1 else 0))"
  by (cases "bit c 0"; cases b) (simp_all add: crc_bit_def crc_round_eq drop_bit_xor bit_0 even_xor_iff)

lemma crc_round_xor: "crc_round (a XOR b) = crc_round a XOR crc_round b"
  by (cases "bit a 0"; cases "bit b 0") (simp_all add: crc_round_eq drop_bit_xor bit_simps ac_simps)

lemma crc_rounds_xor: "(crc_round ^^ n) (a XOR b) = (crc_round ^^ n) a XOR (crc_round ^^ n) b"
  by (induction n) (simp_all add: crc_round_xor)

lemma crc_rounds_high:
  "(\<And>i. i < n \<Longrightarrow> \<not> bit a i) \<Longrightarrow> (crc_round ^^ n) a = drop_bit n a"
proof (induction n)
  case (Suc n)
  then have "(crc_round ^^ Suc n) a = crc_round (drop_bit n a)" by simp
  also have "\<dots> = drop_bit 1 (drop_bit n a)" using Suc.prems [of n] by (simp add: crc_round_eq bit_simps)
  finally show ?case by simp
qed simp

lemma take_bit_Suc_xor: "take_bit (Suc n) (x::u32) = take_bit n x XOR (if bit x n then push_bit n 1 else 0)"
  by (rule bit_eqI) (auto simp: bit_simps less_Suc_eq)

lemma foldl_crc_bits:
  "n \<le> 8 \<Longrightarrow> foldl crc_bit c (map (bit b) [0..<n]) = (crc_round ^^ n) (c XOR take_bit n (ucast (b::u8)))"
proof (induction n)
  case (Suc n)
  let ?u = "ucast b :: u32"
  have "drop_bit n (push_bit n 1) = (1::u32)" using Suc.prems by (intro bit_eqI) (auto simp: bit_simps)
  then have one: "(crc_round ^^ n) (if bit b n then push_bit n 1 else 0) = (if bit b n then 1 else 0)"
    using crc_rounds_high [of n "push_bit n 1"] crc_rounds_high [of n 0] by (simp add: bit_simps)
  have "foldl crc_bit c (map (bit b) [0..<Suc n]) = crc_bit ((crc_round ^^ n) (c XOR take_bit n ?u)) (bit b n)"
    using Suc by simp
  also have "\<dots> = (crc_round ^^ Suc n) (c XOR take_bit n ?u XOR (if bit b n then push_bit n 1 else 0))"
    by (simp only: crc_bit_eq crc_rounds_xor one funpow.simps comp_apply xor.assoc)
  also have "c XOR take_bit n ?u XOR (if bit b n then push_bit n 1 else 0) = c XOR take_bit (Suc n) ?u"
    using Suc.prems by (simp add: take_bit_Suc_xor bit_ucast_iff xor.assoc)
  finally show ?case .
qed simp

lemma crc_table_nth: "unat x < 256 \<Longrightarrow> xz_crc32_table ! unat x = (crc_round ^^ 8) x"
  by (simp add: xz_crc32_table_def xz_crc32_init_def del: upt_rec_numeral)

lemma ff_mask: "(0xFF :: u32) = mask 8"
  by (simp add: mask_eq_exp_minus_1)

lemma byte_bit_lt: "bit (b::u8) n \<Longrightarrow> n < 8"
  using bit_imp_le_length [of b n] by simp

lemma byte_bit_high: "8 \<le> n \<Longrightarrow> \<not> bit (b::u8) n"
  using byte_bit_lt [of b n] by auto

lemma low_byte_lt: "unat (ucast (b::u8) XOR (c AND 0xFF) :: u32) < 256"
proof -
  define w :: u32 where "w = ucast b XOR (c AND 0xFF)"
  have "w = take_bit 8 w"
    unfolding w_def by (rule bit_eqI) (auto simp: ff_mask bit_simps dest: byte_bit_lt)
  then have "unat w = take_bit 8 (unat w)" using unsigned_take_bit_eq [of 8 w] by simp
  also have "\<dots> < 2 ^ 8" by (rule take_bit_nat_less_exp)
  finally show ?thesis by (simp add: w_def)
qed

lemma crc_byte_rounds: "crc_byte c b = (crc_round ^^ 8) (c XOR ucast b)"
proof -
  let ?l = "ucast b XOR (c AND 0xFF) :: u32" and ?h = "c AND NOT 0xFF :: u32"
  have "c XOR ucast b = ?l XOR ?h" by (rule bit_eqI) (auto simp: bit_simps)
  then have "(crc_round ^^ 8) (c XOR ucast b) = (crc_round ^^ 8) ?l XOR (crc_round ^^ 8) ?h"
    by (simp only: crc_rounds_xor)
  also have "(crc_round ^^ 8) ?h = drop_bit 8 ?h"
    by (rule crc_rounds_high) (simp add: ff_mask bit_simps)
  also have "drop_bit 8 ?h = drop_bit 8 c"
    using bit_imp_le_length [of c] by (intro bit_eqI) (fastforce simp: ff_mask bit_simps)
  finally show ?thesis unfolding crc_byte_def using crc_table_nth [OF low_byte_lt] by simp
qed

lemma crc_byte_bits: "crc_byte c b = foldl crc_bit c (byte_bits b)"
proof -
  have "take_bit 8 (ucast b :: u32) = ucast b" by (rule bit_eqI) (auto simp: bit_simps dest: byte_bit_lt)
  then show ?thesis by (simp add: crc_byte_rounds byte_bits_def foldl_crc_bits)
qed

section \<open>Error detection\<close>

lemma xor_cancel: "(a::u32) XOR c = b XOR c \<longleftrightarrow> a = b" "(c::u32) XOR a = c XOR b \<longleftrightarrow> a = b"
  by (auto simp: bit_eq_iff bit_simps)

lemma crc_round_inj: "crc_round a = crc_round b \<Longrightarrow> a = b"
proof -
  assume eq: "crc_round a = crc_round b"
  have top: "bit (crc_round x) 31 = bit x 0" for x
    using bit_imp_le_length [of x 32] by (auto simp: crc_round_eq bit_simps poly_def)
  have low: "bit a 0 = bit b 0" using top [of a] top [of b] eq by simp
  then have "drop_bit 1 a = drop_bit 1 b" using eq by (auto simp: crc_round_eq xor_cancel split: if_splits)
  then have "bit a (Suc n) = bit b (Suc n)" for n by (metis bit_drop_bit_eq comp_apply plus_1_eq_Suc)
  then show "a = b" using low by (intro bit_eqI) (metis not0_implies_Suc)
qed

lemma crc_rounds_inj: "(crc_round ^^ n) a = (crc_round ^^ n) b \<Longrightarrow> a = b"
  by (induction n) (auto dest: crc_round_inj)

lemma crc_rounds_push: "n \<le> 24 \<Longrightarrow> (crc_round ^^ n) (push_bit n (ucast (b::u8))) = ucast b"
proof -
  assume "n \<le> 24"
  then have "drop_bit n (push_bit n (ucast b)) = (ucast b :: u32)"
    by (intro bit_eqI) (auto simp: bit_simps dest: byte_bit_lt)
  then show ?thesis using crc_rounds_high [of n "push_bit n (ucast b)"] by (simp add: bit_simps)
qed

lemma crc_step_word:
  assumes "n \<le> 24"
  shows "crc_byte ((crc_round ^^ n) w) b = (crc_round ^^ (8 + n)) (w XOR push_bit n (ucast b))"
proof -
  have "(crc_round ^^ (8 + n)) (w XOR push_bit n (ucast b)) = (crc_round ^^ 8) ((crc_round ^^ n) (w XOR push_bit n (ucast b)))"
    by (simp only: funpow_add comp_apply)
  also have "(crc_round ^^ n) (w XOR push_bit n (ucast b)) = (crc_round ^^ n) w XOR ucast b"
    using crc_rounds_push [OF assms] by (simp only: crc_rounds_xor)
  finally show ?thesis by (simp add: crc_byte_rounds)
qed

lemma crc_word: "foldl crc_byte c [x, y, z, w] = (crc_round ^^ 32) (c XOR of_le32 x y z w)"
proof -
  let ?a = "c XOR ucast x"
  have "foldl crc_byte c [x, y, z, w] = crc_byte (crc_byte (crc_byte ((crc_round ^^ 8) ?a) y) z) w"
    by (simp add: crc_byte_rounds)
  also have "\<dots> = (crc_round ^^ (8 + (8 + (8 + 8))))
      (((?a XOR push_bit 8 (ucast y)) XOR push_bit 16 (ucast z)) XOR push_bit 24 (ucast w))"
    using crc_step_word [of 8 ?a y] crc_step_word [of 16 "?a XOR push_bit 8 (ucast y)" z]
      crc_step_word [of 24 "(?a XOR push_bit 8 (ucast y)) XOR push_bit 16 (ucast z)" w] by simp
  also have "((?a XOR push_bit 8 (ucast y)) XOR push_bit 16 (ucast z)) XOR push_bit 24 (ucast w) = c XOR of_le32 x y z w"
    unfolding of_le32_def word32_eq_iff all_less_32 by (simp add: bit_simps byte_bit_high)
  finally show ?thesis by simp
qed

lemma all_less_8:
  "(\<forall>n<8. P n) \<longleftrightarrow> P 0 \<and> P 1 \<and> P 2 \<and> P 3 \<and> P 4 \<and> P 5 \<and> P 6 \<and> P (7::nat)"
  by (simp add: numeral_eq_Suc All_less_Suc conj_ac)

lemma word8_eq_iff: "(x :: u8) = y \<longleftrightarrow> (\<forall>n<8. bit x n = bit y n)"
  by (auto simp: bit_eq_iff bit_simps)

lemma of_le32_bytes:
  "ucast (of_le32 x y z w) = x" "ucast (drop_bit 8 (of_le32 x y z w)) = y"
  "ucast (drop_bit 16 (of_le32 x y z w)) = z" "ucast (drop_bit 24 (of_le32 x y z w)) = w"
  unfolding of_le32_def word8_eq_iff all_less_8 by (simp_all add: bit_simps byte_bit_high)

lemma of_le32_inj: "of_le32 x y z w = of_le32 x' y' z' w' \<longleftrightarrow> x = x' \<and> y = y' \<and> z = z' \<and> w = w'"
  by (metis of_le32_bytes)

lemma crc_state_inj: "foldl crc_byte a bs = foldl crc_byte b bs \<Longrightarrow> a = b"
proof (induction bs arbitrary: a b)
  case (Cons x bs)
  then have "crc_byte a x = crc_byte b x" by simp
  then have "(crc_round ^^ 8) (a XOR ucast x) = (crc_round ^^ 8) (b XOR ucast x)" by (simp only: crc_byte_rounds)
  then show ?case by (auto simp: xor_cancel dest: crc_rounds_inj)
qed simp

lemma xz_crc32_append: "xz_crc32 (a @ b) c = xz_crc32 b (xz_crc32 a c)"
  by (simp add: xz_crc32_def)

lemma xz_crc32_Nil [simp]: "xz_crc32 [] c = c"
  by (simp add: xz_crc32_def)

lemma get_le32_ok: "i + 4 \<le> length p \<Longrightarrow> get_le32 p i = Some (of_le32 (p ! i) (p ! (i + 1)) (p ! (i + 2)) (p ! (i + 3)))"
  by (simp add: get_le32_def of_le32_def)

text \<open>Claim C32 (the checksum is the standard one): the table-driven sum equals the bit-serial CRC-32 with the
  reflected polynomial, started from any earlier sum, and may be computed piece by piece.\<close>

theorem xz_crc32_correct:
  "xz_crc32 bs c = crc32_spec bs c \<and> xz_crc32 (as @ bs) c = xz_crc32 bs (xz_crc32 as c)"
proof -
  have "foldl crc_byte c bs = foldl crc_bit c (concat (map byte_bits bs))" for c
    by (induction bs arbitrary: c) (simp_all add: crc_byte_bits)
  then show ?thesis by (simp add: xz_crc32_def crc32_spec_def)
qed

text \<open>Burst errors are detected: two messages that differ only inside four consecutive bytes have
  different sums.\<close>

lemma xz_crc32_detects_burst:
  assumes "length u = 4" "length v = 4" "u \<noteq> v"
  shows "xz_crc32 (before @ u @ after) c \<noteq> xz_crc32 (before @ v @ after) c"
proof
  assume "xz_crc32 (before @ u @ after) c = xz_crc32 (before @ v @ after) c"
  then have eq: "foldl crc_byte (foldl crc_byte (NOT c) before) u = foldl crc_byte (foldl crc_byte (NOT c) before) v"
    by (auto simp: xz_crc32_def dest: crc_state_inj)
  obtain x y z w where u: "u = [x, y, z, w]" using assms(1) by (auto simp: numeral_eq_Suc length_Suc_conv)
  obtain x' y' z' w' where v: "v = [x', y', z', w']" using assms(2) by (auto simp: numeral_eq_Suc length_Suc_conv)
  have "foldl crc_byte (NOT c) before XOR of_le32 x y z w = foldl crc_byte (NOT c) before XOR of_le32 x' y' z' w'"
    using eq unfolding u v crc_word by (rule crc_rounds_inj)
  then have "of_le32 x y z w = of_le32 x' y' z' w'"
    by (simp only: xor_cancel)
  then show False using assms(3) by (simp add: of_le32_inj u v)
qed

lemma xz_crc32_detects_burst_witness:
  "xz_crc32 ([1] @ [2, 3, 4, 5] @ [6]) 0 \<noteq> xz_crc32 ([1] @ [2, 3, 4, 4] @ [6]) 0"
  using xz_crc32_detects_burst [of "[2, 3, 4, 5]" "[2, 3, 4, 4]" "[1]" "[6]" 0] by simp

end
