(* ===== verification/Xz_Stream.thy ===== *)
theory Xz_Stream
  imports Xz_Chunks Xz_Crc32
begin

text \<open>
  The .xz container decoder of \<open>xz_dec_stream.c\<close>: variable-length integers, block headers, blocks, the index and the
  footer, and the state machine over them. The checksum of a \<open>struct xz_dec_hash\<close> is taken over its 24 bytes in memory: two 64-bit and one
  32-bit little-endian fields and four bytes of padding, which stay zero since the object is zeroed and only its
  fields are assigned.
\<close>

section \<open>State\<close>

type_synonym vli_type = u64

definition VLI_UNKNOWN :: vli_type where
  "VLI_UNKNOWN = - 1"

definition VLI_BYTES_MAX :: u32 where
  "VLI_BYTES_MAX = 9"

definition STREAM_HEADER_SIZE :: nat where
  "STREAM_HEADER_SIZE = 12"

definition HEADER_MAGIC :: "u8 list" where
  "HEADER_MAGIC = [0xFD, 0x37, 0x7A, 0x58, 0x5A, 0x00]"

definition HEADER_MAGIC_SIZE :: nat where
  "HEADER_MAGIC_SIZE = 6"

definition FOOTER_MAGIC :: "u8 list" where
  "FOOTER_MAGIC = [0x59, 0x5A]"

definition XZ_CHECK_CRC32 :: u8 where
  "XZ_CHECK_CRC32 = 1"

definition XZ_CHECK_MAX :: u8 where
  "XZ_CHECK_MAX = 15"

record xz_dec_hash =
  h_unpadded :: vli_type
  h_uncompressed :: vli_type
  h_crc32 :: u32

datatype stream_seq =
    SEQ_STREAM_HEADER | SEQ_BLOCK_START | SEQ_BLOCK_HEADER | SEQ_BLOCK_UNCOMPRESS | SEQ_BLOCK_PADDING
  | SEQ_BLOCK_CHECK | SEQ_INDEX | SEQ_INDEX_PADDING | SEQ_INDEX_CRC32 | SEQ_STREAM_FOOTER

datatype index_seq = SEQ_INDEX_COUNT | SEQ_INDEX_UNPADDED | SEQ_INDEX_UNCOMPRESSED

text \<open>\<open>bh_\<close> is \<open>block_header\<close>, \<open>blk_\<close> is \<open>block\<close>, \<open>idx_\<close> is \<open>index\<close> and \<open>st_\<close> is \<open>temp\<close>.\<close>

record xz_dec =
  s_sequence :: stream_seq
  v_pos :: u32
  vli :: vli_type
  in_start :: nat
  out_start :: nat
  s_crc32 :: u32
  check_type :: u8
  s_mode :: xz_mode
  allow_buf_error :: bool
  bh_compressed :: vli_type
  bh_uncompressed :: vli_type
  bh_size :: u32
  blk_compressed :: vli_type
  blk_uncompressed :: vli_type
  blk_count :: vli_type
  blk_hash :: xz_dec_hash
  idx_sequence :: index_seq
  idx_size :: vli_type
  idx_count :: vli_type
  idx_hash :: xz_dec_hash
  st_pos :: nat
  st_size :: nat
  st_buf :: "u8 list"
  lzma2 :: xz_dec_lzma2

definition check_sizes :: "u8 list" where
  "check_sizes = [0, 4, 4, 4, 8, 8, 8, 16, 16, 16, 32, 32, 32, 64, 64, 64]"

section \<open>Reading\<close>

text \<open>The \<open>n\<close> elements from index \<open>i\<close> on.\<close>

definition slice :: "'a list \<Rightarrow> nat \<Rightarrow> nat \<Rightarrow> 'a list option" where
  "slice xs i n = (if i + n \<le> length xs then Some (take n (drop i xs)) else None)"

definition fill_temp :: "xz_dec \<Rightarrow> xz_buf \<Rightarrow> (bool \<times> xz_dec \<times> xz_buf) option" where
  "fill_temp s b =
    do { let copy_size = min (in_size b - in_pos b) (st_size s - st_pos s);
         buf \<leftarrow> copy_array (st_buf s) (st_pos s) (b_in b) (in_pos b) copy_size;
         let b = b\<lparr>in_pos := in_pos b + copy_size\<rparr>;
         let s = s\<lparr>st_buf := buf, st_pos := st_pos s + copy_size\<rparr>;
         if st_pos s = st_size s then Some (True, s\<lparr>st_pos := 0\<rparr>, b) else Some (False, s, b) }"

text \<open>Shifts by the width of the type or more are undefined.\<close>

definition shift_left :: "u64 \<Rightarrow> u32 \<Rightarrow> u64 option" where
  "shift_left x n = (if unat n < 64 then Some (push_bit (unat n) x) else None)"

definition shift_right :: "u32 \<Rightarrow> u32 \<Rightarrow> u32 option" where
  "shift_right x n = (if unat n < 32 then Some (drop_bit (unat n) x) else None)"

text \<open>The loop of \<open>dec_vli\<close> on \<open>s->pos\<close> and \<open>s->vli\<close>.\<close>

function vli_loop :: "u32 \<Rightarrow> vli_type \<Rightarrow> u8 list \<Rightarrow> nat \<Rightarrow> nat \<Rightarrow> (xz_ret \<times> u32 \<times> vli_type \<times> nat) option" where
  "vli_loop pos v inp i n =
    (if i < n then
       do { byte \<leftarrow> fetch inp i;
            bits \<leftarrow> shift_left (ucast (byte AND 0x7F)) pos;
            let v = v OR bits;
            if byte AND 0x80 = 0 then
              if byte = 0 \<and> pos \<noteq> 0 then Some (XZ_DATA_ERROR, pos, v, i + 1)
              else Some (XZ_STREAM_END, 0, v, i + 1)
            else if pos + 7 = 7 * VLI_BYTES_MAX then Some (XZ_DATA_ERROR, pos + 7, v, i + 1)
            else vli_loop (pos + 7) v inp (i + 1) n }
     else Some (XZ_OK, pos, v, i))"
  by pat_completeness auto

termination
  by (relation "measure (\<lambda>(pos, v, inp, i, n). n - i)") auto

declare vli_loop.simps [simp del]

definition dec_vli :: "xz_dec \<Rightarrow> u8 list \<Rightarrow> nat \<Rightarrow> nat \<Rightarrow> (xz_ret \<times> xz_dec \<times> nat) option" where
  "dec_vli s inp i n =
    do { (ret, pos, v, i) \<leftarrow> vli_loop (v_pos s) (if v_pos s = 0 then 0 else vli s) inp i n;
         Some (ret, s\<lparr>v_pos := pos, vli := v\<rparr>, i) }"

section \<open>Blocks\<close>

definition hash_bytes :: "xz_dec_hash \<Rightarrow> u8 list" where
  "hash_bytes h = le64 (h_unpadded h) @ le64 (h_uncompressed h) @ le32 (h_crc32 h) @ [0, 0, 0, 0]"

definition hash_update :: "xz_dec_hash \<Rightarrow> vli_type \<Rightarrow> vli_type \<Rightarrow> xz_dec_hash" where
  "hash_update h unpadded uncompressed =
    (let h = h\<lparr>h_unpadded := h_unpadded h + unpadded, h_uncompressed := h_uncompressed h + uncompressed\<rparr>
     in h\<lparr>h_crc32 := xz_crc32 (hash_bytes h) (h_crc32 h)\<rparr>)"

text \<open>The end of a block: compare the sizes with the header and add them to the hash.\<close>

definition block_finish :: "xz_dec \<Rightarrow> (xz_ret \<times> xz_dec) option" where
  "block_finish s =
    (if bh_compressed s \<noteq> VLI_UNKNOWN \<and> bh_compressed s \<noteq> blk_compressed s then Some (XZ_DATA_ERROR, s)
     else if bh_uncompressed s \<noteq> VLI_UNKNOWN \<and> bh_uncompressed s \<noteq> blk_uncompressed s then Some (XZ_DATA_ERROR, s)
     else
       do { check_size \<leftarrow> fetch check_sizes (unat (check_type s));
            let h = hash_update (blk_hash s) (ucast (bh_size s) + blk_compressed s + ucast check_size) (blk_uncompressed s);
            Some (XZ_STREAM_END, s\<lparr>blk_hash := h, blk_count := blk_count s + 1\<rparr>) })"

text \<open>The amounts a call used and produced, and the check of what it produced.\<close>

definition block_used :: "xz_dec \<Rightarrow> xz_dec_lzma2 \<Rightarrow> xz_buf \<Rightarrow> xz_dec" where
  "block_used s l b =
    s\<lparr>lzma2 := l, blk_compressed := blk_compressed s + of_nat (in_pos b - in_start s),
      blk_uncompressed := blk_uncompressed s + of_nat (out_pos b - out_start s)\<rparr>"

definition block_crc32 :: "xz_dec \<Rightarrow> xz_buf \<Rightarrow> xz_dec option" where
  "block_crc32 s b =
    (if check_type s = XZ_CHECK_CRC32
     then do { xs \<leftarrow> slice (b_out b) (out_start s) (out_pos b - out_start s); Some (s\<lparr>s_crc32 := xz_crc32 xs (s_crc32 s)\<rparr>) }
     else Some s)"

definition dec_block :: "xz_dec \<Rightarrow> xz_buf \<Rightarrow> (xz_ret \<times> xz_dec \<times> xz_buf) option" where
  "dec_block s b =
    do { let s = s\<lparr>in_start := in_pos b, out_start := out_pos b\<rparr>;
         (ret, l, b) \<leftarrow> xz_dec_lzma2_run (lzma2 s) b;
         let s = block_used s l b;
         if blk_compressed s > bh_compressed s \<or> blk_uncompressed s > bh_uncompressed s then Some (XZ_DATA_ERROR, s, b)
         else
           do { s \<leftarrow> block_crc32 s b;
                if ret = XZ_STREAM_END then do { (ret, s) \<leftarrow> block_finish s; Some (ret, s, b) }
                else Some (ret, s, b) } }"

section \<open>Index\<close>

definition index_update :: "xz_dec \<Rightarrow> xz_buf \<Rightarrow> xz_dec option" where
  "index_update s b =
    do { let in_used = in_pos b - in_start s;
         xs \<leftarrow> slice (b_in b) (in_start s) in_used;
         Some (s\<lparr>idx_size := idx_size s + of_nat in_used, s_crc32 := xz_crc32 xs (s_crc32 s)\<rparr>) }"

text \<open>One integer of the index: \<open>False\<close> where the number of records does not match.\<close>

definition index_record :: "xz_dec \<Rightarrow> bool \<times> xz_dec" where
  "index_record s =
    (case idx_sequence s of
       SEQ_INDEX_COUNT \<Rightarrow>
         let s = s\<lparr>idx_count := vli s\<rparr>
         in if idx_count s \<noteq> blk_count s then (False, s) else (True, s\<lparr>idx_sequence := SEQ_INDEX_UNPADDED\<rparr>)
     | SEQ_INDEX_UNPADDED \<Rightarrow>
         (True, s\<lparr>idx_hash := (idx_hash s)\<lparr>h_unpadded := h_unpadded (idx_hash s) + vli s\<rparr>, idx_sequence := SEQ_INDEX_UNCOMPRESSED\<rparr>)
     | SEQ_INDEX_UNCOMPRESSED \<Rightarrow>
         (True, s\<lparr>idx_hash := hash_update (idx_hash s) 0 (vli s), idx_count := idx_count s - 1, idx_sequence := SEQ_INDEX_UNPADDED\<rparr>))"

partial_function (option) dec_index :: "xz_dec \<Rightarrow> xz_buf \<Rightarrow> (xz_ret \<times> xz_dec \<times> xz_buf) option" where
  "dec_index s b =
    do { (ret, s, i) \<leftarrow> dec_vli s (b_in b) (in_pos b) (in_size b);
         let b = b\<lparr>in_pos := i\<rparr>;
         if ret \<noteq> XZ_STREAM_END then do { s \<leftarrow> index_update s b; Some (ret, s, b) }
         else
           case index_record s of (ok, s) \<Rightarrow>
             if \<not> ok then Some (XZ_DATA_ERROR, s, b)
             else if idx_count s > 0 then dec_index s b
             else Some (XZ_STREAM_END, s, b) }"

section \<open>Checks\<close>

partial_function (option) crc32_validate :: "xz_dec \<Rightarrow> xz_buf \<Rightarrow> (xz_ret \<times> xz_dec \<times> xz_buf) option" where
  "crc32_validate s b =
    (if in_pos b = in_size b then Some (XZ_OK, s, b)
     else
       do { (c, b) \<leftarrow> next_byte b;
            crc \<leftarrow> shift_right (s_crc32 s) (v_pos s);
            if crc AND 0xFF \<noteq> ucast c then Some (XZ_DATA_ERROR, s, b)
            else
              do { let s = s\<lparr>v_pos := v_pos s + 8\<rparr>;
                   if v_pos s < 32 then crc32_validate s b
                   else Some (XZ_STREAM_END, s\<lparr>s_crc32 := 0, v_pos := 0\<rparr>, b) } })"

partial_function (option) check_skip :: "xz_dec \<Rightarrow> xz_buf \<Rightarrow> (bool \<times> xz_dec \<times> xz_buf) option" where
  "check_skip s b =
    do { check_size \<leftarrow> fetch check_sizes (unat (check_type s));
         if v_pos s < ucast check_size then
           if in_pos b = in_size b then Some (False, s, b)
           else check_skip (s\<lparr>v_pos := v_pos s + 1\<rparr>) (b\<lparr>in_pos := in_pos b + 1\<rparr>)
         else Some (True, s\<lparr>v_pos := 0\<rparr>, b) }"

section \<open>Headers\<close>

definition dec_stream_header :: "xz_dec \<Rightarrow> (xz_ret \<times> xz_dec) option" where
  "dec_stream_header s =
    do { magic \<leftarrow> slice (st_buf s) 0 HEADER_MAGIC_SIZE;
         if magic \<noteq> HEADER_MAGIC then Some (XZ_FORMAT_ERROR, s)
         else
           do { flags \<leftarrow> slice (st_buf s) HEADER_MAGIC_SIZE 2;
                crc \<leftarrow> get_le32 (st_buf s) (HEADER_MAGIC_SIZE + 2);
                if xz_crc32 flags 0 \<noteq> crc then Some (XZ_DATA_ERROR, s)
                else
                  do { f0 \<leftarrow> fetch (st_buf s) HEADER_MAGIC_SIZE;
                       f1 \<leftarrow> fetch (st_buf s) (HEADER_MAGIC_SIZE + 1);
                       if f0 \<noteq> 0 then Some (XZ_OPTIONS_ERROR, s)
                       else if f1 > XZ_CHECK_MAX then Some (XZ_OPTIONS_ERROR, s)
                       else
                         do { let s = s\<lparr>check_type := f1\<rparr>;
                              if check_type s > XZ_CHECK_CRC32 then Some (XZ_UNSUPPORTED_CHECK, s) else Some (XZ_OK, s) } } } }"

definition dec_stream_footer :: "xz_dec \<Rightarrow> (xz_ret \<times> xz_dec) option" where
  "dec_stream_footer s =
    do { magic \<leftarrow> slice (st_buf s) 10 2;
         if magic \<noteq> FOOTER_MAGIC then Some (XZ_DATA_ERROR, s)
         else
           do { body \<leftarrow> slice (st_buf s) 4 6;
                crc \<leftarrow> get_le32 (st_buf s) 0;
                if xz_crc32 body 0 \<noteq> crc then Some (XZ_DATA_ERROR, s)
                else
                  do { backward \<leftarrow> get_le32 (st_buf s) 4;
                       if drop_bit 2 (idx_size s) \<noteq> ucast backward then Some (XZ_DATA_ERROR, s)
                       else
                         do { f0 \<leftarrow> fetch (st_buf s) 8;
                              f1 \<leftarrow> fetch (st_buf s) 9;
                              if f0 \<noteq> 0 \<or> f1 \<noteq> check_type s then Some (XZ_DATA_ERROR, s)
                              else Some (XZ_STREAM_END, s) } } } }"

text \<open>An optional size field of the block header: \<open>None\<close> where it is malformed.\<close>

definition header_size :: "bool \<Rightarrow> xz_dec \<Rightarrow> (vli_type option \<times> xz_dec) option" where
  "header_size present s =
    (if present
     then do { (ret, s, i) \<leftarrow> dec_vli s (st_buf s) (st_pos s) (st_size s);
               Some (if ret \<noteq> XZ_STREAM_END then None else Some (vli s), s\<lparr>st_pos := i\<rparr>) }
     else Some (Some VLI_UNKNOWN, s))"

function header_padding :: "u8 list \<Rightarrow> nat \<Rightarrow> nat \<Rightarrow> (bool \<times> nat) option" where
  "header_padding buf i n =
    (if i < n then do { c \<leftarrow> fetch buf i; if c \<noteq> 0 then Some (False, i + 1) else header_padding buf (i + 1) n }
     else Some (True, i))"
  by pat_completeness auto

termination
  by (relation "measure (\<lambda>(buf, i, n). n - i)") auto

declare header_padding.simps [simp del]

text \<open>The filter flags and the padding.\<close>

definition header_filter :: "(nat \<Rightarrow> nat \<Rightarrow> u8 list option) \<Rightarrow> xz_dec \<Rightarrow> (xz_ret \<times> xz_dec) option" where
  "header_filter malloc s =
    (if st_size s - st_pos s < 2 then Some (XZ_DATA_ERROR, s)
     else
       do { filter_id \<leftarrow> fetch (st_buf s) (st_pos s);
            let s = s\<lparr>st_pos := st_pos s + 1\<rparr>;
            if filter_id \<noteq> 0x21 then Some (XZ_OPTIONS_ERROR, s)
            else
              do { props_size \<leftarrow> fetch (st_buf s) (st_pos s);
                   let s = s\<lparr>st_pos := st_pos s + 1\<rparr>;
                   if props_size \<noteq> 0x01 then Some (XZ_OPTIONS_ERROR, s)
                   else if st_size s - st_pos s < 1 then Some (XZ_DATA_ERROR, s)
                   else
                     do { props \<leftarrow> fetch (st_buf s) (st_pos s);
                          let (ret, l) = xz_dec_lzma2_reset malloc (lzma2 s) props;
                          let s = s\<lparr>st_pos := st_pos s + 1, lzma2 := l\<rparr>;
                          if ret \<noteq> XZ_OK then Some (ret, s)
                          else
                            do { (zero, i) \<leftarrow> header_padding (st_buf s) (st_pos s) (st_size s);
                                 if \<not> zero then Some (XZ_OPTIONS_ERROR, s\<lparr>st_pos := i\<rparr>)
                                 else Some (XZ_OK, s\<lparr>st_pos := 0, blk_compressed := 0, blk_uncompressed := 0\<rparr>) } } } })"

definition dec_block_header :: "(nat \<Rightarrow> nat \<Rightarrow> u8 list option) \<Rightarrow> xz_dec \<Rightarrow> (xz_ret \<times> xz_dec) option" where
  "dec_block_header malloc s =
    do { let s = s\<lparr>st_size := st_size s - 4\<rparr>;
         body \<leftarrow> slice (st_buf s) 0 (st_size s);
         crc \<leftarrow> get_le32 (st_buf s) (st_size s);
         if xz_crc32 body 0 \<noteq> crc then Some (XZ_DATA_ERROR, s)
         else
           do { let s = s\<lparr>st_pos := 2\<rparr>;
                flags \<leftarrow> fetch (st_buf s) 1;
                if flags AND 0x3F \<noteq> 0 then Some (XZ_OPTIONS_ERROR, s)
                else
                  do { (compressed, s) \<leftarrow> header_size (flags AND 0x40 \<noteq> 0) s;
                       case compressed of
                         None \<Rightarrow> Some (XZ_DATA_ERROR, s)
                       | Some v \<Rightarrow>
                           do { (uncompressed, s) \<leftarrow> header_size (flags AND 0x80 \<noteq> 0) (s\<lparr>bh_compressed := v\<rparr>);
                                case uncompressed of
                                  None \<Rightarrow> Some (XZ_DATA_ERROR, s)
                                | Some v \<Rightarrow> header_filter malloc (s\<lparr>bh_uncompressed := v\<rparr>) } } } }"

section \<open>The state machine\<close>

text \<open>As in the LZMA2 decoder: one definition per case, which goes on with the next one where the source falls through. The
  first result is the value the function returns, \<open>None\<close> for \<open>break\<close>.\<close>

type_synonym stream_result = "(xz_ret option \<times> xz_dec \<times> xz_buf) option"

definition main_stream_footer :: "xz_dec \<Rightarrow> xz_buf \<Rightarrow> stream_result" where
  "main_stream_footer s b =
    do { (full, s, b) \<leftarrow> fill_temp s b;
         if \<not> full then Some (Some XZ_OK, s, b)
         else do { (ret, s) \<leftarrow> dec_stream_footer s; Some (Some ret, s, b) } }"

definition main_index_crc32 :: "xz_dec \<Rightarrow> xz_buf \<Rightarrow> stream_result" where
  "main_index_crc32 s b =
    do { (ret, s, b) \<leftarrow> crc32_validate s b;
         if ret \<noteq> XZ_STREAM_END then Some (Some ret, s, b)
         else main_stream_footer (s\<lparr>st_size := STREAM_HEADER_SIZE, s_sequence := SEQ_STREAM_FOOTER\<rparr>) b }"

text \<open>The padding of the index: \<open>XZ_STREAM_END\<close> when it is complete.\<close>

partial_function (option) index_padding :: "vli_type \<Rightarrow> nat \<Rightarrow> xz_buf \<Rightarrow> (xz_ret \<times> xz_buf) option" where
  "index_padding size' start b =
    (if (size' + of_nat (in_pos b - start)) AND 3 \<noteq> 0 then
       if in_pos b = in_size b then Some (XZ_OK, b)
       else
         do { c \<leftarrow> fetch (b_in b) (in_pos b);
              if c \<noteq> 0 then Some (XZ_DATA_ERROR, b\<lparr>in_pos := in_pos b + 1\<rparr>)
              else index_padding size' start (b\<lparr>in_pos := in_pos b + 1\<rparr>) }
     else Some (XZ_STREAM_END, b))"

definition main_index_padding :: "xz_dec \<Rightarrow> xz_buf \<Rightarrow> stream_result" where
  "main_index_padding s b =
    do { (ret, b) \<leftarrow> index_padding (idx_size s) (in_start s) b;
         if ret = XZ_DATA_ERROR then Some (Some XZ_DATA_ERROR, s, b)
         else
           do { s \<leftarrow> index_update s b;
                if ret = XZ_OK then Some (Some XZ_OK, s, b)
                else if hash_bytes (blk_hash s) \<noteq> hash_bytes (idx_hash s) then Some (Some XZ_DATA_ERROR, s, b)
                else main_index_crc32 (s\<lparr>s_sequence := SEQ_INDEX_CRC32\<rparr>) b } }"

definition main_index :: "xz_dec \<Rightarrow> xz_buf \<Rightarrow> stream_result" where
  "main_index s b =
    do { (ret, s, b) \<leftarrow> dec_index s b;
         if ret \<noteq> XZ_STREAM_END then Some (Some ret, s, b)
         else main_index_padding (s\<lparr>s_sequence := SEQ_INDEX_PADDING\<rparr>) b }"

definition main_block_check :: "xz_dec \<Rightarrow> xz_buf \<Rightarrow> stream_result" where
  "main_block_check s b =
    (if check_type s = XZ_CHECK_CRC32
     then do { (ret, s, b) \<leftarrow> crc32_validate s b;
               if ret \<noteq> XZ_STREAM_END then Some (Some ret, s, b) else Some (None, s\<lparr>s_sequence := SEQ_BLOCK_START\<rparr>, b) }
     else do { (skipped, s, b) \<leftarrow> check_skip s b;
               if \<not> skipped then Some (Some XZ_OK, s, b) else Some (None, s\<lparr>s_sequence := SEQ_BLOCK_START\<rparr>, b) })"

partial_function (option) block_padding :: "vli_type \<Rightarrow> xz_buf \<Rightarrow> (xz_ret \<times> vli_type \<times> xz_buf) option" where
  "block_padding n b =
    (if n AND 3 \<noteq> 0 then
       if in_pos b = in_size b then Some (XZ_OK, n, b)
       else
         do { c \<leftarrow> fetch (b_in b) (in_pos b);
              if c \<noteq> 0 then Some (XZ_DATA_ERROR, n, b\<lparr>in_pos := in_pos b + 1\<rparr>)
              else block_padding (n + 1) (b\<lparr>in_pos := in_pos b + 1\<rparr>) }
     else Some (XZ_STREAM_END, n, b))"

definition main_block_padding :: "xz_dec \<Rightarrow> xz_buf \<Rightarrow> stream_result" where
  "main_block_padding s b =
    do { (ret, n, b) \<leftarrow> block_padding (blk_compressed s) b;
         let s = s\<lparr>blk_compressed := n\<rparr>;
         if ret \<noteq> XZ_STREAM_END then Some (Some ret, s, b)
         else main_block_check (s\<lparr>s_sequence := SEQ_BLOCK_CHECK\<rparr>) b }"

definition main_block_uncompress :: "xz_dec \<Rightarrow> xz_buf \<Rightarrow> stream_result" where
  "main_block_uncompress s b =
    do { (ret, s, b) \<leftarrow> dec_block s b;
         if ret \<noteq> XZ_STREAM_END then Some (Some ret, s, b)
         else main_block_padding (s\<lparr>s_sequence := SEQ_BLOCK_PADDING\<rparr>) b }"

definition main_block_header :: "(nat \<Rightarrow> nat \<Rightarrow> u8 list option) \<Rightarrow> xz_dec \<Rightarrow> xz_buf \<Rightarrow> stream_result" where
  "main_block_header malloc s b =
    do { (full, s, b) \<leftarrow> fill_temp s b;
         if \<not> full then Some (Some XZ_OK, s, b)
         else
           do { (ret, s) \<leftarrow> dec_block_header malloc s;
                if ret \<noteq> XZ_OK then Some (Some ret, s, b)
                else main_block_uncompress (s\<lparr>s_sequence := SEQ_BLOCK_UNCOMPRESS\<rparr>) b } }"

definition main_block_start :: "(nat \<Rightarrow> nat \<Rightarrow> u8 list option) \<Rightarrow> xz_dec \<Rightarrow> xz_buf \<Rightarrow> stream_result" where
  "main_block_start malloc s b =
    (if in_pos b = in_size b then Some (Some XZ_OK, s, b)
     else
       do { c \<leftarrow> fetch (b_in b) (in_pos b);
            if c = 0 then Some (None, s\<lparr>in_start := in_pos b, s_sequence := SEQ_INDEX\<rparr>, b\<lparr>in_pos := in_pos b + 1\<rparr>)
            else
              do { let size' = (ucast c + 1) * 4;
                   main_block_header malloc (s\<lparr>bh_size := size', st_size := unat size', st_pos := 0, s_sequence := SEQ_BLOCK_HEADER\<rparr>) b } })"

definition main_stream_header :: "(nat \<Rightarrow> nat \<Rightarrow> u8 list option) \<Rightarrow> xz_dec \<Rightarrow> xz_buf \<Rightarrow> stream_result" where
  "main_stream_header malloc s b =
    do { (full, s, b) \<leftarrow> fill_temp s b;
         if \<not> full then Some (Some XZ_OK, s, b)
         else
           do { (ret, s) \<leftarrow> dec_stream_header (s\<lparr>s_sequence := SEQ_BLOCK_START\<rparr>);
                if ret \<noteq> XZ_OK then Some (Some ret, s, b) else main_block_start malloc s b } }"

definition main_step :: "(nat \<Rightarrow> nat \<Rightarrow> u8 list option) \<Rightarrow> xz_dec \<Rightarrow> xz_buf \<Rightarrow> stream_result" where
  "main_step malloc s b =
    (case s_sequence s of
       SEQ_STREAM_HEADER \<Rightarrow> main_stream_header malloc s b
     | SEQ_BLOCK_START \<Rightarrow> main_block_start malloc s b
     | SEQ_BLOCK_HEADER \<Rightarrow> main_block_header malloc s b
     | SEQ_BLOCK_UNCOMPRESS \<Rightarrow> main_block_uncompress s b
     | SEQ_BLOCK_PADDING \<Rightarrow> main_block_padding s b
     | SEQ_BLOCK_CHECK \<Rightarrow> main_block_check s b
     | SEQ_INDEX \<Rightarrow> main_index s b
     | SEQ_INDEX_PADDING \<Rightarrow> main_index_padding s b
     | SEQ_INDEX_CRC32 \<Rightarrow> main_index_crc32 s b
     | SEQ_STREAM_FOOTER \<Rightarrow> main_stream_footer s b)"

partial_function (option) main_loop ::
    "(nat \<Rightarrow> nat \<Rightarrow> u8 list option) \<Rightarrow> xz_dec \<Rightarrow> xz_buf \<Rightarrow> (xz_ret \<times> xz_dec \<times> xz_buf) option" where
  "main_loop malloc s b =
    do { (r, s, b) \<leftarrow> main_step malloc s b;
         case r of Some ret \<Rightarrow> Some (ret, s, b) | None \<Rightarrow> main_loop malloc s b }"

definition dec_main ::
    "(nat \<Rightarrow> nat \<Rightarrow> u8 list option) \<Rightarrow> xz_dec \<Rightarrow> xz_buf \<Rightarrow> (xz_ret \<times> xz_dec \<times> xz_buf) option" where
  "dec_main malloc s b = main_loop malloc (s\<lparr>in_start := in_pos b\<rparr>) b"

section \<open>The interface\<close>

definition xz_dec_run ::
    "(nat \<Rightarrow> nat \<Rightarrow> u8 list option) \<Rightarrow> xz_dec \<Rightarrow> xz_buf \<Rightarrow> (xz_ret \<times> xz_dec \<times> xz_buf) option" where
  "xz_dec_run malloc s b =
    do { (ret, s, b') \<leftarrow> dec_main malloc s b;
         if ret = XZ_OK \<and> in_pos b' = in_pos b \<and> out_pos b' = out_pos b
         then Some (if allow_buf_error s then XZ_BUF_ERROR else ret, s\<lparr>allow_buf_error := True\<rparr>, b')
         else Some (ret, s\<lparr>allow_buf_error := False\<rparr>, b') }"

definition zero_hash :: xz_dec_hash where
  "zero_hash = \<lparr>h_unpadded = 0, h_uncompressed = 0, h_crc32 = 0\<rparr>"

definition xz_dec_reset :: "xz_dec \<Rightarrow> xz_dec" where
  "xz_dec_reset s =
    s\<lparr>s_sequence := SEQ_STREAM_HEADER, allow_buf_error := False, v_pos := 0, s_crc32 := 0,
      blk_compressed := 0, blk_uncompressed := 0, blk_count := 0, blk_hash := zero_hash,
      idx_sequence := SEQ_INDEX_COUNT, idx_size := 0, idx_count := 0, idx_hash := zero_hash,
      st_pos := 0, st_size := STREAM_HEADER_SIZE\<rparr>"

text \<open>The object from \<open>calloc\<close>, with the decoder of the next layer in it.\<close>

definition zero_dec :: "xz_dec_lzma2 \<Rightarrow> xz_dec" where
  "zero_dec l =
    \<lparr>s_sequence = SEQ_STREAM_HEADER, v_pos = 0, vli = 0, in_start = 0, out_start = 0, s_crc32 = 0, check_type = 0, s_mode = XZ_SINGLE,
     allow_buf_error = False, bh_compressed = 0, bh_uncompressed = 0, bh_size = 0, blk_compressed = 0, blk_uncompressed = 0,
     blk_count = 0, blk_hash = zero_hash, idx_sequence = SEQ_INDEX_COUNT, idx_size = 0, idx_count = 0, idx_hash = zero_hash,
     st_pos = 0, st_size = 0, st_buf = replicate 1024 0, lzma2 = l\<rparr>"

text \<open>The two flags say whether the two calls of \<open>calloc\<close> succeed.\<close>

definition xz_dec_init :: "bool \<Rightarrow> bool \<Rightarrow> xz_mode \<Rightarrow> u32 \<Rightarrow> xz_dec option" where
  "xz_dec_init calloc1 calloc2 mode dict_max =
    (if \<not> calloc1 then None
     else
       do { l \<leftarrow> xz_dec_lzma2_create calloc2 mode dict_max;
            Some (xz_dec_reset ((zero_dec l)\<lparr>s_mode := mode\<rparr>)) })"

end
