(* ===== verification/Xz_Stream_Safe.thy ===== *)
theory Xz_Stream_Safe
  imports Xz_Stream
begin

text \<open>
  The invariant of the stream decoder and its preservation by every case of \<open>dec_main\<close>: all accesses to the input, the
  output and the header buffer are in bounds, shifts are defined, and the state machine returns.
\<close>

section \<open>Reading\<close>

definition bytes_read :: "nat \<Rightarrow> xz_buf \<Rightarrow> xz_buf" where
  "bytes_read n b = b\<lparr>in_pos := in_pos b + n\<rparr>"

lemma bytes_read_simps [simp]:
  "in_pos (bytes_read n b) = in_pos b + n" "in_size (bytes_read n b) = in_size b" "b_in (bytes_read n b) = b_in b"
  "b_out (bytes_read n b) = b_out b" "out_pos (bytes_read n b) = out_pos b" "out_size (bytes_read n b) = out_size b"
  "bytes_read m (bytes_read n b) = bytes_read (n + m) b" "bytes_read 0 b = b" "b\<lparr>in_pos := in_pos b + n\<rparr> = bytes_read n b"
  "b\<lparr>in_pos := Suc (in_pos b)\<rparr> = bytes_read (Suc 0) b"
  by (simp_all add: bytes_read_def add.assoc)

lemma buf_step_read: "buf_ok b \<Longrightarrow> in_pos b + n \<le> in_size b \<Longrightarrow> buf_step b (bytes_read n b)"
  unfolding bytes_read_def by (rule buf_step_in)

lemma slice_ok: "i + n \<le> length xs \<Longrightarrow> slice xs i n = Some (take n (drop i xs))"
  by (simp add: slice_def)

text \<open>What reading functions leave alone.\<close>

definition frame :: "xz_dec \<Rightarrow> xz_dec \<Rightarrow> bool" where
  "frame s s' \<longleftrightarrow> st_buf s' = st_buf s \<and> st_pos s' = st_pos s \<and> st_size s' = st_size s \<and> check_type s' = check_type s \<and>
    lzma2 s' = lzma2 s \<and> allow_buf_error s' = allow_buf_error s \<and> in_start s' = in_start s \<and> s_sequence s' = s_sequence s"

lemma frame_refl [simp]: "frame s s"
  by (simp add: frame_def)

lemma frame_trans: "frame s s' \<Longrightarrow> frame s' s'' \<Longrightarrow> frame s s''"
  by (simp add: frame_def)

lemma fill_temp_ok:
  assumes "st_pos s < st_size s" "st_size s \<le> length (st_buf s)" "buf_ok b"
  obtains full buf p n where "fill_temp s b = Some (full, s\<lparr>st_buf := buf, st_pos := p\<rparr>, bytes_read n b)"
    "length buf = length (st_buf s)" "in_pos b + n \<le> in_size b" "p < st_size s" "full \<Longrightarrow> p = 0 \<and> 0 < n"
proof -
  define n where "n = min (in_size b - in_pos b) (st_size s - st_pos s)"
  have n: "st_pos s + n \<le> length (st_buf s)" "in_pos b + n \<le> length (b_in b)" "in_pos b + n \<le> in_size b" "st_pos s + n \<le> st_size s"
    using assms by (auto simp: n_def buf_ok_def)
  obtain buf where c: "copy_array (st_buf s) (st_pos s) (b_in b) (in_pos b) n = Some buf" "length buf = length (st_buf s)"
    by (rule copy_array_out [OF n(1,2)])
  have "fill_temp s b = Some (st_pos s + n = st_size s, s\<lparr>st_buf := buf, st_pos := (if st_pos s + n = st_size s then 0 else st_pos s + n)\<rparr>, bytes_read n b)"
    using c(1) by (simp add: fill_temp_def n_def [symmetric] Let_def)
  then show ?thesis by (rule that) (use c(2) n assms(1) in auto)
qed

section \<open>Variable-length integers\<close>

definition vli_pos :: "u32 \<Rightarrow> bool" where
  "vli_pos p \<longleftrightarrow> (\<exists>k < 9. p = of_nat (7 * k))"

lemma vli_pos_step: "vli_pos p \<Longrightarrow> p + 7 \<noteq> 63 \<Longrightarrow> vli_pos (p + 7)"
proof -
  assume p: "vli_pos p" and ne: "p + 7 \<noteq> 63"
  obtain k where k: "k < 9" "p = of_nat (7 * k)" using p by (auto simp: vli_pos_def)
  have e: "p + 7 = of_nat (7 * Suc k)" using k(2) by simp
  moreover have "k \<noteq> 8" using e ne by auto
  ultimately show ?thesis using k(1) by (auto simp: vli_pos_def intro!: exI [of _ "Suc k"])
qed

lemma vli_pos_less: "vli_pos p \<Longrightarrow> unat p < 64"
  by (auto simp: vli_pos_def unat_of_nat32 simp del: of_nat_mult)

lemma vli_loop_ok:
  assumes "vli_pos pos" "n \<le> length inp" "i \<le> n"
  shows "\<exists>ret pos' v' m. vli_loop pos v inp i n = Some (ret, pos', v', i + m) \<and> i + m \<le> n \<and> ret \<in> {XZ_OK, XZ_STREAM_END, XZ_DATA_ERROR} \<and>
    (ret = XZ_STREAM_END \<longrightarrow> pos' = 0 \<and> 0 < m) \<and> (ret = XZ_OK \<longrightarrow> vli_pos pos' \<and> i + m = n)"
  using assms
proof (induction pos v inp i n rule: vli_loop.induct)
  case (1 pos v inp i n)
  show ?case
  proof (cases "i < n")
    case False
    then have "vli_loop pos v inp i n = Some (XZ_OK, pos, v, i + 0)" by (subst vli_loop.simps) simp
    then show ?thesis using False 1(2,4) by (intro exI [of _ XZ_OK] exI [of _ pos] exI [of _ v] exI [of _ 0]) simp
  next
    case True
    let ?c = "inp ! i"
    have f: "fetch inp i = Some ?c" using True 1(3) by simp
    obtain bits where bits: "shift_left (ucast (?c AND 0x7F)) pos = Some bits" using vli_pos_less [OF 1(2)] by (simp add: shift_left_def)
    let ?v = "v OR bits"
    have eq: "vli_loop pos v inp i n = (if ?c AND 0x80 = 0 then
              if ?c = 0 \<and> pos \<noteq> 0 then Some (XZ_DATA_ERROR, pos, ?v, i + 1) else Some (XZ_STREAM_END, 0, ?v, i + 1)
            else if pos + 7 = 7 * VLI_BYTES_MAX then Some (XZ_DATA_ERROR, pos + 7, ?v, i + 1) else vli_loop (pos + 7) ?v inp (i + 1) n)"
      using True by (subst vli_loop.simps) (simp add: f bits Let_def)
    show ?thesis
    proof (cases "?c AND 0x80 = 0 \<or> pos + 7 = 7 * VLI_BYTES_MAX")
      case stop: True
      define res where "res = (if ?c AND 0x80 = 0 then
              if ?c = 0 \<and> pos \<noteq> 0 then (XZ_DATA_ERROR, pos) else (XZ_STREAM_END, 0) else (XZ_DATA_ERROR, pos + 7))"
      have "vli_loop pos v inp i n = Some (fst res, snd res, ?v, i + 1)" using stop eq by (auto simp: res_def)
      moreover have "fst res \<in> {XZ_STREAM_END, XZ_DATA_ERROR}" "fst res = XZ_STREAM_END \<longrightarrow> snd res = 0" by (auto simp: res_def)
      ultimately show ?thesis using True by (intro exI [of _ "fst res"] exI [of _ "snd res"] exI [of _ ?v] exI [of _ 1]) auto
    next
      case go: False
      have vp: "vli_pos (pos + 7)" using vli_pos_step [OF 1(2)] go by (simp add: VLI_BYTES_MAX_def)
      have "\<exists>ret pos' v' m. vli_loop (pos + 7) ?v inp (i + 1) n = Some (ret, pos', v', (i + 1) + m) \<and> (i + 1) + m \<le> n \<and>
          ret \<in> {XZ_OK, XZ_STREAM_END, XZ_DATA_ERROR} \<and> (ret = XZ_STREAM_END \<longrightarrow> pos' = 0 \<and> 0 < m) \<and> (ret = XZ_OK \<longrightarrow> vli_pos pos' \<and> (i + 1) + m = n)"
        using 1(1) [OF True f bits refl _ _ vp 1(3)] go True by simp
      then obtain ret pos' v' m where r: "vli_loop (pos + 7) ?v inp (i + 1) n = Some (ret, pos', v', (i + 1) + m)" "(i + 1) + m \<le> n"
          "ret \<in> {XZ_OK, XZ_STREAM_END, XZ_DATA_ERROR}" "ret = XZ_STREAM_END \<longrightarrow> pos' = 0 \<and> 0 < m" "ret = XZ_OK \<longrightarrow> vli_pos pos' \<and> (i + 1) + m = n" by blast
      have "vli_loop pos v inp i n = Some (ret, pos', v', i + Suc m)" using eq go r(1) by simp
      then show ?thesis using r by (intro exI [of _ ret] exI [of _ pos'] exI [of _ v'] exI [of _ "Suc m"]) simp
    qed
  qed
qed

lemma dec_vli_ok:
  assumes "vli_pos (v_pos s)" "n \<le> length inp" "i \<le> n"
  obtains ret pos v m where "dec_vli s inp i n = Some (ret, s\<lparr>v_pos := pos, vli := v\<rparr>, i + m)" "i + m \<le> n"
    "ret \<in> {XZ_OK, XZ_STREAM_END, XZ_DATA_ERROR}" "ret = XZ_STREAM_END \<Longrightarrow> pos = 0 \<and> 0 < m" "ret = XZ_OK \<Longrightarrow> vli_pos pos \<and> i + m = n"
  using vli_loop_ok [OF assms, of "if v_pos s = 0 then 0 else vli s"] by (fastforce simp: dec_vli_def)

section \<open>Index and checks\<close>

lemma buf_ok_read [simp]: "buf_ok b \<Longrightarrow> in_pos b + n \<le> in_size b \<Longrightarrow> buf_ok (bytes_read n b)"
  by (simp add: buf_ok_def)

lemma index_update_ok:
  assumes "buf_ok b" "in_start s \<le> in_pos b"
  obtains sz crc where "index_update s b = Some (s\<lparr>idx_size := sz, s_crc32 := crc\<rparr>)"
  using assms by (simp add: index_update_def slice_def buf_ok_def)

lemma index_record_frame: "frame s (snd (index_record s)) \<and> v_pos (snd (index_record s)) = v_pos s"
  by (cases "idx_sequence s") (simp_all add: index_record_def frame_def Let_def)

definition reads :: "xz_ret set \<Rightarrow> (u32 \<Rightarrow> bool) \<Rightarrow> xz_dec \<Rightarrow> xz_buf \<Rightarrow> (xz_ret \<times> xz_dec \<times> xz_buf) option \<Rightarrow> bool" where
  "reads rets pos_ok s b res \<longleftrightarrow> (\<exists>ret s' n. res = Some (ret, s', bytes_read n b) \<and> in_pos b + n \<le> in_size b \<and> frame s s' \<and> ret \<in> rets \<and>
    (ret = XZ_STREAM_END \<longrightarrow> v_pos s' = 0 \<and> 0 < n) \<and> (ret = XZ_OK \<longrightarrow> pos_ok (v_pos s')))"

lemma readsI:
  "in_pos b + n \<le> in_size b \<Longrightarrow> frame s s' \<Longrightarrow> ret \<in> rets \<Longrightarrow> (ret = XZ_STREAM_END \<Longrightarrow> v_pos s' = 0 \<and> 0 < n) \<Longrightarrow>
    (ret = XZ_OK \<Longrightarrow> pos_ok (v_pos s')) \<Longrightarrow> reads rets pos_ok s b (Some (ret, s', bytes_read n b))"
  by (auto simp: reads_def)

lemma readsE:
  assumes "reads rets pos_ok s b res"
  obtains ret s' n where "res = Some (ret, s', bytes_read n b)" "in_pos b + n \<le> in_size b" "frame s s'" "ret \<in> rets"
    "ret = XZ_STREAM_END \<Longrightarrow> v_pos s' = 0 \<and> 0 < n" "ret = XZ_OK \<Longrightarrow> pos_ok (v_pos s')"
  using assms unfolding reads_def by blast

lemma reads_more:
  assumes "reads rets pos_ok s' (bytes_read m b) res" "frame s s'"
  shows "reads rets pos_ok s b res"
proof -
  obtain ret t n where r: "res = Some (ret, t, bytes_read n (bytes_read m b))" "in_pos (bytes_read m b) + n \<le> in_size (bytes_read m b)"
      "frame s' t" "ret \<in> rets" "ret = XZ_STREAM_END \<Longrightarrow> v_pos t = 0 \<and> 0 < n" "ret = XZ_OK \<Longrightarrow> pos_ok (v_pos t)"
    by (rule readsE [OF assms(1)]) blast
  have "res = Some (ret, t, bytes_read (m + n) b)" using r(1) by simp
  moreover have "reads rets pos_ok s b (Some (ret, t, bytes_read (m + n) b))"
    using r(2,4-6) frame_trans [OF assms(2) r(3)] by (intro readsI) simp_all
  ultimately show ?thesis by simp
qed

abbreviation index_rets :: "xz_ret set" where
  "index_rets \<equiv> {XZ_OK, XZ_STREAM_END, XZ_DATA_ERROR}"

lemma dec_index_ok: "vli_pos (v_pos s) \<Longrightarrow> buf_ok b \<Longrightarrow> in_start s \<le> in_pos b \<Longrightarrow> reads index_rets vli_pos s b (dec_index s b)"
proof (induction "in_size b - in_pos b" arbitrary: s b rule: less_induct)
  case less
  have n: "in_size b \<le> length (b_in b)" "in_pos b \<le> in_size b" using less(3) by (auto simp: buf_ok_def)
  obtain ret pos v m where d: "dec_vli s (b_in b) (in_pos b) (in_size b) = Some (ret, s\<lparr>v_pos := pos, vli := v\<rparr>, in_pos b + m)"
      "in_pos b + m \<le> in_size b" "ret \<in> index_rets" "ret = XZ_STREAM_END \<Longrightarrow> pos = 0 \<and> 0 < m" "ret = XZ_OK \<Longrightarrow> vli_pos pos \<and> in_pos b + m = in_size b"
    by (rule dec_vli_ok [OF less(2) n]) blast
  let ?s = "s\<lparr>v_pos := pos, vli := v\<rparr>"
  let ?b = "bytes_read m b"
  have f: "frame s ?s" by (simp add: frame_def)
  have b: "buf_ok ?b" "in_start ?s \<le> in_pos ?b" using less(3,4) d(2) by simp_all
  show ?case
  proof (cases "ret = XZ_STREAM_END")
    case False
    obtain sz crc where u: "index_update ?s ?b = Some (?s\<lparr>idx_size := sz, s_crc32 := crc\<rparr>)" by (rule index_update_ok [OF b])
    have "dec_index s b = Some (ret, ?s\<lparr>idx_size := sz, s_crc32 := crc\<rparr>, ?b)"
      using False u by (subst dec_index.simps) (simp add: d(1))
    moreover have "reads index_rets vli_pos s b (Some (ret, ?s\<lparr>idx_size := sz, s_crc32 := crc\<rparr>, ?b))"
      using False d by (intro readsI) (auto simp: frame_def)
    ultimately show ?thesis by simp
  next
    case True
    obtain ok t where t: "index_record ?s = (ok, t)" by force
    have ft: "frame s t" "v_pos t = 0" using index_record_frame [of ?s] t frame_trans [OF f, of t] d(4) [OF True] by simp_all
    have eq: "dec_index s b = (if \<not> ok then Some (XZ_DATA_ERROR, t, ?b) else if idx_count t > 0 then dec_index t ?b else Some (XZ_STREAM_END, t, ?b))"
      by (subst dec_index.simps) (simp add: d(1) True t)
    have m: "0 < m" using d(4) True by simp
    have "reads index_rets vli_pos t ?b (dec_index t ?b)"
      using m d(2) b ft less(4) by (intro less(1)) (auto simp: vli_pos_def frame_def intro!: exI [of _ 0])
    then have go: "reads index_rets vli_pos s b (dec_index t ?b)" using ft(1) by (rule reads_more)
    have stop: "reads index_rets vli_pos s b (Some (r, t, ?b))" if "r \<in> {XZ_DATA_ERROR, XZ_STREAM_END}" for r
      using that ft m d(2) by (intro readsI) auto
    show ?thesis using go stop by (simp add: eq)
  qed
qed

definition crc_pos :: "u32 \<Rightarrow> bool" where
  "crc_pos p \<longleftrightarrow> p \<in> {0, 8, 16, 24}"

lemma next_byte_read:
  assumes "buf_ok b" "in_pos b \<noteq> in_size b"
  obtains c where "next_byte b = Some (c, bytes_read 1 b)" "fetch (b_in b) (in_pos b) = Some c" "in_pos b + 1 \<le> in_size b"
  using assms by (simp add: next_byte_def buf_ok_def)

lemma crc32_validate_ok: "crc_pos (v_pos s) \<Longrightarrow> buf_ok b \<Longrightarrow> reads index_rets crc_pos s b (crc32_validate s b)"
proof (induction "in_size b - in_pos b" arbitrary: s b rule: less_induct)
  case less
  show ?case
  proof (cases "in_pos b = in_size b")
    case True
    have "reads index_rets crc_pos s b (Some (XZ_OK, s, bytes_read 0 b))" using True less(2) by (intro readsI) simp_all
    then show ?thesis using True by (subst crc32_validate.simps) simp
  next
    case False
    obtain c where c: "next_byte b = Some (c, bytes_read 1 b)" "in_pos b + 1 \<le> in_size b" by (rule next_byte_read [OF less(3) False])
    obtain crc where crc: "shift_right (s_crc32 s) (v_pos s) = Some crc" using less(2) by (auto simp: crc_pos_def shift_right_def)
    let ?s = "s\<lparr>v_pos := v_pos s + 8\<rparr>"
    let ?b = "bytes_read 1 b"
    have eq: "crc32_validate s b = (if crc AND 0xFF \<noteq> ucast c then Some (XZ_DATA_ERROR, s, ?b)
        else if v_pos s + 8 < 32 then crc32_validate ?s ?b else Some (XZ_STREAM_END, ?s\<lparr>s_crc32 := 0, v_pos := 0\<rparr>, ?b))"
      using False by (subst crc32_validate.simps) (simp add: c crc)
    have f: "frame s ?s" "frame s (?s\<lparr>s_crc32 := 0, v_pos := 0\<rparr>)" by (simp_all add: frame_def)
    have "reads index_rets crc_pos ?s ?b (crc32_validate ?s ?b)" if "v_pos s + 8 < 32"
      using that c(2) less(2,3) by (intro less(1)) (auto simp: crc_pos_def)
    then have "v_pos s + 8 < 32 \<Longrightarrow> reads index_rets crc_pos s b (crc32_validate ?s ?b)" using f(1) by (blast intro: reads_more)
    moreover have "reads index_rets crc_pos s b (Some (XZ_DATA_ERROR, s, ?b))" using c(2) by (intro readsI) simp_all
    moreover have "reads index_rets crc_pos s b (Some (XZ_STREAM_END, ?s\<lparr>s_crc32 := 0, v_pos := 0\<rparr>, ?b))" using f(2) c(2) by (intro readsI) simp_all
    ultimately show ?thesis by (simp add: eq)
  qed
qed

lemma length_check_sizes [simp]: "length check_sizes = 16"
  by (simp add: check_sizes_def)

lemma check_skip_ok:
  "unat (check_type s) < 16 \<Longrightarrow> buf_ok b \<Longrightarrow> \<exists>r s' n. check_skip s b = Some (r, s', bytes_read n b) \<and> in_pos b + n \<le> in_size b \<and>
     frame s s' \<and> (r \<longrightarrow> v_pos s' = 0)"
proof (induction "in_size b - in_pos b" arbitrary: s b rule: less_induct)
  case less
  obtain k where k: "fetch check_sizes (unat (check_type s)) = Some k" using less(2) by simp
  show ?case
  proof (cases "v_pos s < ucast k \<and> in_pos b \<noteq> in_size b")
    case False
    then have "check_skip s b = (if v_pos s < ucast k then Some (False, s, bytes_read 0 b) else Some (True, s\<lparr>v_pos := 0\<rparr>, bytes_read 0 b))"
      by (subst check_skip.simps) (auto simp: k)
    moreover have "frame s (s\<lparr>v_pos := 0\<rparr>)" by (simp add: frame_def)
    moreover have "in_pos b + 0 \<le> in_size b" using less(3) by (simp add: buf_ok_def)
    ultimately show ?thesis
      by (intro exI [of _ "\<not> v_pos s < ucast k"] exI [of _ "if v_pos s < ucast k then s else s\<lparr>v_pos := 0\<rparr>"] exI [of _ 0]) simp
  next
    case True
    let ?s = "s\<lparr>v_pos := v_pos s + 1\<rparr>"
    have eq: "check_skip s b = check_skip ?s (bytes_read 1 b)" using True by (subst check_skip.simps) (simp add: k)
    have i: "in_pos b + 1 \<le> in_size b" using True less(3) by (auto simp: buf_ok_def)
    have f: "frame s ?s" by (simp add: frame_def)
    have "\<exists>r s' n. check_skip ?s (bytes_read 1 b) = Some (r, s', bytes_read n (bytes_read 1 b)) \<and>
       in_pos (bytes_read 1 b) + n \<le> in_size (bytes_read 1 b) \<and> frame ?s s' \<and> (r \<longrightarrow> v_pos s' = 0)"
      using i less(2,3) by (intro less(1)) simp_all
    then obtain r s' n where "check_skip ?s (bytes_read 1 b) = Some (r, s', bytes_read n (bytes_read 1 b))"
       "in_pos (bytes_read 1 b) + n \<le> in_size (bytes_read 1 b)" "frame ?s s'" "r \<longrightarrow> v_pos s' = 0" by blast
    then show ?thesis using frame_trans [OF f, of s'] by (intro exI [of _ r] exI [of _ s'] exI [of _ "1 + n"]) (simp add: eq)
  qed
qed

lemma index_padding_ok:
  "buf_ok b \<Longrightarrow> \<exists>r n. index_padding k start b = Some (r, bytes_read n b) \<and> in_pos b + n \<le> in_size b \<and> r \<in> index_rets"
proof (induction "in_size b - in_pos b" arbitrary: b rule: less_induct)
  case less
  show ?case
  proof (cases "(k + of_nat (in_pos b - start)) AND 3 \<noteq> 0 \<and> in_pos b \<noteq> in_size b")
    case False
    then have "\<exists>r. index_padding k start b = Some (r, bytes_read 0 b) \<and> r \<in> index_rets" by (subst index_padding.simps) auto
    then show ?thesis using less(2) by (auto simp: buf_ok_def intro!: exI [of _ 0])
  next
    case True
    obtain c where c: "fetch (b_in b) (in_pos b) = Some c" "in_pos b + 1 \<le> in_size b" using next_byte_read [OF less(2)] True by blast
    have eq: "index_padding k start b = (if c \<noteq> 0 then Some (XZ_DATA_ERROR, bytes_read 1 b) else index_padding k start (bytes_read 1 b))"
      using True by (subst index_padding.simps) (simp add: c)
    have "\<exists>r n. index_padding k start (bytes_read 1 b) = Some (r, bytes_read n (bytes_read 1 b)) \<and>
       in_pos (bytes_read 1 b) + n \<le> in_size (bytes_read 1 b) \<and> r \<in> index_rets"
      using c(2) less(2) by (intro less(1)) simp_all
    then obtain r n where r: "index_padding k start (bytes_read 1 b) = Some (r, bytes_read (1 + n) b)" "in_pos b + (1 + n) \<le> in_size b" "r \<in> index_rets" by auto
    show ?thesis
    proof (cases "c = 0")
      case True then show ?thesis using r eq by auto
    next
      case False then show ?thesis using c(2) eq by auto
    qed
  qed
qed

lemma block_padding_ok:
  "buf_ok b \<Longrightarrow> \<exists>r k' n. block_padding k b = Some (r, k', bytes_read n b) \<and> in_pos b + n \<le> in_size b \<and> r \<in> index_rets"
proof (induction "in_size b - in_pos b" arbitrary: b k rule: less_induct)
  case less
  show ?case
  proof (cases "k AND 3 \<noteq> 0 \<and> in_pos b \<noteq> in_size b")
    case False
    then have "\<exists>r. block_padding k b = Some (r, k, bytes_read 0 b) \<and> r \<in> index_rets" by (subst block_padding.simps) auto
    then show ?thesis using less(2) by (auto simp: buf_ok_def intro!: exI [of _ 0])
  next
    case True
    obtain c where c: "fetch (b_in b) (in_pos b) = Some c" "in_pos b + 1 \<le> in_size b" using next_byte_read [OF less(2)] True by blast
    have eq: "block_padding k b = (if c \<noteq> 0 then Some (XZ_DATA_ERROR, k, bytes_read 1 b) else block_padding (k + 1) (bytes_read 1 b))"
      using True by (subst block_padding.simps) (simp add: c)
    have "\<exists>r k' n. block_padding (k + 1) (bytes_read 1 b) = Some (r, k', bytes_read n (bytes_read 1 b)) \<and>
       in_pos (bytes_read 1 b) + n \<le> in_size (bytes_read 1 b) \<and> r \<in> index_rets"
      using c(2) less(2) by (intro less(1)) simp_all
    then obtain r k' n where r: "block_padding (k + 1) (bytes_read 1 b) = Some (r, k', bytes_read (1 + n) b)" "in_pos b + (1 + n) \<le> in_size b" "r \<in> index_rets" by auto
    show ?thesis
    proof (cases "c = 0")
      case True then show ?thesis using r eq by auto
    next
      case False then show ?thesis using c(2) eq by auto
    qed
  qed
qed

section \<open>The invariant\<close>

fun seq_inv :: "stream_seq \<Rightarrow> xz_dec \<Rightarrow> bool" where
  "seq_inv SEQ_STREAM_HEADER s \<longleftrightarrow> st_size s = 12 \<and> st_pos s < 12 \<and> v_pos s = 0 \<and> t_size (lzma2 s) = 0"
| "seq_inv SEQ_BLOCK_HEADER s \<longleftrightarrow> 8 \<le> st_size s \<and> st_size s \<le> 1024 \<and> st_pos s < st_size s \<and> v_pos s = 0 \<and> t_size (lzma2 s) = 0"
| "seq_inv SEQ_BLOCK_UNCOMPRESS s \<longleftrightarrow> st_pos s = 0 \<and> v_pos s = 0 \<and> (\<exists>out. lzma2_inv (lzma2 s) out)"
| "seq_inv SEQ_BLOCK_CHECK s \<longleftrightarrow> st_pos s = 0 \<and> t_size (lzma2 s) = 0 \<and> (check_type s = XZ_CHECK_CRC32 \<longrightarrow> crc_pos (v_pos s))"
| "seq_inv SEQ_INDEX s \<longleftrightarrow> st_pos s = 0 \<and> t_size (lzma2 s) = 0 \<and> vli_pos (v_pos s)"
| "seq_inv SEQ_INDEX_CRC32 s \<longleftrightarrow> st_pos s = 0 \<and> t_size (lzma2 s) = 0 \<and> crc_pos (v_pos s)"
| "seq_inv SEQ_STREAM_FOOTER s \<longleftrightarrow> st_size s = 12 \<and> st_pos s < 12 \<and> v_pos s = 0 \<and> t_size (lzma2 s) = 0"
| "seq_inv _ s \<longleftrightarrow> st_pos s = 0 \<and> v_pos s = 0 \<and> t_size (lzma2 s) = 0"

definition base_inv :: "xz_dec \<Rightarrow> xz_buf \<Rightarrow> bool" where
  "base_inv s b \<longleftrightarrow> length (st_buf s) = 1024 \<and> unat (check_type s) < 16 \<and> idle_ok (lzma2 s) \<and> in_start s \<le> in_pos b"

definition stream_inv :: "xz_dec \<Rightarrow> xz_buf \<Rightarrow> bool" where
  "stream_inv s b \<longleftrightarrow> base_inv s b \<and> seq_inv (s_sequence s) s"

lemma base_inv_frame: "base_inv s b \<Longrightarrow> frame s s' \<Longrightarrow> base_inv s' (bytes_read n b)"
  by (simp add: base_inv_def frame_def)

lemma frame_lzma2: "frame s s' \<Longrightarrow> lzma2 s' = lzma2 s" "frame s s' \<Longrightarrow> allow_buf_error s' = allow_buf_error s"
  "frame s s' \<Longrightarrow> st_pos s' = st_pos s" "frame s s' \<Longrightarrow> st_size s' = st_size s" "frame s s' \<Longrightarrow> s_sequence s' = s_sequence s"
  "frame s s' \<Longrightarrow> check_type s' = check_type s" "frame s s' \<Longrightarrow> in_start s' = in_start s"
  by (simp_all add: frame_def)

text \<open>A case that ends without a result makes progress or goes to the start of a block, which does.\<close>

definition rank :: "xz_dec \<Rightarrow> nat" where
  "rank s = (if s_sequence s \<in> {SEQ_BLOCK_START, SEQ_BLOCK_HEADER} then 0 else 1)"

definition result_ok :: "xz_ret option \<Rightarrow> xz_dec \<Rightarrow> xz_buf \<Rightarrow> xz_dec \<Rightarrow> xz_buf \<Rightarrow> bool" where
  "result_ok r s b s' b' \<longleftrightarrow>
    (r \<in> {None, Some XZ_OK, Some XZ_UNSUPPORTED_CHECK} \<longrightarrow> stream_inv s' b' \<and> prog_le (lzma2 s) b (lzma2 s') b') \<and>
    (r = Some XZ_UNSUPPORTED_CHECK \<longrightarrow> prog_lt (lzma2 s) b (lzma2 s') b') \<and>
    (r = None \<longrightarrow> prog_lt (lzma2 s) b (lzma2 s') b' \<or> rank s' < rank s)"

definition step_ok :: "xz_dec \<Rightarrow> xz_buf \<Rightarrow> stream_result \<Rightarrow> bool" where
  "step_ok s b res \<longleftrightarrow> (\<exists>r s' b'. res = Some (r, s', b') \<and> buf_step b b' \<and> allow_buf_error s' = allow_buf_error s \<and> result_ok r s b s' b')"

lemma step_chain:
  assumes "step_ok s' b' res" "buf_step b b'" "allow_buf_error s' = allow_buf_error s" "prog_le (lzma2 s) b (lzma2 s') b'"
    "rank s' \<le> rank s \<or> prog_lt (lzma2 s) b (lzma2 s') b'"
  shows "step_ok s b res"
proof -
  obtain r t c where r: "res = Some (r, t, c)" "buf_step b' c" "allow_buf_error t = allow_buf_error s'" "result_ok r s' b' t c"
    using assms(1) unfolding step_ok_def by blast
  have "result_ok r s b t c" unfolding result_ok_def
  proof (intro conjI impI)
    assume a: "r \<in> {None, Some XZ_OK, Some XZ_UNSUPPORTED_CHECK}"
    show "stream_inv t c" using r(4) a by (auto simp: result_ok_def)
    show "prog_le (lzma2 s) b (lzma2 t) c" using r(4) a prog_le_trans [OF assms(4)] by (auto simp: result_ok_def)
  next
    assume "r = Some XZ_UNSUPPORTED_CHECK"
    then show "prog_lt (lzma2 s) b (lzma2 t) c" using r(4) prog_le_lt [OF assms(4)] by (auto simp: result_ok_def)
  next
    assume n: "r = None"
    then have le: "prog_le (lzma2 s') b' (lzma2 t) c" and lt: "prog_lt (lzma2 s') b' (lzma2 t) c \<or> rank t < rank s'" using r(4) by (auto simp: result_ok_def)
    show "prog_lt (lzma2 s) b (lzma2 t) c \<or> rank t < rank s"
      using assms(5) lt prog_le_lt [OF assms(4)] prog_lt_le [OF _ le] by (meson le_trans not_le)
  qed
  then show ?thesis using r(1,3) assms(3) buf_step_trans [OF assms(2) r(2)] by (auto simp: step_ok_def)
qed

lemma prog_read: "in_pos b + n \<le> in_size b \<Longrightarrow> lzma2 s' = lzma2 s \<Longrightarrow> prog_le (lzma2 s) b (lzma2 s') (bytes_read n b)"
  "in_pos b + n \<le> in_size b \<Longrightarrow> t_size (lzma2 s') = t_size (lzma2 s) \<Longrightarrow> 0 < n \<Longrightarrow> prog_lt (lzma2 s) b (lzma2 s') (bytes_read n b)"
  unfolding bytes_read_def by (rule prog_in; simp)+

lemma step_read:
  assumes "step_ok s' (bytes_read n b) res" "buf_ok b" "in_pos b + n \<le> in_size b" "allow_buf_error s' = allow_buf_error s"
    "t_size (lzma2 s') = t_size (lzma2 s)" "0 < n \<or> lzma2 s' = lzma2 s \<and> rank s' \<le> rank s"
  shows "step_ok s b res"
proof (rule step_chain [OF assms(1) buf_step_read [OF assms(2,3)] assms(4)])
  show "prog_le (lzma2 s) b (lzma2 s') (bytes_read n b)"
    using assms(6) prog_read(1) [OF assms(3), of s' s] prog_lt_imp_le [OF prog_read(2) [OF assms(3,5)]] by auto
  show "rank s' \<le> rank s \<or> prog_lt (lzma2 s) b (lzma2 s') (bytes_read n b)"
    using assms(6) prog_read(2) [OF assms(3,5)] by auto
qed

lemma step_return:
  assumes "buf_ok b" "in_pos b + n \<le> in_size b" "allow_buf_error s' = allow_buf_error s"
    "ret = XZ_OK \<Longrightarrow> lzma2 s' = lzma2 s \<and> stream_inv s' (bytes_read n b)" "ret \<noteq> XZ_UNSUPPORTED_CHECK"
  shows "step_ok s b (Some (Some ret, s', bytes_read n b))"
  unfolding step_ok_def result_ok_def using assms prog_read(1) [OF assms(2), of s' s] buf_step_read [OF assms(1,2)] by auto

section \<open>Headers\<close>

lemma stream_header_ok:
  assumes "length (st_buf s) = 1024"
  obtains ret c where "dec_stream_header s = Some (ret, s\<lparr>check_type := c\<rparr>)" "ret \<noteq> XZ_STREAM_END" "ret \<in> {XZ_OK, XZ_UNSUPPORTED_CHECK} \<Longrightarrow> unat c < 16"
proof -
  let ?f1 = "st_buf s ! 7"
  have "\<exists>ret c. dec_stream_header s = Some (ret, s\<lparr>check_type := c\<rparr>) \<and> ret \<noteq> XZ_STREAM_END \<and> (ret \<in> {XZ_OK, XZ_UNSUPPORTED_CHECK} \<longrightarrow> unat c < 16)"
  proof (cases "dec_stream_header s = Some (XZ_OK, s\<lparr>check_type := ?f1\<rparr>) \<or> dec_stream_header s = Some (XZ_UNSUPPORTED_CHECK, s\<lparr>check_type := ?f1\<rparr>)")
    case True
    then have "\<not> ?f1 > XZ_CHECK_MAX" using assms
      by (auto simp: dec_stream_header_def slice_ok get_le32_ok HEADER_MAGIC_SIZE_def Let_def split: if_splits)
    then have "unat ?f1 < 16" by (simp add: XZ_CHECK_MAX_def word_less_nat_alt)
    then show ?thesis using True by auto
  next
    case False
    then have "dec_stream_header s \<in> (\<lambda>r. Some (r, s)) ` {XZ_FORMAT_ERROR, XZ_DATA_ERROR, XZ_OPTIONS_ERROR}" using assms
      by (auto simp: dec_stream_header_def slice_ok get_le32_ok HEADER_MAGIC_SIZE_def Let_def split: if_splits)
    then show ?thesis by (auto intro!: exI [of _ "check_type s"])
  qed
  then show ?thesis using that by blast
qed

lemma stream_footer_ok:
  assumes "length (st_buf s) = 1024"
  obtains ret where "dec_stream_footer s = Some (ret, s)" "ret \<in> {XZ_DATA_ERROR, XZ_STREAM_END}"
proof -
  have "dec_stream_footer s \<in> (\<lambda>r. Some (r, s)) ` {XZ_DATA_ERROR, XZ_STREAM_END}"
    using assms by (simp add: dec_stream_footer_def slice_ok get_le32_ok)
  then show ?thesis using that by blast
qed

lemma header_size_ok:
  assumes "st_pos s \<le> st_size s" "st_size s \<le> length (st_buf s)" "v_pos s = 0"
  obtains r p v i where "header_size present s = Some (r, s\<lparr>v_pos := p, vli := v, st_pos := i\<rparr>)" "i \<le> st_size s" "r \<noteq> None \<Longrightarrow> p = 0"
proof (cases present)
  case True
  have vp: "vli_pos (v_pos s)" using assms(3) by (auto simp: vli_pos_def intro!: exI [of _ 0])
  obtain ret pos v m where d: "dec_vli s (st_buf s) (st_pos s) (st_size s) = Some (ret, s\<lparr>v_pos := pos, vli := v\<rparr>, st_pos s + m)"
      "st_pos s + m \<le> st_size s" "ret = XZ_STREAM_END \<Longrightarrow> pos = 0 \<and> 0 < m"
    by (rule dec_vli_ok [OF vp assms(2,1)]) blast
  show ?thesis
    by (rule that [of "if ret \<noteq> XZ_STREAM_END then None else Some v" "st_pos s + m" v pos]) (use True d in \<open>auto simp: header_size_def split: if_splits\<close>)
next
  case False
  show ?thesis by (rule that [of "Some VLI_UNKNOWN" "st_pos s" "vli s" "v_pos s"]) (use False assms in \<open>simp_all add: header_size_def\<close>)
qed

lemma header_padding_ok: "n \<le> length buf \<Longrightarrow> \<exists>z j. header_padding buf i n = Some (z, j)"
proof (induction buf i n rule: header_padding.induct)
  case (1 buf i n)
  show ?case
  proof (cases "i < n")
    case True
    have f: "fetch buf i = Some (buf ! i)" using True 1(2) by simp
    show ?thesis using 1(1) [OF True f _ 1(2)] True f by (subst header_padding.simps) auto
  qed (subst header_padding.simps, auto)
qed

lemma reset_ret: "xz_dec_lzma2_reset malloc l props = (ret, l') \<Longrightarrow> ret \<in> {XZ_OK, XZ_OPTIONS_ERROR, XZ_MEMLIMIT_ERROR, XZ_MEM_ERROR}"
  by (auto simp: xz_dec_lzma2_reset_def Let_def split: if_splits)

text \<open>What a block header leaves behind.\<close>

definition header_done :: "xz_dec \<Rightarrow> xz_ret \<Rightarrow> xz_dec \<Rightarrow> bool" where
  "header_done s ret s' \<longleftrightarrow> allow_buf_error s' = allow_buf_error s \<and> ret \<notin> {XZ_UNSUPPORTED_CHECK, XZ_STREAM_END} \<and>
    (ret = XZ_OK \<longrightarrow> st_pos s' = 0 \<and> v_pos s' = 0 \<and> st_buf s' = st_buf s \<and> check_type s' = check_type s \<and> in_start s' = in_start s \<and>
       lzma2_inv (lzma2 s') [] \<and> idle_ok (lzma2 s') \<and> t_size (lzma2 s') = 0)"

lemma header_done_simps:
  "header_done (s\<lparr>v_pos := p, vli := v, st_pos := i\<rparr>) = header_done s" "header_done (s\<lparr>bh_compressed := c\<rparr>) = header_done s"
  "header_done (s\<lparr>bh_uncompressed := c\<rparr>) = header_done s" "header_done (s\<lparr>st_pos := i\<rparr>) = header_done s" "header_done (s\<lparr>st_size := n\<rparr>) = header_done s"
  by (simp_all add: header_done_def fun_eq_iff)

lemma header_filter_ok:
  assumes "st_size s \<le> length (st_buf s)" "v_pos s = 0" "malloc_ok malloc" "idle_ok (lzma2 s)"
  shows "\<exists>ret s'. header_filter malloc s = Some (ret, s') \<and> header_done s ret s'"
proof (cases "st_size s - st_pos s < 3")
  case True
  then show ?thesis using assms(1) by (auto simp: header_filter_def header_done_def Let_def)
next
  case False
  let ?i = "st_pos s"
  have f: "fetch (st_buf s) ?i = Some (st_buf s ! ?i)" "fetch (st_buf s) (?i + 1) = Some (st_buf s ! (?i + 1))" "fetch (st_buf s) (?i + 2) = Some (st_buf s ! (?i + 2))"
    using False assms(1) by simp_all
  obtain ret l where r: "xz_dec_lzma2_reset malloc (lzma2 s) (st_buf s ! (?i + 2)) = (ret, l)" by force
  note rr = reset_ret [OF r]
  have lt: "\<not> st_size s \<le> Suc (Suc ?i)" using False by simp
  obtain z j where z: "header_padding (st_buf s) (?i + 3) (st_size s) = Some (z, j)" using header_padding_ok assms(1) by blast
  have eq: "header_filter malloc s =
      (if st_buf s ! ?i \<noteq> 0x21 then Some (XZ_OPTIONS_ERROR, s\<lparr>st_pos := ?i + 1\<rparr>)
       else if st_buf s ! (?i + 1) \<noteq> 0x01 then Some (XZ_OPTIONS_ERROR, s\<lparr>st_pos := ?i + 2\<rparr>)
       else if ret \<noteq> XZ_OK then Some (ret, s\<lparr>st_pos := ?i + 3, lzma2 := l\<rparr>)
       else if \<not> z then Some (XZ_OPTIONS_ERROR, s\<lparr>st_pos := j, lzma2 := l\<rparr>)
       else Some (XZ_OK, s\<lparr>st_pos := 0, lzma2 := l, blk_compressed := 0, blk_uncompressed := 0\<rparr>))"
    using False lt f r z by (simp add: header_filter_def numeral_2_eq_2 numeral_3_eq_3 Let_def)
  have "header_done s XZ_OK (s\<lparr>st_pos := 0, lzma2 := l, blk_compressed := 0, blk_uncompressed := 0\<rparr>)" if "ret = XZ_OK"
    using reset_ok [OF assms(3,4), of _ l] r that assms(2) by (simp add: header_done_def)
  then show ?thesis using rr by (simp add: eq) (auto simp: header_done_def)
qed

lemma block_header_ok:
  assumes "8 \<le> st_size s" "st_size s \<le> 1024" "length (st_buf s) = 1024" "v_pos s = 0" "malloc_ok malloc" "idle_ok (lzma2 s)"
  shows "\<exists>ret s'. dec_block_header malloc s = Some (ret, s') \<and> header_done s ret s'"
proof -
  let ?s = "s\<lparr>st_size := st_size s - 4, st_pos := 2\<rparr>"
  define flags where "flags = st_buf s ! 1"
  have p: "st_pos ?s \<le> st_size ?s" "st_size ?s \<le> length (st_buf ?s)" "v_pos ?s = 0" using assms by simp_all
  obtain r p v i where h: "header_size (flags AND 0x40 \<noteq> 0) ?s = Some (r, ?s\<lparr>v_pos := p, vli := v, st_pos := i\<rparr>)" "i \<le> st_size ?s" "r \<noteq> None \<Longrightarrow> p = 0"
    by (rule header_size_ok [OF p]) blast
  define t where "t c = ?s\<lparr>v_pos := p, vli := v, st_pos := i, bh_compressed := c\<rparr>" for c
  have second: "\<exists>ret s'. (do { (uncompressed, s) \<leftarrow> header_size (flags AND 0x80 \<noteq> 0) (t c);
        case uncompressed of None \<Rightarrow> Some (XZ_DATA_ERROR, s) | Some v \<Rightarrow> header_filter malloc (s\<lparr>bh_uncompressed := v\<rparr>) }) = Some (ret, s') \<and>
      header_done s ret s'" if "p = 0" for c
  proof -
    have q: "st_pos (t c) \<le> st_size (t c)" "st_size (t c) \<le> length (st_buf (t c))" "v_pos (t c) = 0" using h(2) assms that by (simp_all add: t_def)
    obtain r' p' v' i' where h': "header_size (flags AND 0x80 \<noteq> 0) (t c) = Some (r', t c\<lparr>v_pos := p', vli := v', st_pos := i'\<rparr>)" "r' \<noteq> None \<Longrightarrow> p' = 0"
      by (rule header_size_ok [OF q]) blast
    have d: "header_done (t c\<lparr>v_pos := p', vli := v', st_pos := i', bh_uncompressed := u\<rparr>) = header_done s" for u
      by (simp add: header_done_def t_def fun_eq_iff)
    show ?thesis
    proof (cases r')
      case None then show ?thesis by (simp add: h'(1)) (simp add: header_done_def t_def)
    next
      case (Some u)
      let ?t = "t c\<lparr>v_pos := p', vli := v', st_pos := i', bh_uncompressed := u\<rparr>"
      have "\<exists>ret s'. header_filter malloc ?t = Some (ret, s') \<and> header_done ?t ret s'"
        using assms h'(2) Some by (intro header_filter_ok) (simp_all add: t_def)
      then show ?thesis using Some by (simp add: h'(1) d)
    qed
  qed
  have pre: "slice (st_buf s) 0 (st_size s - 4) = Some (take (st_size s - 4) (st_buf s))" "fetch (st_buf s) 1 = Some flags"
    using assms by (simp_all add: slice_ok flags_def)
  obtain crc where crc: "get_le32 (st_buf s) (st_size s - 4) = Some crc" using assms by (simp add: get_le32_ok)
  have stop: "header_done s e ?s" "header_done s e (s\<lparr>st_size := st_size s - 4\<rparr>)" if "e \<in> {XZ_DATA_ERROR, XZ_OPTIONS_ERROR}" for e
    using that by (auto simp: header_done_def)
  have fail: "header_done s XZ_DATA_ERROR (?s\<lparr>v_pos := p, vli := v, st_pos := i\<rparr>)" by (simp add: header_done_def)
  show ?thesis
  proof (cases r)
    case None
    then show ?thesis using pre crc stop fail h(1) by (auto simp: dec_block_header_def Let_def)
  next
    case (Some c)
    then show ?thesis using pre crc stop second [of c] h(1,3) by (auto simp: dec_block_header_def Let_def t_def)
  qed
qed

section \<open>Blocks\<close>

lemma block_finish_ok:
  assumes "unat (check_type s) < 16"
  obtains ret n h where "block_finish s = Some (ret, s\<lparr>blk_hash := h, blk_count := n\<rparr>)" "ret \<in> {XZ_DATA_ERROR, XZ_STREAM_END}"
proof -
  have e: "s = s\<lparr>blk_hash := blk_hash s, blk_count := blk_count s\<rparr>" by simp
  have "\<exists>h n. block_finish s = Some (XZ_DATA_ERROR, s\<lparr>blk_hash := h, blk_count := n\<rparr>) \<or> block_finish s = Some (XZ_STREAM_END, s\<lparr>blk_hash := h, blk_count := n\<rparr>)"
  proof (cases "block_finish s = Some (XZ_DATA_ERROR, s)")
    case True
    then show ?thesis by (intro exI [of _ "blk_hash s"] exI [of _ "blk_count s"]) simp
  next
    case False
    then show ?thesis using assms by (auto simp: block_finish_def)
  qed
  then show ?thesis using that by auto
qed

definition block_done :: "xz_dec \<Rightarrow> xz_buf \<Rightarrow> xz_ret \<Rightarrow> xz_dec \<Rightarrow> xz_buf \<Rightarrow> bool" where
  "block_done s b ret s' b' \<longleftrightarrow> buf_step b b' \<and> ret \<in> index_rets \<and> allow_buf_error s' = allow_buf_error s \<and>
    (ret \<noteq> XZ_DATA_ERROR \<longrightarrow> st_buf s' = st_buf s \<and> check_type s' = check_type s \<and> st_pos s' = st_pos s \<and> v_pos s' = v_pos s \<and>
       s_sequence s' = s_sequence s \<and> in_start s' = in_pos b \<and> idle_ok (lzma2 s') \<and> (\<exists>out. lzma2_inv (lzma2 s') out) \<and> prog_le (lzma2 s) b (lzma2 s') b') \<and>
    (ret = XZ_STREAM_END \<longrightarrow> prog_lt (lzma2 s) b (lzma2 s') b' \<and> t_size (lzma2 s') = 0)"

lemma idle_same: "idle_ok s \<Longrightarrow> dict_same (s_dict2 s) (s_dict2 s') \<Longrightarrow> lzma2_inv s' out \<Longrightarrow> idle_ok s'"
  by (simp add: idle_ok_def dict_same_def lzma2_inv_def)

lemma dec_block_ok:
  assumes "lzma2_inv (lzma2 s) out" "buf_ok b" "unat (check_type s) < 16" "idle_ok (lzma2 s)"
  shows "\<exists>ret s' b'. dec_block s b = Some (ret, s', b') \<and> block_done s b ret s' b'"
proof -
  obtain ret l b' where r: "xz_dec_lzma2_run (lzma2 s) b = Some (ret, l, b')" "run_ok (lzma2 s) b ret l b'" using lzma2_run_ok [OF assms(1,2)] by blast
  have bs: "buf_step b b'" and rr: "ret \<in> index_rets" using r(2) by (auto simp: run_ok_def)
  define t where "t = block_used (s\<lparr>in_start := in_pos b, out_start := out_pos b\<rparr>) l b'"
  have t: "check_type t = check_type s" "out_start t = out_pos b" by (simp_all add: t_def block_used_def)
  have "\<exists>crc. block_crc32 t b' = Some (t\<lparr>s_crc32 := crc\<rparr>)"
  proof (cases "check_type s = XZ_CHECK_CRC32")
    case True then show ?thesis using bs by (auto simp: block_crc32_def t slice_def buf_step_def buf_ok_def)
  next
    case False then show ?thesis by (intro exI [of _ "s_crc32 t"]) (simp add: block_crc32_def t)
  qed
  then obtain crc where crc: "block_crc32 t b' = Some (t\<lparr>s_crc32 := crc\<rparr>)" by blast
  obtain ret' n h where f: "block_finish (t\<lparr>s_crc32 := crc\<rparr>) = Some (ret', t\<lparr>s_crc32 := crc\<rparr>\<lparr>blk_hash := h, blk_count := n\<rparr>)"
      "ret' \<in> {XZ_DATA_ERROR, XZ_STREAM_END}"
    using block_finish_ok [of "t\<lparr>s_crc32 := crc\<rparr>"] assms(3) t by auto
  have eq: "dec_block s b =
      (if blk_compressed t > bh_compressed t \<or> blk_uncompressed t > bh_uncompressed t then Some (XZ_DATA_ERROR, t, b')
       else if ret = XZ_STREAM_END then Some (ret', t\<lparr>s_crc32 := crc\<rparr>\<lparr>blk_hash := h, blk_count := n\<rparr>, b') else Some (ret, t\<lparr>s_crc32 := crc\<rparr>, b'))"
    unfolding dec_block_def Let_def by (simp add: r(1) t_def [symmetric] crc f(1))
  have inv: "idle_ok l \<and> (\<exists>out. lzma2_inv l out) \<and> prog_le (lzma2 s) b l b'" if "ret \<noteq> XZ_DATA_ERROR"
    using r(2) that idle_same [OF assms(4)] by (auto simp: run_ok_def)
  have fin: "prog_lt (lzma2 s) b l b' \<and> t_size l = 0" if "ret = XZ_STREAM_END"
    using r(2) that by (auto simp: run_ok_def lzma2_inv_def)
  have "block_done s b XZ_DATA_ERROR t b'" using bs by (simp add: block_done_def t_def block_used_def)
  moreover have "block_done s b ret' (t\<lparr>s_crc32 := crc\<rparr>\<lparr>blk_hash := h, blk_count := n\<rparr>) b'" if "ret = XZ_STREAM_END"
    using bs f(2) inv fin that by (auto simp: block_done_def t_def block_used_def)
  moreover have "block_done s b ret (t\<lparr>s_crc32 := crc\<rparr>) b'" if "ret \<noteq> XZ_STREAM_END" using bs rr inv that by (auto simp: block_done_def t_def block_used_def)
  ultimately show ?thesis by (auto simp: eq)
qed

section \<open>Every case\<close>

lemma footer_case:
  assumes "stream_inv s b" "buf_ok b" "s_sequence s = SEQ_STREAM_FOOTER"
  shows "step_ok s b (main_stream_footer s b)"
proof -
  have p: "st_pos s < st_size s" "st_size s \<le> length (st_buf s)" using assms(1,3) by (auto simp: stream_inv_def base_inv_def)
  obtain full buf p n where f: "fill_temp s b = Some (full, s\<lparr>st_buf := buf, st_pos := p\<rparr>, bytes_read n b)"
    "length buf = length (st_buf s)" "in_pos b + n \<le> in_size b" "p < st_size s" by (rule fill_temp_ok [OF p assms(2)]) blast
  let ?s = "s\<lparr>st_buf := buf, st_pos := p\<rparr>"
  have l: "length (st_buf ?s) = 1024" using f(2) assms(1) by (simp add: stream_inv_def base_inv_def)
  obtain ret where d: "dec_stream_footer ?s = Some (ret, ?s)" "ret \<in> {XZ_DATA_ERROR, XZ_STREAM_END}" by (rule stream_footer_ok [OF l])
  have eq: "main_stream_footer s b = Some (Some (if full then ret else XZ_OK), ?s, bytes_read n b)"
    using d(1) by (simp add: main_stream_footer_def f(1))
  show ?thesis unfolding eq
    by (rule step_return [OF assms(2) f(3)]) (use assms(1,3) d(2) f(2,4) in \<open>auto simp: stream_inv_def base_inv_def\<close>)
qed

lemma index_crc32_case:
  assumes "stream_inv s b" "buf_ok b" "s_sequence s = SEQ_INDEX_CRC32"
  shows "step_ok s b (main_index_crc32 s b)"
proof -
  have p: "crc_pos (v_pos s)" using assms(1,3) by (simp add: stream_inv_def)
  obtain ret s' n where r: "crc32_validate s b = Some (ret, s', bytes_read n b)" "in_pos b + n \<le> in_size b" "frame s s'" "ret \<in> index_rets"
    "ret = XZ_STREAM_END \<Longrightarrow> v_pos s' = 0 \<and> 0 < n" "ret = XZ_OK \<Longrightarrow> crc_pos (v_pos s')" by (rule readsE [OF crc32_validate_ok [OF p assms(2)]]) blast
  note fr = frame_lzma2 [OF r(3)]
  note bi = base_inv_frame [OF _ r(3), of b n]
  let ?s = "s'\<lparr>st_size := STREAM_HEADER_SIZE, s_sequence := SEQ_STREAM_FOOTER\<rparr>"
  show ?thesis
  proof (cases "ret = XZ_STREAM_END")
    case True
    have "step_ok ?s (bytes_read n b) (main_stream_footer ?s (bytes_read n b))"
      using assms r True bi fr by (intro footer_case) (auto simp: stream_inv_def base_inv_def STREAM_HEADER_SIZE_def)
    then have "step_ok s b (main_stream_footer ?s (bytes_read n b))" by (rule step_read) (use assms(2) r(2,5) True fr in auto)
    then show ?thesis using True by (simp add: main_index_crc32_def r(1))
  next
    case False
    have "step_ok s b (Some (Some ret, s', bytes_read n b))"
      by (rule step_return [OF assms(2) r(2)]) (use r assms(1,3) fr bi in \<open>auto simp: stream_inv_def\<close>)
    then show ?thesis using False by (simp add: main_index_crc32_def r(1))
  qed
qed

lemma index_padding_case:
  assumes "stream_inv s b" "buf_ok b" "s_sequence s = SEQ_INDEX_PADDING"
  shows "step_ok s b (main_index_padding s b)"
proof -
  obtain ret n where r: "index_padding (idx_size s) (in_start s) b = Some (ret, bytes_read n b)" "in_pos b + n \<le> in_size b" "ret \<in> index_rets"
    using index_padding_ok [OF assms(2)] by blast
  let ?b = "bytes_read n b"
  have b: "buf_ok ?b" "in_start s \<le> in_pos ?b" using assms(1,2) r(2) by (simp_all add: stream_inv_def base_inv_def)
  obtain sz crc where u: "index_update s ?b = Some (s\<lparr>idx_size := sz, s_crc32 := crc\<rparr>)" by (rule index_update_ok [OF b])
  let ?s = "s\<lparr>idx_size := sz, s_crc32 := crc\<rparr>"
  let ?t = "?s\<lparr>s_sequence := SEQ_INDEX_CRC32\<rparr>"
  have "step_ok ?t ?b (main_index_crc32 ?t ?b)"
    using assms b by (intro index_crc32_case) (auto simp: stream_inv_def base_inv_def crc_pos_def)
  then have go: "step_ok s b (main_index_crc32 ?t ?b)" by (rule step_read) (use assms r(2) in \<open>auto simp: rank_def\<close>)
  have stop: "step_ok s b (Some (Some e, t, ?b))" if "e \<in> {XZ_OK, XZ_DATA_ERROR}" "t = ?s \<or> t = s" for e t
    by (rule step_return [OF assms(2) r(2)]) (use that assms in \<open>auto simp: stream_inv_def base_inv_def\<close>)
  have "main_index_padding s b = (if ret = XZ_DATA_ERROR then Some (Some XZ_DATA_ERROR, s, ?b)
      else if ret = XZ_OK then Some (Some XZ_OK, ?s, ?b)
      else if hash_bytes (blk_hash s) \<noteq> hash_bytes (idx_hash s) then Some (Some XZ_DATA_ERROR, ?s, ?b) else main_index_crc32 ?t ?b)"
    by (simp add: main_index_padding_def r(1) u)
  then show ?thesis using go stop by simp
qed

lemma index_case:
  assumes "stream_inv s b" "buf_ok b" "s_sequence s = SEQ_INDEX"
  shows "step_ok s b (main_index s b)"
proof -
  have p: "vli_pos (v_pos s)" "in_start s \<le> in_pos b" using assms(1,3) by (simp_all add: stream_inv_def base_inv_def)
  obtain ret s' n where r: "dec_index s b = Some (ret, s', bytes_read n b)" "in_pos b + n \<le> in_size b" "frame s s'" "ret \<in> index_rets"
    "ret = XZ_STREAM_END \<Longrightarrow> v_pos s' = 0 \<and> 0 < n" "ret = XZ_OK \<Longrightarrow> vli_pos (v_pos s')" by (rule readsE [OF dec_index_ok [OF p(1) assms(2) p(2)]]) blast
  note fr = frame_lzma2 [OF r(3)]
  note bi = base_inv_frame [OF _ r(3), of b n]
  let ?s = "s'\<lparr>s_sequence := SEQ_INDEX_PADDING\<rparr>"
  show ?thesis
  proof (cases "ret = XZ_STREAM_END")
    case True
    have "step_ok ?s (bytes_read n b) (main_index_padding ?s (bytes_read n b))"
      using assms r True bi fr by (intro index_padding_case) (auto simp: stream_inv_def base_inv_def)
    then have "step_ok s b (main_index_padding ?s (bytes_read n b))" by (rule step_read) (use assms(2) r(2,5) True fr in auto)
    then show ?thesis using True by (simp add: main_index_def r(1))
  next
    case False
    have "step_ok s b (Some (Some ret, s', bytes_read n b))"
      by (rule step_return [OF assms(2) r(2)]) (use r assms(1,3) fr bi in \<open>auto simp: stream_inv_def\<close>)
    then show ?thesis using False by (simp add: main_index_def r(1))
  qed
qed

lemma step_break:
  assumes "buf_ok b" "in_pos b + n \<le> in_size b" "allow_buf_error s' = allow_buf_error s" "lzma2 s' = lzma2 s" "stream_inv s' (bytes_read n b)"
    "0 < n \<or> rank s' < rank s"
  shows "step_ok s b (Some (None, s', bytes_read n b))"
  unfolding step_ok_def result_ok_def
  using assms prog_read(1) [OF assms(2), of s' s] prog_read(2) [OF assms(2), of s' s] buf_step_read [OF assms(1,2)] by auto

lemma block_check_case:
  assumes "stream_inv s b" "buf_ok b" "s_sequence s = SEQ_BLOCK_CHECK"
  shows "step_ok s b (main_block_check s b)"
proof (cases "check_type s = XZ_CHECK_CRC32")
  case True
  have p: "crc_pos (v_pos s)" using assms(1,3) True by (simp add: stream_inv_def)
  obtain ret s' n where r: "crc32_validate s b = Some (ret, s', bytes_read n b)" "in_pos b + n \<le> in_size b" "frame s s'" "ret \<in> index_rets"
    "ret = XZ_STREAM_END \<Longrightarrow> v_pos s' = 0 \<and> 0 < n" "ret = XZ_OK \<Longrightarrow> crc_pos (v_pos s')" by (rule readsE [OF crc32_validate_ok [OF p assms(2)]]) blast
  note fr = frame_lzma2 [OF r(3)]
  note bi = base_inv_frame [OF _ r(3), of b n]
  have "step_ok s b (Some (Some ret, s', bytes_read n b))" if "ret \<noteq> XZ_STREAM_END"
    by (rule step_return [OF assms(2) r(2)]) (use that r assms(1,3) fr bi in \<open>auto simp: stream_inv_def\<close>)
  moreover have "step_ok s b (Some (None, s'\<lparr>s_sequence := SEQ_BLOCK_START\<rparr>, bytes_read n b))" if "ret = XZ_STREAM_END"
    by (rule step_break [OF assms(2) r(2)]) (use that r assms(1,3) fr bi in \<open>auto simp: stream_inv_def base_inv_def\<close>)
  ultimately show ?thesis using True by (simp add: main_block_check_def r(1))
next
  case False
  have p: "unat (check_type s) < 16" using assms(1) by (simp add: stream_inv_def base_inv_def)
  obtain r s' n where r: "check_skip s b = Some (r, s', bytes_read n b)" "in_pos b + n \<le> in_size b" "frame s s'" "r \<longrightarrow> v_pos s' = 0"
    using check_skip_ok [OF p assms(2)] by blast
  note fr = frame_lzma2 [OF r(3)]
  note bi = base_inv_frame [OF _ r(3), of b n]
  have "step_ok s b (Some (Some XZ_OK, s', bytes_read n b))"
    by (rule step_return [OF assms(2) r(2)]) (use False assms(1,3) fr bi in \<open>auto simp: stream_inv_def\<close>)
  moreover have "step_ok s b (Some (None, s'\<lparr>s_sequence := SEQ_BLOCK_START\<rparr>, bytes_read n b))" if r
    by (rule step_break [OF assms(2) r(2)]) (use that r assms(1,3) fr bi in \<open>auto simp: stream_inv_def base_inv_def rank_def\<close>)
  ultimately show ?thesis using False by (simp add: main_block_check_def r(1))
qed

lemma block_padding_case:
  assumes "stream_inv s b" "buf_ok b" "s_sequence s = SEQ_BLOCK_PADDING"
  shows "step_ok s b (main_block_padding s b)"
proof -
  obtain ret k n where r: "block_padding (blk_compressed s) b = Some (ret, k, bytes_read n b)" "in_pos b + n \<le> in_size b" "ret \<in> index_rets"
    using block_padding_ok [OF assms(2)] by blast
  let ?s = "s\<lparr>blk_compressed := k\<rparr>"
  let ?t = "?s\<lparr>s_sequence := SEQ_BLOCK_CHECK\<rparr>"
  have "step_ok ?t (bytes_read n b) (main_block_check ?t (bytes_read n b))"
    using assms r(2) by (intro block_check_case) (auto simp: stream_inv_def base_inv_def crc_pos_def)
  then have "step_ok s b (main_block_check ?t (bytes_read n b))" by (rule step_read) (use assms r(2) in \<open>auto simp: rank_def\<close>)
  moreover have "step_ok s b (Some (Some ret, ?s, bytes_read n b))"
    by (rule step_return [OF assms(2) r(2)]) (use r(3) assms in \<open>auto simp: stream_inv_def base_inv_def\<close>)
  ultimately show ?thesis by (simp add: main_block_padding_def r(1) Let_def)
qed

lemma block_uncompress_case:
  assumes "stream_inv s b" "buf_ok b" "s_sequence s = SEQ_BLOCK_UNCOMPRESS"
  shows "step_ok s b (main_block_uncompress s b)"
proof -
  obtain out where p: "lzma2_inv (lzma2 s) out" using assms(1,3) by (auto simp: stream_inv_def)
  have q: "unat (check_type s) < 16" "idle_ok (lzma2 s)" using assms(1) by (simp_all add: stream_inv_def base_inv_def)
  obtain ret s' b' where r: "dec_block s b = Some (ret, s', b')" "block_done s b ret s' b'" using dec_block_ok [OF p assms(2) q] by blast
  have bs: "buf_step b b'" "buf_ok b'" "in_pos b \<le> in_pos b'" using r(2) by (auto simp: block_done_def buf_step_def)
  let ?s = "s'\<lparr>s_sequence := SEQ_BLOCK_PADDING\<rparr>"
  show ?thesis
  proof (cases "ret = XZ_STREAM_END")
    case True
    have "step_ok ?s b' (main_block_padding ?s b')"
      using assms r True bs by (intro block_padding_case) (auto simp: stream_inv_def base_inv_def block_done_def)
    then have "step_ok s b (main_block_padding ?s b')"
      by (rule step_chain) (use r(2) True bs prog_lt_imp_le in \<open>auto simp: block_done_def\<close>)
    then show ?thesis using True by (simp add: main_block_uncompress_def r(1))
  next
    case False
    have "step_ok s b (Some (Some ret, s', b'))" unfolding step_ok_def result_ok_def
      using assms r(2) bs False by (auto simp: stream_inv_def base_inv_def block_done_def)
    then show ?thesis using False by (simp add: main_block_uncompress_def r(1))
  qed
qed

lemma block_header_case:
  assumes "stream_inv s b" "buf_ok b" "s_sequence s = SEQ_BLOCK_HEADER" "malloc_ok malloc"
  shows "step_ok s b (main_block_header malloc s b)"
proof -
  have p: "st_pos s < st_size s" "st_size s \<le> length (st_buf s)" using assms(1,3) by (auto simp: stream_inv_def base_inv_def)
  obtain full buf p n where f: "fill_temp s b = Some (full, s\<lparr>st_buf := buf, st_pos := p\<rparr>, bytes_read n b)"
    "length buf = length (st_buf s)" "in_pos b + n \<le> in_size b" "p < st_size s" "full \<Longrightarrow> p = 0 \<and> 0 < n" by (rule fill_temp_ok [OF p assms(2)]) blast
  let ?s = "s\<lparr>st_buf := buf, st_pos := p\<rparr>"
  have "\<exists>ret s'. dec_block_header malloc ?s = Some (ret, s') \<and> header_done ?s ret s'"
    using assms f(2) by (intro block_header_ok) (auto simp: stream_inv_def base_inv_def)
  then obtain ret s' where d: "dec_block_header malloc ?s = Some (ret, s')" "header_done ?s ret s'" by blast
  let ?t = "s'\<lparr>s_sequence := SEQ_BLOCK_UNCOMPRESS\<rparr>"
  have go: "step_ok s b (main_block_uncompress ?t (bytes_read n b))" if "full" "ret = XZ_OK"
  proof (rule step_read)
    show "step_ok ?t (bytes_read n b) (main_block_uncompress ?t (bytes_read n b))"
      using assms that f(2,3) d(2) by (intro block_uncompress_case) (auto simp: stream_inv_def base_inv_def header_done_def)
  qed (use assms that f d(2) in \<open>auto simp: stream_inv_def header_done_def\<close>)
  have err: "step_ok s b (Some (Some ret, s', bytes_read n b))" if "ret \<noteq> XZ_OK"
    by (rule step_return [OF assms(2) f(3)]) (use that d(2) in \<open>auto simp: header_done_def\<close>)
  have "step_ok s b (Some (Some XZ_OK, ?s, bytes_read n b))"
    by (rule step_return [OF assms(2) f(3)]) (use assms(1,3) f(2,4) in \<open>auto simp: stream_inv_def base_inv_def\<close>)
  then show ?thesis using go err by (simp add: main_block_header_def f(1) d(1))
qed

lemma header_size_unat: "unat ((ucast (c::u8) + 1 :: u32) * 4) = (unat c + 1) * 4"
proof -
  have "unat c < 256" by (rule order_less_le_trans [OF unsigned_less]) simp
  moreover have "unat (ucast c :: u32) = unat c" by (simp add: unsigned_ucast_eq take_bit_nat_eq_self_iff order_less_le_trans [OF unsigned_less])
  ultimately show ?thesis by (simp add: unat_word_ariths)
qed

lemma block_start_case:
  assumes "stream_inv s b" "buf_ok b" "s_sequence s = SEQ_BLOCK_START" "malloc_ok malloc"
  shows "step_ok s b (main_block_start malloc s b)"
proof (cases "in_pos b = in_size b")
  case True
  have "step_ok s b (Some (Some XZ_OK, s, bytes_read 0 b))" by (rule step_return [OF assms(2)]) (use True assms(1) in auto)
  then show ?thesis using True by (simp add: main_block_start_def)
next
  case False
  obtain c where c: "fetch (b_in b) (in_pos b) = Some c" "in_pos b + 1 \<le> in_size b" by (rule next_byte_read [OF assms(2) False])
  show ?thesis
  proof (cases "c = 0")
    case True
    have "step_ok s b (Some (None, s\<lparr>in_start := in_pos b, s_sequence := SEQ_INDEX\<rparr>, bytes_read 1 b))"
      by (rule step_break [OF assms(2) c(2)]) (use assms in \<open>auto simp: stream_inv_def base_inv_def vli_pos_def intro!: exI [of _ 0]\<close>)
    then show ?thesis using False True by (simp add: main_block_start_def c(1))
  next
    case nz: False
    define sz :: u32 where "sz = (ucast c + 1) * 4"
    have "unat c < 256" by (rule order_less_le_trans [OF unsigned_less]) simp
    moreover have "0 < unat c" using nz by (simp add: unat_gt_0)
    ultimately have sz: "8 \<le> unat sz" "unat sz \<le> 1024" using header_size_unat [of c] by (simp_all add: sz_def)
    let ?s = "s\<lparr>bh_size := sz, st_size := unat sz, st_pos := 0, s_sequence := SEQ_BLOCK_HEADER\<rparr>"
    have "step_ok ?s (bytes_read 0 b) (main_block_header malloc ?s (bytes_read 0 b))"
      using assms sz by (intro block_header_case) (auto simp: stream_inv_def base_inv_def)
    then have "step_ok s b (main_block_header malloc ?s (bytes_read 0 b))" by (rule step_read) (use assms c(2) in \<open>auto simp: rank_def\<close>)
    then show ?thesis using False nz by (simp add: main_block_start_def c(1) sz_def Let_def)
  qed
qed

lemma stream_header_case:
  assumes "stream_inv s b" "buf_ok b" "s_sequence s = SEQ_STREAM_HEADER" "malloc_ok malloc"
  shows "step_ok s b (main_stream_header malloc s b)"
proof -
  have p: "st_pos s < st_size s" "st_size s \<le> length (st_buf s)" using assms(1,3) by (auto simp: stream_inv_def base_inv_def)
  obtain full buf p n where f: "fill_temp s b = Some (full, s\<lparr>st_buf := buf, st_pos := p\<rparr>, bytes_read n b)"
    "length buf = length (st_buf s)" "in_pos b + n \<le> in_size b" "p < st_size s" "full \<Longrightarrow> p = 0 \<and> 0 < n" by (rule fill_temp_ok [OF p assms(2)]) blast
  let ?s = "s\<lparr>st_buf := buf, st_pos := p\<rparr>"
  let ?t = "?s\<lparr>s_sequence := SEQ_BLOCK_START\<rparr>"
  have l: "length (st_buf ?t) = 1024" using f(2) assms(1) by (simp add: stream_inv_def base_inv_def)
  obtain ret c where d: "dec_stream_header ?t = Some (ret, ?t\<lparr>check_type := c\<rparr>)" "ret \<noteq> XZ_STREAM_END" "ret \<in> {XZ_OK, XZ_UNSUPPORTED_CHECK} \<Longrightarrow> unat c < 16"
    by (rule stream_header_ok [OF l]) blast
  let ?u = "?t\<lparr>check_type := c\<rparr>"
  have inv: "stream_inv ?u (bytes_read n b)" if "full" "ret \<in> {XZ_OK, XZ_UNSUPPORTED_CHECK}"
    using assms f d(3) that by (auto simp: stream_inv_def base_inv_def)
  have go: "step_ok s b (main_block_start malloc ?u (bytes_read n b))" if "full" "ret = XZ_OK"
  proof (rule step_read)
    show "step_ok ?u (bytes_read n b) (main_block_start malloc ?u (bytes_read n b))"
      using assms that f(3) inv by (intro block_start_case) auto
  qed (use assms that f in auto)
  have err: "step_ok s b (Some (Some ret, ?u, bytes_read n b))" if "full" "ret \<noteq> XZ_OK"
  proof (cases "ret = XZ_UNSUPPORTED_CHECK")
    case True
    have "prog_lt (lzma2 s) b (lzma2 ?u) (bytes_read n b)" by (rule prog_read(2)) (use f that in auto)
    then show ?thesis using True inv that buf_step_read [OF assms(2) f(3)] prog_lt_imp_le by (auto simp: step_ok_def result_ok_def)
  next
    case False
    show ?thesis by (rule step_return [OF assms(2) f(3)]) (use that False in auto)
  qed
  have "step_ok s b (Some (Some XZ_OK, ?s, bytes_read n b))"
    by (rule step_return [OF assms(2) f(3)]) (use assms(1,3) f(2,4) in \<open>auto simp: stream_inv_def base_inv_def\<close>)
  then show ?thesis using go err d(1) by (simp add: main_stream_header_def f(1))
qed

lemma main_step_ok: "stream_inv s b \<Longrightarrow> buf_ok b \<Longrightarrow> malloc_ok malloc \<Longrightarrow> step_ok s b (main_step malloc s b)"
  by (cases "s_sequence s") (simp_all add: main_step_def stream_header_case block_start_case block_header_case block_uncompress_case
      block_padding_case block_check_case index_case index_padding_case index_crc32_case footer_case)

section \<open>The loop returns\<close>

definition main_done :: "xz_dec \<Rightarrow> xz_buf \<Rightarrow> xz_ret \<Rightarrow> xz_dec \<Rightarrow> xz_buf \<Rightarrow> bool" where
  "main_done s b ret s' b' \<longleftrightarrow> buf_step b b' \<and> allow_buf_error s' = allow_buf_error s \<and>
    (ret \<in> {XZ_OK, XZ_UNSUPPORTED_CHECK} \<longrightarrow> stream_inv s' b' \<and> prog_le (lzma2 s) b (lzma2 s') b') \<and>
    (ret = XZ_UNSUPPORTED_CHECK \<longrightarrow> prog_lt (lzma2 s) b (lzma2 s') b')"

lemma main_loop_ok:
  assumes "stream_inv s b" "buf_ok b" "malloc_ok malloc"
  shows "\<exists>ret s' b'. main_loop malloc s b = Some (ret, s', b') \<and> main_done s b ret s' b'"
  using assms(1,2)
proof (induction "(prog3 (lzma2 s) b, rank s)" arbitrary: s b rule: wf_induct_rule [OF wf_lex_prod [OF wf_lex3 wf_less_than]])
  case 1
  obtain r s' b' where r: "main_step malloc s b = Some (r, s', b')" "buf_step b b'" "allow_buf_error s' = allow_buf_error s" "result_ok r s b s' b'"
    using main_step_ok [OF 1(2,3) assms(3)] unfolding step_ok_def by blast
  show ?case
  proof (cases r)
    case (Some ret)
    then have "main_loop malloc s b = Some (ret, s', b')" by (subst main_loop.simps) (simp add: r(1))
    moreover have "main_done s b ret s' b'" using r(2-4) Some by (auto simp: main_done_def result_ok_def)
    ultimately show ?thesis by blast
  next
    case None
    have i: "stream_inv s' b'" "prog_le (lzma2 s) b (lzma2 s') b'" "prog_lt (lzma2 s) b (lzma2 s') b' \<or> rank s' < rank s" using r(4) None by (auto simp: result_ok_def)
    have "((prog3 (lzma2 s') b', rank s'), (prog3 (lzma2 s) b, rank s)) \<in> lex3 <*lex*> less_than" using i(2,3) by (auto simp: prog_le_def prog_lt_def)
    moreover have "buf_ok b'" using r(2) by (simp add: buf_step_def)
    ultimately obtain ret t c where t: "main_loop malloc s' b' = Some (ret, t, c)" "main_done s' b' ret t c" using 1(1) i(1) by blast
    have "main_loop malloc s b = Some (ret, t, c)" using None t(1) by (subst main_loop.simps) (simp add: r(1))
    moreover have "main_done s b ret t c" using t(2) r(3) buf_step_trans [OF r(2)] prog_le_trans [OF i(2)] prog_le_lt [OF i(2)] by (auto simp: main_done_def)
    ultimately show ?thesis by blast
  qed
qed

text \<open>What is left for another call: the input and output to go, then the second chance after a call without progress.\<close>

definition run_left :: "xz_dec \<Rightarrow> xz_buf \<Rightarrow> (nat \<times> nat \<times> nat) \<times> nat" where
  "run_left s b = (prog3 (lzma2 s) b, of_bool (\<not> allow_buf_error s))"

definition run_done :: "xz_dec \<Rightarrow> xz_buf \<Rightarrow> xz_ret \<Rightarrow> xz_dec \<Rightarrow> xz_buf \<Rightarrow> bool" where
  "run_done s b ret s' b' \<longleftrightarrow> buf_step b b' \<and>
    (ret \<in> {XZ_OK, XZ_UNSUPPORTED_CHECK} \<longrightarrow> stream_inv s' b' \<and> (run_left s' b', run_left s b) \<in> lex3 <*lex*> less_than)"

lemma dec_run_ok:
  assumes "stream_inv s b" "buf_ok b" "malloc_ok malloc"
  shows "\<exists>ret s' b'. xz_dec_run malloc s b = Some (ret, s', b') \<and> run_done s b ret s' b'"
proof -
  let ?s = "s\<lparr>in_start := in_pos b\<rparr>"
  have "stream_inv ?s b" using assms(1) by (cases "s_sequence s") (auto simp: stream_inv_def base_inv_def)
  then obtain ret s' b' where m: "dec_main malloc s b = Some (ret, s', b')" "main_done ?s b ret s' b'"
    using main_loop_ok [OF _ assms(2,3)] unfolding dec_main_def by blast
  have keep: "stream_inv (s'\<lparr>allow_buf_error := a\<rparr>) b' = stream_inv s' b'" for a by (cases "s_sequence s'") (simp_all add: stream_inv_def base_inv_def)
  show ?thesis
  proof (cases "ret = XZ_OK \<and> in_pos b' = in_pos b \<and> out_pos b' = out_pos b")
    case True
    then show ?thesis using m keep
      by (cases "allow_buf_error s") (auto simp: xz_dec_run_def main_done_def run_done_def run_left_def prog_le_def prog_lt_def)
  next
    case False
    have "run_done s b ret (s'\<lparr>allow_buf_error := False\<rparr>) b'"
      using m(2) False keep by (auto simp: main_done_def run_done_def run_left_def prog_le_def prog_lt_def)
    moreover have "xz_dec_run malloc s b = Some (ret, s'\<lparr>allow_buf_error := False\<rparr>, b')" using False m(1) by (auto simp: xz_dec_run_def)
    ultimately show ?thesis by blast
  qed
qed

end
