(* ===== verification/Xz_Dec.thy ===== *)
theory Xz_Dec
  imports Xz_Stream_Safe
begin

text \<open>
  \<open>xz_decompress\<close> of \<open>xz_dec.c\<close>, the one entry of the decompressor. The answers of the allocator are a parameter: whether the two
  decoder objects can be allocated, the array for the sizing pass, and the dictionary arrays. The release of these objects changes nothing
  the function returns.
\<close>

section \<open>The wrapper\<close>

record allocator =
  a_dec :: bool
  a_lzma2 :: bool
  a_query :: "u8 list option"
  a_dict :: "nat \<Rightarrow> nat \<Rightarrow> u8 list option"

partial_function (option) decompress_loop ::
    "allocator \<Rightarrow> bool \<Rightarrow> xz_dec \<Rightarrow> xz_buf \<Rightarrow> u64 \<Rightarrow> (xz_ret \<times> u64 \<times> xz_buf) option" where
  "decompress_loop a query_mode dec buf tot =
    do { (ret, dec, buf) \<leftarrow> xz_dec_run (a_dict a) dec buf;
         if ret = XZ_STREAM_END then Some (ret, tot + of_nat (out_pos buf), buf)
         else if ret = XZ_OK then
           do { let tot = tot + of_nat (out_pos buf);
                if query_mode then decompress_loop a query_mode dec (buf\<lparr>out_pos := 0\<rparr>) tot
                else Some (XZ_BUF_ERROR, tot, buf) }
         else if ret = XZ_UNSUPPORTED_CHECK then decompress_loop a query_mode dec buf tot
         else Some (ret, tot, buf) }"

text \<open>The result and the array written: the caller's, or in query mode the temporary one. \<open>out = None\<close> is \<open>NULL\<close>.\<close>

definition decompress_into ::
    "allocator \<Rightarrow> bool \<Rightarrow> xz_dec \<Rightarrow> u8 list \<Rightarrow> nat \<Rightarrow> u8 list \<Rightarrow> nat \<Rightarrow> (u64 \<times> u8 list) option" where
  "decompress_into a query_mode dec inp n out_buf out_len =
    do { (ret, tot, buf) \<leftarrow> decompress_loop a query_mode dec
           \<lparr>b_in = inp, in_pos = 0, in_size = n, b_out = out_buf, out_pos = 0, out_size = out_len\<rparr> 0;
         Some (if ret = XZ_STREAM_END then tot else 0, b_out buf) }"

definition xz_decompress :: "allocator \<Rightarrow> u8 list \<Rightarrow> nat \<Rightarrow> u8 list option \<Rightarrow> nat \<Rightarrow> (u64 \<times> u8 list) option" where
  "xz_decompress a inp n out out_cap =
    (case xz_dec_init (a_dec a) (a_lzma2 a) XZ_DYNALLOC (push_bit 26 1) of
       None \<Rightarrow> Some (0, case out of None \<Rightarrow> [] | Some out_buf \<Rightarrow> out_buf)
     | Some dec \<Rightarrow>
         (case out of
            Some out_buf \<Rightarrow> decompress_into a False dec inp n out_buf out_cap
          | None \<Rightarrow>
              (case a_query a of
                 None \<Rightarrow> Some (0, [])
               | Some out_buf \<Rightarrow> decompress_into a True dec inp n out_buf 32768)))"

section \<open>It returns\<close>

definition allocator_ok :: "allocator \<Rightarrow> bool" where
  "allocator_ok a \<longleftrightarrow> malloc_ok (a_dict a) \<and> (\<forall>xs. a_query a = Some xs \<longrightarrow> length xs = 32768)"

lemma dec_init_ok:
  assumes "xz_dec_init c1 c2 XZ_DYNALLOC m = Some s"
  shows "stream_inv s b"
proof -
  obtain l where l: "xz_dec_lzma2_create c2 XZ_DYNALLOC m = Some l" "s = xz_dec_reset ((zero_dec l)\<lparr>s_mode := XZ_DYNALLOC\<rparr>)"
    using assms by (cases "xz_dec_lzma2_create c2 XZ_DYNALLOC m") (auto simp: xz_dec_init_def split: if_splits)
  have c2 using l(1) by (auto simp: xz_dec_lzma2_create_def split: if_splits)
  then have "idle_ok l \<and> t_size l = 0" using create_ok l(1) by simp
  then show ?thesis by (simp add: l(2) xz_dec_reset_def zero_dec_def stream_inv_def base_inv_def STREAM_HEADER_SIZE_def)
qed

text \<open>Between two calls \<open>in_start\<close> is not used: it is set at the start of each.\<close>

lemma dec_run_rewind:
  assumes "stream_inv s b" "buf_ok b"
  shows "stream_inv s (b\<lparr>out_pos := 0\<rparr>)" "buf_ok (b\<lparr>out_pos := 0\<rparr>)" "run_left s (b\<lparr>out_pos := 0\<rparr>) = run_left s b"
  using assms by (auto simp: stream_inv_def base_inv_def buf_ok_def run_left_def prog3_def avail_def)

definition loop_done :: "bool \<Rightarrow> xz_buf \<Rightarrow> u64 \<Rightarrow> xz_ret \<Rightarrow> u64 \<Rightarrow> xz_buf \<Rightarrow> bool" where
  "loop_done query b tot ret tot' b' \<longleftrightarrow> buf_ok b' \<and> out_size b' = out_size b \<and> length (b_out b') = length (b_out b) \<and>
    (\<not> query \<longrightarrow> ret = XZ_STREAM_END \<longrightarrow> tot' = tot + of_nat (out_pos b'))"

lemma decompress_loop_ok:
  assumes "stream_inv s b" "buf_ok b" "malloc_ok (a_dict a)"
  shows "\<exists>ret tot' b'. decompress_loop a query s b tot = Some (ret, tot', b') \<and> loop_done query b tot ret tot' b'"
  using assms(1,2)
proof (induction "run_left s b" arbitrary: s b tot rule: wf_induct_rule [OF wf_lex_prod [OF wf_lex3 wf_less_than]])
  case 1
  obtain ret s' b' where r: "xz_dec_run (a_dict a) s b = Some (ret, s', b')" "run_done s b ret s' b'" using dec_run_ok [OF 1(2,3) assms(3)] by blast
  have bs: "buf_ok b'" "out_size b' = out_size b" "length (b_out b') = length (b_out b)" using r(2) by (auto simp: run_done_def buf_step_def)
  have again: "\<exists>ret tot' c. decompress_loop a query s' (b'\<lparr>out_pos := p\<rparr>) t = Some (ret, tot', c) \<and> loop_done query (b'\<lparr>out_pos := p\<rparr>) t ret tot' c"
    if "ret \<in> {XZ_OK, XZ_UNSUPPORTED_CHECK}" "p = 0 \<or> p = out_pos b'" for t p
  proof -
    have i: "stream_inv s' b'" "(run_left s' b', run_left s b) \<in> lex3 <*lex*> less_than" using r(2) that(1) by (auto simp: run_done_def)
    note w = dec_run_rewind [OF i(1) bs(1)]
    have "(run_left s' (b'\<lparr>out_pos := p\<rparr>), run_left s b) \<in> lex3 <*lex*> less_than" "stream_inv s' (b'\<lparr>out_pos := p\<rparr>)" "buf_ok (b'\<lparr>out_pos := p\<rparr>)"
      using w i bs(1) that(2) by auto
    then show ?thesis using 1(1) by blast
  qed
  show ?case
  proof (cases "ret = XZ_OK \<and> query \<or> ret = XZ_UNSUPPORTED_CHECK")
    case True
    define p where "p = (if ret = XZ_OK then 0 else out_pos b')"
    define t where "t = (if ret = XZ_OK then tot + of_nat (out_pos b') else tot)"
    have eq: "decompress_loop a query s b tot = decompress_loop a query s' (b'\<lparr>out_pos := p\<rparr>) t"
      using True by (subst decompress_loop.simps) (auto simp: r(1) p_def t_def)
    have "ret \<in> {XZ_OK, XZ_UNSUPPORTED_CHECK}" "p = 0 \<or> p = out_pos b'" using True by (auto simp: p_def)
    then obtain ret' tot' c where c: "decompress_loop a query s' (b'\<lparr>out_pos := p\<rparr>) t = Some (ret', tot', c)"
        "loop_done query (b'\<lparr>out_pos := p\<rparr>) t ret' tot' c" using again by blast
    have "loop_done query b tot ret' tot' c" using c(2) bs True by (auto simp: loop_done_def t_def)
    then show ?thesis using eq c(1) by auto
  next
    case False
    then have "\<exists>ret' t. decompress_loop a query s b tot = Some (ret', t, b') \<and> (ret' = XZ_STREAM_END \<longrightarrow> t = tot + of_nat (out_pos b'))"
      by (subst decompress_loop.simps) (auto simp: r(1) Let_def)
    then show ?thesis using bs by (auto simp: loop_done_def)
  qed
qed

lemma decompress_into_ok:
  assumes "\<And>b. stream_inv s b" "malloc_ok (a_dict a)" "n \<le> length inp" "k \<le> length xs"
  shows "\<exists>m ys. decompress_into a query s inp n xs k = Some (m, ys) \<and> length ys = length xs \<and> (\<not> query \<longrightarrow> unat m \<le> k)"
proof -
  let ?b = "\<lparr>b_in = inp, in_pos = 0, in_size = n, b_out = xs, out_pos = 0, out_size = k\<rparr>"
  have b: "buf_ok ?b" using assms(3,4) by (simp add: buf_ok_def)
  obtain ret tot c where c: "decompress_loop a query s ?b 0 = Some (ret, tot, c)" "loop_done query ?b 0 ret tot c"
    using decompress_loop_ok [OF assms(1) b assms(2)] by blast
  have "\<not> query \<longrightarrow> ret = XZ_STREAM_END \<longrightarrow> unat tot \<le> k"
    using c(2) by (auto simp: loop_done_def buf_ok_def unat_of_nat intro: le_trans [OF mod_less_eq_dividend])
  moreover have "length (b_out c) = length xs" using c(2) by (simp add: loop_done_def)
  ultimately show ?thesis by (simp add: decompress_into_def c(1))
qed

text \<open>Claim C8 (the decompressor is safe on every input): for any bytes, however malformed, and any answers of the allocator, \<open>xz_decompress\<close> returns:
  it reads only the \<open>n\<close> input bytes, writes only the first \<open>out_cap\<close> bytes of the caller's buffer or its own temporary
  one, makes no undefined shift and does not loop. The size it reports fits the buffer it was given.\<close>

theorem xz_decompress_safe:
  assumes "allocator_ok a" "n \<le> length inp" "\<And>xs. out = Some xs \<Longrightarrow> out_cap \<le> length xs"
  shows "\<exists>m ys. xz_decompress a inp n out out_cap = Some (m, ys) \<and> (\<forall>xs. out = Some xs \<longrightarrow> length ys = length xs \<and> unat m \<le> out_cap)"
proof (cases "xz_dec_init (a_dec a) (a_lzma2 a) XZ_DYNALLOC (push_bit 26 1)")
  case None
  then show ?thesis by (cases out) (simp_all add: xz_decompress_def)
next
  case (Some dec)
  note inv = dec_init_ok [OF Some]
  show ?thesis
  proof (cases out)
    case (Some xs)
    then show ?thesis using decompress_into_ok [OF inv, of a n inp out_cap xs False] assms \<open>xz_dec_init _ _ _ _ = Some dec\<close>
      by (auto simp: xz_decompress_def allocator_ok_def)
  next
    case None
    then show ?thesis using decompress_into_ok [OF inv, of a n inp 32768 "the (a_query a)" True] assms(1,2) \<open>xz_dec_init _ _ _ _ = Some dec\<close>
      by (cases "a_query a") (auto simp: xz_decompress_def allocator_ok_def)
  qed
qed

definition demo_allocator :: allocator where
  "demo_allocator = \<lparr>a_dec = True, a_lzma2 = True, a_query = Some (replicate 32768 0), a_dict = demo_malloc\<rparr>"

lemma demo_allocator_ok: "allocator_ok demo_allocator"
  by (simp add: allocator_ok_def demo_allocator_def malloc_ok_def demo_malloc_def)

theorem xz_decompress_safe_witness:
  "\<exists>m ys. xz_decompress demo_allocator [0xFD, 0x37, 0x7A] 3 (Some [0, 0]) 2 = Some (m, ys) \<and> length ys = 2 \<and> unat m \<le> 2"
  using xz_decompress_safe [OF demo_allocator_ok, of 3 "[0xFD, 0x37, 0x7A]" "Some [0, 0]" 2] by (simp add: numeral_2_eq_2)

end
