(* ===== verification/Elf_Image.thy ===== *)
theory Elf_Image
  imports Xz_Dec
begin

text \<open>
  The ELF readers of \<open>elf_symbol_resolver.cpp\<close> on 64-bit images. The memory of an image is the list of its readable bytes, a pointer
  into it a 64-bit offset from its start; a load that is not wholly inside has no value, nor has a division by zero or an overflow of a
  signed product. The string and memory functions of the C library are written out. \<open>name\<close> is never a null pointer here.
\<close>

section \<open>Loads\<close>

definition le_nat :: "u8 list \<Rightarrow> nat" where
  "le_nat bs = foldr (\<lambda>b acc. unat b + 256 * acc) bs 0"

definition ld :: "nat \<Rightarrow> u8 list \<Rightarrow> u64 \<Rightarrow> nat option" where
  "ld n m p = (if unat p + n \<le> length m then Some (le_nat (take n (drop (unat p) m))) else None)"

definition ld8 :: "u8 list \<Rightarrow> u64 \<Rightarrow> u8 option" where
  "ld8 m p = map_option of_nat (ld 1 m p)"

definition ld16 :: "u8 list \<Rightarrow> u64 \<Rightarrow> u16 option" where
  "ld16 m p = map_option of_nat (ld 2 m p)"

definition ld32 :: "u8 list \<Rightarrow> u64 \<Rightarrow> u32 option" where
  "ld32 m p = map_option of_nat (ld 4 m p)"

definition ld64 :: "u8 list \<Rightarrow> u64 \<Rightarrow> u64 option" where
  "ld64 m p = map_option of_nat (ld 8 m p)"

text \<open>The string a \<open>char\<close> pointer denotes.\<close>

fun cstr :: "u8 list \<Rightarrow> string option" where
  "cstr [] = None"
| "cstr (b # bs) = (if b = 0 then Some [] else map_option (Cons (char_of (unat b))) (cstr bs))"

definition c_string :: "u8 list \<Rightarrow> u64 \<Rightarrow> string option" where
  "c_string m p = cstr (drop (unat p) m)"

text \<open>The fields read: those of \<open>Elf64_Ehdr\<close>, \<open>Elf64_Phdr\<close>, \<open>Elf64_Shdr\<close>, \<open>Elf64_Sym\<close> and \<open>Elf64_Dyn\<close>.\<close>

definition e_phoff :: "u8 list \<Rightarrow> u64 option" where "e_phoff m = ld64 m 32"
definition e_shoff :: "u8 list \<Rightarrow> u64 option" where "e_shoff m = ld64 m 40"
definition e_phentsize :: "u8 list \<Rightarrow> u16 option" where "e_phentsize m = ld16 m 54"
definition e_phnum :: "u8 list \<Rightarrow> u16 option" where "e_phnum m = ld16 m 56"
definition e_shentsize :: "u8 list \<Rightarrow> u16 option" where "e_shentsize m = ld16 m 58"
definition e_shnum :: "u8 list \<Rightarrow> u16 option" where "e_shnum m = ld16 m 60"
definition e_shstrndx :: "u8 list \<Rightarrow> u16 option" where "e_shstrndx m = ld16 m 62"
definition p_type :: "u8 list \<Rightarrow> u64 \<Rightarrow> u32 option" where "p_type m p = ld32 m p"
definition p_offset :: "u8 list \<Rightarrow> u64 \<Rightarrow> u64 option" where "p_offset m p = ld64 m (p + 8)"
definition p_vaddr :: "u8 list \<Rightarrow> u64 \<Rightarrow> u64 option" where "p_vaddr m p = ld64 m (p + 16)"
definition p_memsz :: "u8 list \<Rightarrow> u64 \<Rightarrow> u64 option" where "p_memsz m p = ld64 m (p + 40)"
definition sh_name :: "u8 list \<Rightarrow> u64 \<Rightarrow> u32 option" where "sh_name m p = ld32 m p"
definition sh_type :: "u8 list \<Rightarrow> u64 \<Rightarrow> u32 option" where "sh_type m p = ld32 m (p + 4)"
definition sh_offset :: "u8 list \<Rightarrow> u64 \<Rightarrow> u64 option" where "sh_offset m p = ld64 m (p + 24)"
definition sh_size :: "u8 list \<Rightarrow> u64 \<Rightarrow> u64 option" where "sh_size m p = ld64 m (p + 32)"
definition sh_link :: "u8 list \<Rightarrow> u64 \<Rightarrow> u32 option" where "sh_link m p = ld32 m (p + 40)"
definition sh_entsize :: "u8 list \<Rightarrow> u64 \<Rightarrow> u64 option" where "sh_entsize m p = ld64 m (p + 56)"
definition st_name :: "u8 list \<Rightarrow> u64 \<Rightarrow> u32 option" where "st_name m p = ld32 m p"
definition st_info :: "u8 list \<Rightarrow> u64 \<Rightarrow> u8 option" where "st_info m p = ld8 m (p + 4)"
definition st_shndx :: "u8 list \<Rightarrow> u64 \<Rightarrow> u16 option" where "st_shndx m p = ld16 m (p + 6)"
definition st_value :: "u8 list \<Rightarrow> u64 \<Rightarrow> u64 option" where "st_value m p = ld64 m (p + 8)"
definition d_tag :: "u8 list \<Rightarrow> u64 \<Rightarrow> u64 option" where "d_tag m p = ld64 m p"
definition d_ptr :: "u8 list \<Rightarrow> u64 \<Rightarrow> u64 option" where "d_ptr m p = ld64 m (p + 8)"

section \<open>Symbols\<close>

record SymbolEntry =
  sym_name :: string
  sym_addr :: u64

text \<open>A loop with \<open>break\<close>: the first index that passes the test.\<close>

primrec find_first :: "(nat \<Rightarrow> bool option) \<Rightarrow> nat list \<Rightarrow> nat option option" where
  "find_first P [] = Some None"
| "find_first P (i # is) = do { b \<leftarrow> P i; if b then Some (Some i) else find_first P is }"

text \<open>One round of the loop over a symbol table: the entry to push, if any. \<open>STT_NOTYPE\<close>, \<open>STT_OBJECT\<close> and \<open>STT_FUNC\<close> are 0, 1 and
  2, \<open>SHN_UNDEF\<close> is 0.\<close>

definition named_symbol :: "u8 list \<Rightarrow> u64 \<Rightarrow> u64 \<Rightarrow> u64 \<Rightarrow> SymbolEntry option option" where
  "named_symbol m name load_bias v =
    do { c \<leftarrow> ld8 m name;
         if c = 0 then Some None
         else do { s \<leftarrow> c_string m name; Some (Some \<lparr>sym_name = s, sym_addr = load_bias + v\<rparr>) } }"

definition symbol_at :: "u8 list \<Rightarrow> u64 \<Rightarrow> u64 \<Rightarrow> u64 \<Rightarrow> nat \<Rightarrow> SymbolEntry option option" where
  "symbol_at m syms strtab load_bias i =
    do { let p = syms + of_nat i * 24;
         v \<leftarrow> st_value m p;
         if v = 0 then Some None
         else
           do { shndx \<leftarrow> st_shndx m p;
                if shndx = 0 then Some None
                else
                  do { info \<leftarrow> st_info m p;
                       if info AND 0xF \<notin> {0, 1, 2} then Some None
                       else do { name \<leftarrow> st_name m p; named_symbol m (strtab + ucast name) load_bias v } } } }"

primrec push_symbols :: "(nat \<Rightarrow> SymbolEntry option option) \<Rightarrow> nat list \<Rightarrow> SymbolEntry list \<Rightarrow> SymbolEntry list option" where
  "push_symbols f [] g = Some g"
| "push_symbols f (i # is) g =
    do { e \<leftarrow> f i; push_symbols f is (case e of None \<Rightarrow> g | Some e \<Rightarrow> g @ [e]) }"

text \<open>The symbols of the table described by two section headers, pushed on \<open>g_symbols\<close>.\<close>

definition parse_table :: "u8 list \<Rightarrow> u64 \<Rightarrow> u64 \<Rightarrow> u64 \<Rightarrow> SymbolEntry list \<Rightarrow> (bool \<times> SymbolEntry list) option" where
  "parse_table m sym_sh str_sh load_bias g =
    do { strtab \<leftarrow> sh_offset m str_sh;
         syms \<leftarrow> sh_offset m sym_sh;
         n \<leftarrow> sh_size m sym_sh;
         entsize \<leftarrow> sh_entsize m sym_sh;
         if entsize = 0 then None
         else
           do { g \<leftarrow> push_symbols (symbol_at m syms strtab load_bias) [0..<unat (n div entsize)] g;
                Some (g \<noteq> [], g) } }"

section \<open>Load bias\<close>

text \<open>The address of a program header: \<open>i * e_phentsize\<close> is an \<open>int\<close>.\<close>

definition phdr_at :: "u8 list \<Rightarrow> nat \<Rightarrow> u64 option" where
  "phdr_at m i =
    do { off \<leftarrow> e_phoff m;
         sz \<leftarrow> e_phentsize m;
         if i * unat sz < 2 ^ 31 then Some (off + of_nat (i * unat sz)) else None }"

definition phdr_is :: "u8 list \<Rightarrow> u32 \<Rightarrow> nat \<Rightarrow> bool option" where
  "phdr_is m t i = do { p \<leftarrow> phdr_at m i; t' \<leftarrow> p_type m p; Some (t' = t) }"

definition PT_LOAD :: u32 where "PT_LOAD = 1"
definition PT_DYNAMIC :: u32 where "PT_DYNAMIC = 2"
definition SHT_SYMTAB :: u32 where "SHT_SYMTAB = 2"
definition SHT_DYNSYM :: u32 where "SHT_DYNSYM = 11"

definition ComputeLoadBias :: "u8 list \<Rightarrow> u64 \<Rightarrow> u64 option" where
  "ComputeLoadBias m base =
    do { n \<leftarrow> e_phnum m;
         r \<leftarrow> find_first (phdr_is m PT_LOAD) [0..<unat n];
         case r of None \<Rightarrow> Some base
         | Some i \<Rightarrow> do { p \<leftarrow> phdr_at m i; v \<leftarrow> p_vaddr m p; Some (base - v) } }"

section \<open>Section headers\<close>

definition shdr_at :: "u64 \<Rightarrow> u64 \<Rightarrow> u64" where
  "shdr_at shdrs i = shdrs + i * 64"

definition find_shdr :: "u8 list \<Rightarrow> u64 \<Rightarrow> u16 \<Rightarrow> u32 \<Rightarrow> nat option option" where
  "find_shdr m shdrs n t = find_first (\<lambda>i. map_option (\<lambda>t'. t' = t) (sh_type m (shdr_at shdrs (of_nat i)))) [0..<unat n]"

text \<open>The loop over the two kinds of table: it ends at the first table found.\<close>

fun parse_sections :: "u8 list \<Rightarrow> u64 \<Rightarrow> u16 \<Rightarrow> u64 \<Rightarrow> u32 list \<Rightarrow> SymbolEntry list \<Rightarrow> (bool \<times> SymbolEntry list) option" where
  "parse_sections m shdrs n load_bias [] g = Some (False, g)"
| "parse_sections m shdrs n load_bias (t # ts) g =
    do { r \<leftarrow> find_shdr m shdrs n t;
         case r of
           None \<Rightarrow> parse_sections m shdrs n load_bias ts g
         | Some i \<Rightarrow>
             do { let sym_sh = shdr_at shdrs (of_nat i);
                  link \<leftarrow> sh_link m sym_sh;
                  parse_table m sym_sh (shdr_at shdrs (ucast link)) load_bias g } }"

definition ParseSymtabFromSections :: "u8 list \<Rightarrow> u64 \<Rightarrow> bool \<Rightarrow> SymbolEntry list \<Rightarrow> (bool \<times> SymbolEntry list) option" where
  "ParseSymtabFromSections m load_bias require_symtab g =
    do { off \<leftarrow> e_shoff m;
         n \<leftarrow> e_shnum m;
         if off = 0 \<or> n = 0 then Some (False, g)
         else parse_sections m off n load_bias (if require_symtab then [SHT_SYMTAB] else [SHT_SYMTAB, SHT_DYNSYM]) g }"

text \<open>The same for an image in memory, with its size known. The sums are of type \<open>size_t\<close>.\<close>

definition section_fits :: "u8 list \<Rightarrow> u64 \<Rightarrow> u64 \<Rightarrow> bool option" where
  "section_fits m sh limit = do { off \<leftarrow> sh_offset m sh; n \<leftarrow> sh_size m sh; Some (off + n \<le> limit) }"

definition headers_fit :: "u8 list \<Rightarrow> u64 \<Rightarrow> bool option" where
  "headers_fit m limit =
    do { off \<leftarrow> e_shoff m;
         n \<leftarrow> e_shnum m;
         if off = 0 \<or> n = 0 then Some False
         else do { sz \<leftarrow> e_shentsize m; Some (off + ucast n * ucast sz \<le> limit) } }"

definition ParseSymtabFromMemory :: "u8 list \<Rightarrow> u64 \<Rightarrow> u64 \<Rightarrow> SymbolEntry list \<Rightarrow> (bool \<times> SymbolEntry list) option" where
  "ParseSymtabFromMemory m elf_size load_bias g =
    do { fit \<leftarrow> headers_fit m elf_size;
         if \<not> fit then Some (False, g)
         else
           do { off \<leftarrow> e_shoff m;
                n \<leftarrow> e_shnum m;
                r \<leftarrow> find_shdr m off n SHT_SYMTAB;
                case r of
                  None \<Rightarrow> Some (False, g)
                | Some i \<Rightarrow>
                    do { let sym_sh = shdr_at off (of_nat i);
                         link \<leftarrow> sh_link m sym_sh;
                         if unat link \<ge> unat n then Some (False, g)
                         else
                           do { let str_sh = shdr_at off (ucast link);
                                sym_fits \<leftarrow> section_fits m sym_sh elf_size;
                                if \<not> sym_fits then Some (False, g)
                                else
                                  do { str_fits \<leftarrow> section_fits m str_sh elf_size;
                                       if \<not> str_fits then Some (False, g)
                                       else parse_table m sym_sh str_sh load_bias g } } } } }"

section \<open>Mini debug information\<close>

definition debugdata_name :: string where
  "debugdata_name = ''.gnu_debugdata''"

text \<open>\<open>strcmp\<close> reads up to the first difference; both strings end with a zero byte.\<close>

fun strcmp_eq :: "u8 list \<Rightarrow> string \<Rightarrow> bool option" where
  "strcmp_eq [] s = None"
| "strcmp_eq (b # bs) [] = Some (b = 0)"
| "strcmp_eq (b # bs) (c # cs) = (if b = of_char c then strcmp_eq bs cs else Some False)"

definition section_named :: "u8 list \<Rightarrow> u64 \<Rightarrow> u64 \<Rightarrow> string \<Rightarrow> nat \<Rightarrow> bool option" where
  "section_named m shdrs shstrtab s i =
    do { nm \<leftarrow> sh_name m (shdr_at shdrs (of_nat i)); strcmp_eq (drop (unat (shstrtab + ucast nm)) m) s }"

text \<open>The header of the section: \<open>None\<close> inside where a check fails or there is no such section.\<close>

definition find_debugdata :: "u8 list \<Rightarrow> u64 \<Rightarrow> u64 option option" where
  "find_debugdata m limit =
    do { fit \<leftarrow> headers_fit m limit;
         if \<not> fit then Some None
         else
           do { shdrs \<leftarrow> e_shoff m;
                n \<leftarrow> e_shnum m;
                ndx \<leftarrow> e_shstrndx m;
                if ndx \<ge> n then Some None
                else
                  do { let shstrtab_sh = shdr_at shdrs (ucast ndx);
                       str_fits \<leftarrow> section_fits m shstrtab_sh limit;
                       if \<not> str_fits then Some None
                       else
                         do { shstrtab \<leftarrow> sh_offset m shstrtab_sh;
                              r \<leftarrow> find_first (section_named m shdrs shstrtab debugdata_name) [0..<unat n];
                              case r of
                                None \<Rightarrow> Some None
                              | Some i \<Rightarrow>
                                  do { fits \<leftarrow> section_fits m (shdr_at shdrs (of_nat i)) limit;
                                       Some (if fits then Some (shdr_at shdrs (of_nat i)) else None) } } } } }"

definition ELFMAG :: "u8 list" where
  "ELFMAG = [0x7F, 0x45, 0x4C, 0x46]"

definition is_elf :: "u8 list \<Rightarrow> bool option" where
  "is_elf m = (if 4 \<le> length m then Some (take 4 m = ELFMAG) else None)"

text \<open>The two passes of the decompressor: allocators for the sizing and the decoding call, and \<open>malloc\<close> for the array between them. A
  pointer into the image gives the decompressor the rest of the image.\<close>

record debug_alloc =
  da_query :: allocator
  da_buf :: "nat \<Rightarrow> u8 list option"
  da_decode :: allocator

definition decode_debugdata :: "debug_alloc \<Rightarrow> u8 list \<Rightarrow> u64 \<Rightarrow> u64 \<Rightarrow> (u8 list \<times> u64) option option" where
  "decode_debugdata a m xz_data xz_size =
    do { (dec_size, _) \<leftarrow> xz_decompress (da_query a) (drop (unat xz_data) m) (unat xz_size) None 0;
         if dec_size = 0 then Some None
         else
           case da_buf a (unat dec_size) of
             None \<Rightarrow> Some None
           | Some dec_buf \<Rightarrow>
               do { (actual, dec_buf) \<leftarrow> xz_decompress (da_decode a) (drop (unat xz_data) m) (unat xz_size) (Some dec_buf) (unat dec_size);
                    Some (if actual = 0 then None else Some (dec_buf, actual)) } }"

definition ParseGnuDebugdata :: "debug_alloc \<Rightarrow> u8 list \<Rightarrow> u64 \<Rightarrow> u64 \<Rightarrow> SymbolEntry list \<Rightarrow> (bool \<times> SymbolEntry list) option" where
  "ParseGnuDebugdata a m file_size load_bias g =
    do { r \<leftarrow> find_debugdata m file_size;
         case r of
           None \<Rightarrow> Some (False, g)
         | Some sh \<Rightarrow>
             do { xz_data \<leftarrow> sh_offset m sh;
                  xz_size \<leftarrow> sh_size m sh;
                  d \<leftarrow> decode_debugdata a m xz_data xz_size;
                  case d of
                    None \<Rightarrow> Some (False, g)
                  | Some (dec_buf, actual) \<Rightarrow>
                      if actual < 64 then Some (False, g)
                      else
                        do { elf \<leftarrow> is_elf dec_buf;
                             if \<not> elf then Some (False, g) else ParseSymtabFromMemory dec_buf actual load_bias g } } }"

section \<open>The dynamic section\<close>

text \<open>The offset in the file of an address, \<open>- 1\<close> if no segment holds it.\<close>

definition in_segment :: "u8 list \<Rightarrow> u64 \<Rightarrow> nat \<Rightarrow> bool option" where
  "in_segment m vaddr i =
    do { p \<leftarrow> phdr_at m i;
         t \<leftarrow> p_type m p;
         if t \<noteq> PT_LOAD then Some False
         else
           do { start \<leftarrow> p_vaddr m p;
                if vaddr < start then Some False
                else do { n \<leftarrow> p_memsz m p; Some (vaddr < start + n) } } }"

definition vaddr_to_foff :: "u8 list \<Rightarrow> u64 \<Rightarrow> u64 option" where
  "vaddr_to_foff m vaddr =
    do { n \<leftarrow> e_phnum m;
         r \<leftarrow> find_first (in_segment m vaddr) [0..<unat n];
         case r of
           None \<Rightarrow> Some (- 1)
         | Some i \<Rightarrow> do { p \<leftarrow> phdr_at m i; off \<leftarrow> p_offset m p; start \<leftarrow> p_vaddr m p; Some (off + (vaddr - start)) } }"

text \<open>The entries of interest of the dynamic section. \<open>DT_NULL\<close>, \<open>DT_HASH\<close>, \<open>DT_STRTAB\<close>, \<open>DT_SYMTAB\<close> and \<open>DT_GNU_HASH\<close>
  are 0, 4, 5, 6 and 0x6ffffef5.\<close>

record dynamic =
  dt_symtab :: u64
  dt_strtab :: u64
  dt_hash :: u64
  dt_gnu_hash :: u64

definition dyn_entry :: "u64 \<Rightarrow> u64 \<Rightarrow> dynamic \<Rightarrow> dynamic" where
  "dyn_entry tag v d =
    (if tag = 6 then d\<lparr>dt_symtab := v\<rparr>
     else if tag = 5 then d\<lparr>dt_strtab := v\<rparr>
     else if tag = 4 then d\<lparr>dt_hash := v\<rparr>
     else if tag = 0x6FFFFEF5 then d\<lparr>dt_gnu_hash := v\<rparr>
     else d)"

partial_function (option) dyn_entries :: "u8 list \<Rightarrow> u64 \<Rightarrow> dynamic \<Rightarrow> dynamic option" where
  "dyn_entries m p d =
    do { tag \<leftarrow> d_tag m p;
         if tag = 0 then Some d
         else do { v \<leftarrow> d_ptr m p; dyn_entries m (p + 16) (dyn_entry tag v d) } }"

text \<open>The number of symbols from the GNU hash table: the end of the chain of the last bucket. \<open>None\<close> inside if all buckets are empty.\<close>

primrec max_bucket :: "u8 list \<Rightarrow> u64 \<Rightarrow> nat list \<Rightarrow> u32 \<Rightarrow> u32 option" where
  "max_bucket m buckets [] k = Some k"
| "max_bucket m buckets (i # is) k =
    do { b \<leftarrow> ld32 m (buckets + of_nat i * 4); max_bucket m buckets is (if b > k then b else k) }"

partial_function (option) chain_end :: "u8 list \<Rightarrow> u64 \<Rightarrow> u32 \<Rightarrow> u32 option" where
  "chain_end m chain_tab i =
    do { h \<leftarrow> ld32 m (chain_tab + ucast i * 4);
         if h AND 1 \<noteq> 0 then Some i else chain_end m chain_tab (i + 1) }"

definition gnu_hash_count :: "u8 list \<Rightarrow> u64 \<Rightarrow> u32 option option" where
  "gnu_hash_count m ghash =
    do { nbuckets \<leftarrow> ld32 m ghash;
         sym_offset \<leftarrow> ld32 m (ghash + 4);
         bloom_size \<leftarrow> ld32 m (ghash + 8);
         let buckets = ghash + 16 + ucast bloom_size * 4;
         let chain_tab = buckets + ucast nbuckets * 4;
         max_sym \<leftarrow> max_bucket m buckets [0..<unat nbuckets] 0;
         if max_sym = 0 then Some None
         else do { i \<leftarrow> chain_end m chain_tab (max_sym - sym_offset); Some (Some (sym_offset + i + 1)) } }"

text \<open>\<open>0\<close> where the number is not known. An offset with the top bit set is a negative \<open>off_t\<close>.\<close>

definition negative :: "u64 \<Rightarrow> bool" where
  "negative x \<longleftrightarrow> bit x 63"

definition symbol_count :: "u8 list \<Rightarrow> dynamic \<Rightarrow> u64 option" where
  "symbol_count m d =
    (if dt_hash d \<noteq> 0 then
       do { off \<leftarrow> vaddr_to_foff m (dt_hash d);
            if negative off then Some 0 else map_option ucast (ld32 m (off + 4)) }
     else if dt_gnu_hash d \<noteq> 0 then
       do { off \<leftarrow> vaddr_to_foff m (dt_gnu_hash d);
            if negative off then Some 0
            else do { n \<leftarrow> gnu_hash_count m off; Some (case n of None \<Rightarrow> 0 | Some n \<Rightarrow> ucast n) } }
     else Some 0)"

definition dynamic_symbols :: "u8 list \<Rightarrow> dynamic \<Rightarrow> u64 \<Rightarrow> SymbolEntry list \<Rightarrow> (bool \<times> SymbolEntry list) option" where
  "dynamic_symbols m d load_bias g =
    (if dt_symtab d = 0 \<or> dt_strtab d = 0 then Some (False, g)
     else
       do { syms \<leftarrow> vaddr_to_foff m (dt_symtab d);
            strtab \<leftarrow> vaddr_to_foff m (dt_strtab d);
            if negative syms \<or> negative strtab then Some (False, g)
            else
              do { n \<leftarrow> symbol_count m d;
                   if n = 0 then Some (False, g)
                   else
                     do { g \<leftarrow> push_symbols (symbol_at m syms strtab load_bias) [0..<unat n] g;
                          Some (g \<noteq> [], g) } } })"

definition ParseDynsymFromDynamic :: "u8 list \<Rightarrow> u64 \<Rightarrow> SymbolEntry list \<Rightarrow> (bool \<times> SymbolEntry list) option" where
  "ParseDynsymFromDynamic m load_bias g =
    do { n \<leftarrow> e_phnum m;
         r \<leftarrow> find_first (phdr_is m PT_DYNAMIC) [0..<unat n];
         case r of
           None \<Rightarrow> Some (False, g)
         | Some i \<Rightarrow>
             do { p \<leftarrow> phdr_at m i;
                  dyn \<leftarrow> p_offset m p;
                  d \<leftarrow> dyn_entries m dyn \<lparr>dt_symtab = 0, dt_strtab = 0, dt_hash = 0, dt_gnu_hash = 0\<rparr>;
                  dynamic_symbols m d load_bias g } }"

section \<open>Files\<close>

text \<open>The readable memory of a mapped file: its bytes and zeros up to the end of the last page.\<close>

definition map_file :: "nat \<Rightarrow> u8 list \<Rightarrow> u8 list" where
  "map_file page bs = bs @ replicate ((page - length bs mod page) mod page) 0"

text \<open>The four methods, each tried if the ones before found nothing.\<close>

definition load_symbols :: "debug_alloc \<Rightarrow> u8 list \<Rightarrow> u64 \<Rightarrow> u64 \<Rightarrow> SymbolEntry list \<Rightarrow> (bool \<times> SymbolEntry list) option" where
  "load_symbols a m file_size load_bias g =
    do { off \<leftarrow> e_shoff m;
         n \<leftarrow> e_shnum m;
         let sections = (off > 0 \<and> n > 0);
         (ok, g) \<leftarrow> (if sections then ParseSymtabFromSections m load_bias True g else Some (False, g));
         (ok, g) \<leftarrow> (if \<not> ok then ParseGnuDebugdata a m file_size load_bias g else Some (ok, g));
         (ok, g) \<leftarrow> (if \<not> ok \<and> sections then ParseSymtabFromSections m load_bias False g else Some (ok, g));
         if \<not> ok then ParseDynsymFromDynamic m load_bias g else Some (ok, g) }"

text \<open>The contents of the file, \<open>None\<close> where it cannot be opened; an empty file cannot be mapped.\<close>

definition TryLoadFromFile :: "nat \<Rightarrow> debug_alloc \<Rightarrow> u8 list option \<Rightarrow> u64 \<Rightarrow> SymbolEntry list \<Rightarrow> (bool \<times> SymbolEntry list) option" where
  "TryLoadFromFile page a contents load_bias g =
    (case contents of
       None \<Rightarrow> Some (False, g)
     | Some bs \<Rightarrow>
         if bs = [] then Some (False, g)
         else
           do { let m = map_file page bs;
                elf \<leftarrow> is_elf m;
                if \<not> elf then Some (False, g) else load_symbols a m (of_nat (length bs)) load_bias g })"

end
