(* ===== verification/Elf_Resolver.thy ===== *)
theory Elf_Resolver
  imports Elf_Image C_Strings
begin

text \<open>
  The entry points of \<open>elf_symbol_resolver.cpp\<close>: finding \<open>libart.so\<close> in \<open>/proc/self/maps\<close>, loading its symbols, and resolving
  names. The contents of files, the memory of the library and \<open>dlsym\<close> are parameters.
\<close>

section \<open>Lines\<close>

text \<open>The call of \<open>sscanf\<close>: at least four conversions give the start, the offset and the path, which is empty if its conversion is not
  reached.\<close>

definition scan_path :: "string \<Rightarrow> string option" where
  "scan_path cs =
    do { (_, cs) \<leftarrow> scan_number 16 cs;
         cs \<leftarrow> scan_char (CHR '':'') cs;
         (_, cs) \<leftarrow> scan_number 16 cs;
         (_, cs) \<leftarrow> scan_number 10 cs;
         Some (scan_line 255 (skip_space cs)) }"

definition scan_map_line :: "string \<Rightarrow> (u64 \<times> u64 \<times> string) option" where
  "scan_map_line line =
    do { (start, cs) \<leftarrow> scan_number 16 line;
         cs \<leftarrow> scan_char (CHR ''-'') cs;
         (_, cs) \<leftarrow> scan_number 16 cs;
         (_, cs) \<leftarrow> scan_word 4 cs;
         (offset, cs) \<leftarrow> scan_number 16 cs;
         Some (start, offset, case scan_path cs of None \<Rightarrow> [] | Some path \<Rightarrow> path) }"

section \<open>The library\<close>

definition trim_end :: "string \<Rightarrow> string" where
  "trim_end cs = rev (dropWhile (\<lambda>c. c \<in> {CHR 0x0A, CHR 0x0D, CHR '' ''}) (rev cs))"

definition library_line :: "string \<Rightarrow> string \<Rightarrow> (u64 \<times> string) option" where
  "library_line lib_name line =
    (if \<not> contains lib_name line then None
     else
       case scan_map_line line of
         None \<Rightarrow> None
       | Some (start, offset, path) \<Rightarrow> if offset \<noteq> 0 then None else Some (start, trim_end path))"

function find_library :: "string \<Rightarrow> string \<Rightarrow> (u64 \<times> string) option" where
  "find_library lib_name maps =
    (if maps = [] then None
     else
       case fgets 511 maps of (line, rest) \<Rightarrow>
         (case library_line lib_name line of Some r \<Rightarrow> Some r | None \<Rightarrow> find_library lib_name rest))"
  by pat_completeness auto

termination
proof (relation "measure (\<lambda>(lib_name, maps). length maps)")
  fix lib_name maps line rest
  assume "maps \<noteq> []" "(line, rest) = fgets 511 maps"
  then show "((lib_name, rest), lib_name, maps) \<in> measure (\<lambda>(lib_name, maps). length maps)"
    using fgets_shorter [of 511 maps] by (metis (mono_tags, lifting) case_prod_conv in_measure snd_conv zero_less_numeral)
qed simp

declare find_library.simps [simp del]

text \<open>\<open>None\<close> stands for \<open>false\<close>; \<open>maps = None\<close> if the file cannot be opened.\<close>

definition FindLibraryInfo :: "string \<Rightarrow> string option \<Rightarrow> (u64 \<times> string) option" where
  "FindLibraryInfo lib_name maps = (case maps of None \<Rightarrow> None | Some maps \<Rightarrow> find_library lib_name maps)"

section \<open>Initialisation\<close>

record platform =
  pf_maps :: "string option"
  pf_memory :: "u64 \<Rightarrow> u8 list"
  pf_file :: "string \<Rightarrow> u8 list option"
  pf_page :: nat
  pf_alloc :: "string \<Rightarrow> debug_alloc"

definition art_paths :: "string \<Rightarrow> string list" where
  "art_paths primary_path =
    [primary_path, ''/apex/com.android.art/debug/lib64/libart.so'', ''/apex/com.android.art/lib64/libart.so'', ''/system/lib64/libart.so'']"

fun try_paths :: "platform \<Rightarrow> u64 \<Rightarrow> string list \<Rightarrow> SymbolEntry list \<Rightarrow> SymbolEntry list option" where
  "try_paths pf load_bias [] g = Some g"
| "try_paths pf load_bias (path # paths) g =
    do { (ok, g) \<leftarrow> TryLoadFromFile (pf_page pf) (pf_alloc pf path) (pf_file pf path) load_bias g;
         if ok then Some g else try_paths pf load_bias paths g }"

definition InitElfSymbolResolver :: "platform \<Rightarrow> SymbolEntry list \<Rightarrow> (bool \<times> SymbolEntry list) option" where
  "InitElfSymbolResolver pf g =
    (case FindLibraryInfo ''libart.so'' (pf_maps pf) of
       None \<Rightarrow> Some (False, g)
     | Some (base, primary_path) \<Rightarrow>
         do { load_bias \<leftarrow> ComputeLoadBias (pf_memory pf base) base;
              g \<leftarrow> try_paths pf load_bias (art_paths primary_path) g;
              Some (True, g) })"

section \<open>Resolving names\<close>

text \<open>The index of the first occurrence of a character.\<close>

fun find_char :: "char \<Rightarrow> string \<Rightarrow> nat option" where
  "find_char c [] = None"
| "find_char c (d # ds) = (if d = c then Some 0 else map_option Suc (find_char c ds))"

text \<open>\<open>len = len * 10 + digit\<close> on \<open>int\<close>: an overflow is undefined.\<close>

fun int_digits :: "nat \<Rightarrow> string \<Rightarrow> nat option" where
  "int_digits v [] = Some v"
| "int_digits v (c # cs) = (let v = v * 10 + digit_value c in if v < 2 ^ 31 then int_digits v cs else None)"

text \<open>The loop over \<open>qualified\<close> from \<open>pos\<close> on.\<close>

function last_component :: "string \<Rightarrow> string \<Rightarrow> string option" where
  "last_component q last_name =
    (let ds = takeWhile (is_digit 10) q; rest = drop (length ds) q
     in if ds = [] then Some last_name
        else
          case int_digits 0 ds of
            None \<Rightarrow> None
          | Some len \<Rightarrow> if len > length rest then Some last_name else last_component (drop len rest) (take len rest))"
  by pat_completeness auto

termination
  by (relation "measure (\<lambda>(q, last_name). length q)") (auto simp: takeWhile_eq_Nil_iff length_takeWhile_le split: if_splits)

declare last_component.simps [simp del]

text \<open>\<open>e_pos - 3\<close> wraps where \<open>e_pos\<close> is 2: then all the rest is taken.\<close>

definition ExtractMethodName :: "string \<Rightarrow> string option" where
  "ExtractMethodName mangled =
    (if length mangled < 4 \<or> mangled ! 0 \<noteq> CHR ''_'' \<or> mangled ! 1 \<noteq> CHR ''Z'' then Some []
     else
       case find_char (CHR ''E'') mangled of
         None \<Rightarrow> Some []
       | Some e_pos \<Rightarrow>
           let qualified = (if e_pos < 3 then drop 3 mangled else take (e_pos - 3) (drop 3 mangled))
           in last_component qualified [])"

definition starts_with :: "string \<Rightarrow> SymbolEntry \<Rightarrow> bool" where
  "starts_with p e \<longleftrightarrow> take (length p) (sym_name e) = p"

text \<open>One round of the fuzzy search on \<open>best\<close> and \<open>best_name\<close>.\<close>

definition fuzzy_round :: "string \<Rightarrow> SymbolEntry \<Rightarrow> u64 \<times> string \<Rightarrow> u64 \<times> string" where
  "fuzzy_round method_name e b =
    (if contains method_name (sym_name e) \<and> contains ''_ZN3art'' (sym_name e) \<and> (fst b = 0 \<or> length (sym_name e) < length (snd b))
     then (sym_addr e, sym_name e) else b)"

definition fuzzy_match :: "string \<Rightarrow> SymbolEntry list \<Rightarrow> u64" where
  "fuzzy_match method_name g = (if method_name = [] then 0 else fst (fold (fuzzy_round method_name) g (0, [])))"

text \<open>The address, 0 for \<open>nullptr\<close>.\<close>

definition ArtSymbolResolver :: "(string \<Rightarrow> u64) \<Rightarrow> SymbolEntry list \<Rightarrow> string \<Rightarrow> u64 option" where
  "ArtSymbolResolver dlsym g symbol_name =
    (if dlsym symbol_name \<noteq> 0 then Some (dlsym symbol_name)
     else
       case find (\<lambda>e. sym_name e = symbol_name) g of
         Some e \<Rightarrow> Some (sym_addr e)
       | None \<Rightarrow>
           (case find (starts_with symbol_name) g of
              Some e \<Rightarrow> Some (sym_addr e)
            | None \<Rightarrow> map_option (\<lambda>method_name. fuzzy_match method_name g) (ExtractMethodName symbol_name)))"

definition ArtSymbolPrefixResolver :: "(string \<Rightarrow> u64) \<Rightarrow> SymbolEntry list \<Rightarrow> string \<Rightarrow> u64" where
  "ArtSymbolPrefixResolver dlsym g symbol_prefix =
    (if dlsym symbol_prefix \<noteq> 0 then dlsym symbol_prefix
     else case find (starts_with symbol_prefix) g of Some e \<Rightarrow> sym_addr e | None \<Rightarrow> 0)"

section \<open>Lengths are read back\<close>

lemma int_digits_append: "int_digits v (xs @ ys) = (case int_digits v xs of None \<Rightarrow> None | Some w \<Rightarrow> int_digits w ys)"
  by (induction v xs rule: int_digits.induct) (simp_all add: Let_def)

lemma int_digits_show:
  assumes "n < 2 ^ 31"
  shows "int_digits 0 (show_num 10 n) = Some n"
proof -
  have "2 \<le> (10::nat)" by simp
  then show ?thesis using assms
  proof (induction n rule: show_num_induct)
    case (digit n) then show ?case by (subst show_num.simps) simp
  next
    case (more n)
    have "n div 10 < 2 ^ 31" using more(3) by simp
    then show ?case using more by (subst show_num.simps) (simp add: int_digits_append)
  qed
qed

section \<open>Mangled names\<close>

definition mangle :: "string list \<Rightarrow> string" where
  "mangle names = concat (map (\<lambda>n. show_num 10 (length n) @ n) names)"

definition plain_name :: "string \<Rightarrow> bool" where
  "plain_name n \<longleftrightarrow> n \<noteq> [] \<and> \<not> is_digit 10 (hd n) \<and> CHR ''E'' \<notin> set n \<and> length n < 2 ^ 31"

lemma last_component_step:
  assumes "plain_name n"
  shows "last_component (show_num 10 (length n) @ n @ q) l = last_component q n"
proof -
  have d: "show_num 10 (length n) \<noteq> []" "\<forall>c \<in> set (show_num 10 (length n)). is_digit 10 c" using show_num_digits by simp_all
  have "takeWhile (is_digit 10) (show_num 10 (length n) @ n @ q) = show_num 10 (length n)"
    using d(2) assms by (cases n) (simp_all add: plain_name_def takeWhile_append)
  then show ?thesis using d(1) assms int_digits_show [of "length n"] by (subst last_component.simps) (simp add: plain_name_def Let_def)
qed

lemma last_component_mangle: "\<forall>n \<in> set names. plain_name n \<Longrightarrow> names \<noteq> [] \<Longrightarrow> last_component (mangle names) l = Some (last names)"
proof (induction names arbitrary: l)
  case (Cons n names)
  have "last_component (mangle (n # names)) l = last_component (mangle names) n" using Cons(2) last_component_step [of n "mangle names" l] by (simp add: mangle_def)
  moreover have "last_component [] n = Some n" by (subst last_component.simps) simp
  ultimately show ?case using Cons by (cases names) (simp_all add: mangle_def)
qed simp

lemma find_char_append: "c \<notin> set xs \<Longrightarrow> find_char c (xs @ c # ys) = Some (length xs)"
  by (induction xs) auto

lemma digit_not_E: "is_digit 10 c \<Longrightarrow> c \<noteq> CHR ''E''"
  by (auto simp: is_digit_def digit_value_def)

lemma mangle_no_E: "\<forall>n \<in> set names. plain_name n \<Longrightarrow> CHR ''E'' \<notin> set (mangle names)"
  using show_num_digits [of 10] digit_not_E by (fastforce simp: mangle_def plain_name_def)

text \<open>The method name of a mangled symbol: on a nested name \<open>_ZN...E\<close> whose components are identifiers without a capital E, the
  function returns the last component, whatever follows.\<close>

lemma extract_method_name:
  assumes "names \<noteq> []" "\<forall>n \<in> set names. plain_name n"
  shows "ExtractMethodName (''_ZN'' @ mangle names @ ''E'' @ args) = Some (last names)"
proof -
  have "find_char (CHR ''E'') (''_ZN'' @ mangle names @ ''E'' @ args) = Some (3 + length (mangle names))"
    using find_char_append [of "CHR ''E''" "''_ZN'' @ mangle names" args] mangle_no_E [OF assms(2)] by simp
  then show ?thesis using last_component_mangle [OF assms(2,1)] by (simp add: ExtractMethodName_def)
qed

lemma demo_names: "mangle [''art'', ''ClassLinker'', ''RegisterNative''] = ''3art11ClassLinker14RegisterNative''"
  "\<forall>n \<in> set [''art'', ''ClassLinker'', ''RegisterNative'']. plain_name n"
  by (code_simp, simp add: plain_name_def is_digit_def digit_value_def)

lemma extract_method_name_witness:
  "ExtractMethodName ''_ZN3art11ClassLinker14RegisterNativeEPNS_6ThreadE'' = Some ''RegisterNative''"
  using extract_method_name [OF _ demo_names(2), of "''PNS_6ThreadE''"] unfolding demo_names(1) by simp

text \<open>A capital E inside a name ends the scan early: the class is returned instead of the method.\<close>

lemma extract_stops_at_E: "ExtractMethodName ''_ZN3art9ArtMethod10EntryPointEv'' = Some ''ArtMethod''"
  by (simp add: ExtractMethodName_def last_component.simps is_digit_def digit_value_def Let_def)

section \<open>Which symbol is chosen\<close>

definition candidate :: "string \<Rightarrow> SymbolEntry \<Rightarrow> bool" where
  "candidate method_name e \<longleftrightarrow> contains method_name (sym_name e) \<and> contains ''_ZN3art'' (sym_name e)"

text \<open>The best candidate: one of the shortest names.\<close>

definition shortest :: "string \<Rightarrow> SymbolEntry list \<Rightarrow> SymbolEntry \<Rightarrow> bool" where
  "shortest method_name g e \<longleftrightarrow> e \<in> set g \<and> candidate method_name e \<and>
    (\<forall>e' \<in> set g. candidate method_name e' \<longrightarrow> length (sym_name e) \<le> length (sym_name e'))"

lemma fuzzy_round_eq:
  "fuzzy_round mn x (a, n) = (if candidate mn x \<and> (a = 0 \<or> length (sym_name x) < length n) then (sym_addr x, sym_name x) else (a, n))"
  by (auto simp: fuzzy_round_def candidate_def)

lemma fuzzy_fold:
  "\<forall>e \<in> set g. sym_addr e \<noteq> 0 \<Longrightarrow>
    (if \<exists>e \<in> set g. candidate mn e then \<exists>e. shortest mn g e \<and> fold (fuzzy_round mn) g (0, []) = (sym_addr e, sym_name e)
     else fold (fuzzy_round mn) g (0, []) = (0, []))"
proof (induction g rule: rev_induct)
  case (snoc x g)
  show ?case
  proof (cases "\<exists>e \<in> set g. candidate mn e")
    case True
    then obtain e where e: "shortest mn g e" "fold (fuzzy_round mn) g (0, []) = (sym_addr e, sym_name e)" using snoc by auto
    have nz: "sym_addr e \<noteq> 0" using e(1) snoc(2) by (auto simp: shortest_def)
    show ?thesis
    proof (cases "candidate mn x \<and> length (sym_name x) < length (sym_name e)")
      case better: True
      then have "shortest mn (g @ [x]) x" using e(1) by (fastforce simp: shortest_def)
      then show ?thesis using better True e(2) by (auto simp: fuzzy_round_eq)
    next
      case worse: False
      then have "shortest mn (g @ [x]) e" using e(1) by (auto simp: shortest_def)
      then show ?thesis using worse True e(2) nz by (auto simp: fuzzy_round_eq)
    qed
  next
    case False
    then have z: "fold (fuzzy_round mn) g (0, []) = (0, [])" using snoc by auto
    show ?thesis
    proof (cases "candidate mn x")
      case True
      then have "shortest mn (g @ [x]) x" using False by (auto simp: shortest_def)
      then show ?thesis using True z by (auto simp: fuzzy_round_eq)
    qed (use False z in \<open>auto simp: fuzzy_round_eq\<close>)
  qed
qed simp

definition first_match :: "(SymbolEntry \<Rightarrow> bool) \<Rightarrow> SymbolEntry list \<Rightarrow> SymbolEntry \<Rightarrow> bool" where
  "first_match P g e \<longleftrightarrow> (\<exists>xs ys. g = xs @ e # ys \<and> P e \<and> (\<forall>x \<in> set xs. \<not> P x))"

lemma find_first_match: "find P g = Some e \<Longrightarrow> first_match P g e"
proof (induction g)
  case (Cons x g)
  show ?case
  proof (cases "P x")
    case True
    then show ?thesis using Cons(2) unfolding first_match_def by (intro exI [of _ "[]"] exI [of _ g]) simp
  next
    case False
    then obtain xs ys where "g = xs @ e # ys" "P e" "\<forall>x \<in> set xs. \<not> P x" using Cons by (auto simp: first_match_def)
    then show ?thesis using False unfolding first_match_def by (intro exI [of _ "x # xs"] exI [of _ ys]) simp
  qed
qed simp

lemma find_match: "\<exists>e \<in> set g. P e \<Longrightarrow> \<exists>e. find P g = Some e \<and> first_match P g e"
  using find_first_match [of P g] by (metis find_None_iff not_Some_eq)

lemma find_no_match: "\<not> (\<exists>e \<in> set g. P e) \<Longrightarrow> find P g = None"
  by (auto simp: find_None_iff)

text \<open>The contract of the resolver on a name whose method name is \<open>mn\<close>.\<close>

definition resolves :: "(string \<Rightarrow> u64) \<Rightarrow> SymbolEntry list \<Rightarrow> string \<Rightarrow> string \<Rightarrow> u64 \<Rightarrow> bool" where
  "resolves dlsym g name mn r \<longleftrightarrow>
    (if dlsym name \<noteq> 0 then r = dlsym name
     else if \<exists>e \<in> set g. sym_name e = name then \<exists>e. first_match (\<lambda>e. sym_name e = name) g e \<and> r = sym_addr e
     else if \<exists>e \<in> set g. starts_with name e then \<exists>e. first_match (starts_with name) g e \<and> r = sym_addr e
     else if mn \<noteq> [] \<and> (\<exists>e \<in> set g. candidate mn e) then \<exists>e. shortest mn g e \<and> r = sym_addr e
     else r = 0)"

text \<open>Claim C26 (resolution order): the answer of the dynamic linker wins; then the first symbol with exactly the name, then the first that
  starts with it; only then a candidate of the \<open>art\<close> namespace whose name contains the method name, one with the shortest name, and null if
  there is none.\<close>

theorem art_symbol_order:
  assumes "\<forall>e \<in> set g. sym_addr e \<noteq> 0" "ExtractMethodName name = Some mn"
  shows "\<exists>r. ArtSymbolResolver dlsym g name = Some r \<and> resolves dlsym g name mn r"
proof -
  consider (dl) "dlsym name \<noteq> 0" | (exact) "dlsym name = 0" "\<exists>e \<in> set g. sym_name e = name"
    | (pre) "dlsym name = 0" "\<not> (\<exists>e \<in> set g. sym_name e = name)" "\<exists>e \<in> set g. starts_with name e"
    | (fuzzy) "dlsym name = 0" "\<not> (\<exists>e \<in> set g. sym_name e = name)" "\<not> (\<exists>e \<in> set g. starts_with name e)" by blast
  then show ?thesis
  proof cases
    case dl
    then have "ArtSymbolResolver dlsym g name = Some (dlsym name)" "resolves dlsym g name mn (dlsym name)"
      by (simp_all add: ArtSymbolResolver_def resolves_def)
    then show ?thesis by blast
  next
    case exact
    obtain e where e: "find (\<lambda>e. sym_name e = name) g = Some e" "first_match (\<lambda>e. sym_name e = name) g e"
      using find_match [OF exact(2)] by blast
    have "ArtSymbolResolver dlsym g name = Some (sym_addr e)" using exact(1) e(1) by (simp add: ArtSymbolResolver_def)
    moreover have "resolves dlsym g name mn (sym_addr e)" unfolding resolves_def using exact e(2) by auto
    ultimately show ?thesis by blast
  next
    case pre
    obtain e where e: "find (starts_with name) g = Some e" "first_match (starts_with name) g e" using find_match [OF pre(3)] by blast
    have "ArtSymbolResolver dlsym g name = Some (sym_addr e)" using pre(1) e(1) find_no_match [OF pre(2)] by (simp add: ArtSymbolResolver_def)
    moreover have "resolves dlsym g name mn (sym_addr e)" unfolding resolves_def using pre e(2) by auto
    ultimately show ?thesis by blast
  next
    case fuzzy
    have "ArtSymbolResolver dlsym g name = Some (fuzzy_match mn g)"
      using fuzzy(1) assms(2) find_no_match [OF fuzzy(2)] find_no_match [OF fuzzy(3)] by (simp add: ArtSymbolResolver_def)
    moreover have "if mn \<noteq> [] \<and> (\<exists>e \<in> set g. candidate mn e) then \<exists>e. shortest mn g e \<and> fuzzy_match mn g = sym_addr e else fuzzy_match mn g = 0"
      using fuzzy_fold [OF assms(1), of mn] by (auto simp: fuzzy_match_def split: if_splits)
    then have "resolves dlsym g name mn (fuzzy_match mn g)" unfolding resolves_def using fuzzy by (simp only: if_False simp_thms)
    ultimately show ?thesis by blast
  qed
qed

theorem art_symbol_order_witness:
  "\<exists>r. ArtSymbolResolver (\<lambda>_. 0) [\<lparr>sym_name = ''_ZN3art6Thread3barEi'', sym_addr = 0x1000\<rparr>] ''_ZN3art3barEv'' = Some r \<and>
    resolves (\<lambda>_. 0) [\<lparr>sym_name = ''_ZN3art6Thread3barEi'', sym_addr = 0x1000\<rparr>] ''_ZN3art3barEv'' ''bar'' r"
proof -
  have "ExtractMethodName ''_ZN3art3barEv'' = Some ''bar''"
    by (simp add: ExtractMethodName_def last_component.simps is_digit_def digit_value_def Let_def)
  then show ?thesis by (intro art_symbol_order) simp_all
qed

section \<open>The memory map\<close>

text \<open>A line of \<open>/proc/self/maps\<close> as the kernel prints it.\<close>

record mapping_line =
  ml_start :: u64
  ml_end :: u64
  ml_perms :: string
  ml_offset :: u64
  ml_major :: nat
  ml_minor :: nat
  ml_inode :: nat
  ml_fill :: nat
  ml_path :: string

definition show_padded :: "nat \<Rightarrow> nat \<Rightarrow> string" where
  "show_padded width n = replicate (width - length (show_num 16 n)) (CHR ''0'') @ show_num 16 n"

definition print_line :: "mapping_line \<Rightarrow> string" where
  "print_line l =
    show_padded 8 (unat (ml_start l)) @ ''-'' @ show_padded 8 (unat (ml_end l)) @ '' '' @ ml_perms l @ '' '' @
    show_padded 8 (unat (ml_offset l)) @ '' '' @ show_padded 2 (ml_major l) @ '':'' @ show_padded 2 (ml_minor l) @ '' '' @
    show_num 10 (ml_inode l) @ replicate (Suc (ml_fill l)) (CHR '' '') @ ml_path l @ [CHR 0x0A]"

definition line_ok :: "mapping_line \<Rightarrow> bool" where
  "line_ok l \<longleftrightarrow> length (ml_perms l) = 4 \<and> (\<forall>c \<in> set (ml_perms l). \<not> is_space c) \<and> ml_path l \<noteq> [] \<and> length (ml_path l) \<le> 255 \<and>
    CHR 0x0A \<notin> set (ml_path l) \<and> \<not> is_space (hd (ml_path l)) \<and> \<not> is_space (last (ml_path l)) \<and>
    ml_major l < 2 ^ 64 \<and> ml_minor l < 2 ^ 64 \<and> ml_inode l < 2 ^ 64 \<and> length (print_line l) \<le> 511"

lemma show_padded_digits: "show_padded w n \<noteq> [] \<and> (\<forall>c \<in> set (show_padded w n). is_digit 16 c) \<and> digits_value 16 (show_padded w n) = n"
proof -
  have "is_digit 16 (CHR ''0'')" by (simp add: is_digit_def digit_value_def)
  then show ?thesis using show_num_digits [of 16 n] show_num_value [of 16 n] by (auto simp: show_padded_def digits_value_zeros)
qed

lemma scan_padded:
  assumes "n < 2 ^ 64" "\<forall>c \<in> set sp. is_space c" "c \<in> {CHR ''-'', CHR '' '', CHR '':''}"
  shows "scan_number 16 (sp @ show_padded w n @ c # rest) = Some (of_nat n, c # rest)"
  using scan_number_ok [of "show_padded w n" 16 sp c rest] show_padded_digits [of w n] assms
  by (auto simp: is_digit_def digit_value_def)

lemma scan_decimal:
  assumes "n < 2 ^ 64"
  shows "scan_number 10 (CHR '' '' # show_num 10 n @ CHR '' '' # rest) = Some (of_nat n, CHR '' '' # rest)"
  using scan_number_ok [of "show_num 10 n" 10 "'' ''" "CHR '' ''" rest] show_num_digits [of 10 n] show_num_value [of 10 n] assms
  by (simp add: is_digit_def digit_value_def is_space_def)

lemma scan_path_ok:
  assumes "line_ok l"
  shows "scan_path (CHR '' '' # show_padded 2 (ml_major l) @ CHR '':'' # show_padded 2 (ml_minor l) @ CHR '' '' # show_num 10 (ml_inode l) @
    CHR '' '' # replicate (ml_fill l) (CHR '' '') @ ml_path l @ [CHR 0x0A]) = Some (ml_path l)"
proof -
  note a = assms [unfolded line_ok_def]
  have 1: "scan_number 16 (CHR '' '' # show_padded 2 (ml_major l) @ CHR '':'' # rest) = Some (of_nat (ml_major l), CHR '':'' # rest)" for rest
    using scan_padded [of "ml_major l" "'' ''" "CHR '':''" 2 rest] a by (simp add: is_space_def)
  have 2: "scan_number 16 (show_padded 2 (ml_minor l) @ CHR '' '' # rest) = Some (of_nat (ml_minor l), CHR '' '' # rest)" for rest
    using scan_padded [of "ml_minor l" "[]" "CHR '' ''" 2 rest] a by simp
  have 3: "skip_space (CHR '' '' # replicate (ml_fill l) (CHR '' '') @ ml_path l @ [CHR 0x0A]) = ml_path l @ [CHR 0x0A]"
    using skip_spaces [of "CHR '' '' # replicate (ml_fill l) (CHR '' '')" "ml_path l @ [CHR 0x0A]"] a by (simp add: is_space_def)
  have 4: "scan_line 255 (ml_path l @ [CHR 0x0A]) = ml_path l"
    using a by (simp add: scan_line_def takeWhile_append)
  have n: "ml_inode l < 2 ^ 64" using a by simp
  show ?thesis by (simp add: scan_path_def 1 2 3 4 scan_decimal [OF n] scan_char_def)
qed

lemma scan_line_ok:
  assumes "line_ok l"
  shows "scan_map_line (print_line l) = Some (ml_start l, ml_offset l, ml_path l)"
proof -
  note a = assms [unfolded line_ok_def]
  have b: "unat x < 2 ^ 64" for x :: u64 by (rule order_less_le_trans [OF unsigned_less]) simp
  have 1: "scan_number 16 (show_padded 8 (unat x) @ CHR ''-'' # rest) = Some (x, CHR ''-'' # rest)" for x :: u64 and rest
    using scan_padded [OF b, of "[]" "CHR ''-''" 8 x rest] by simp
  have 2: "scan_number 16 (show_padded 8 (unat x) @ CHR '' '' # rest) = Some (x, CHR '' '' # rest)" for x :: u64 and rest
    using scan_padded [OF b, of "[]" "CHR '' ''" 8 x rest] by simp
  have 3: "scan_word 4 (CHR '' '' # ml_perms l @ CHR '' '' # rest) = Some (ml_perms l, CHR '' '' # rest)" for rest
  proof -
    have "scan_word 4 ('' '' @ ml_perms l @ CHR '' '' # rest) = Some (ml_perms l, CHR '' '' # rest)"
    proof (rule scan_word_ok)
      show "ml_perms l \<noteq> []" "length (ml_perms l) \<le> 4" "\<forall>c \<in> set (ml_perms l). \<not> is_space c" using a by auto
    qed (simp_all add: is_space_def)
    then show ?thesis by simp
  qed
  have 4: "scan_number 16 (CHR '' '' # show_padded 8 (unat x) @ CHR '' '' # rest) = Some (x, CHR '' '' # rest)" for x :: u64 and rest
    using scan_padded [OF b, of "'' ''" "CHR '' ''" 8 x rest] by (simp add: is_space_def)
  show ?thesis by (simp add: scan_map_line_def print_line_def 1 2 3 4 scan_char_def scan_path_ok [OF assms])
qed

lemma trim_path: "line_ok l \<Longrightarrow> trim_end (ml_path l) = ml_path l"
proof -
  assume "line_ok l"
  then have "ml_path l \<noteq> []" "last (ml_path l) \<notin> {CHR 0x0A, CHR 0x0D, CHR '' ''}" by (auto simp: line_ok_def is_space_def)
  then show ?thesis by (cases "ml_path l" rule: rev_cases) (simp_all add: trim_end_def)
qed

lemma print_line_newline:
  assumes "line_ok l"
  obtains xs where "print_line l = xs @ [CHR 0x0A]" "CHR 0x0A \<notin> set xs" "length xs < 511"
proof -
  note a = assms [unfolded line_ok_def]
  define xs where "xs = show_padded 8 (unat (ml_start l)) @ ''-'' @ show_padded 8 (unat (ml_end l)) @ '' '' @ ml_perms l @ '' '' @
    show_padded 8 (unat (ml_offset l)) @ '' '' @ show_padded 2 (ml_major l) @ '':'' @ show_padded 2 (ml_minor l) @ '' '' @
    show_num 10 (ml_inode l) @ replicate (Suc (ml_fill l)) (CHR '' '') @ ml_path l"
  have d: "CHR 0x0A \<notin> set (show_padded w n)" for w n using show_padded_digits [of w n] digit_facts [of 16 "CHR 0x0A"] by auto
  have e: "CHR 0x0A \<notin> set (show_num 10 n)" for n using show_num_digits [of 10 n] digit_facts [of 10 "CHR 0x0A"] by auto
  have p: "print_line l = xs @ [CHR 0x0A]" by (simp add: print_line_def xs_def)
  moreover have "CHR 0x0A \<notin> set (ml_perms l)" using a by (auto simp: is_space_def)
  then have "CHR 0x0A \<notin> set xs" using a d e by (auto simp: xs_def)
  moreover have "length xs < 511" using a p by simp
  ultimately show ?thesis by (rule that)
qed

lemma find_library_lines:
  assumes "\<forall>l \<in> set ls. line_ok l"
  shows "FindLibraryInfo lib (Some (concat (map print_line ls))) =
    map_option (\<lambda>l. (ml_start l, ml_path l)) (find (\<lambda>l. contains lib (print_line l) \<and> ml_offset l = 0) ls)"
  using assms
proof (induction ls)
  case Nil
  show ?case by (simp add: FindLibraryInfo_def find_library.simps)
next
  case (Cons l ls)
  obtain xs where x: "print_line l = xs @ [CHR 0x0A]" "CHR 0x0A \<notin> set xs" "length xs < 511" using print_line_newline Cons(2) by (metis list.set_intros(1))
  have "library_line lib (print_line l) = (if contains lib (print_line l) \<and> ml_offset l = 0 then Some (ml_start l, ml_path l) else None)"
    using Cons(2) scan_line_ok [of l] trim_path [of l] by (simp add: library_line_def)
  moreover have "find_library lib (concat (map print_line (l # ls))) =
      (case library_line lib (print_line l) of Some r \<Rightarrow> Some r | None \<Rightarrow> find_library lib (concat (map print_line ls)))"
    by (subst find_library.simps) (simp add: x fgets_line)
  ultimately show ?case using Cons by (simp add: FindLibraryInfo_def)
qed

text \<open>The base of the library: on a memory map as the kernel prints it, with lines of at most 511 characters, the start and the path
  are those of the first line that contains the name of the library and has offset zero; without such a line there is no result.\<close>

lemma find_library_info:
  assumes "\<forall>l \<in> set ls. line_ok l"
  shows "FindLibraryInfo lib (Some (concat (map print_line ls))) =
    map_option (\<lambda>l. (ml_start l, ml_path l)) (find (\<lambda>l. contains lib (print_line l) \<and> ml_offset l = 0) ls)"
  by (rule find_library_lines [OF assms])

definition demo_line :: mapping_line where
  "demo_line = \<lparr>ml_start = 0x7000, ml_end = 0x9000, ml_perms = ''r--p'', ml_offset = 0, ml_major = 254, ml_minor = 3, ml_inode = 42, ml_fill = 2,
     ml_path = ''/apex/libart.so''\<rparr>"

lemma demo_line_ok: "line_ok demo_line"
  by (simp add: line_ok_def print_line_def show_padded_def demo_line_def show_num.simps is_space_def)

lemma demo_line_found: "find (\<lambda>l. contains ''libart.so'' (print_line l) \<and> ml_offset l = 0) [demo_line] = Some demo_line"
proof -
  have "\<exists>xs. print_line demo_line = xs @ ''libart.so'' @ [CHR 0x0A]"
    by (rule exI [of _ "take (length (print_line demo_line) - 10) (print_line demo_line)"])
      (simp add: print_line_def demo_line_def show_padded_def show_num.simps)
  then have "contains ''libart.so'' (print_line demo_line)" by (metis contains_infix)
  then show ?thesis by (simp add: demo_line_def)
qed

lemma find_library_info_witness:
  "FindLibraryInfo ''libart.so'' (Some (concat (map print_line [demo_line]))) = Some (0x7000, ''/apex/libart.so'')"
proof -
  have "FindLibraryInfo ''libart.so'' (Some (concat (map print_line [demo_line]))) =
      map_option (\<lambda>l. (ml_start l, ml_path l)) (find (\<lambda>l. contains ''libart.so'' (print_line l) \<and> ml_offset l = 0) [demo_line])"
    by (intro find_library_info) (simp add: demo_line_ok)
  then show ?thesis unfolding demo_line_found by (simp add: demo_line_def)
qed

end
