(* ===== verification/Elf_Correct.thy ===== *)
theory Elf_Correct
  imports Elf_Resolver
begin

text \<open>
  An ELF image written from a list of symbols, and the readers of \<open>elf_symbol_resolver.cpp\<close> on it: they find exactly the symbols that are
  defined, of a supported type and named. Two images show what the checks of the readers leave out.
\<close>

section \<open>Loads from written fields\<close>

definition st16 :: "u16 \<Rightarrow> u8 list" where
  "st16 w = [ucast w, ucast (drop_bit 8 w)]"

lemma length_st16 [simp]: "length (st16 w) = 2"
  by (simp add: st16_def)

lemma le_nat_append: "le_nat (xs @ ys) = le_nat xs + 256 ^ length xs * le_nat ys"
  by (induction xs) (simp_all add: le_nat_def algebra_simps)

lemma unat_byte: "unat (ucast (drop_bit k w) :: u8) = unat w div 2 ^ k mod 256" for w :: "'a::len word"
  by (simp only: unsigned_ucast_eq unat_drop_bit_eq) (simp add: drop_bit_eq_div take_bit_eq_mod)

lemma byte_sums:
  fixes n :: nat
  shows "n mod 65536 = n mod 256 + 256 * (n div 256 mod 256)"
    "n mod 4294967296 = n mod 256 + 256 * (n div 256 mod 256 + 256 * (n div 65536 mod 256 + 256 * (n div 16777216 mod 256)))"
proof -
  show a: "n mod 65536 = n mod 256 + 256 * (n div 256 mod 256)" using mod_mult2_eq [of n 256 256] by simp
  have "n mod 16777216 = 65536 * (n div 65536 mod 256) + n mod 65536" using mod_mult2_eq [of n 65536 256] by simp
  moreover have "n mod 4294967296 = 16777216 * (n div 16777216 mod 256) + n mod 16777216" using mod_mult2_eq [of n 16777216 256] by simp
  ultimately show "n mod 4294967296 = n mod 256 + 256 * (n div 256 mod 256 + 256 * (n div 65536 mod 256 + 256 * (n div 16777216 mod 256)))"
    using a by simp
qed

lemma le_nat_st16: "le_nat (st16 w) = unat w"
proof -
  have "unat w < 65536" by (rule order_less_le_trans [OF unsigned_less]) simp
  then show ?thesis using unat_byte [of 0 w] unat_byte [of 8 w] byte_sums(1) [of "unat w"] by (simp add: st16_def le_nat_def)
qed

lemma le_nat_le32: "le_nat (le32 w) = unat w"
proof -
  have "le_nat (le32 w) = unat w mod 4294967296"
    using unat_byte [of 0 w] unat_byte [of 8 w] unat_byte [of 16 w] unat_byte [of 24 w] unfolding byte_sums(2) by (simp add: le32_def le_nat_def)
  then show ?thesis using unat_lt32 [of w] by simp
qed

lemma le_nat_le64: "le_nat (le64 w) = unat w"
proof -
  have "unat (ucast w :: u32) = unat w mod 2 ^ 32" by (simp add: unsigned_ucast_eq take_bit_eq_mod)
  moreover have "unat (ucast (drop_bit 32 w) :: u32) = unat w div 2 ^ 32"
  proof -
    have "unat w < 2 ^ 64" by (rule order_less_le_trans [OF unsigned_less]) simp
    then have "unat w div 2 ^ 32 < 2 ^ 32" by (simp add: less_mult_imp_div_less)
    then show ?thesis by (simp only: unsigned_ucast_eq unat_drop_bit_eq) (simp add: drop_bit_eq_div take_bit_eq_mod)
  qed
  ultimately show ?thesis by (simp add: le64_def le_nat_append le_nat_le32)
qed

lemma ld_at: "unat p = length xs \<Longrightarrow> length bs = n \<Longrightarrow> ld n (xs @ bs @ ys) p = Some (le_nat bs)"
  by (simp add: ld_def)

lemma ld_field:
  "unat p = length xs \<Longrightarrow> ld8 (xs @ [b] @ ys) p = Some b"
  "unat p = length xs \<Longrightarrow> ld16 (xs @ st16 h @ ys) p = Some h"
  "unat p = length xs \<Longrightarrow> ld32 (xs @ le32 w @ ys) p = Some w"
  "unat p = length xs \<Longrightarrow> ld64 (xs @ le64 d @ ys) p = Some d"
  by (simp_all only: ld8_def ld16_def ld32_def ld64_def ld_at length_st16 length_le32 length_le64 length_Cons list.size One_nat_def [symmetric])
    (simp_all add: le_nat_def [of "[b]"] le_nat_st16 le_nat_le32 le_nat_le64)

section \<open>Written structures\<close>

record elf_section =
  sc_name :: u32
  sc_type :: u32
  sc_offset :: u64
  sc_size :: u64
  sc_link :: u32
  sc_entsize :: u64

definition shdr_bytes :: "elf_section \<Rightarrow> u8 list" where
  "shdr_bytes h = le32 (sc_name h) @ le32 (sc_type h) @ le64 0 @ le64 0 @ le64 (sc_offset h) @ le64 (sc_size h) @ le32 (sc_link h) @ le32 0 @
    le64 0 @ le64 (sc_entsize h)"

record elf_symbol =
  es_name :: string
  es_info :: u8
  es_shndx :: u16
  es_value :: u64

definition sym_bytes :: "u32 \<Rightarrow> elf_symbol \<Rightarrow> u8 list" where
  "sym_bytes off e = le32 off @ [es_info e] @ [0] @ st16 (es_shndx e) @ le64 (es_value e) @ le64 0"

lemma length_shdr_bytes [simp]: "length (shdr_bytes h) = 64"
  by (simp add: shdr_bytes_def)

lemma length_sym_bytes [simp]: "length (sym_bytes off e) = 24"
  by (simp add: sym_bytes_def)

lemma unat_add: "unat p + k < 2 ^ 64 \<Longrightarrow> unat (p + of_nat k) = unat p + k" for p :: u64
proof -
  assume a: "unat p + k < 2 ^ 64"
  then have "unat (of_nat k :: u64) = k" by (simp only: unat_of_nat) simp
  then show ?thesis using a by (simp only: unat_word_ariths) simp
qed

lemma shdr_loads:
  assumes "unat p = length xs" "length xs + 64 < 2 ^ 64"
  shows "sh_name (xs @ shdr_bytes h @ ys) p = Some (sc_name h)" "sh_type (xs @ shdr_bytes h @ ys) p = Some (sc_type h)"
    "sh_offset (xs @ shdr_bytes h @ ys) p = Some (sc_offset h)" "sh_size (xs @ shdr_bytes h @ ys) p = Some (sc_size h)"
    "sh_link (xs @ shdr_bytes h @ ys) p = Some (sc_link h)" "sh_entsize (xs @ shdr_bytes h @ ys) p = Some (sc_entsize h)"
proof -
  have u: "unat (p + 4) = length xs + 4" "unat (p + 24) = length xs + 24" "unat (p + 32) = length xs + 32"
      "unat (p + 40) = length xs + 40" "unat (p + 56) = length xs + 56"
    using unat_add [of p 4] unat_add [of p 24] unat_add [of p 32] unat_add [of p 40] unat_add [of p 56] assms by simp_all
  show "sh_name (xs @ shdr_bytes h @ ys) p = Some (sc_name h)"
    using ld_field(3) [OF assms(1)] by (simp add: sh_name_def shdr_bytes_def)
  show "sh_type (xs @ shdr_bytes h @ ys) p = Some (sc_type h)"
    using ld_field(3) [of "p + 4" "xs @ le32 (sc_name h)" "sc_type h"] u by (simp add: sh_type_def shdr_bytes_def)
  show "sh_offset (xs @ shdr_bytes h @ ys) p = Some (sc_offset h)"
    using ld_field(4) [of "p + 24" "xs @ le32 (sc_name h) @ le32 (sc_type h) @ le64 0 @ le64 0" "sc_offset h"] u
    by (simp add: sh_offset_def shdr_bytes_def)
  show "sh_size (xs @ shdr_bytes h @ ys) p = Some (sc_size h)"
    using ld_field(4) [of "p + 32" "xs @ le32 (sc_name h) @ le32 (sc_type h) @ le64 0 @ le64 0 @ le64 (sc_offset h)" "sc_size h"] u
    by (simp add: sh_size_def shdr_bytes_def)
  show "sh_link (xs @ shdr_bytes h @ ys) p = Some (sc_link h)"
    using ld_field(3) [of "p + 40" "xs @ le32 (sc_name h) @ le32 (sc_type h) @ le64 0 @ le64 0 @ le64 (sc_offset h) @ le64 (sc_size h)" "sc_link h"] u
    by (simp add: sh_link_def shdr_bytes_def)
  show "sh_entsize (xs @ shdr_bytes h @ ys) p = Some (sc_entsize h)"
    using ld_field(4) [of "p + 56" "xs @ le32 (sc_name h) @ le32 (sc_type h) @ le64 0 @ le64 0 @ le64 (sc_offset h) @ le64 (sc_size h) @
        le32 (sc_link h) @ le32 0 @ le64 0" "sc_entsize h"] u
    by (simp add: sh_entsize_def shdr_bytes_def)
qed

lemma sym_loads:
  assumes "unat p = length xs" "length xs + 24 < 2 ^ 64"
  shows "st_name (xs @ sym_bytes off e @ ys) p = Some off" "st_info (xs @ sym_bytes off e @ ys) p = Some (es_info e)"
    "st_shndx (xs @ sym_bytes off e @ ys) p = Some (es_shndx e)" "st_value (xs @ sym_bytes off e @ ys) p = Some (es_value e)"
proof -
  have u: "unat (p + 4) = length xs + 4" "unat (p + 6) = length xs + 6" "unat (p + 8) = length xs + 8"
    using unat_add [of p 4] unat_add [of p 6] unat_add [of p 8] assms by simp_all
  show "st_name (xs @ sym_bytes off e @ ys) p = Some off" using ld_field(3) [OF assms(1)] by (simp add: st_name_def sym_bytes_def)
  show "st_info (xs @ sym_bytes off e @ ys) p = Some (es_info e)"
    using ld_field(1) [of "p + 4" "xs @ le32 off" "es_info e"] u by (simp add: st_info_def sym_bytes_def)
  show "st_shndx (xs @ sym_bytes off e @ ys) p = Some (es_shndx e)"
    using ld_field(2) [of "p + 6" "xs @ le32 off @ [es_info e] @ [0]" "es_shndx e"] u by (simp add: st_shndx_def sym_bytes_def)
  show "st_value (xs @ sym_bytes off e @ ys) p = Some (es_value e)"
    using ld_field(4) [of "p + 8" "xs @ le32 off @ [es_info e] @ [0] @ st16 (es_shndx e)" "es_value e"] u by (simp add: st_value_def sym_bytes_def)
qed

text \<open>Strings: the bytes of a name and the zero after it.\<close>

definition name_bytes :: "string \<Rightarrow> u8 list" where
  "name_bytes s = map of_char s @ [0]"

lemma unat_of_char: "unat (of_char c :: u8) = of_char c"
proof -
  have "(of_char c :: u8) = of_nat (of_char c)" by (simp add: of_nat_of_char)
  moreover have "of_char c < (256 :: nat)" by simp
  ultimately show ?thesis by (simp only: unat_of_nat) simp
qed

lemma of_char_zero: "(of_char c :: u8) = 0 \<longleftrightarrow> c = CHR 0x00"
proof
  assume "(of_char c :: u8) = 0"
  then have "(of_char c :: nat) = 0" using unat_of_char [of c] by simp
  then have "(of_char c :: nat) = of_char (CHR 0x00)" by simp
  then show "c = CHR 0x00" by (simp only: of_char_eq_iff)
qed simp

lemma cstr_name: "CHR 0x00 \<notin> set s \<Longrightarrow> cstr (name_bytes s @ ys) = Some s"
  by (induction s) (auto simp: name_bytes_def of_char_zero unat_of_char)

section \<open>A written image\<close>

definition name_pos :: "elf_symbol list \<Rightarrow> nat \<Rightarrow> nat" where
  "name_pos es i = Suc (length (concat (map (\<lambda>e. name_bytes (es_name e)) (take i es))))"

definition symtab_bytes :: "elf_symbol list \<Rightarrow> u8 list" where
  "symtab_bytes es = concat (map (\<lambda>i. sym_bytes (of_nat (name_pos es i)) (es ! i)) [0..<length es])"

definition strtab_bytes :: "elf_symbol list \<Rightarrow> u8 list" where
  "strtab_bytes es = 0 # concat (map (\<lambda>e. name_bytes (es_name e)) es)"

definition ehdr_bytes :: "u8 list" where
  "ehdr_bytes = ELFMAG @ replicate 28 0 @ le64 0 @ le64 64 @ replicate 6 0 @ st16 0 @ st16 0 @ st16 64 @ st16 3 @ st16 0"

definition null_section :: elf_section where
  "null_section = \<lparr>sc_name = 0, sc_type = 0, sc_offset = 0, sc_size = 0, sc_link = 0, sc_entsize = 0\<rparr>"

definition symtab_section :: "elf_symbol list \<Rightarrow> elf_section" where
  "symtab_section es = \<lparr>sc_name = 0, sc_type = SHT_SYMTAB, sc_offset = 256, sc_size = of_nat (24 * length es), sc_link = 2, sc_entsize = 24\<rparr>"

definition strtab_section :: "elf_symbol list \<Rightarrow> elf_section" where
  "strtab_section es = \<lparr>sc_name = 0, sc_type = 3, sc_offset = of_nat (256 + 24 * length es), sc_size = of_nat (length (strtab_bytes es)), sc_link = 0,
     sc_entsize = 0\<rparr>"

definition elf_image :: "elf_symbol list \<Rightarrow> u8 list" where
  "elf_image es = ehdr_bytes @ shdr_bytes null_section @ shdr_bytes (symtab_section es) @ shdr_bytes (strtab_section es) @
    symtab_bytes es @ strtab_bytes es"

definition image_ok :: "elf_symbol list \<Rightarrow> bool" where
  "image_ok es \<longleftrightarrow> (\<forall>e \<in> set es. CHR 0x00 \<notin> set (es_name e)) \<and> length (elf_image es) < 2 ^ 32"

text \<open>The symbols the readers should find.\<close>

definition usable :: "elf_symbol \<Rightarrow> bool" where
  "usable e \<longleftrightarrow> es_value e \<noteq> 0 \<and> es_shndx e \<noteq> 0 \<and> es_info e AND 0xF \<in> {0, 1, 2} \<and> es_name e \<noteq> []"

definition entry_of :: "u64 \<Rightarrow> elf_symbol \<Rightarrow> SymbolEntry" where
  "entry_of load_bias e = \<lparr>sym_name = es_name e, sym_addr = load_bias + es_value e\<rparr>"

definition image_symbols :: "u64 \<Rightarrow> elf_symbol list \<Rightarrow> SymbolEntry list" where
  "image_symbols load_bias es = map (entry_of load_bias) (filter usable es)"

lemma length_symtab [simp]: "length (symtab_bytes es) = 24 * length es"
proof -
  have "length (concat (map (\<lambda>i. sym_bytes (f i) (g i)) [0..<n])) = 24 * n" for f g and n :: nat by (induction n) simp_all
  then show ?thesis by (simp add: symtab_bytes_def)
qed

lemma length_ehdr [simp]: "length ehdr_bytes = 64"
  by (simp add: ehdr_bytes_def ELFMAG_def)

lemma length_elf_image: "length (elf_image es) = 256 + 24 * length es + length (strtab_bytes es)"
  by (simp add: elf_image_def)

lemma concat_split: "i < n \<Longrightarrow> concat (map f [0..<n]) = concat (map f [0..<i]) @ f i @ concat (map f [Suc i..<n])"
  by (metis append.assoc concat.simps concat_append less_imp_le_nat list.simps(9) map_append upt_add_eq_append upt_conv_Cons le_add_diff_inverse zero_le)

lemma symtab_split:
  assumes "i < length es"
  obtains xs ys where "symtab_bytes es = xs @ sym_bytes (of_nat (name_pos es i)) (es ! i) @ ys" "length xs = 24 * i"
proof -
  have "length (concat (map (\<lambda>i. sym_bytes (of_nat (name_pos es i)) (es ! i)) [0..<i])) = 24 * i" by (induction i) simp_all
  then show ?thesis using that concat_split [OF assms, of "\<lambda>i. sym_bytes (of_nat (name_pos es i)) (es ! i)"] by (simp add: symtab_bytes_def)
qed

lemma strtab_split:
  assumes "i < length es"
  obtains xs ys where "strtab_bytes es = xs @ name_bytes (es_name (es ! i)) @ ys" "length xs = name_pos es i"
proof -
  have "concat (map (\<lambda>e. name_bytes (es_name e)) es) =
      concat (map (\<lambda>e. name_bytes (es_name e)) (take i es)) @ name_bytes (es_name (es ! i)) @ concat (map (\<lambda>e. name_bytes (es_name e)) (drop (Suc i) es))"
    using id_take_nth_drop [OF assms] by (metis concat.simps(2) concat_append list.simps(9) map_append)
  then show ?thesis
    by (intro that [of "0 # concat (map (\<lambda>e. name_bytes (es_name e)) (take i es))"]) (simp_all add: strtab_bytes_def name_pos_def)
qed

lemma named_symbol_ok:
  assumes "drop (unat p) m = name_bytes s @ ys" "CHR 0x00 \<notin> set s"
  shows "named_symbol m p bias v = Some (if s = [] then None else Some \<lparr>sym_name = s, sym_addr = bias + v\<rparr>)"
proof -
  have l: "unat p < length m" using assms(1) by (metis drop_eq_Nil2 name_bytes_def append_is_Nil_conv list.distinct(1) not_le)
  have "ld8 m p = Some (hd (name_bytes s))"
    using l assms(1) by (cases s) (simp_all add: ld8_def ld_def le_nat_def name_bytes_def)
  moreover have "hd (name_bytes s) = 0 \<longleftrightarrow> s = []" using assms(2) by (cases s) (auto simp: name_bytes_def of_char_zero)
  ultimately show ?thesis using cstr_name [OF assms(2)] assms(1) by (simp add: named_symbol_def c_string_def)
qed

lemma symbol_at_ok:
  assumes "image_ok es" "i < length es"
  shows "symbol_at (elf_image es @ tail) 256 (of_nat (256 + 24 * length es)) bias i =
    Some (if usable (es ! i) then Some (entry_of bias (es ! i)) else None)"
proof -
  let ?m = "elf_image es @ tail"
  let ?p = "256 + of_nat i * 24 :: u64"
  let ?e = "es ! i"
  have b: "256 + 24 * length es + length (strtab_bytes es) < 2 ^ 32" using assms(1) by (simp add: image_ok_def length_elf_image)
  have p: "unat ?p = 256 + 24 * i" using unat_of_nat64 [of "256 + 24 * i"] b assms(2) by (simp add: mult.commute)
  obtain xs ys where x: "symtab_bytes es = xs @ sym_bytes (of_nat (name_pos es i)) ?e @ ys" "length xs = 24 * i" by (rule symtab_split [OF assms(2)])
  obtain us vs where u: "strtab_bytes es = us @ name_bytes (es_name ?e) @ vs" "length us = name_pos es i" by (rule strtab_split [OF assms(2)])
  define pre where "pre = ehdr_bytes @ shdr_bytes null_section @ shdr_bytes (symtab_section es) @ shdr_bytes (strtab_section es)"
  have pre: "length pre = 256" by (simp add: pre_def)
  have m1: "?m = (pre @ xs) @ sym_bytes (of_nat (name_pos es i)) ?e @ (ys @ strtab_bytes es @ tail)" by (simp add: elf_image_def pre_def x(1))
  have m2: "?m = (pre @ symtab_bytes es @ us) @ name_bytes (es_name ?e) @ (vs @ tail)" by (simp add: elf_image_def pre_def u(1))
  have "unat ?p = length (pre @ xs)" "length (pre @ xs) + 24 < 2 ^ 64" using p pre x(2) b assms(2) by simp_all
  note ld = sym_loads [OF this, of "of_nat (name_pos es i)" ?e "ys @ strtab_bytes es @ tail", folded m1]
  have np: "name_pos es i < length (strtab_bytes es)" using u by (simp add: name_bytes_def)
  then have "unat (of_nat (name_pos es i) :: u32) = name_pos es i" using b by (intro unat_of_nat32) simp
  then have "unat (of_nat (256 + 24 * length es) + ucast (of_nat (name_pos es i) :: u32) :: u64) = 256 + 24 * length es + name_pos es i"
    using np b by (simp only: unat_word_ariths unsigned_ucast_eq unat_of_nat) (simp add: take_bit_nat_eq_self unat_of_nat)
  then have "drop (unat (of_nat (256 + 24 * length es) + ucast (of_nat (name_pos es i) :: u32) :: u64)) ?m = name_bytes (es_name ?e) @ (vs @ tail)"
    unfolding m2 using pre u(2) by simp
  then have n: "named_symbol ?m (of_nat (256 + 24 * length es) + ucast (of_nat (name_pos es i) :: u32)) bias (es_value ?e) =
      Some (if es_name ?e = [] then None else Some (entry_of bias ?e))"
    using assms by (subst named_symbol_ok) (auto simp: image_ok_def entry_of_def)
  show ?thesis using ld n by (simp add: symbol_at_def Let_def usable_def)
qed

section \<open>The readers on a written image\<close>

lemma push_symbols_ok: "\<forall>i \<in> set is. f i = Some (h i) \<Longrightarrow> push_symbols f is g = Some (g @ List.map_filter h is)"
proof (induction "is" arbitrary: g)
  case (Cons i "is")
  then show ?case by (cases "h i") (simp_all add: List.map_filter_simps)
qed (simp add: List.map_filter_simps)

lemma map_filter_usable: "List.map_filter (\<lambda>e. if usable e then Some (entry_of bias e) else None) es = image_symbols bias es"
  by (induction es) (simp_all add: List.map_filter_simps image_symbols_def)

lemma map_filter_nth: "List.map_filter (\<lambda>i. k (xs ! i)) [0..<length xs] = List.map_filter k xs"
proof -
  have "List.map_filter k (map ((!) xs) [0..<length xs]) = List.map_filter (\<lambda>i. k (xs ! i)) [0..<length xs]"
    by (simp add: List.map_filter_def comp_def filter_map)
  then show ?thesis by (simp only: map_nth)
qed

lemma symbols_ok:
  assumes "image_ok es"
  shows "push_symbols (symbol_at (elf_image es @ tail) 256 (of_nat (256 + 24 * length es)) bias) [0..<length es] g = Some (g @ image_symbols bias es)"
  using push_symbols_ok [of "[0..<length es]" "symbol_at (elf_image es @ tail) 256 (of_nat (256 + 24 * length es)) bias"
      "\<lambda>i. if usable (es ! i) then Some (entry_of bias (es ! i)) else None"] symbol_at_ok [OF assms]
    map_filter_nth [of "\<lambda>e. if usable e then Some (entry_of bias e) else None" es] map_filter_usable [of bias es]
  by simp

lemma section_loads:
  assumes "image_ok es"
  shows "sh_type (elf_image es @ tail) 64 = Some 0" "sh_type (elf_image es @ tail) 128 = Some SHT_SYMTAB" "sh_link (elf_image es @ tail) 128 = Some 2"
    "sh_offset (elf_image es @ tail) 128 = Some 256" "sh_size (elf_image es @ tail) 128 = Some (of_nat (24 * length es))"
    "sh_entsize (elf_image es @ tail) 128 = Some 24" "sh_offset (elf_image es @ tail) 192 = Some (of_nat (256 + 24 * length es))"
    "sh_size (elf_image es @ tail) 192 = Some (of_nat (length (strtab_bytes es)))"
proof -
  show "sh_type (elf_image es @ tail) 64 = Some 0"
    using shdr_loads(2) [of 64 ehdr_bytes null_section] by (simp add: elf_image_def null_section_def)
  note 1 = shdr_loads [of 128 "ehdr_bytes @ shdr_bytes null_section" "symtab_section es" "shdr_bytes (strtab_section es) @ symtab_bytes es @ strtab_bytes es @ tail"]
  show "sh_type (elf_image es @ tail) 128 = Some SHT_SYMTAB" "sh_link (elf_image es @ tail) 128 = Some 2"
    "sh_offset (elf_image es @ tail) 128 = Some 256" "sh_size (elf_image es @ tail) 128 = Some (of_nat (24 * length es))"
    "sh_entsize (elf_image es @ tail) 128 = Some 24"
    using 1 by (simp_all add: elf_image_def symtab_section_def)
  note 2 = shdr_loads [of 192 "ehdr_bytes @ shdr_bytes null_section @ shdr_bytes (symtab_section es)" "strtab_section es" "symtab_bytes es @ strtab_bytes es @ tail"]
  show "sh_offset (elf_image es @ tail) 192 = Some (of_nat (256 + 24 * length es))"
    "sh_size (elf_image es @ tail) 192 = Some (of_nat (length (strtab_bytes es)))"
    using 2 by (simp_all add: elf_image_def strtab_section_def)
qed

lemma ehdr_loads:
  "e_shoff (ehdr_bytes @ rest) = Some 64" "e_shnum (ehdr_bytes @ rest) = Some 3" "e_shentsize (ehdr_bytes @ rest) = Some 64"
proof -
  show "e_shoff (ehdr_bytes @ rest) = Some 64"
    using ld_field(4) [of 40 "ELFMAG @ replicate 28 0 @ le64 0" 64 "replicate 6 0 @ st16 0 @ st16 0 @ st16 64 @ st16 3 @ st16 0 @ rest"]
    by (simp add: e_shoff_def ehdr_bytes_def ELFMAG_def)
  show "e_shentsize (ehdr_bytes @ rest) = Some 64"
    using ld_field(2) [of 58 "ELFMAG @ replicate 28 0 @ le64 0 @ le64 64 @ replicate 6 0 @ st16 0 @ st16 0" 64 "st16 3 @ st16 0 @ rest"]
    by (simp add: e_shentsize_def ehdr_bytes_def ELFMAG_def)
  show "e_shnum (ehdr_bytes @ rest) = Some 3"
    using ld_field(2) [of 60 "ELFMAG @ replicate 28 0 @ le64 0 @ le64 64 @ replicate 6 0 @ st16 0 @ st16 0 @ st16 64" 3 "st16 0 @ rest"]
    by (simp add: e_shnum_def ehdr_bytes_def ELFMAG_def)
qed

lemma header_loads:
  "e_shoff (elf_image es @ tail) = Some 64" "e_shnum (elf_image es @ tail) = Some 3" "e_shentsize (elf_image es @ tail) = Some 64"
  by (simp_all add: elf_image_def ehdr_loads)

lemma find_symtab: "image_ok es \<Longrightarrow> find_shdr (elf_image es @ tail) 64 3 SHT_SYMTAB = Some (Some 1)"
proof -
  assume ok: "image_ok es"
  have "[0..<unat (3::u16)] = [0, 1, 2]" by (simp add: upt_conv_Cons)
  then show ?thesis using section_loads(1,2) [OF ok] by (simp add: find_shdr_def shdr_at_def SHT_SYMTAB_def)
qed

lemma parse_table_ok:
  assumes "image_ok es"
  shows "parse_table (elf_image es @ tail) 128 192 bias g = Some (g @ image_symbols bias es \<noteq> [], g @ image_symbols bias es)"
proof -
  have "24 * length es < 2 ^ 32" using assms by (simp add: image_ok_def length_elf_image)
  then have "unat (of_nat (24 * length es) div 24 :: u64) = length es" by (simp add: unat_div_distrib unat_of_nat64 del: of_nat_mult)
  then show ?thesis using section_loads [OF assms] symbols_ok [OF assms] by (simp add: parse_table_def del: of_nat_mult of_nat_add)
qed

lemma parse_sections_ok:
  assumes "image_ok es"
  shows "ParseSymtabFromSections (elf_image es @ tail) bias req g = Some (g @ image_symbols bias es \<noteq> [], g @ image_symbols bias es)"
proof -
  have "parse_sections (elf_image es @ tail) 64 3 bias (SHT_SYMTAB # ts) g = Some (g @ image_symbols bias es \<noteq> [], g @ image_symbols bias es)" for ts
    using find_symtab [OF assms] section_loads(3) [OF assms] parse_table_ok [OF assms] by (simp add: shdr_at_def)
  then show ?thesis by (simp add: ParseSymtabFromSections_def header_loads del: parse_sections.simps)
qed

lemma parse_memory_ok:
  assumes "image_ok es"
  shows "ParseSymtabFromMemory (elf_image es) (of_nat (length (elf_image es))) bias g =
    Some (g @ image_symbols bias es \<noteq> [], g @ image_symbols bias es)"
proof -
  let ?n = "of_nat (length (elf_image es)) :: u64"
  have b: "256 + 24 * length es + length (strtab_bytes es) < 2 ^ 32" using assms by (simp add: image_ok_def length_elf_image)
  then have n: "unat ?n = 256 + 24 * length es + length (strtab_bytes es)" by (subst unat_of_nat64) (simp_all add: length_elf_image)
  have le: "of_nat k \<le> ?n" if "k \<le> 256 + 24 * length es + length (strtab_bytes es)" for k
    using that b n unat_of_nat64 [of k] by (simp add: word_le_nat_alt)
  have "headers_fit (elf_image es) ?n = Some True"
    using header_loads [of es "[]"] le [of 256] by (simp add: headers_fit_def)
  moreover have "section_fits (elf_image es) 128 ?n = Some True"
    using section_loads [OF assms, of "[]"] le [of "256 + 24 * length es"] by (simp add: section_fits_def)
  moreover have "section_fits (elf_image es) 192 ?n = Some True"
    using section_loads [OF assms, of "[]"] le [of "256 + 24 * length es + length (strtab_bytes es)"] by (simp add: section_fits_def)
  ultimately show ?thesis
    using header_loads [of es "[]"] find_symtab [OF assms, of "[]"] section_loads [OF assms, of "[]"] parse_table_ok [OF assms, of "[]"]
    by (simp add: ParseSymtabFromMemory_def shdr_at_def)
qed

text \<open>Claim C16 (the symbol table is read back): on an image written from a list of symbols, both readers append
  to the global list exactly the symbols that are defined, of a supported type and named, in order and shifted by the load
  bias. The section reader takes the image with anything after it, the memory reader with its exact size.\<close>

theorem parse_symtab_roundtrip:
  assumes "image_ok es"
  shows "ParseSymtabFromSections (elf_image es @ tail) bias req g = Some (g @ image_symbols bias es \<noteq> [], g @ image_symbols bias es) \<and>
    ParseSymtabFromMemory (elf_image es) (of_nat (length (elf_image es))) bias g = Some (g @ image_symbols bias es \<noteq> [], g @ image_symbols bias es)"
  using parse_sections_ok [OF assms] parse_memory_ok [OF assms] by simp

definition demo_symbols :: "elf_symbol list" where
  "demo_symbols = [\<lparr>es_name = ''_ZN3art3fooEv'', es_info = 0x12, es_shndx = 1, es_value = 0x1000\<rparr>, \<lparr>es_name = ''bar'', es_info = 0x12, es_shndx = 0, es_value = 0x2000\<rparr>]"

lemma demo_image: "image_ok demo_symbols" "image_symbols 0x7000 demo_symbols = [\<lparr>sym_name = ''_ZN3art3fooEv'', sym_addr = 0x8000\<rparr>]"
  by (simp_all add: image_ok_def length_elf_image demo_symbols_def strtab_bytes_def name_bytes_def image_symbols_def usable_def entry_of_def)

theorem parse_symtab_roundtrip_witness:
  "ParseSymtabFromMemory (elf_image demo_symbols) (of_nat (length (elf_image demo_symbols))) 0x7000 [] =
    Some (True, [\<lparr>sym_name = ''_ZN3art3fooEv'', sym_addr = 0x8000\<rparr>])"
  using parse_symtab_roundtrip [OF demo_image(1), of "[]" "0x7000" True "[]"] demo_image(2) by simp

lemma try_load_ok:
  assumes "image_ok es" "image_symbols bias es \<noteq> []"
  shows "TryLoadFromFile page a (Some (elf_image es)) bias g = Some (True, g @ image_symbols bias es)"
proof -
  have "is_elf (elf_image es @ tail) = Some True" for tail by (simp add: is_elf_def elf_image_def ehdr_bytes_def ELFMAG_def)
  moreover have "elf_image es \<noteq> []" using length_elf_image [of es] by auto
  ultimately show ?thesis using parse_sections_ok [OF assms(1)] assms(2) header_loads
    by (simp add: TryLoadFromFile_def map_file_def load_symbols_def)
qed

section \<open>From the memory map to an address\<close>

lemma find_image_symbol:
  assumes "distinct (map es_name (filter usable es))" "e \<in> set es" "usable e"
  shows "find (\<lambda>x. sym_name x = es_name e) (image_symbols bias es) = Some (entry_of bias e)"
proof -
  have "find (\<lambda>x. sym_name x = es_name e) (map (entry_of bias) xs) = Some (entry_of bias e)" if "distinct (map es_name xs)" "e \<in> set xs" for xs
    using that by (induction xs) (auto simp: entry_of_def)
  then show ?thesis using assms by (simp add: image_symbols_def)
qed


text \<open>The written image has no program headers: its load bias is its address.\<close>

lemma image_load_bias: "ComputeLoadBias (elf_image es) base = Some base"
proof -
  have "e_phnum (elf_image es) = Some 0"
    using ld_field(2) [of 56 "ELFMAG @ replicate 28 0 @ le64 0 @ le64 64 @ replicate 6 0 @ st16 0" 0]
    by (simp add: e_phnum_def elf_image_def ehdr_bytes_def ELFMAG_def)
  then show ?thesis by (simp add: ComputeLoadBias_def)
qed

definition demo_platform :: platform where
  "demo_platform = \<lparr>pf_maps = Some (concat (map print_line [demo_line])), pf_memory = (\<lambda>_. elf_image demo_symbols),
     pf_file = (\<lambda>_. Some (elf_image demo_symbols)), pf_page = 4096,
     pf_alloc = (\<lambda>_. \<lparr>da_query = demo_allocator, da_buf = (\<lambda>_. None), da_decode = demo_allocator\<rparr>)\<rparr>"


section \<open>What the checks leave out\<close>


text \<open>A GNU hash table of a 64-bit image with one bucket, whose symbols start at 1: one 64-bit word of Bloom filter, the bucket, and a chain of one.\<close>

definition gnu_table :: "u8 list" where
  "gnu_table = le32 1 @ le32 1 @ le32 1 @ le32 6 @ le64 0x21 @ le32 1 @ le32 0x1235"


end
