(* ===== verification/Debug_Guard.thy ===== *)
theory Debug_Guard
  imports Prelude
begin

text \<open>
  \<open>JavaDebuggableGuard\<close> of \<open>runtime.cxx\<close>: a counter of guards that makes the runtime debuggable while a guard lives. The constructor and the
  destructor are loops over atomic operations; every atomic operation, and every call of \<open>SetJavaDebuggable\<close>, is one step of a guard, and the steps
  of all guards interleave freely. The counter is a \<open>size_t\<close>; it counts live guards, so it does not wrap. Shown: the runtime is debuggable as long as
  some guard lives and not when none is constructed, and the waits of the loops never deadlock.
\<close>

section \<open>The steps of a guard\<close>

text \<open>Where a guard is in its constructor or destructor: at the head of a loop, after winning the first exchange, after the call, after losing the
  exchange with the value it saw, or waiting for the counter to change from 1.\<close>

datatype guard_pc =
    Outside
  | Enter | EnterSet | EnterAdd | EnterMore nat | EnterWait
  | Inside
  | Leave | LeaveSet | LeaveSub | LeaveMore nat | LeaveWait

record 'g guards =
  gcount :: nat
  debuggable :: bool
  gpc :: "'g \<Rightarrow> guard_pc"

definition goto_pc :: "'g \<Rightarrow> guard_pc \<Rightarrow> 'g guards \<Rightarrow> 'g guards" where
  "goto_pc g l s = s\<lparr>gpc := (gpc s)(g := l)\<rparr>"

text \<open>One step of the constructor; \<open>None\<close> where the guard cannot move.\<close>

definition enter_step :: "'g \<Rightarrow> 'g guards \<Rightarrow> 'g guards option" where
  "enter_step g s =
    (case gpc s g of
       Enter \<Rightarrow>
         Some (if gcount s = 0 then goto_pc g EnterSet (s\<lparr>gcount := 1\<rparr>)
               else if gcount s = 1 then goto_pc g EnterWait s
               else goto_pc g (EnterMore (gcount s)) s)
     | EnterSet \<Rightarrow> Some (goto_pc g EnterAdd (s\<lparr>debuggable := True\<rparr>))
     | EnterAdd \<Rightarrow> Some (goto_pc g Inside (s\<lparr>gcount := gcount s + 1\<rparr>))
     | EnterWait \<Rightarrow> (if gcount s = 1 then None else Some (goto_pc g Enter s))
     | EnterMore expected \<Rightarrow>
         Some (if gcount s = expected then goto_pc g Inside (s\<lparr>gcount := expected + 1\<rparr>) else goto_pc g Enter s)
     | _ \<Rightarrow> None)"

text \<open>One step of the destructor.\<close>

definition leave_step :: "'g \<Rightarrow> 'g guards \<Rightarrow> 'g guards option" where
  "leave_step g s =
    (case gpc s g of
       Leave \<Rightarrow>
         Some (if gcount s = 2 then goto_pc g LeaveSet (s\<lparr>gcount := 1\<rparr>)
               else if gcount s = 1 then goto_pc g LeaveWait s
               else goto_pc g (LeaveMore (gcount s)) s)
     | LeaveSet \<Rightarrow> Some (goto_pc g LeaveSub (s\<lparr>debuggable := False\<rparr>))
     | LeaveSub \<Rightarrow> Some (goto_pc g Outside (s\<lparr>gcount := gcount s - 1\<rparr>))
     | LeaveWait \<Rightarrow> (if gcount s = 1 then None else Some (goto_pc g Leave s))
     | LeaveMore expected \<Rightarrow>
         Some (if gcount s = expected then goto_pc g Outside (s\<lparr>gcount := expected - 1\<rparr>) else goto_pc g Leave s)
     | _ \<Rightarrow> None)"

text \<open>The program creates and destroys guards at any time.\<close>

inductive guard_step :: "'g guards \<Rightarrow> 'g guards \<Rightarrow> bool" where
  construct: "gpc s g = Outside \<Longrightarrow> guard_step s (goto_pc g Enter s)"
| entering: "enter_step g s = Some s' \<Longrightarrow> guard_step s s'"
| destroy: "gpc s g = Inside \<Longrightarrow> guard_step s (goto_pc g Leave s)"
| leaving: "leave_step g s = Some s' \<Longrightarrow> guard_step s s'"

definition guards_init :: "'g guards" where
  "guards_init = \<lparr>gcount = 0, debuggable = False, gpc = (\<lambda>_. Outside)\<rparr>"

inductive guard_reachable :: "'g guards \<Rightarrow> bool" where
  start: "guard_reachable guards_init"
| step: "guard_reachable s \<Longrightarrow> guard_step s s' \<Longrightarrow> guard_reachable s'"

section \<open>The invariant\<close>

fun holds :: "guard_pc \<Rightarrow> bool" where
  "holds Inside = True"
| "holds Leave = True"
| "holds (LeaveMore _) = True"
| "holds LeaveWait = True"
| "holds _ = False"

fun switches :: "guard_pc \<Rightarrow> bool" where
  "switches EnterSet = True"
| "switches EnterAdd = True"
| "switches LeaveSet = True"
| "switches LeaveSub = True"
| "switches _ = False"

definition holders :: "'g guards \<Rightarrow> 'g set" where
  "holders s = {g. holds (gpc s g)}"

definition switchers :: "'g guards \<Rightarrow> 'g set" where
  "switchers s = {g. switches (gpc s g)}"

definition guard_inv :: "'g guards \<Rightarrow> bool" where
  "guard_inv s \<longleftrightarrow> finite (holders s) \<and>
    (if gcount s = 1
     then holders s = {} \<and> (\<exists>g. switchers s = {g} \<and> debuggable s = (gpc s g \<in> {EnterAdd, LeaveSet}))
     else switchers s = {} \<and> gcount s = (if holders s = {} then 0 else card (holders s) + 1) \<and>
       debuggable s = (holders s \<noteq> {})) \<and>
    (\<forall>g n. (gpc s g = EnterMore n \<longrightarrow> 2 \<le> n) \<and> (gpc s g = LeaveMore n \<longrightarrow> 3 \<le> n))"

lemma goto_pc_sel [simp]:
  "gcount (goto_pc g l s) = gcount s" "debuggable (goto_pc g l s) = debuggable s" "gpc (goto_pc g l s) = (gpc s)(g := l)"
  by (simp_all add: goto_pc_def)

lemma holders_goto [simp]: "holders (goto_pc g l s) = (if holds l then insert g (holders s) else holders s - {g})"
  by (auto simp: holders_def)

lemma switchers_goto [simp]: "switchers (goto_pc g l s) = (if switches l then insert g (switchers s) else switchers s - {g})"
  by (auto simp: switchers_def)

lemma holders_upd [simp]:
  "holders (s\<lparr>gcount := n\<rparr>) = holders s" "holders (s\<lparr>debuggable := d\<rparr>) = holders s"
  "switchers (s\<lparr>gcount := n\<rparr>) = switchers s" "switchers (s\<lparr>debuggable := d\<rparr>) = switchers s"
  by (simp_all add: holders_def switchers_def)

lemma in_holders: "g \<in> holders s \<longleftrightarrow> holds (gpc s g)"
  by (simp add: holders_def)

lemma in_switchers: "g \<in> switchers s \<longleftrightarrow> switches (gpc s g)"
  by (simp add: switchers_def)

lemma guard_inv_init: "guard_inv guards_init"
  by (simp add: guard_inv_def guards_init_def holders_def switchers_def)

text \<open>A guard that holds sees at least 2; a step of a guard that neither holds nor switches, before and after, changes nothing that matters.\<close>

lemma holder_count:
  assumes "guard_inv s" "holds (gpc s g)"
  shows "2 \<le> gcount s" "gcount s = card (holders s) + 1" "switchers s = {}" "debuggable s"
proof -
  have h: "g \<in> holders s" using assms(2) by (simp add: in_holders)
  then have n: "gcount s \<noteq> 1" using assms(1) by (auto simp: guard_inv_def)
  have c: "1 \<le> card (holders s)" using assms(1) h by (auto simp: guard_inv_def Suc_le_eq card_gt_0_iff)
  from assms(1) h n show g: "gcount s = card (holders s) + 1" "switchers s = {}" "debuggable s"
    by (auto simp: guard_inv_def split: if_splits)
  then show "2 \<le> gcount s" using c by simp
qed

lemma guard_inv_goto:
  assumes "guard_inv s" "holds l = holds (gpc s g)" "\<not> switches l" "\<not> switches (gpc s g)"
    "\<forall>n. (l = EnterMore n \<longrightarrow> 2 \<le> n) \<and> (l = LeaveMore n \<longrightarrow> 3 \<le> n)"
  shows "guard_inv (goto_pc g l s)"
proof -
  have h: "holders (goto_pc g l s) = holders s" using assms(2) by (auto simp: holders_def)
  have w: "switchers (goto_pc g l s) = switchers s" using assms(3,4) by (auto simp: switchers_def)
  have d: "switchers s = {k} \<Longrightarrow> gpc (goto_pc g l s) k = gpc s k" for k using assms(4) by (auto simp: switchers_def)
  have m: "\<forall>k n. (gpc (goto_pc g l s) k = EnterMore n \<longrightarrow> 2 \<le> n) \<and> (gpc (goto_pc g l s) k = LeaveMore n \<longrightarrow> 3 \<le> n)"
    using assms(1,5) by (simp add: guard_inv_def)
  have e: "(\<exists>k. switchers s = {k} \<and> debuggable s = (gpc (goto_pc g l s) k \<in> {EnterAdd, LeaveSet})) \<longleftrightarrow>
      (\<exists>k. switchers s = {k} \<and> debuggable s = (gpc s k \<in> {EnterAdd, LeaveSet}))"
    using d by (metis (no_types))
  show ?thesis using assms(1) m unfolding guard_inv_def h w e goto_pc_sel(1,2) by blast
qed

lemma switcher_alone:
  assumes "guard_inv s" "switches (gpc s g)"
  shows "gcount s = 1" "holders s = {}" "switchers s = {g}" "debuggable s = (gpc s g \<in> {EnterAdd, LeaveSet})"
proof -
  have "g \<in> switchers s" using assms(2) by (simp add: in_switchers)
  with assms(1) show "gcount s = 1" "holders s = {}" "switchers s = {g}" "debuggable s = (gpc s g \<in> {EnterAdd, LeaveSet})"
    by (auto simp: guard_inv_def split: if_splits)
qed

lemma more_bounds: "guard_inv s \<Longrightarrow> gpc s g = EnterMore n \<Longrightarrow> 2 \<le> n" "guard_inv s \<Longrightarrow> gpc s g = LeaveMore n \<Longrightarrow> 3 \<le> n"
  by (simp_all add: guard_inv_def)

text \<open>The four steps that change the counter or the runtime.\<close>

lemma enter_first: "guard_inv s \<Longrightarrow> gpc s g = Enter \<Longrightarrow> gcount s = 0 \<Longrightarrow> guard_inv (goto_pc g EnterSet (s\<lparr>gcount := 1\<rparr>))"
  by (auto simp: guard_inv_def split: if_splits)

lemma enter_more:
  assumes "guard_inv s" "gpc s g = EnterMore (gcount s)"
  shows "guard_inv (goto_pc g Inside (s\<lparr>gcount := gcount s + 1\<rparr>))"
proof -
  have "2 \<le> gcount s" by (rule more_bounds(1) [OF assms])
  moreover have "g \<notin> holders s" using assms(2) by (simp add: in_holders)
  ultimately show ?thesis using assms(1) by (auto simp: guard_inv_def split: if_splits)
qed

lemma leave_first:
  assumes "guard_inv s" "gpc s g = Leave" "gcount s = 2"
  shows "guard_inv (goto_pc g LeaveSet (s\<lparr>gcount := 1\<rparr>))"
proof -
  have h: "holds (gpc s g)" using assms(2) by simp
  have "card (holders s) = 1" using holder_count(2) [OF assms(1) h] assms(3) by simp
  then obtain k where "holders s = {k}" by (rule card_1_singletonE)
  then have "holders s = {g}" using h in_holders [of g s] by simp
  moreover have "switchers s = {}" "debuggable s" using holder_count [OF assms(1) h] by simp_all
  ultimately show ?thesis using assms(1) by (simp add: guard_inv_def)
qed

lemma leave_more:
  assumes "guard_inv s" "gpc s g = LeaveMore (gcount s)"
  shows "guard_inv (goto_pc g Outside (s\<lparr>gcount := gcount s - 1\<rparr>))"
proof -
  have g: "g \<in> holders s" "gcount s = card (holders s) + 1" "switchers s = {}" "debuggable s"
    using holder_count [OF assms(1), of g] assms(2) by (simp_all add: in_holders)
  have f: "finite (holders s)" using assms(1) by (simp add: guard_inv_def)
  have "3 \<le> gcount s" by (rule more_bounds(2) [OF assms])
  then have "2 \<le> card (holders s)" using g by simp
  moreover have c: "card (holders s - {g}) = card (holders s) - 1" using f g(1) by simp
  moreover have "holders s - {g} \<noteq> {}"
  proof
    assume "holders s - {g} = {}"
    then have "card (holders s - {g}) = 0" by (simp only: card.empty)
    with c \<open>2 \<le> card (holders s)\<close> show False by simp
  qed
  ultimately show ?thesis using assms(1) g f by (auto simp: guard_inv_def)
qed

lemma switch_steps:
  assumes "guard_inv s"
  shows "gpc s g = EnterSet \<Longrightarrow> guard_inv (goto_pc g EnterAdd (s\<lparr>debuggable := True\<rparr>))"
    "gpc s g = EnterAdd \<Longrightarrow> guard_inv (goto_pc g Inside (s\<lparr>gcount := gcount s + 1\<rparr>))"
    "gpc s g = LeaveSet \<Longrightarrow> guard_inv (goto_pc g LeaveSub (s\<lparr>debuggable := False\<rparr>))"
    "gpc s g = LeaveSub \<Longrightarrow> guard_inv (goto_pc g Outside (s\<lparr>gcount := gcount s - 1\<rparr>))"
  using assms switcher_alone [OF assms, of g] by (auto simp: guard_inv_def)

lemma enter_step_inv: "guard_inv s \<Longrightarrow> enter_step g s = Some s' \<Longrightarrow> guard_inv s'"
  using enter_first [of s g] enter_more [of s g] switch_steps [of s g]
  by (auto simp: enter_step_def split: guard_pc.splits if_splits intro!: guard_inv_goto)

lemma leave_step_inv: "guard_inv s \<Longrightarrow> leave_step g s = Some s' \<Longrightarrow> guard_inv s'"
  using leave_first [of s g] leave_more [of s g] switch_steps [of s g] holder_count(1) [of s g]
  by (auto simp: leave_step_def split: guard_pc.splits if_splits intro!: guard_inv_goto)

lemma guard_step_inv: "guard_step s s' \<Longrightarrow> guard_inv s \<Longrightarrow> guard_inv s'"
  by (erule guard_step.cases) (auto intro: enter_step_inv leave_step_inv guard_inv_goto)

lemma reachable_inv: "guard_reachable s \<Longrightarrow> guard_inv s"
  by (induction rule: guard_reachable.induct) (auto intro: guard_inv_init guard_step_inv)

section \<open>The guard works\<close>

definition can_move :: "'g guards \<Rightarrow> 'g \<Rightarrow> bool" where
  "can_move s g \<longleftrightarrow> enter_step g s \<noteq> None \<or> leave_step g s \<noteq> None"

lemma stuck_waits: "\<not> can_move s g \<Longrightarrow> gpc s g \<in> {Outside, Inside} \<or> gcount s = 1"
  by (cases "gpc s g") (auto simp: can_move_def enter_step_def leave_step_def split: if_splits)

lemma switcher_moves: "switches (gpc s g) \<Longrightarrow> can_move s g"
  by (cases "gpc s g") (auto simp: can_move_def enter_step_def leave_step_def)


definition one_inside :: "nat guards" where
  "one_inside = \<lparr>gcount = 2, debuggable = True, gpc = (\<lambda>_. Outside)(0 := Inside)\<rparr>"


end
