(* ===== verification/Java_Hook.thy ===== *)
theory Java_Hook
  imports Prelude "HOL-Library.Multiset"
begin

text \<open>
  The callback side of the Java API: \<open>MethodHook.java\<close>, \<open>MethodReplacement.java\<close> and, of \<open>HookBridge.java\<close>, \<open>HookEntry\<close> and
  \<open>CopyOnWriteSortedSet\<close>. Objects are references; a callback maps the state of the program and the parameter object to new ones and may end by throwing.
  The reflective call of the original method is a parameter. Shown: the two loops of \<open>dispatch\<close> run the callbacks as nested layers around the original
  method, callbacks that throw do not disturb the call, the declared return type is kept, and the callbacks of an entry are distinct and ordered by
  priority.
\<close>

section \<open>Objects\<close>

datatype jvalue = JNull | JRef nat

datatype throwable =
    Thrown nat
  | NullPointerException
  | IllegalArgumentException
  | IllegalStateException
  | ClassCastException
  | ArrayIndexOutOfBoundsException

datatype member_kind = MethodMember | ConstructorMember | OtherMember

text \<open>A \<open>Member\<close>; \<open>m_return\<close> tells the instances of a reference return type and is \<open>None\<close> for a primitive one.\<close>

record member =
  m_id :: nat
  m_kind :: member_kind
  m_abstract :: bool
  m_static :: bool
  m_return :: "(nat \<Rightarrow> bool) option"

record HookParam =
  p_method :: nat
  thisObject :: jvalue
  p_args :: "jvalue list"
  p_result :: jvalue
  p_throwable :: "throwable option"
  returnEarly :: bool

definition setResult :: "jvalue \<Rightarrow> HookParam \<Rightarrow> HookParam" where
  "setResult r p = p\<lparr>p_result := r, p_throwable := None, returnEarly := True\<rparr>"

definition setThrowable :: "throwable option \<Rightarrow> HookParam \<Rightarrow> HookParam" where
  "setThrowable t p = p\<lparr>p_throwable := t, p_result := JNull, returnEarly := True\<rparr>"

definition getResultOrThrowable :: "HookParam \<Rightarrow> throwable + jvalue" where
  "getResultOrThrowable p = (case p_throwable p of Some t \<Rightarrow> Inl t | None \<Rightarrow> Inr (p_result p))"

text \<open>A call of \<open>before\<close> or \<open>after\<close>: what it throws, if it does, and the state and the parameter object it leaves.\<close>

type_synonym 'w callback = "'w \<Rightarrow> HookParam \<Rightarrow> throwable option \<times> 'w \<times> HookParam"

record 'w MethodHook =
  mh_id :: nat
  priority :: int
  identityHash :: int
  before :: "'w callback"
  after :: "'w callback"

definition PRIORITY_DEFAULT :: int where "PRIORITY_DEFAULT = 50"
definition PRIORITY_HIGHEST :: int where "PRIORITY_HIGHEST = 10000"
definition PRIORITY_LOWEST :: int where "PRIORITY_LOWEST = - 10000"

text \<open>The \<open>int\<close> of Java: 32 bits, wrapping.\<close>

definition int32 :: "int \<Rightarrow> int" where
  "int32 x = (x + 2 ^ 31) mod 2 ^ 32 - 2 ^ 31"

definition integer_compare :: "int \<Rightarrow> int \<Rightarrow> int" where
  "integer_compare x y = (if x < y then - 1 else if x = y then 0 else 1)"

definition compareTo :: "'w MethodHook \<Rightarrow> 'w MethodHook \<Rightarrow> int" where
  "compareTo this other =
    (if mh_id this = mh_id other then 0
     else if priority other \<noteq> priority this then int32 (priority other - priority this)
     else integer_compare (identityHash this) (identityHash other))"

text \<open>\<open>MethodReplacement\<close>: the replacement runs as \<open>before\<close>, and \<open>after\<close> does nothing.\<close>

definition replacement_before :: "('w \<Rightarrow> HookParam \<Rightarrow> (throwable + jvalue) \<times> 'w \<times> HookParam) \<Rightarrow> 'w callback" where
  "replacement_before replace w p =
    (case replace w p of
       (Inr result, w, p) \<Rightarrow> (None, w, setResult result p)
     | (Inl t, w, p) \<Rightarrow> (None, w, setThrowable (Some t) p))"

definition replacement_after :: "'w callback" where
  "replacement_after w p = (None, w, p)"

definition returnConstant :: "nat \<Rightarrow> int \<Rightarrow> int \<Rightarrow> jvalue \<Rightarrow> 'w MethodHook" where
  "returnConstant i h prio v =
    \<lparr>mh_id = i, priority = prio, identityHash = h, before = replacement_before (\<lambda>w p. (Inr v, w, p)), after = replacement_after\<rparr>"

definition DO_NOTHING :: "nat \<Rightarrow> int \<Rightarrow> 'w MethodHook" where
  "DO_NOTHING i h = returnConstant i h (PRIORITY_HIGHEST * 2) JNull"

section \<open>The callbacks of an entry\<close>

text \<open>\<open>Arrays.sort\<close> sorts stably by \<open>compareTo\<close>. Where \<open>compareTo\<close> is an order this determines the result; an insertion sort computes it.\<close>

fun sort_insert :: "'w MethodHook \<Rightarrow> 'w MethodHook list \<Rightarrow> 'w MethodHook list" where
  "sort_insert x [] = [x]"
| "sort_insert x (y # ys) = (if compareTo x y < 0 then x # y # ys else y # sort_insert x ys)"

definition arrays_sort :: "'w MethodHook list \<Rightarrow> 'w MethodHook list" where
  "arrays_sort xs = fold sort_insert xs []"

definition cow_add :: "'w MethodHook \<Rightarrow> 'w MethodHook list \<Rightarrow> bool \<times> 'w MethodHook list" where
  "cow_add e elements =
    (if \<exists>x \<in> set elements. mh_id e = mh_id x then (False, elements) else (True, arrays_sort (elements @ [e])))"

fun cow_remove :: "'w MethodHook \<Rightarrow> 'w MethodHook list \<Rightarrow> bool \<times> 'w MethodHook list" where
  "cow_remove e [] = (False, [])"
| "cow_remove e (x # xs) = (if mh_id e = mh_id x then (True, xs) else map_prod id (Cons x) (cow_remove e xs))"

section \<open>Dispatch\<close>

text \<open>The reflective call of a member: a result, an exception of the method wrapped in \<open>InvocationTargetException\<close>, or another exception of the
  call, which \<open>dispatch\<close> does not catch. The field \<open>backup\<close> is null until \<open>hookMethod\<close> sets it; the call of a null member faults.\<close>

datatype invocation = Returned jvalue | TargetThrew "throwable option" | InvokeFailed throwable

type_synonym 'w original = "'w \<Rightarrow> jvalue \<Rightarrow> jvalue list \<Rightarrow> invocation \<times> 'w"

record 'w JHookEntry =
  he_member :: member
  he_backup :: "'w original option"
  callbacks :: "'w MethodHook list"

definition he_isStatic :: "'w JHookEntry \<Rightarrow> bool" where
  "he_isStatic e = m_static (he_member e)"

definition he_returnType :: "'w JHookEntry \<Rightarrow> (nat \<Rightarrow> bool) option" where
  "he_returnType e = (if m_kind (he_member e) = MethodMember then m_return (he_member e) else None)"

definition invokeMember :: "'w original option \<Rightarrow> 'w original" where
  "invokeMember m w this args = (case m of None \<Rightarrow> (InvokeFailed NullPointerException, w) | Some f \<Rightarrow> f w this args)"

text \<open>One round of the first loop: a callback that throws leaves no result and no early return.\<close>

definition run_before :: "'w MethodHook \<Rightarrow> 'w \<Rightarrow> HookParam \<Rightarrow> 'w \<times> HookParam" where
  "run_before h w p =
    (case before h w p of
       (Some t, w, p) \<Rightarrow> (w, (setResult JNull p)\<lparr>returnEarly := False\<rparr>)
     | (None, w, p) \<Rightarrow> (w, p))"

function before_loop :: "'w MethodHook list \<Rightarrow> nat \<Rightarrow> 'w \<Rightarrow> HookParam \<Rightarrow> nat \<times> 'w \<times> HookParam" where
  "before_loop hooks i w p =
    (case run_before (hooks ! i) w p of (w, p) \<Rightarrow>
       if returnEarly p then (i + 1, w, p)
       else if i + 1 < length hooks then before_loop hooks (i + 1) w p
       else (i + 1, w, p))"
  by pat_completeness auto

termination
  by (relation "measure (\<lambda>(hooks, i, w, p). length hooks - i)") auto

declare before_loop.simps [simp del]

text \<open>One round of the second loop: a callback that throws leaves the outcome of the round before.\<close>

definition run_after :: "'w MethodHook \<Rightarrow> 'w \<Rightarrow> HookParam \<Rightarrow> 'w \<times> HookParam" where
  "run_after h w p =
    (let lastResult = p_result p; lastThrowable = p_throwable p
     in case after h w p of
          (Some t, w, p) \<Rightarrow> (w, if lastThrowable = None then setResult lastResult p else setThrowable lastThrowable p)
        | (None, w, p) \<Rightarrow> (w, p))"

fun after_loop :: "'w MethodHook list \<Rightarrow> nat \<Rightarrow> 'w \<Rightarrow> HookParam \<Rightarrow> 'w \<times> HookParam" where
  "after_loop hooks i w p =
    (case run_after (hooks ! i) w p of (w, p) \<Rightarrow> case i of 0 \<Rightarrow> (w, p) | Suc j \<Rightarrow> after_loop hooks j w p)"

declare after_loop.simps [simp del]

text \<open>The original method, unless a callback returned early.\<close>

definition call_original :: "'w original \<Rightarrow> 'w \<Rightarrow> HookParam \<Rightarrow> (throwable + HookParam) \<times> 'w" where
  "call_original backup w p =
    (if returnEarly p then (Inr p, w)
     else
       case backup w (thisObject p) (p_args p) of
         (Returned v, w) \<Rightarrow> (Inr (setResult v p), w)
       | (TargetThrew t, w) \<Rightarrow> (Inr (setThrowable t p), w)
       | (InvokeFailed t, w) \<Rightarrow> (Inl t, w))"

definition make_param :: "'w JHookEntry \<Rightarrow> jvalue list \<Rightarrow> throwable + HookParam" where
  "make_param e args =
    (let p = \<lparr>p_method = m_id (he_member e), thisObject = JNull, p_args = args, p_result = JNull, p_throwable = None, returnEarly = False\<rparr>
     in if he_isStatic e then Inr p
        else case args of [] \<Rightarrow> Inl ArrayIndexOutOfBoundsException | this # args \<Rightarrow> Inr (p\<lparr>thisObject := this, p_args := args\<rparr>))"

definition cast_result :: "'w JHookEntry \<Rightarrow> throwable + jvalue \<Rightarrow> throwable + jvalue" where
  "cast_result e r =
    (case r of
       Inl t \<Rightarrow> Inl t
     | Inr v \<Rightarrow>
         (case (he_returnType e, v) of
            (Some inst, JRef o') \<Rightarrow> if inst o' then Inr v else Inl ClassCastException
          | _ \<Rightarrow> Inr v))"

definition direct_result :: "invocation \<times> 'w \<Rightarrow> (throwable + jvalue) \<times> 'w" where
  "direct_result r =
    (case r of
       (Returned v, w) \<Rightarrow> (Inr v, w)
     | (TargetThrew t, w) \<Rightarrow> (Inl (case t of None \<Rightarrow> NullPointerException | Some t \<Rightarrow> t), w)
     | (InvokeFailed t, w) \<Rightarrow> (Inl t, w))"

definition dispatch :: "'w JHookEntry \<Rightarrow> jvalue list \<Rightarrow> 'w \<Rightarrow> (throwable + jvalue) \<times> 'w" where
  "dispatch e args w =
    (case make_param e args of
       Inl t \<Rightarrow> (Inl t, w)
     | Inr p \<Rightarrow>
         let hooks = callbacks e
         in if hooks = [] then direct_result (invokeMember (he_backup e) w (thisObject p) (p_args p))
            else
              case before_loop hooks 0 w p of (beforeIdx, w, p) \<Rightarrow>
                (case call_original (invokeMember (he_backup e)) w p of
                   (Inl t, w) \<Rightarrow> (Inl t, w)
                 | (Inr p, w) \<Rightarrow>
                     (case after_loop hooks (beforeIdx - 1) w p of (w, p) \<Rightarrow> (cast_result e (getResultOrThrowable p), w))))"

section \<open>Dispatch is nesting\<close>

text \<open>The callbacks as layers around the original method: a layer that returns early replaces what is inside it.\<close>

fun layers :: "'w original \<Rightarrow> 'w MethodHook list \<Rightarrow> 'w \<Rightarrow> HookParam \<Rightarrow> (throwable + HookParam) \<times> 'w" where
  "layers orig [] w p = call_original orig w p"
| "layers orig (h # hs) w p =
    (case run_before h w p of (w, p) \<Rightarrow>
       case (if returnEarly p then (Inr p, w) else layers orig hs w p) of
         (Inl t, w) \<Rightarrow> (Inl t, w)
       | (Inr p, w) \<Rightarrow> (case run_after h w p of (w, p) \<Rightarrow> (Inr p, w)))"

definition unwind :: "'w MethodHook list \<Rightarrow> 'w \<times> HookParam \<Rightarrow> 'w \<times> HookParam" where
  "unwind hs = fold (\<lambda>h (w, p). run_after h w p) (rev hs)"

lemma unwind_simps [simp]: "unwind [] x = x" "unwind (h # hs) x = (case unwind hs x of (w, p) \<Rightarrow> run_after h w p)"
  by (simp_all add: unwind_def)

lemma unwind_snoc: "unwind (hs @ [h]) (w, p) = unwind hs (run_after h w p)"
  by (simp add: unwind_def)

lemma after_loop_unwind: "i < length hooks \<Longrightarrow> after_loop hooks i w p = unwind (take (Suc i) hooks) (w, p)"
proof (induction i arbitrary: w p)
  case 0
  then show ?case by (cases hooks) (simp_all add: after_loop.simps split: prod.splits)
next
  case (Suc i)
  then have "take (Suc (Suc i)) hooks = take (Suc i) hooks @ [hooks ! Suc i]" by (simp add: take_Suc_conv_app_nth)
  then show ?case using Suc by (subst after_loop.simps) (simp add: unwind_snoc split: prod.splits)
qed

lemma call_original_early: "returnEarly p \<Longrightarrow> call_original orig w p = (Inr p, w)"
  by (simp add: call_original_def)

lemma loops_layers:
  "i < length hooks \<Longrightarrow> before_loop hooks i w p = (k, w1, p1) \<Longrightarrow> i < k \<and> k \<le> length hooks \<and>
    layers orig (drop i hooks) w p =
      (case call_original orig w1 p1 of
         (Inl t, w) \<Rightarrow> (Inl t, w)
       | (Inr p, w) \<Rightarrow> (case unwind (take (k - i) (drop i hooks)) (w, p) of (w, p) \<Rightarrow> (Inr p, w)))"
proof (induction hooks i w p rule: before_loop.induct)
  case (1 hooks i w p)
  obtain w' p' where b: "run_before (hooks ! i) w p = (w', p')" by force
  have d: "drop i hooks = hooks ! i # drop (Suc i) hooks" using 1(2) by (simp add: Cons_nth_drop_Suc)
  show ?case
  proof (cases "returnEarly p' \<or> \<not> i + 1 < length hooks")
    case True
    then have k: "k = i + 1" "w1 = w'" "p1 = p'" using 1(3) by (subst (asm) before_loop.simps, simp add: b split: if_splits)+
    have "layers orig (drop (Suc i) hooks) w' p' = call_original orig w' p'" if "\<not> returnEarly p'" using True that by simp
    then show ?thesis using 1(2) k d b call_original_early [of p' orig w'] by (auto split: sum.splits prod.splits)
  next
    case False
    have "before_loop hooks (i + 1) w' p' = (k, w1, p1)" using 1(3) False by (subst (asm) before_loop.simps) (simp add: b)
    then have ih: "i + 1 < k" "k \<le> length hooks" "layers orig (drop (i + 1) hooks) w' p' =
        (case call_original orig w1 p1 of (Inl t, w) \<Rightarrow> (Inl t, w)
         | (Inr p, w) \<Rightarrow> (case unwind (take (k - (i + 1)) (drop (i + 1) hooks)) (w, p) of (w, p) \<Rightarrow> (Inr p, w)))"
      using 1(1) [OF b [symmetric]] False by auto
    have "take (k - i) (drop i hooks) = hooks ! i # take (k - (i + 1)) (drop (i + 1) hooks)" using ih(1) d by (simp add: take_Cons')
    then show ?thesis using ih False d b by (auto split: sum.splits prod.splits)
  qed
qed

lemma layers_dispatch:
  assumes "make_param e args = Inr p" "callbacks e \<noteq> []"
  shows "dispatch e args w =
    (case layers (invokeMember (he_backup e)) (callbacks e) w p of (Inl t, w) \<Rightarrow> (Inl t, w) | (Inr p, w) \<Rightarrow> (cast_result e (getResultOrThrowable p), w))"
proof -
  obtain k w1 p1 where b: "before_loop (callbacks e) 0 w p = (k, w1, p1)" by (metis prod_cases3)
  have n: "0 < length (callbacks e)" using assms(2) by simp
  note l = loops_layers [OF n b, of "invokeMember (he_backup e)"]
  have "after_loop (callbacks e) (k - 1) w2 p2 = unwind (take k (callbacks e)) (w2, p2)" for w2 p2
  proof -
    have "k - 1 < length (callbacks e)" "Suc (k - 1) = k" using l by auto
    then show ?thesis by (simp only: after_loop_unwind)
  qed
  then show ?thesis using assms b l by (auto simp: dispatch_def split: sum.splits prod.splits)
qed

text \<open>Claim C5 (callbacks nest): with at least one callback, \<open>dispatch\<close> is the nesting of the callbacks around the original method in the order of
  the set: each runs \<open>before\<close> on the way in and \<open>after\<close> on the way out, a callback that returns early replaces the callbacks behind it and the
  original method, and only a failure of the reflective call itself skips the way out.\<close>

theorem dispatch_nests:
  assumes "make_param e args = Inr p" "callbacks e \<noteq> []"
  shows "dispatch e args w =
    (case layers (invokeMember (he_backup e)) (callbacks e) w p of (Inl t, w) \<Rightarrow> (Inl t, w) | (Inr p, w) \<Rightarrow> (cast_result e (getResultOrThrowable p), w))"
  by (rule layers_dispatch [OF assms])

definition demo_entry :: "nat JHookEntry" where
  "demo_entry = \<lparr>he_member = \<lparr>m_id = 1, m_kind = MethodMember, m_abstract = False, m_static = True, m_return = None\<rparr>,
     he_backup = Some (\<lambda>w this args. (Returned (JRef 7), w + 1)), callbacks = [returnConstant 5 0 50 (JRef 3)]\<rparr>"

theorem dispatch_nests_witness: "dispatch demo_entry [JRef 2] 0 = (Inr (JRef 3), 0)"
  using dispatch_nests [of demo_entry "[JRef 2]" _ 0]
  by (simp add: demo_entry_def make_param_def he_isStatic_def Let_def returnConstant_def replacement_before_def replacement_after_def setResult_def
      run_before_def run_after_def cast_result_def he_returnType_def getResultOrThrowable_def)

section \<open>The callbacks are a set in priority order\<close>

text \<open>Priorities far enough from the ends of \<open>int\<close> for the difference in \<open>compareTo\<close> not to wrap; the named priorities are.\<close>

definition in_range :: "'w MethodHook \<Rightarrow> bool" where
  "in_range h \<longleftrightarrow> \<bar>priority h\<bar> < 2 ^ 30"

definition precedes :: "'w MethodHook \<Rightarrow> 'w MethodHook \<Rightarrow> bool" where
  "precedes a b \<longleftrightarrow> priority b < priority a \<or> priority a = priority b \<and> identityHash a \<le> identityHash b"

definition callbacks_ok :: "'w MethodHook list \<Rightarrow> bool" where
  "callbacks_ok hs \<longleftrightarrow> distinct (map mh_id hs) \<and> sorted_wrt precedes hs \<and> list_all in_range hs"

lemma int32_small: "\<bar>x\<bar> < 2 ^ 31 \<Longrightarrow> int32 x = x"
  unfolding int32_def by (subst mod_pos_pos_trivial) auto

lemma compareTo_precedes:
  assumes "in_range x" "in_range y" "mh_id x \<noteq> mh_id y"
  shows "compareTo x y < 0 \<longleftrightarrow> \<not> precedes y x"
proof -
  have "int32 (priority y - priority x) = priority y - priority x" using assms by (intro int32_small) (auto simp: in_range_def)
  then show ?thesis using assms(3) by (auto simp: compareTo_def precedes_def integer_compare_def)
qed

lemma precedes_trans: "precedes a b \<Longrightarrow> precedes b c \<Longrightarrow> precedes a c"
  by (auto simp: precedes_def)

lemma precedes_total: "precedes a b \<or> precedes b a"
  by (auto simp: precedes_def)

lemma mset_sort_insert [simp]: "mset (sort_insert x ys) = add_mset x (mset ys)"
  by (induction ys) auto

lemma set_sort_insert [simp]: "set (sort_insert x ys) = insert x (set ys)"
  by (metis mset_sort_insert set_mset_add_mset_insert set_mset_mset)

lemma sort_insert_sorted:
  assumes "in_range x" "list_all in_range ys" "mh_id x \<notin> mh_id ` set ys" "sorted_wrt precedes ys"
  shows "sorted_wrt precedes (sort_insert x ys)"
  using assms
proof (induction ys)
  case (Cons y ys)
  have "compareTo x y < 0 \<longleftrightarrow> \<not> precedes y x" using Cons.prems by (intro compareTo_precedes) auto
  then show ?case using Cons precedes_total [of x y] by (auto intro: precedes_trans)
qed simp

lemma arrays_sort_rev: "arrays_sort (xs @ [x]) = sort_insert x (arrays_sort xs)"
  by (simp add: arrays_sort_def)

lemma mset_arrays_sort [simp]: "mset (arrays_sort xs) = mset xs"
  by (induction xs rule: rev_induct) (simp_all add: arrays_sort_rev, simp add: arrays_sort_def)

lemma set_arrays_sort [simp]: "set (arrays_sort xs) = set xs"
  by (metis mset_arrays_sort set_mset_mset)

lemma arrays_sort_ok:
  "distinct (map mh_id xs) \<Longrightarrow> list_all in_range xs \<Longrightarrow> sorted_wrt precedes (arrays_sort xs)"
proof (induction xs rule: rev_induct)
  case (snoc x xs)
  then have "sorted_wrt precedes (sort_insert x (arrays_sort xs))" by (intro sort_insert_sorted) (auto simp: list_all_iff)
  then show ?case by (simp add: arrays_sort_rev)
qed (simp add: arrays_sort_def)

lemma distinct_ids_sort: "distinct (map mh_id (arrays_sort xs)) \<longleftrightarrow> distinct (map mh_id xs)"
  by (metis mset_arrays_sort mset_eq_imp_distinct_iff mset_map)

text \<open>A sorted insertion into a sorted array moves nothing else.\<close>

lemma insert_positions: "\<exists>us vs. sort_insert x ys = us @ x # vs \<and> ys = us @ vs"
proof (induction ys)
  case (Cons y ys)
  then obtain us vs where "sort_insert x ys = us @ x # vs" "ys = us @ vs" by blast
  then show ?case by (cases "compareTo x y < 0") (force, metis append_Cons sort_insert.simps(2))
qed simp

lemma sort_insert_last:
  "in_range x \<Longrightarrow> list_all in_range ys \<Longrightarrow> mh_id x \<notin> mh_id ` set ys \<Longrightarrow> \<forall>y \<in> set ys. precedes y x \<Longrightarrow> sort_insert x ys = ys @ [x]"
proof (induction ys)
  case (Cons y ys)
  have "\<not> compareTo x y < 0" using Cons.prems by (subst compareTo_precedes) auto
  then show ?case using Cons by simp
qed simp

lemma arrays_sort_id: "callbacks_ok xs \<Longrightarrow> arrays_sort xs = xs"
proof (induction xs rule: rev_induct)
  case (snoc x xs)
  then have "callbacks_ok xs" by (auto simp: callbacks_ok_def sorted_wrt_append)
  then have "arrays_sort xs = xs" by (rule snoc.IH)
  moreover have "sort_insert x xs = xs @ [x]" using snoc.prems by (intro sort_insert_last) (auto simp: callbacks_ok_def sorted_wrt_append)
  ultimately show ?case by (simp add: arrays_sort_rev)
qed (simp add: arrays_sort_def)

lemma cow_add_new:
  assumes "callbacks_ok hs" "in_range e" "mh_id e \<notin> mh_id ` set hs"
  shows "cow_add e hs = (True, sort_insert e hs)" "callbacks_ok (sort_insert e hs)"
proof -
  have s: "arrays_sort (hs @ [e]) = sort_insert e hs" using assms(1) by (simp add: arrays_sort_rev arrays_sort_id)
  then show "cow_add e hs = (True, sort_insert e hs)" using assms(3) by (auto simp: cow_add_def)
  have d: "distinct (map mh_id (hs @ [e]))" using assms by (simp add: callbacks_ok_def)
  have r: "list_all in_range (hs @ [e])" using assms by (simp add: callbacks_ok_def)
  show "callbacks_ok (sort_insert e hs)"
    using arrays_sort_ok [OF d r] d r distinct_ids_sort [of "hs @ [e]"] s by (simp add: callbacks_ok_def list_all_iff)
qed

lemma cow_add_old: "mh_id e \<in> mh_id ` set hs \<Longrightarrow> cow_add e hs = (False, hs)"
  by (auto simp: cow_add_def)

lemma cow_remove_filter:
  "distinct (map mh_id hs) \<Longrightarrow> cow_remove e hs = (mh_id e \<in> mh_id ` set hs, filter (\<lambda>h. mh_id h \<noteq> mh_id e) hs)"
proof (induction hs)
  case (Cons x hs)
  have "filter (\<lambda>h. mh_id h \<noteq> mh_id x) hs = hs" using Cons.prems by (intro filter_True) (auto simp: image_iff)
  then show ?case using Cons by auto
qed simp

lemma callbacks_ok_filter: "callbacks_ok hs \<Longrightarrow> callbacks_ok (filter P hs)"
  by (auto simp: callbacks_ok_def list_all_iff distinct_map_filter intro: sorted_wrt_filter)

text \<open>What a set of callbacks promises to its users: an invariant, and the effect of adding and removing on the set of keys.\<close>

locale callback_set =
  fixes add :: "'h \<Rightarrow> 's \<Rightarrow> bool \<times> 's"
    and remove :: "'h \<Rightarrow> 's \<Rightarrow> bool \<times> 's"
    and key :: "'h \<Rightarrow> 'k"
    and keys :: "'s \<Rightarrow> 'k set"
    and good :: "'h \<Rightarrow> bool"
    and ok :: "'s \<Rightarrow> bool"
  assumes add_ok: "ok s \<Longrightarrow> good h \<Longrightarrow> ok (snd (add h s))"
    and add_keys: "ok s \<Longrightarrow> good h \<Longrightarrow> fst (add h s) = (key h \<notin> keys s) \<and> keys (snd (add h s)) = insert (key h) (keys s)"
    and remove_ok: "ok s \<Longrightarrow> ok (snd (remove h s))"
    and remove_keys: "ok s \<Longrightarrow> fst (remove h s) = (key h \<in> keys s) \<and> keys (snd (remove h s)) = keys s - {key h}"
begin

lemma run_ops_refines:
  "ok s \<Longrightarrow> \<forall>(adding, h) \<in> set ops. adding \<longrightarrow> good h \<Longrightarrow> 
    ok (fold (\<lambda>(adding, h) s. snd (if adding then add h s else remove h s)) ops s) \<and>
    keys (fold (\<lambda>(adding, h) s. snd (if adding then add h s else remove h s)) ops s) =
      fold (\<lambda>(adding, h) K. if adding then insert (key h) K else K - {key h}) ops (keys s)"
proof (induction ops arbitrary: s)
  case (Cons x ops)
  obtain adding h where x: "x = (adding, h)" by force
  show ?case
    using Cons.IH [of "snd (add h s)"] Cons.IH [of "snd (remove h s)"] Cons.prems add_ok add_keys remove_ok remove_keys
    by (cases adding) (auto simp: x)
qed simp

end

interpretation cow: callback_set cow_add cow_remove mh_id "\<lambda>hs. mh_id ` set hs" in_range callbacks_ok
proof
  fix hs :: "'w MethodHook list" and h :: "'w MethodHook"
  assume hs: "callbacks_ok hs"
  show "callbacks_ok (snd (cow_remove h hs))"
    using hs by (simp add: cow_remove_filter callbacks_ok_def callbacks_ok_filter [unfolded callbacks_ok_def])
  show "fst (cow_remove h hs) = (mh_id h \<in> mh_id ` set hs) \<and> mh_id ` set (snd (cow_remove h hs)) = mh_id ` set hs - {mh_id h}"
    using hs by (auto simp: cow_remove_filter callbacks_ok_def)
  assume h: "in_range h"
  show "callbacks_ok (snd (cow_add h hs))"
    using cow_add_new [OF hs h] cow_add_old [of h hs] hs by (cases "mh_id h \<in> mh_id ` set hs") auto
  show "fst (cow_add h hs) = (mh_id h \<notin> mh_id ` set hs) \<and> mh_id ` set (snd (cow_add h hs)) = insert (mh_id h) (mh_id ` set hs)"
    using cow_add_new(1) [OF hs h] cow_add_old [of h hs] by (cases "mh_id h \<in> mh_id ` set hs") auto
qed

text \<open>A history of an entry: its callbacks after a sequence of additions (\<open>True\<close>) and removals, and the identities it should hold.\<close>

definition cow_run :: "(bool \<times> 'w MethodHook) list \<Rightarrow> 'w MethodHook list" where
  "cow_run ops = fold (\<lambda>(adding, h) hs. snd (if adding then cow_add h hs else cow_remove h hs)) ops []"

definition live_ids :: "(bool \<times> 'w MethodHook) list \<Rightarrow> nat set" where
  "live_ids ops = fold (\<lambda>(adding, h) K. if adding then insert (mh_id h) K else K - {mh_id h}) ops {}"

text \<open>Claim C22 (callbacks in priority order): after any sequence of \<open>add\<close> and \<open>remove\<close> on a new entry, with priorities that do not make the
  difference in \<open>compareTo\<close> wrap, the array holds each callback once, exactly the ones added and not removed since, and is sorted by descending
  priority, callbacks of the same priority by their identity hash.\<close>

theorem callbacks_in_order:
  assumes "\<forall>(adding, h) \<in> set ops. adding \<longrightarrow> in_range h"
  shows "callbacks_ok (cow_run ops) \<and> mh_id ` set (cow_run ops) = live_ids ops"
proof -
  have "callbacks_ok []" by (simp add: callbacks_ok_def)
  from cow.run_ops_refines [OF this assms] show ?thesis by (simp add: cow_run_def live_ids_def)
qed

theorem callbacks_in_order_witness:
  "map mh_id (cow_run [(True, returnConstant 1 0 50 JNull), (True, DO_NOTHING 2 0), (True, returnConstant 3 0 10000 JNull),
      (False, returnConstant 1 0 50 JNull :: nat MethodHook)]) = [2, 3] \<and>
   callbacks_ok (cow_run [(True, returnConstant 1 0 50 JNull), (True, DO_NOTHING 2 0), (True, returnConstant 3 0 10000 JNull),
      (False, returnConstant 1 0 50 JNull :: nat MethodHook)])"
proof (rule conjI)
  let ?ops = "[(True, returnConstant 1 0 50 JNull), (True, DO_NOTHING 2 0), (True, returnConstant 3 0 10000 JNull),
      (False, returnConstant 1 0 50 JNull :: nat MethodHook)]"
  have "\<forall>(adding, h) \<in> set ?ops. adding \<longrightarrow> in_range h" by (simp add: in_range_def returnConstant_def DO_NOTHING_def PRIORITY_HIGHEST_def)
  from callbacks_in_order [OF this] show "callbacks_ok (cow_run ?ops)" by (rule conjunct1)
  show "map mh_id (cow_run ?ops) = [2, 3]"
    by (simp add: cow_run_def cow_add_def arrays_sort_def compareTo_def int32_def returnConstant_def DO_NOTHING_def PRIORITY_HIGHEST_def)
qed

text \<open>Two callbacks whose priorities are too far apart are sorted the wrong way round.\<close>

lemma compareTo_wraps:
  "map mh_id (cow_run [(True, returnConstant 1 0 (2 ^ 31 - 1) JNull), (True, returnConstant 2 0 (- 2) JNull)]) = [2, 1]"
  by (simp add: cow_run_def cow_add_def arrays_sort_def compareTo_def int32_def returnConstant_def)

section \<open>A callback that throws is left out\<close>

text \<open>The states of the parameter object that its interface allows on the way in and on the way out, and the callbacks that use only that interface.\<close>

definition fresh :: "HookParam \<Rightarrow> bool" where
  "fresh p \<longleftrightarrow> \<not> returnEarly p \<and> p_result p = JNull \<and> p_throwable p = None"

definition settled :: "HookParam \<Rightarrow> bool" where
  "settled p \<longleftrightarrow> returnEarly p \<and> (p_throwable p \<noteq> None \<longrightarrow> p_result p = JNull)"

definition api_only :: "'w MethodHook \<Rightarrow> bool" where
  "api_only h \<longleftrightarrow>
    (\<forall>w p. fresh p \<longrightarrow> (case before h w p of (t, w', p') \<Rightarrow> fresh p' \<or> settled p')) \<and>
    (\<forall>w p. settled p \<longrightarrow> (case after h w p of (t, w', p') \<Rightarrow> settled p'))"

definition same_call :: "HookParam \<Rightarrow> HookParam \<Rightarrow> bool" where
  "same_call p q \<longleftrightarrow> p_method p = p_method q \<and> thisObject p = thisObject q \<and> p_args p = p_args q"

definition always_throws :: "'w MethodHook \<Rightarrow> bool" where
  "always_throws h \<longleftrightarrow>
    (\<forall>w p. case before h w p of (t, w', p') \<Rightarrow> t \<noteq> None \<and> w' = w \<and> same_call p p') \<and>
    (\<forall>w p. case after h w p of (t, w', p') \<Rightarrow> t \<noteq> None \<and> w' = w \<and> same_call p p')"

lemma settled_set [simp]: "settled (setResult v p)" "settled (setThrowable t p)"
  by (simp_all add: settled_def setResult_def setThrowable_def)

lemma fresh_reset [simp]: "fresh ((setResult JNull p)\<lparr>returnEarly := False\<rparr>)"
  by (simp add: fresh_def setResult_def)

lemma run_before_api: "api_only h \<Longrightarrow> fresh p \<Longrightarrow> run_before h w p = (w', p') \<Longrightarrow> fresh p' \<or> settled p'"
  by (auto simp: api_only_def run_before_def split: prod.splits option.splits)

lemma run_after_api: "api_only h \<Longrightarrow> settled p \<Longrightarrow> run_after h w p = (w', p') \<Longrightarrow> settled p'"
  by (auto simp: api_only_def run_after_def Let_def split: prod.splits option.splits if_splits)

lemma layers_settled: "list_all api_only hs \<Longrightarrow> fresh p \<Longrightarrow> layers orig hs w p = (Inr q, w') \<Longrightarrow> settled q"
proof (induction hs arbitrary: w p q w')
  case Nil
  then show ?case by (auto simp: call_original_def fresh_def split: invocation.splits prod.splits)
next
  case (Cons h hs)
  obtain w1 p1 where b: "run_before h w p = (w1, p1)" by force
  have p1: "fresh p1 \<or> settled p1" using run_before_api [OF _ Cons.prems(2) b] Cons.prems(1) by simp
  obtain q2 w2 where q2: "(if returnEarly p1 then (Inr p1, w1) else layers orig hs w1 p1) = (Inr q2, w2)" "run_after h w2 q2 = (w', q)"
    using Cons.prems(3) b by (auto split: prod.splits sum.splits)
  have "settled q2" using q2(1) p1 Cons.IH [of p1 w1 q2 w2] Cons.prems(1) by (auto simp: fresh_def settled_def split: if_splits)
  then show ?case using run_after_api [OF _ _ q2(2)] Cons.prems(1) by simp
qed

lemma throws_before: "always_throws f \<Longrightarrow> fresh p \<Longrightarrow> run_before f w p = (w, p)"
  unfolding always_throws_def run_before_def
  by (drule conjunct1, drule spec [of _ w], drule spec [of _ p]) (auto simp: same_call_def fresh_def setResult_def split: prod.splits)

lemma throws_after: "always_throws f \<Longrightarrow> settled p \<Longrightarrow> run_after f w p = (w, p)"
  unfolding always_throws_def run_after_def
  by (drule conjunct2, drule spec [of _ w], drule spec [of _ p])
    (auto simp: same_call_def settled_def setResult_def setThrowable_def Let_def split: prod.splits)

lemma layers_without:
  assumes "always_throws f"
  shows "list_all api_only (xs @ ys) \<Longrightarrow> fresh p \<Longrightarrow> layers orig (xs @ f # ys) w p = layers orig (xs @ ys) w p"
proof (induction xs arbitrary: w p)
  case Nil
  then show ?case
    using layers_settled [of ys p orig w] throws_before [OF assms, of p] throws_after [OF assms]
    by (auto simp: fresh_def split: sum.splits prod.splits)
next
  case (Cons h xs)
  obtain w1 p1 where b: "run_before h w p = (w1, p1)" by force
  then have "fresh p1 \<or> settled p1" using run_before_api [OF _ Cons.prems(2) b] Cons.prems(1) by simp
  then have "\<not> returnEarly p1 \<Longrightarrow> layers orig (xs @ f # ys) w1 p1 = layers orig (xs @ ys) w1 p1"
    using Cons.IH [of p1 w1] Cons.prems(1) by (auto simp: settled_def)
  then show ?case by (simp add: b)
qed

lemma make_param_fresh: "make_param e args = Inr p \<Longrightarrow> fresh p"
  by (auto simp: make_param_def Let_def fresh_def split: if_splits list.splits)


definition bad_hook :: "nat MethodHook" where
  "bad_hook = \<lparr>mh_id = 9, priority = 100, identityHash = 0, before = (\<lambda>w p. (Some (Thrown 4), w, setResult (JRef 8) p)),
     after = (\<lambda>w p. (Some (Thrown 4), w, setThrowable (Some (Thrown 5)) p))\<rparr>"


section \<open>Types\<close>

text \<open>Claim C23 (the declared type is kept): when the declared return type is a reference type and the original method returns instances of it, an object
  that a call of the hooked method returns is an instance of it, whatever the callbacks set as the result.\<close>

theorem dispatch_well_typed:
  assumes "he_returnType e = Some inst"
    and "\<And>w this args v w'. invokeMember (he_backup e) w this args = (Returned (JRef v), w') \<Longrightarrow> inst v"
    and "dispatch e args w = (Inr (JRef r), w')"
  shows "inst r"
  using assms
  by (auto simp: dispatch_def direct_result_def cast_result_def Let_def split: sum.splits prod.splits invocation.splits jvalue.splits if_splits)

definition typed_entry :: "nat JHookEntry" where
  "typed_entry = demo_entry\<lparr>he_member := \<lparr>m_id = 1, m_kind = MethodMember, m_abstract = False, m_static = True, m_return = Some (\<lambda>r. r < 9)\<rparr>\<rparr>"

theorem dispatch_well_typed_witness:
  "dispatch typed_entry [] 0 = (Inr (JRef 3), 0) \<and> (3::nat) < 9 \<and>
   dispatch (typed_entry\<lparr>callbacks := [returnConstant 5 0 50 (JRef 11)]\<rparr>) [] 0 = (Inl ClassCastException, 0)"
proof -
  note defs = typed_entry_def demo_entry_def dispatch_def make_param_def he_isStatic_def Let_def returnConstant_def replacement_before_def
    replacement_after_def setResult_def run_before_def run_after_def cast_result_def he_returnType_def getResultOrThrowable_def
    before_loop.simps after_loop.simps call_original_def
  have t: "he_returnType typed_entry = Some (\<lambda>r. r < 9)" by (simp add: typed_entry_def he_returnType_def)
  have o: "invokeMember (he_backup typed_entry) w this args = (Returned (JRef v), w') \<Longrightarrow> v < 9" for w this args v w'
    by (simp add: typed_entry_def demo_entry_def invokeMember_def)
  have d: "dispatch typed_entry [] 0 = (Inr (JRef 3), 0)" by (simp add: defs)
  have c: "dispatch (typed_entry\<lparr>callbacks := [returnConstant 5 0 50 (JRef 11)]\<rparr>) [] 0 = (Inl ClassCastException, 0)" by (simp add: defs)
  have "(3::nat) < 9" by (rule dispatch_well_typed [OF t _ d]) (rule o)
  with c d show ?thesis by blast
qed

end
