(* ===== verification/Art_Method.thy ===== *)
theory Art_Method
  imports Code_Image
begin

text \<open>
  \<open>art_method.cxx\<close>: the fields of an ART method that LSPlant reads and writes, at offsets found when the library starts. A method is a block of
  \<open>art_method_size\<close> bytes of memory. The functions of the runtime that are looked up by symbol are fields of the layout. Shown: each setter changes the
  flag bits it names and nothing else, \<open>Init\<close> finds offsets that lie inside the method and do not overlap, and what \<open>BackupTo\<close> leaves in both methods.
\<close>

section \<open>Layout\<close>

record art_layout =
  art_method_size :: nat
  entry_point_offset :: nat
  interpreter_entry_point_offset :: nat
  data_offset :: nat
  access_flags_offset :: nat
  kAccFastInterpreterToInterpreterInvoke :: u32
  kAccPreCompiled :: u32
  kAccCompileDontBother :: u32
  kAccIntrinsic :: u32
  SetNotIntrinsic :: "(u64 \<Rightarrow> memory \<Rightarrow> memory) option"
  interpreter_to_compiled_code_bridge :: u64

definition kAccPublic :: u32 where "kAccPublic = 0x0001"
definition kAccPrivate :: u32 where "kAccPrivate = 0x0002"
definition kAccProtected :: u32 where "kAccProtected = 0x0004"
definition kAccStatic :: u32 where "kAccStatic = 0x0008"
definition kAccFinal :: u32 where "kAccFinal = 0x0010"
definition kAccNative :: u32 where "kAccNative = 0x0100"
definition kAccAbstract :: u32 where "kAccAbstract = 0x0400"
definition kAccConstructor :: u32 where "kAccConstructor = 0x00010000"

section \<open>Fields\<close>

definition GetAccessFlags :: "art_layout \<Rightarrow> u64 \<Rightarrow> memory \<Rightarrow> u32" where
  "GetAccessFlags L this m = load32 m (this + of_nat (access_flags_offset L))"

definition SetAccessFlags :: "art_layout \<Rightarrow> u64 \<Rightarrow> u32 \<Rightarrow> memory \<Rightarrow> memory" where
  "SetAccessFlags L this flags m = write_bytes (this + of_nat (access_flags_offset L)) (le32 flags) m"

definition GetEntryPoint :: "art_layout \<Rightarrow> u64 \<Rightarrow> memory \<Rightarrow> u64" where
  "GetEntryPoint L this m = load64 m (this + of_nat (entry_point_offset L))"

definition SetEntryPoint :: "art_layout \<Rightarrow> u64 \<Rightarrow> u64 \<Rightarrow> memory \<Rightarrow> memory" where
  "SetEntryPoint L this entry_point m =
    (let m = write_bytes (this + of_nat (entry_point_offset L)) (le64 entry_point) m
     in if interpreter_entry_point_offset L \<noteq> 0
        then write_bytes (this + of_nat (interpreter_entry_point_offset L)) (le64 (interpreter_to_compiled_code_bridge L)) m
        else m)"

definition GetData :: "art_layout \<Rightarrow> u64 \<Rightarrow> memory \<Rightarrow> u64" where
  "GetData L this m = load64 m (this + of_nat (data_offset L))"

definition SetData :: "art_layout \<Rightarrow> u64 \<Rightarrow> u64 \<Rightarrow> memory \<Rightarrow> memory" where
  "SetData L this d m = write_bytes (this + of_nat (data_offset L)) (le64 d) m"

definition CopyFrom :: "art_layout \<Rightarrow> u64 \<Rightarrow> u64 \<Rightarrow> memory \<Rightarrow> memory" where
  "CopyFrom L this other m = write_bytes this (read_bytes m other (art_method_size L)) m"

section \<open>Access flags\<close>

definition SetNonCompilable :: "art_layout \<Rightarrow> u64 \<Rightarrow> memory \<Rightarrow> memory" where
  "SetNonCompilable L this m =
    (let access_flags = GetAccessFlags L this m OR kAccCompileDontBother L;
         access_flags = access_flags AND NOT (kAccPreCompiled L)
     in SetAccessFlags L this access_flags m)"

definition ClearFastInterpretFlag :: "art_layout \<Rightarrow> u64 \<Rightarrow> memory \<Rightarrow> memory" where
  "ClearFastInterpretFlag L this m = SetAccessFlags L this (GetAccessFlags L this m AND NOT (kAccFastInterpreterToInterpreterInvoke L)) m"

definition SetPrivate :: "art_layout \<Rightarrow> u64 \<Rightarrow> memory \<Rightarrow> memory" where
  "SetPrivate L this m =
    SetAccessFlags L this ((GetAccessFlags L this m OR kAccPrivate) AND NOT kAccProtected AND NOT kAccPublic) m"

definition SetPublic :: "art_layout \<Rightarrow> u64 \<Rightarrow> memory \<Rightarrow> memory" where
  "SetPublic L this m =
    SetAccessFlags L this ((GetAccessFlags L this m OR kAccPublic) AND NOT kAccProtected AND NOT kAccPrivate) m"

definition SetProtected :: "art_layout \<Rightarrow> u64 \<Rightarrow> memory \<Rightarrow> memory" where
  "SetProtected L this m =
    SetAccessFlags L this ((GetAccessFlags L this m OR kAccProtected) AND NOT kAccPrivate AND NOT kAccPublic) m"

definition SetNonFinal :: "art_layout \<Rightarrow> u64 \<Rightarrow> memory \<Rightarrow> memory" where
  "SetNonFinal L this m = SetAccessFlags L this (GetAccessFlags L this m AND NOT kAccFinal) m"

definition SetNative :: "art_layout \<Rightarrow> u64 \<Rightarrow> memory \<Rightarrow> memory" where
  "SetNative L this m = SetAccessFlags L this (GetAccessFlags L this m OR kAccNative) m"

definition SetNonNative :: "art_layout \<Rightarrow> u64 \<Rightarrow> memory \<Rightarrow> memory" where
  "SetNonNative L this m = SetAccessFlags L this (GetAccessFlags L this m AND NOT kAccNative) m"

definition SetNonIntrinsic :: "art_layout \<Rightarrow> u64 \<Rightarrow> memory \<Rightarrow> memory" where
  "SetNonIntrinsic L this m =
    (case SetNotIntrinsic L of
       Some f \<Rightarrow> f this m
     | None \<Rightarrow>
         if kAccIntrinsic L \<noteq> 0 then SetAccessFlags L this (GetAccessFlags L this m AND NOT (kAccIntrinsic L)) m else m)"

definition has_flag :: "u32 \<Rightarrow> art_layout \<Rightarrow> u64 \<Rightarrow> memory \<Rightarrow> bool" where
  "has_flag k L this m \<longleftrightarrow> GetAccessFlags L this m AND k \<noteq> 0"

definition IsPrivate :: "art_layout \<Rightarrow> u64 \<Rightarrow> memory \<Rightarrow> bool" where "IsPrivate = has_flag kAccPrivate"
definition IsProtected :: "art_layout \<Rightarrow> u64 \<Rightarrow> memory \<Rightarrow> bool" where "IsProtected = has_flag kAccProtected"
definition IsPublic :: "art_layout \<Rightarrow> u64 \<Rightarrow> memory \<Rightarrow> bool" where "IsPublic = has_flag kAccPublic"
definition IsFinal :: "art_layout \<Rightarrow> u64 \<Rightarrow> memory \<Rightarrow> bool" where "IsFinal = has_flag kAccFinal"
definition IsStatic :: "art_layout \<Rightarrow> u64 \<Rightarrow> memory \<Rightarrow> bool" where "IsStatic = has_flag kAccStatic"
definition IsNative :: "art_layout \<Rightarrow> u64 \<Rightarrow> memory \<Rightarrow> bool" where "IsNative = has_flag kAccNative"
definition IsAbstract :: "art_layout \<Rightarrow> u64 \<Rightarrow> memory \<Rightarrow> bool" where "IsAbstract = has_flag kAccAbstract"
definition IsConstructor :: "art_layout \<Rightarrow> u64 \<Rightarrow> memory \<Rightarrow> bool" where "IsConstructor = has_flag kAccConstructor"

definition BackupTo :: "art_layout \<Rightarrow> u64 \<Rightarrow> u64 \<Rightarrow> memory \<Rightarrow> memory" where
  "BackupTo L this backup m =
    (let m = SetNonCompilable L this m;
         m = CopyFrom L backup this m;
         m = ClearFastInterpretFlag L this m
     in if \<not> IsStatic L backup m then SetPrivate L backup m else m)"

text \<open>\<open>MakeClassInheritable\<close>, for the constructors of the class: the ones that no subclass could call become protected, and none stays final.\<close>

definition make_inheritable :: "art_layout \<Rightarrow> u64 \<Rightarrow> memory \<Rightarrow> memory" where
  "make_inheritable L method m =
    (let m = (if method \<noteq> 0 \<and> \<not> IsPublic L method m \<and> \<not> IsProtected L method m then SetProtected L method m else m)
     in if method \<noteq> 0 \<and> IsFinal L method m then SetNonFinal L method m else m)"

section \<open>Init\<close>

text \<open>The part of \<open>ArtMethod::Init\<close> that computes the layout, from Android M on: the addresses of two neighbouring methods, the access flags of the
  first as the reflection API reports them (if its field is found), the API level, and whether the probe for the flag of default conflicts ended without
  an exception or with an \<open>AbstractMethodError\<close>.\<close>

fun find_flags :: "nat \<Rightarrow> nat \<Rightarrow> nat \<Rightarrow> u64 \<Rightarrow> u32 \<Rightarrow> memory \<Rightarrow> nat option" where
  "find_flags 0 i size' first real_flags m = None"
| "find_flags (Suc n) i size' first real_flags m =
    (if \<not> i < size' then None
     else if load32 m (first + of_nat i) = real_flags then Some i
     else find_flags n (i + 4) size' first real_flags m)"

definition flags_offset :: "u32 option \<Rightarrow> nat \<Rightarrow> u64 \<Rightarrow> memory \<Rightarrow> nat" where
  "flags_offset real_flags size' first m =
    (let off = (case real_flags of None \<Rightarrow> 0
                | Some fl \<Rightarrow> (case find_flags size' 0 size' first fl m of None \<Rightarrow> 0 | Some i \<Rightarrow> i))
     in if off = 0 then 4 else off)"

definition init_layout ::
  "nat \<Rightarrow> u64 \<Rightarrow> u64 \<Rightarrow> u32 option \<Rightarrow> (u64 \<Rightarrow> memory \<Rightarrow> memory) option \<Rightarrow> bool \<Rightarrow> u64 \<Rightarrow> memory \<Rightarrow> art_layout" where
  "init_layout sdk first second real_flags set_not_intrinsic conflict bridge m =
    (let sz = unat (second - first)
     in \<lparr>art_method_size = sz,
         entry_point_offset = sz - 8,
         interpreter_entry_point_offset = (if sdk \<le> 23 then sz - 8 - 2 * 8 else 0),
         data_offset = sz - 8 - 8,
         access_flags_offset = flags_offset real_flags sz first m,
         kAccFastInterpreterToInterpreterInvoke = (if sdk < 29 then 0 else 0x40000000),
         kAccPreCompiled = (if sdk < 30 then 0 else if 31 \<le> sdk then 0x00800000 else 0x00200000),
         kAccCompileDontBother = (if sdk < 24 then 0 else if sdk \<le> 26 \<and> conflict then 0x01000000 else 0x02000000),
         kAccIntrinsic = (if sdk < 26 then 0 else 0x80000000),
         SetNotIntrinsic = (if 28 \<le> sdk then set_not_intrinsic else None),
         interpreter_to_compiled_code_bridge = bridge\<rparr>)"

section \<open>Bytes of a method\<close>

lemma block_offset: "x \<in> block a n \<Longrightarrow> x = a + of_nat (unat (x - a)) \<and> unat (x - a) < n"
  by (simp add: block_def)

lemma block_disjoint_write: "block a n \<inter> block b (length bs) = {} \<Longrightarrow> x \<in> block a n \<Longrightarrow> write_bytes b bs m x = m x"
  by (rule write_bytes_outside) blast

lemma sub_block: "i + n \<le> sz \<Longrightarrow> sz \<le> 2 ^ 63 \<Longrightarrow> block (a + of_nat i) n \<subseteq> block a sz"
proof
  fix x assume h: "i + n \<le> sz" "sz \<le> 2 ^ 63" "x \<in> block (a + of_nat i) n"
  define j where "j = unat (x - (a + of_nat i))"
  have "of_nat j = x - (a + of_nat i)" by (simp add: j_def)
  then have "x - a = of_nat (i + j)" by (simp add: algebra_simps)
  moreover have "j < n" using h(3) by (simp add: j_def block_def)
  moreover have "unat (of_nat (i + j) :: u64) = i + j" using h(1,2) \<open>j < n\<close> by (intro unat_of_nat64) simp
  ultimately show "x \<in> block a sz" using h(1) by (simp add: block_def)
qed

lemma fields_disjoint: "i + n \<le> j \<Longrightarrow> j + k \<le> 2 ^ 63 \<Longrightarrow> block (a + of_nat i) n \<inter> block (a + of_nat j) k = {}"
proof (rule ccontr)
  assume h: "i + n \<le> j" "j + k \<le> 2 ^ 63" "block (a + of_nat i) n \<inter> block (a + of_nat j) k \<noteq> {}"
  then obtain x where x: "x \<in> block (a + of_nat i) n" "x \<in> block (a + of_nat j) k" by blast
  define p q where "p = unat (x - (a + of_nat i))" and "q = unat (x - (a + of_nat j))"
  have l: "p < n" "q < k" using x by (simp_all add: p_def q_def block_def)
  have "of_nat p = x - (a + of_nat i)" "of_nat q = x - (a + of_nat j)" by (simp_all add: p_def q_def)
  then have "of_nat (i + p) = x - a" "of_nat (j + q) = x - a" by (simp_all add: algebra_simps)
  then have "of_nat (i + p) = (of_nat (j + q) :: u64)" by (simp only:)
  moreover have "unat (of_nat (i + p) :: u64) = i + p" "unat (of_nat (j + q) :: u64) = j + q"
    using h(1,2) l by (intro unat_of_nat64, simp)+
  ultimately show False using h(1) l by simp
qed

lemma method_load32_cong: "(\<And>x. x \<in> block a 4 \<Longrightarrow> m x = m' x) \<Longrightarrow> load32 m a = load32 m' a"
proof -
  assume e: "\<And>x. x \<in> block a 4 \<Longrightarrow> m x = m' x"
  have "a + of_nat i \<in> block a 4" if "i < 4" for i using that by (simp add: block_def unat_of_nat64)
  from this [of 0] this [of 1] this [of 2] this [of 3] show ?thesis by (simp add: load32_def e)
qed

lemma load64_cong: "(\<And>x. x \<in> block a 8 \<Longrightarrow> m x = m' x) \<Longrightarrow> load64 m a = load64 m' a"
proof -
  assume e: "\<And>x. x \<in> block a 8 \<Longrightarrow> m x = m' x"
  have "block a 4 \<subseteq> block a 8" "block (a + of_nat 4) 4 \<subseteq> block a 8" by (simp add: block_def subset_iff) (rule sub_block; simp)
  then have "load32 m a = load32 m' a" "load32 m (a + 4) = load32 m' (a + 4)" by (auto intro!: method_load32_cong e)
  then show ?thesis by (simp add: load64_def)
qed

lemma load32_write [simp]: "load32 (write_bytes a (le32 v) m) a = v"
  by (rule load32_le32, rule bytes_at_write) simp

lemma load64_bytes: "bytes_at m a (le64 v) \<Longrightarrow> load64 m a = v"
proof -
  assume "bytes_at m a (le64 v)"
  then have "words_at m a [ucast v, ucast (drop_bit 32 v)]" by (intro words_at_bytes) (simp add: le64_def)
  then show ?thesis by (simp add: words_at_Cons load64_def join64)
qed

lemma load64_write [simp]: "load64 (write_bytes a (le64 v) m) a = v"
  by (rule load64_bytes, rule bytes_at_write) simp

section \<open>Setters\<close>

text \<open>Layouts as they are from Android N on: flags, then other fields, then the entry point at the end, and no entry point of the interpreter. A
  \<open>SetNotIntrinsic\<close> of the runtime rewrites the access flags only.\<close>

definition layout_ok :: "art_layout \<Rightarrow> bool" where
  "layout_ok L \<longleftrightarrow> access_flags_offset L + 4 \<le> entry_point_offset L \<and> entry_point_offset L + 8 = art_method_size L \<and>
    interpreter_entry_point_offset L = 0 \<and> art_method_size L \<le> 2 ^ 32 \<and>
    (\<forall>f. SetNotIntrinsic L = Some f \<longrightarrow> (\<forall>this m. \<exists>flags. f this m = SetAccessFlags L this flags m))"

definition flags_block :: "art_layout \<Rightarrow> u64 \<Rightarrow> u64 set" where
  "flags_block L this = block (this + of_nat (access_flags_offset L)) 4"

definition entry_block :: "art_layout \<Rightarrow> u64 \<Rightarrow> u64 set" where
  "entry_block L this = block (this + of_nat (entry_point_offset L)) 8"

definition method_block :: "art_layout \<Rightarrow> u64 \<Rightarrow> u64 set" where
  "method_block L this = block this (art_method_size L)"

lemma layout_blocks:
  assumes "layout_ok L"
  shows "flags_block L this \<subseteq> method_block L this" "entry_block L this \<subseteq> method_block L this" "flags_block L this \<inter> entry_block L this = {}"
proof -
  have l: "access_flags_offset L + 4 \<le> entry_point_offset L" "entry_point_offset L + 8 = art_method_size L" "art_method_size L \<le> 2 ^ 63"
    using assms by (simp_all add: layout_ok_def)
  show "flags_block L this \<subseteq> method_block L this" "entry_block L this \<subseteq> method_block L this"
    unfolding flags_block_def entry_block_def method_block_def using l by (intro sub_block; simp)+
  show "flags_block L this \<inter> entry_block L this = {}"
    unfolding flags_block_def entry_block_def using l by (intro fields_disjoint) simp_all
qed

lemma SetAccessFlags_other: "x \<notin> flags_block L this \<Longrightarrow> SetAccessFlags L this flags m x = m x"
  by (simp add: SetAccessFlags_def flags_block_def write_bytes_outside)

lemma Get_SetAccessFlags [simp]: "GetAccessFlags L this (SetAccessFlags L this flags m) = flags"
  by (simp add: GetAccessFlags_def SetAccessFlags_def)

lemma GetAccessFlags_cong: "(\<And>x. x \<in> flags_block L this \<Longrightarrow> m x = m' x) \<Longrightarrow> GetAccessFlags L this m = GetAccessFlags L this m'"
  unfolding GetAccessFlags_def flags_block_def by (rule method_load32_cong)

lemma GetEntryPoint_cong: "(\<And>x. x \<in> entry_block L this \<Longrightarrow> m x = m' x) \<Longrightarrow> GetEntryPoint L this m = GetEntryPoint L this m'"
  unfolding GetEntryPoint_def entry_block_def by (rule load64_cong)

lemma SetEntryPoint_other: "layout_ok L \<Longrightarrow> x \<notin> entry_block L this \<Longrightarrow> SetEntryPoint L this v m x = m x"
  by (simp add: SetEntryPoint_def layout_ok_def entry_block_def write_bytes_outside)

lemma Get_SetEntryPoint [simp]: "layout_ok L \<Longrightarrow> GetEntryPoint L this (SetEntryPoint L this v m) = v"
  by (simp add: GetEntryPoint_def SetEntryPoint_def layout_ok_def)

lemma CopyFrom_inside:
  assumes "layout_ok L" "i < art_method_size L"
  shows "CopyFrom L this other m (this + of_nat i) = m (other + of_nat i)"
proof -
  have "unat (of_nat i :: u64) = i" using assms by (intro unat_of_nat64) (simp add: layout_ok_def)
  then show ?thesis using assms(2) by (simp add: CopyFrom_def write_bytes_def read_bytes_def)
qed

lemma CopyFrom_other: "x \<notin> method_block L this \<Longrightarrow> CopyFrom L this other m x = m x"
  by (simp add: CopyFrom_def method_block_def write_bytes_outside)

lemma flag_setters:
  "\<exists>fl. SetNonCompilable L this m = SetAccessFlags L this fl m" "\<exists>fl. ClearFastInterpretFlag L this m = SetAccessFlags L this fl m"
  "\<exists>fl. SetPrivate L this m = SetAccessFlags L this fl m"
  by (auto simp: SetNonCompilable_def ClearFastInterpretFlag_def SetPrivate_def Let_def)

lemma SetNonIntrinsic_flags:
  assumes "layout_ok L"
  shows "SetNonIntrinsic L this m = m \<or> (\<exists>fl. SetNonIntrinsic L this m = SetAccessFlags L this fl m)"
proof (cases "SetNotIntrinsic L")
  case None
  then show ?thesis by (auto simp: SetNonIntrinsic_def)
next
  case (Some f)
  then have "\<exists>fl. f this m = SetAccessFlags L this fl m" using assms by (simp add: layout_ok_def)
  then show ?thesis using Some by (simp add: SetNonIntrinsic_def)
qed

lemma SetNonIntrinsic_other: "layout_ok L \<Longrightarrow> x \<notin> flags_block L this \<Longrightarrow> SetNonIntrinsic L this m x = m x"
  using SetNonIntrinsic_flags [of L this m] by (auto simp: SetAccessFlags_other)

lemma setters_other:
  assumes "x \<notin> flags_block L this"
  shows "SetNonCompilable L this m x = m x" "ClearFastInterpretFlag L this m x = m x" "SetPrivate L this m x = m x"
  using flag_setters [of L this m] SetAccessFlags_other [OF assms] by metis+

text \<open>What the setters do to the flags, bit by bit, and that the visibility is one of the three.\<close>

lemma has_flag_bit: "has_flag (2 ^ n) L this m \<longleftrightarrow> bit (GetAccessFlags L this m) n"
  by (simp add: has_flag_def and_exp_eq_0_iff_not_bit)

lemma visibility_bits:
  "IsPublic L this m \<longleftrightarrow> bit (GetAccessFlags L this m) 0" "IsPrivate L this m \<longleftrightarrow> bit (GetAccessFlags L this m) 1"
  "IsProtected L this m \<longleftrightarrow> bit (GetAccessFlags L this m) 2" "IsStatic L this m \<longleftrightarrow> bit (GetAccessFlags L this m) 3"
  "IsFinal L this m \<longleftrightarrow> bit (GetAccessFlags L this m) 4"
  using has_flag_bit [of 0 L this m] has_flag_bit [of 1 L this m] has_flag_bit [of 2 L this m] has_flag_bit [of 3 L this m] has_flag_bit [of 4 L this m]
  by (simp_all add: IsPublic_def IsPrivate_def IsProtected_def IsStatic_def IsFinal_def kAccPublic_def kAccPrivate_def kAccProtected_def kAccStatic_def
      kAccFinal_def)

lemma make_inheritable_ok:
  assumes "method \<noteq> 0"
  shows "(IsPublic L method (make_inheritable L method m) \<or> IsProtected L method (make_inheritable L method m)) \<and>
    \<not> IsFinal L method (make_inheritable L method m)"
  using assms by (auto simp: make_inheritable_def visibility_bits SetProtected_def SetNonFinal_def Let_def bit_simps kAccPublic_def kAccPrivate_def
      kAccProtected_def kAccFinal_def)

text \<open>The search for the access flags gives the first word of the method that holds them.\<close>

lemma find_flags_found:
  "find_flags n i sz first fl m = Some j \<Longrightarrow> \<exists>q. j = i + 4 * q \<and> j < sz \<and> load32 m (first + of_nat j) = fl"
proof (induction n arbitrary: i)
  case (Suc n)
  show ?case
  proof (cases "load32 m (first + of_nat i) = fl")
    case True
    with Suc.prems have "j = i" "i < sz" by (simp_all split: if_splits)
    with True show ?thesis by (intro exI [of _ 0]) simp
  next
    case False
    with Suc.prems have "find_flags n (i + 4) sz first fl m = Some j" by (simp split: if_splits)
    from Suc.IH [OF this] obtain q where "j = i + 4 + 4 * q" "j < sz" "load32 m (first + of_nat j) = fl" by blast
    then show ?thesis by (intro exI [of _ "Suc q"]) simp
  qed
qed simp

text \<open>On methods with the access flags in the second word, as ART has them, \<open>Init\<close> finds a usable layout.\<close>

lemma flags_offset_4:
  assumes "load32 m (first + 4) = fl" "8 \<le> sz"
  shows "flags_offset (Some fl) sz first m = 4"
proof -
  have n: "sz = Suc (Suc (sz - 2))" using assms(2) by simp
  have "find_flags (Suc (Suc (sz - 2))) 0 sz first fl m \<in> {Some 0, Some 4}" using assms by simp
  then have "find_flags sz 0 sz first fl m \<in> {Some 0, Some 4}" using n by simp
  then show ?thesis by (auto simp: flags_offset_def)
qed

lemma init_layout_ok:
  assumes "24 \<le> sdk" "load32 m (first + 4) = fl" "16 \<le> unat (second - first)" "unat (second - first) \<le> 2 ^ 32"
    and "\<And>f this m. set_not_intrinsic = Some f \<Longrightarrow> \<exists>flags. f this m = write_bytes (this + 4) (le32 flags) m"
  shows "layout_ok (init_layout sdk first second (Some fl) set_not_intrinsic conflict bridge m)"
proof -
  have "flags_offset (Some fl) (unat (second - first)) first m = 4" using flags_offset_4 [OF assms(2)] assms(3) by simp
  then show ?thesis using assms(1,3,4,5) by (auto simp: layout_ok_def init_layout_def Let_def SetAccessFlags_def split: if_splits)
qed

text \<open>After \<open>BackupTo\<close>: the backup is a copy of the method up to the access flags, and the method is unchanged up to its flags.\<close>

lemma BackupTo_effect:
  assumes L: "layout_ok L" and d: "method_block L this \<inter> method_block L backup = {}"
  shows "i < art_method_size L \<Longrightarrow> backup + of_nat i \<notin> flags_block L backup \<Longrightarrow> this + of_nat i \<notin> flags_block L this \<Longrightarrow>
      BackupTo L this backup m (backup + of_nat i) = m (this + of_nat i)"
    and "x \<notin> method_block L backup \<Longrightarrow> x \<notin> flags_block L this \<Longrightarrow> BackupTo L this backup m x = m x"
proof -
  let ?m1 = "SetNonCompilable L this m"
  let ?m2 = "CopyFrom L backup this ?m1"
  let ?m3 = "ClearFastInterpretFlag L this ?m2"
  have r: "BackupTo L this backup m = (if \<not> IsStatic L backup ?m3 then SetPrivate L backup ?m3 else ?m3)"
    by (simp add: BackupTo_def Let_def)
  have fb: "flags_block L this \<subseteq> method_block L this" "flags_block L backup \<subseteq> method_block L backup" using layout_blocks(1) [OF L] by simp_all
  show "BackupTo L this backup m (backup + of_nat i) = m (this + of_nat i)"
    if i: "i < art_method_size L" "backup + of_nat i \<notin> flags_block L backup" "this + of_nat i \<notin> flags_block L this"
  proof -
    have "backup + of_nat i \<in> method_block L backup"
      using i(1) L by (simp add: method_block_def block_def layout_ok_def unat_of_nat64)
    then have "backup + of_nat i \<notin> flags_block L this" using d fb by blast
    then show ?thesis unfolding r using i by (simp add: setters_other CopyFrom_inside [OF L])
  qed
  show "BackupTo L this backup m x = m x" if x: "x \<notin> method_block L backup" "x \<notin> flags_block L this"
  proof -
    have "x \<notin> flags_block L backup" using x fb by blast
    then show ?thesis unfolding r using x by (simp add: setters_other CopyFrom_other)
  qed
qed

end
