(* ===== verification/Art_Trampoline.thy ===== *)
theory Art_Trampoline
  imports Code_Image
begin

text \<open>
  The trampolines of \<open>lsplant.cc\<close> on AArch64: the code that loads the hook method into X0 and jumps to its entry point, patched once with the
  offset of that field, and the pool of pages it is written to. \<open>GenerateTrampolineFor\<close> runs with all other threads suspended (\<open>DoHook\<close>), so a
  call is one transition; a call that would wait for the lock has no value. The answer of \<open>mmap\<close> is an argument. Shown: a processor that calls a
  trampoline arrives at the entry point of the hook method, and trampolines never overwrite each other as long as few enough calls of \<open>mmap\<close> fail.
\<close>

section \<open>The code\<close>

definition RoundUpTo :: "nat \<Rightarrow> nat \<Rightarrow> nat" where
  "RoundUpTo v sz = v + sz - 1 - ((v + sz - 1) AND (sz - 1))"

definition trampoline_code :: "u8 list" where
  "trampoline_code =
    [0x60, 0x00, 0x00, 0x58, 0x10, 0x00, 0x40, 0xf8, 0x00, 0x02, 0x1f, 0xd6, 0x78, 0x56, 0x34, 0x12, 0x78, 0x56, 0x34, 0x12]"

definition entry_point_bit :: nat where "entry_point_bit = 44"
definition art_method_offset :: nat where "art_method_offset = 12"
definition kTrampolineSize :: nat where "kTrampolineSize = RoundUpTo (length trampoline_code) 8"

definition UpdateTrampoline :: "u8 \<Rightarrow> u8 list \<Rightarrow> u8 list" where
  "UpdateTrampoline offset t =
    (let i = entry_point_bit div 8;
         t = t[i := t ! i OR push_bit (entry_point_bit mod 8) offset]
     in t[i + 1 := t ! (i + 1) OR drop_bit (8 - entry_point_bit mod 8) offset])"

section \<open>The pool\<close>

record tpool =
  trampoline_pool :: u64
  trampoline_lock :: bool
  tmem :: memory

definition tpool_init :: "memory \<Rightarrow> tpool" where
  "tpool_init m = \<lparr>trampoline_pool = 0, trampoline_lock = False, tmem = m\<rparr>"

text \<open>The low bits of the pool word count the trampolines of the page, 14 bits with pages of 16 KiB and 12 bits otherwise.\<close>

definition count_mask :: "u64 \<Rightarrow> u64" where
  "count_mask kPageSize = (if kPageSize = 16384 then 0x3FFF else 0xFFF)"

definition write_trampoline :: "u8 list \<Rightarrow> u64 \<Rightarrow> u64 \<Rightarrow> memory \<Rightarrow> memory" where
  "write_trampoline t address hook m =
    write_bytes (address + of_nat art_method_offset) (le64 hook) (write_bytes address t m)"

definition place_trampoline :: "u8 list \<Rightarrow> u64 \<Rightarrow> u64 \<Rightarrow> u64 \<Rightarrow> tpool \<Rightarrow> u64 \<times> tpool" where
  "place_trampoline t hook address count p =
    (let address = address + count * of_nat kTrampolineSize
     in (address, p\<lparr>tmem := write_trampoline t address hook (tmem p)\<rparr>))"

definition GenerateTrampolineFor :: "u64 \<Rightarrow> u8 list \<Rightarrow> u64 option \<Rightarrow> u64 \<Rightarrow> tpool \<Rightarrow> (u64 \<times> tpool) option" where
  "GenerateTrampolineFor kPageSize t mmap hook p =
    (let tl = trampoline_pool p;
         p = p\<lparr>trampoline_pool := tl + 1\<rparr>;
         count = tl AND count_mask kPageSize;
         address = tl AND NOT (kPageSize - 1)
     in if address = 0 \<or> kPageSize div of_nat kTrampolineSize \<le> count then
          if trampoline_lock p then None
          else
            case mmap of
              None \<Rightarrow> Some (0, p)
            | Some page \<Rightarrow>
                Some (place_trampoline t hook page 0
                  (p\<lparr>trampoline_pool := (page AND NOT (count_mask kPageSize)) OR 1\<rparr>))
        else Some (place_trampoline t hook address count p))"

text \<open>A sequence of calls, each with the answer that \<open>mmap\<close> would give it.\<close>

fun generate_all :: "u64 \<Rightarrow> u8 list \<Rightarrow> (u64 option \<times> u64) list \<Rightarrow> tpool \<Rightarrow> (u64 list \<times> tpool) option" where
  "generate_all ps t [] p = Some ([], p)"
| "generate_all ps t ((answer, hook) # calls) p =
    do { (a, p) \<leftarrow> GenerateTrampolineFor ps t answer hook p;
         (as, p) \<leftarrow> generate_all ps t calls p;
         Some (a # as, p) }"

section \<open>Executing a trampoline\<close>

text \<open>The bytes of the trampoline for a method, and LDUR (64 bit, unscaled offset), which the instruction subset of the reference semantics leaves to
  its parameter.\<close>

definition trampoline_bytes :: "u8 \<Rightarrow> u64 \<Rightarrow> u8 list" where
  "trampoline_bytes offset hook = take 12 (UpdateTrampoline offset trampoline_code) @ le64 hook"

definition executes_ldur :: "(u32 \<Rightarrow> cpu \<Rightarrow> cpu) \<Rightarrow> bool" where
  "executes_ldur oth \<longleftrightarrow> (\<forall>w s. fld 31 21 w = 1986 \<and> fld 11 10 w = 0 \<and> fld 9 5 w \<noteq> 31 \<longrightarrow>
     oth w s = next_pc (xset (fld 4 0 w) (load64 (cmem s) (xget s (fld 9 5 w) + word_of_int (sfld 20 12 w))) s))"

lemma kTrampolineSize_val [simp]: "kTrampolineSize = 24"
  by (simp add: kTrampolineSize_def RoundUpTo_def trampoline_code_def)

lemma updated_code:
  "UpdateTrampoline offset trampoline_code =
    [0x60, 0x00, 0x00, 0x58, 0x10, push_bit 4 offset, 0x40 OR drop_bit 4 offset, 0xf8, 0x00, 0x02, 0x1f, 0xd6,
     0x78, 0x56, 0x34, 0x12, 0x78, 0x56, 0x34, 0x12]"
  by (simp add: UpdateTrampoline_def trampoline_code_def entry_point_bit_def)

lemma length_updated [simp]: "length (UpdateTrampoline offset trampoline_code) = 20"
  by (simp add: updated_code)

lemma length_trampoline_bytes [simp]: "length (trampoline_bytes offset hook) = 20"
  by (simp add: trampoline_bytes_def)

definition ldur_word :: "u8 \<Rightarrow> u32" where
  "ldur_word offset = 0xF8400010 OR push_bit 12 (ucast offset)"

lemma ldur_bytes: "of_le32 0x10 (push_bit 4 offset) (0x40 OR drop_bit 4 offset) 0xf8 = ldur_word offset"
  unfolding word32_eq_iff all_less_32 of_le32_def ldur_word_def by (simp add: bit_simps)

lemma u8_high: "8 \<le> n \<Longrightarrow> \<not> bit (x :: u8) n"
  by (simp add: bit_simps impossible_bit)

lemma fld_zero: "fld hi lo w = 0 \<longleftrightarrow> take_bit (hi - lo + 1) (drop_bit lo w) = 0"
  by (simp add: fld_def unat_eq_0)

lemma ldur_fields:
  "fld 31 21 (ldur_word offset) = 1986" "fld 11 10 (ldur_word offset) = 0" "fld 9 5 (ldur_word offset) = 0" "fld 4 0 (ldur_word offset) = 16"
proof -
  show "fld 31 21 (ldur_word offset) = 1986" "fld 4 0 (ldur_word offset) = 16"
    by (simp_all add: fld_blast ldur_word_def u8_high)
  show "fld 11 10 (ldur_word offset) = 0" "fld 9 5 (ldur_word offset) = 0"
  proof -
    have t: "take_bit 12 (ldur_word offset) = 16" by (simp add: ldur_word_def take_bit_push_bit)
    have "take_bit 2 (drop_bit 10 (ldur_word offset)) = 0" "take_bit 5 (drop_bit 5 (ldur_word offset)) = 0"
      using drop_bit_take_bit [of 10 12 "ldur_word offset"] drop_bit_take_bit [of 5 10 "ldur_word offset"]
        take_bit_take_bit [of 10 12 "ldur_word offset"] by (simp_all add: t)
    then show "fld 11 10 (ldur_word offset) = 0" "fld 9 5 (ldur_word offset) = 0" by (simp_all add: fld_def numeral_2_eq_2)
  qed
qed

lemma ldur_offset: "sfld 20 12 (ldur_word offset) = uint offset"
proof -
  let ?d = "drop_bit 12 (ldur_word offset)"
  have lt: "uint offset < 2 ^ 8" "0 \<le> uint offset" by (rule order_less_le_trans [OF unsigned_less]) simp_all
  have e: "drop_bit 12 (push_bit 12 (ucast offset)) = (ucast offset :: u32)"
  proof (rule bit_eqI)
    fix n
    have "bit offset n \<Longrightarrow> n < 8" using u8_high [of n offset] by (cases "n < 8") simp_all
    then show "bit (drop_bit 12 (push_bit 12 (ucast offset :: u32))) n \<longleftrightarrow> bit (ucast offset :: u32) n" by (auto simp: bit_simps)
  qed
  have "take_bit 9 ?d = take_bit 9 (ucast offset)" by (simp add: ldur_word_def e)
  then have "uint (take_bit 9 ?d) = uint (take_bit 9 (ucast offset :: u32))" by (rule arg_cong)
  also have "\<dots> = take_bit 9 (uint (ucast offset :: u32))" by (rule unsigned_take_bit_eq)
  also have "uint (ucast offset :: u32) = uint offset" using lt by (simp add: unsigned_ucast_eq take_bit_int_eq_self)
  also have "take_bit 9 (uint offset) = uint offset" using lt by (intro take_bit_int_eq_self) simp_all
  finally have t: "take_bit 9 (uint ?d) = uint offset" by (simp only: unsigned_take_bit_eq)
  have "sfld 20 12 (ldur_word offset) = signed_take_bit 8 (take_bit 9 (uint ?d))"
    by (simp add: sfld_def signed_take_bit_take_bit)
  also have "\<dots> = uint offset" unfolding t using lt by (intro signed_take_bit_int_eq_self order_trans [OF _ lt(2)]) simp_all
  finally show ?thesis .
qed

lemma ldur_other: "a64_decode (ldur_word offset) = Other (ldur_word offset)"
  by (simp add: a64_decode_def fld_blast ldur_word_def bit_simps u8_high)

lemma trampoline_words:
  assumes "bytes_at m a (trampoline_bytes offset hook)"
  shows "load32 m a = 0x58000060" "load32 m (a + 4) = ldur_word offset" "load32 m (a + 8) = 0xD61F0200" "load64 m (a + 12) = hook"
proof -
  have b: "m (a + of_nat i) = trampoline_bytes offset hook ! i" if "i < 20" for i
    using assms that by (simp add: bytes_at_def)
  note n = b [unfolded trampoline_bytes_def updated_code]
  show "load32 m a = 0x58000060" using n [of 0] n [of 1] n [of 2] n [of 3] by (simp add: load32_def of_le32_def)
  show "load32 m (a + 4) = ldur_word offset"
    using n [of 4] n [of 5] n [of 6] n [of 7] ldur_bytes [of offset] by (simp add: load32_def add.assoc)
  show "load32 m (a + 8) = 0xD61F0200"
    using n [of 8] n [of 9] n [of 10] n [of 11] by (simp add: load32_def add.assoc of_le32_def)
  have "bytes_at m (a + 12) (le64 hook)"
    using assms by (simp add: trampoline_bytes_def bytes_at_append)
  then have "words_at m (a + 12) [ucast hook, ucast (drop_bit 32 hook)]"
    by (intro words_at_bytes) (simp add: le64_def)
  then show "load64 m (a + 12) = hook" by (simp add: words_at_Cons load64_def join64)
qed

lemma decode_trampoline: "a64_decode 0x58000060 = ILdrLitX 0 12" "a64_decode 0xD61F0200 = IBR 16"
  by (simp_all add: a64_decode_def fld_def sfld_def)

text \<open>A trampoline calls its hook method: a processor that enters a trampoline is, after three instructions, at the address stored at the
  entry-point offset of the method the trampoline was made for, with that method in X0 and nothing else changed but X16.\<close>

lemma trampoline_enters_hook:
  assumes "bytes_at (cmem s) a (trampoline_bytes offset hook)" "pcr s = a" "executes_ldur oth"
  shows "a64_run oth 3 s =
    (let entry = load64 (cmem s) (hook + ucast offset) in goto entry (xset 16 entry (xset 0 hook s)))"
proof -
  note w = trampoline_words [OF assms(1)]
  let ?e = "load64 (cmem s) (hook + ucast offset)"
  have s1: "a64_step oth s = next_pc (xset 0 hook s)"
    using w(1,4) by (simp add: a64_step_def assms(2) decode_trampoline rel_pc_def)
  have "oth (ldur_word offset) t = next_pc (xset 16 (load64 (cmem t) (xget t 0 + word_of_int (uint offset))) t)" for t
    using assms(3) unfolding executes_ldur_def by (auto simp: ldur_fields ldur_offset)
  moreover have "(word_of_int (uint offset) :: u64) = ucast offset" by simp
  ultimately have s2: "a64_step oth (next_pc (xset 0 hook s)) = next_pc (xset 16 ?e (next_pc (xset 0 hook s)))"
    using w(2) by (simp add: a64_step_def assms(2) ldur_other)
  have s3: "a64_step oth (next_pc (xset 16 ?e (next_pc (xset 0 hook s)))) = goto ?e (xset 16 ?e (xset 0 hook s))"
    using w(3) by (simp add: a64_step_def assms(2) decode_trampoline add.assoc goto_def next_pc_def xset_def xget_def)
  show ?thesis using s1 s2 s3 by (simp add: numeral_3_eq_3 Let_def)
qed

section \<open>Trampolines do not overlap\<close>

text \<open>Addresses as a page and an offset into it.\<close>

definition aligned :: "nat \<Rightarrow> u64 \<Rightarrow> bool" where
  "aligned k a \<longleftrightarrow> a AND mask k = 0"

lemma below_64: "(a :: nat) < 2 ^ k \<Longrightarrow> k \<le> 64 \<Longrightarrow> a < 2 ^ 64"
  by (meson order_less_le_trans one_le_numeral power_increasing)

lemma of_nat_mask: "o' < 2 ^ k \<Longrightarrow> k \<le> 64 \<Longrightarrow> (of_nat o' :: u64) AND mask k = of_nat o'"
proof -
  assume o: "o' < 2 ^ k" "k \<le> 64"
  then have "o' < 2 ^ 64" by (rule below_64)
  then show ?thesis
    using o(1) by (simp add: take_bit_eq_mask [symmetric] word_unat_eq_iff unsigned_take_bit_eq unsigned_of_nat take_bit_nat_eq_self)
qed

lemma aligned_bit: "aligned k pg \<Longrightarrow> n < k \<Longrightarrow> k \<le> 64 \<Longrightarrow> \<not> bit pg n"
  unfolding aligned_def by (drule arg_cong [of _ _ "\<lambda>x. bit x n"]) (simp add: bit_simps)

lemma offset_bit: "o' < 2 ^ k \<Longrightarrow> k \<le> n \<Longrightarrow> k \<le> 64 \<Longrightarrow> \<not> bit (of_nat o' :: u64) n"
  by (subst of_nat_mask [of o' k, symmetric]) (simp_all add: bit_simps)

lemma page_add_or:
  assumes "aligned k pg" "o' < 2 ^ k" "k \<le> 64"
  shows "pg + of_nat o' = pg OR of_nat o'"
  by (rule disjunctive_add) (metis aligned_bit offset_bit assms linorder_not_le)

lemma page_offset:
  assumes "aligned k pg" "o' < 2 ^ k" "k \<le> 64"
  shows "(pg + of_nat o') AND mask k = of_nat o'" "(pg + of_nat o') AND NOT (mask k) = pg"
proof -
  note b = aligned_bit [OF assms(1) _ assms(3)] offset_bit [OF assms(2) _ assms(3)]
  show "(pg + of_nat o') AND mask k = of_nat o'"
    unfolding page_add_or [OF assms] using b by (intro bit_eqI) (auto simp: bit_simps not_less linorder_not_le [symmetric])
  show "(pg + of_nat o') AND NOT (mask k) = pg"
    unfolding page_add_or [OF assms] using b by (intro bit_eqI) (auto simp: bit_simps not_less linorder_not_le [symmetric])
qed

lemma page_unique:
  assumes "aligned k p" "aligned k q" "a < 2 ^ k" "b < 2 ^ k" "k < 64" "p + of_nat a = q + of_nat b"
  shows "p = q" "a = b"
proof -
  show "p = q" using page_offset(2) [OF assms(1,3)] page_offset(2) [OF assms(2,4)] assms(5,6) by simp
  have "(of_nat a :: u64) = of_nat b" using page_offset(1) [OF assms(1,3)] page_offset(1) [OF assms(2,4)] assms(5,6) by simp
  moreover have "a < 2 ^ 64" by (rule below_64 [OF assms(3)]) (use assms(5) in simp)
  moreover have "b < 2 ^ 64" by (rule below_64 [OF assms(4)]) (use assms(5) in simp)
  ultimately show "a = b" by (metis unat_of_nat64)
qed

text \<open>A trampoline is written as one block of 20 bytes.\<close>

lemma write_trampoline_block:
  "write_trampoline (UpdateTrampoline offset trampoline_code) a hook m = write_bytes a (trampoline_bytes offset hook) m"
proof
  fix x
  let ?t = "UpdateTrampoline offset trampoline_code" and ?d = "unat (x - a)"
  have d: "unat (x - (a + 12)) = ?d - 12" if "12 \<le> ?d"
  proof -
    have "x - (a + 12) = (x - a) - 12" by simp
    also have "unat \<dots> = ?d - unat (12 :: u64)" using that by (intro unat_sub) (simp add: word_le_nat_alt)
    finally show ?thesis by simp
  qed
  have n: "\<not> unat (x - (a + 12)) < 8" if "?d < 12"
  proof
    assume l: "unat (x - (a + 12)) < 8"
    define j where "j = unat (x - (a + 12))"
    have "of_nat j = x - (a + 12)" by (simp add: j_def)
    then have "x - a = of_nat (j + 12)" by (simp add: algebra_simps)
    moreover have "unat (of_nat (j + 12) :: u64) = j + 12" using l by (intro unat_of_nat64) (simp add: j_def)
    ultimately have "?d = j + 12" by simp
    with that show False by simp
  qed
  consider "?d < 12" | "12 \<le> ?d" by linarith
  then show "write_trampoline ?t a hook m x = write_bytes a (trampoline_bytes offset hook) m x"
  proof cases
    case 1
    then show ?thesis using n by (simp add: write_trampoline_def write_bytes_def art_method_offset_def trampoline_bytes_def nth_append)
  next
    case 2
    then show ?thesis using d [OF 2]
      by (auto simp: write_trampoline_def write_bytes_def art_method_offset_def trampoline_bytes_def nth_append)
  qed
qed

lemma in_block20: "x \<in> block a 20 \<longleftrightarrow> (\<exists>j < 20. x = a + of_nat j)"
proof
  assume "x \<in> block a 20"
  then show "\<exists>j < 20. x = a + of_nat j" by (intro exI [of _ "unat (x - a)"]) (simp add: block_def)
qed (auto simp: block_def unat_of_nat64)

definition per_page :: "nat \<Rightarrow> nat" where
  "per_page k = 2 ^ k div 24"

definition page_bits :: "nat \<Rightarrow> bool" where
  "page_bits k \<longleftrightarrow> k = 12 \<or> k = 14"

lemma page_bits_facts:
  assumes "page_bits k"
  shows "k < 64" "i < per_page k \<Longrightarrow> j < 24 \<Longrightarrow> 24 * i + j < 2 ^ k" "0 < per_page k"
    "count_mask (2 ^ k) = mask k" "(2 ^ k - 1 :: u64) = mask k" "(2 ^ k :: u64) div 24 = of_nat (per_page k)" "per_page k < 2 ^ k"
  using assms by (auto simp: page_bits_def per_page_def count_mask_def mask_eq_exp_minus_1)

definition slot :: "u64 \<Rightarrow> nat \<Rightarrow> u64" where
  "slot pg i = pg + of_nat (24 * i)"

lemma slot_write:
  assumes k: "page_bits k" "aligned k pg" "aligned k pg'" "i < per_page k" "i' < per_page k" "\<not> (pg = pg' \<and> i = i')"
    and b: "bytes_at m (slot pg i) bs" "length bs = 20" "length bs' = 20"
  shows "bytes_at (write_bytes (slot pg' i') bs' m) (slot pg i) bs"
  unfolding bytes_at_def
proof (intro allI impI)
  fix j assume j: "j < length bs"
  have "slot pg i + of_nat j \<notin> block (slot pg' i') 20"
  proof
    assume "slot pg i + of_nat j \<in> block (slot pg' i') 20"
    then obtain j' where j': "j' < 20" "slot pg i + of_nat j = slot pg' i' + of_nat j'" by (auto simp: in_block20)
    have "pg + of_nat (24 * i + j) = pg' + of_nat (24 * i' + j')" using j'(2) by (simp add: slot_def add.assoc)
    moreover have "24 * i + j < 2 ^ k" "24 * i' + j' < 2 ^ k"
      using page_bits_facts(2) [OF k(1)] k(4,5) j j'(1) b(2) by simp_all
    ultimately have "pg = pg'" "24 * i + j = 24 * i' + j'"
      using page_unique [OF k(2,3)] page_bits_facts(1) [OF k(1)] by blast+
    then show False using k(6) j j'(1) b(2) by presburger
  qed
  then show "write_bytes (slot pg' i') bs' m (slot pg i + of_nat j) = bs ! j"
    using b(1,3) j by (simp add: write_bytes_outside bytes_at_def)
qed

text \<open>The pool after some calls: the pages mapped so far, a bound for the calls of \<open>mmap\<close> that failed, and the trampolines handed out.\<close>

definition slot_of :: "nat \<Rightarrow> u64 set \<Rightarrow> u64 \<Rightarrow> nat \<Rightarrow> u64 \<Rightarrow> bool" where
  "slot_of k P page c a \<longleftrightarrow> (\<exists>pg \<in> P. \<exists>i < per_page k. a = slot pg i \<and> (pg = page \<longrightarrow> i < c))"

definition tp_inv :: "nat \<Rightarrow> u8 \<Rightarrow> u64 set \<Rightarrow> nat \<Rightarrow> (u64 \<times> u64) set \<Rightarrow> tpool \<Rightarrow> bool" where
  "tp_inv k offset P f I p \<longleftrightarrow> \<not> trampoline_lock p \<and> (\<forall>pg \<in> P. aligned k pg \<and> pg \<noteq> 0) \<and>
    (\<exists>page c. trampoline_pool p = page + of_nat c \<and> aligned k page \<and> c \<le> per_page k + f \<and> (page = 0 \<or> page \<in> P) \<and>
      (\<forall>(a, h) \<in> I. slot_of k P page c a)) \<and>
    (\<forall>(a, h) \<in> I. bytes_at (tmem p) a (trampoline_bytes offset h))"

text \<open>Handing out a slot that is not in use keeps what is there.\<close>

lemma place_keeps:
  assumes k: "page_bits k" "aligned k page" "i < per_page k"
    and old: "\<forall>(a, h) \<in> I. \<exists>pg. aligned k pg \<and> (\<exists>j < per_page k. a = slot pg j \<and> \<not> (pg = page \<and> j = i))"
    and bytes: "\<forall>(a, h) \<in> I. bytes_at (tmem p) a (trampoline_bytes offset h)"
    and place: "place_trampoline (UpdateTrampoline offset trampoline_code) hook page (of_nat i) p = (a', p')"
  shows "a' = slot page i" "trampoline_pool p' = trampoline_pool p" "trampoline_lock p' = trampoline_lock p"
    "tmem p' = write_bytes a' (trampoline_bytes offset hook) (tmem p)"
    "\<forall>(a, h) \<in> insert (a', hook) I. bytes_at (tmem p') a (trampoline_bytes offset h)"
proof -
  have a: "a' = slot page i" and p': "p' = p\<lparr>tmem := write_bytes (slot page i) (trampoline_bytes offset hook) (tmem p)\<rparr>"
    using place by (auto simp: place_trampoline_def Let_def slot_def write_trampoline_block mult.commute)
  then show "a' = slot page i" "trampoline_pool p' = trampoline_pool p" "trampoline_lock p' = trampoline_lock p"
    "tmem p' = write_bytes a' (trampoline_bytes offset hook) (tmem p)" by simp_all
  have "bytes_at (tmem p') x (trampoline_bytes offset h)" if xh: "(x, h) \<in> I" for x h
  proof -
    obtain pg j where o: "aligned k pg" "j < per_page k" "x = slot pg j" "\<not> (pg = page \<and> j = i)"
      using bspec [OF old xh] by auto
    have "bytes_at (tmem p) (slot pg j) (trampoline_bytes offset h)" using bspec [OF bytes xh] o(3) by simp
    from slot_write [OF k(1) o(1) k(2) o(2) k(3) o(4) this] show ?thesis unfolding p' o(3) by simp
  qed
  moreover have "bytes_at (tmem p') a' (trampoline_bytes offset hook)" unfolding a p' by (simp add: bytes_at_write)
  ultimately show "\<forall>(a, h) \<in> insert (a', hook) I. bytes_at (tmem p') a (trampoline_bytes offset h)" by auto
qed

lemma slot_of_mono: "slot_of k P page c a \<Longrightarrow> P \<subseteq> P' \<Longrightarrow> c \<le> c' \<Longrightarrow> slot_of k P' page c' a"
  unfolding slot_of_def by (meson order_less_le_trans subsetD)

lemma slot_of_new: "slot_of k P page c a \<Longrightarrow> pg \<notin> P \<Longrightarrow> slot_of k (insert pg P) pg c' a"
  unfolding slot_of_def by blast

lemma tp_invE:
  assumes "tp_inv k offset P f I p"
  obtains page c where "\<not> trampoline_lock p" "\<forall>pg \<in> P. aligned k pg \<and> pg \<noteq> 0" "trampoline_pool p = page + of_nat c" "aligned k page"
    "c \<le> per_page k + f" "page = 0 \<or> page \<in> P" "\<forall>(a, h) \<in> I. slot_of k P page c a"
    "\<forall>(a, h) \<in> I. bytes_at (tmem p) a (trampoline_bytes offset h)"
  using assms unfolding tp_inv_def by blast

lemma tp_invI:
  assumes "\<not> trampoline_lock p" "\<forall>pg \<in> P. aligned k pg \<and> pg \<noteq> 0" "trampoline_pool p = page + of_nat c" "aligned k page"
    "c \<le> per_page k + f" "page = 0 \<or> page \<in> P" "\<forall>(a, h) \<in> I. slot_of k P page c a"
    "\<forall>(a, h) \<in> I. bytes_at (tmem p) a (trampoline_bytes offset h)"
  shows "tp_inv k offset P f I p"
  using assms unfolding tp_inv_def by blast

text \<open>What a call decodes from the pool word.\<close>

lemma pool_word:
  assumes "page_bits k" "aligned k page" "c < 2 ^ k" "trampoline_pool p = page + of_nat c"
  shows "trampoline_pool p AND count_mask (2 ^ k) = of_nat c" "trampoline_pool p AND NOT (2 ^ k - 1) = page"
    "2 ^ k div of_nat kTrampolineSize \<le> (of_nat c :: u64) \<longleftrightarrow> per_page k \<le> c"
proof -
  have k: "k \<le> 64" using page_bits_facts(1) [OF assms(1)] by simp
  show "trampoline_pool p AND count_mask (2 ^ k) = of_nat c" "trampoline_pool p AND NOT (2 ^ k - 1) = page"
    unfolding assms(4) page_bits_facts(4,5) [OF assms(1)] by (rule page_offset [OF assms(2,3) k])+
  have "per_page k < 2 ^ 64" "c < 2 ^ 64"
    using below_64 [OF page_bits_facts(7) [OF assms(1)] k] below_64 [OF assms(3) k] by simp_all
  then show "2 ^ k div of_nat kTrampolineSize \<le> (of_nat c :: u64) \<longleftrightarrow> per_page k \<le> c"
    using page_bits_facts(6) [OF assms(1)] by (simp add: word_le_nat_alt unat_of_nat64)
qed

definition answered :: "nat \<Rightarrow> u64 option \<Rightarrow> bool" where
  "answered k answer \<longleftrightarrow> (case answer of None \<Rightarrow> True | Some pg \<Rightarrow> aligned k pg \<and> pg \<noteq> 0)"

definition failed :: "u64 option \<Rightarrow> nat" where
  "failed answer = (if answer = None then 1 else 0)"

lemma slot_inj:
  assumes "page_bits k" "aligned k p" "aligned k q" "i < per_page k" "j < per_page k" "slot p i = slot q j"
  shows "p = q \<and> i = j"
proof -
  have l: "24 * i < 2 ^ k" "24 * j < 2 ^ k" using page_bits_facts(2) [OF assms(1), of _ 0] assms(4,5) by simp_all
  have k: "k < 64" by (rule page_bits_facts(1) [OF assms(1)])
  have e: "p + of_nat (24 * i) = q + of_nat (24 * j)" using assms(6) by (simp only: slot_def)
  from page_unique [OF assms(2,3) l k e] show ?thesis by simp
qed

lemma slot_nonzero: "page_bits k \<Longrightarrow> aligned k pg \<Longrightarrow> i < per_page k \<Longrightarrow> pg \<noteq> 0 \<Longrightarrow> slot pg i \<noteq> 0"
  using slot_inj [of k pg 0 i 0] page_bits_facts(3) [of k] by (force simp: slot_def aligned_def)

text \<open>Handing out the slot in front of the counter keeps the invariant.\<close>

lemma hand_out:
  assumes k: "page_bits k" and P: "\<forall>pg \<in> P. aligned k pg \<and> pg \<noteq> 0" and pg: "page \<in> P" "i < per_page k"
    and st: "\<not> trampoline_lock p" "trampoline_pool p = page + of_nat (Suc i)"
    and old: "\<forall>(a, h) \<in> I. slot_of k P page i a" and bytes: "\<forall>(a, h) \<in> I. bytes_at (tmem p) a (trampoline_bytes offset h)"
    and place: "place_trampoline (UpdateTrampoline offset trampoline_code) hook page (of_nat i) p = (a', p')"
  shows "tp_inv k offset P f (insert (a', hook) I) p' \<and> a' \<notin> fst ` I \<and> a' \<noteq> 0 \<and>
    tmem p' = write_bytes a' (trampoline_bytes offset hook) (tmem p)"
proof -
  have al: "aligned k page" "page \<noteq> 0" using P pg(1) by auto
  have used: "\<exists>q. aligned k q \<and> (\<exists>j < per_page k. a = slot q j \<and> \<not> (q = page \<and> j = i))" if sl: "slot_of k P page i a" for a
  proof -
    obtain q j where "q \<in> P" "j < per_page k" "a = slot q j" "q = page \<longrightarrow> j < i" using sl unfolding slot_of_def by blast
    then show ?thesis using P by (intro exI [of _ q] conjI exI [of _ j]) auto
  qed
  have old': "\<forall>(a, h) \<in> I. \<exists>q. aligned k q \<and> (\<exists>j < per_page k. a = slot q j \<and> \<not> (q = page \<and> j = i))" using old used by blast
  note pl = place_keeps [OF k al(1) pg(2) old' bytes place]
  have "a' \<noteq> a" if sl: "slot_of k P page i a" for a
  proof
    assume eq: "a' = a"
    obtain q j where q: "aligned k q" "j < per_page k" "a = slot q j" "\<not> (q = page \<and> j = i)" using used [OF sl] by blast
    have "slot q j = slot page i" by (simp only: q(3) [symmetric] eq [symmetric] pl(1))
    from slot_inj [OF k q(1) al(1) q(2) pg(2) this] q(4) show False by blast
  qed
  then have n: "a' \<notin> fst ` I" using old by force
  have "slot_of k P page (Suc i) a'" unfolding pl(1) slot_of_def using pg by blast
  moreover have "slot_of k P page (Suc i) a" if "slot_of k P page i a" for a by (rule slot_of_mono [OF that]) simp_all
  ultimately have s: "\<forall>(a, h) \<in> insert (a', hook) I. slot_of k P page (Suc i) a" using old by blast
  have "tp_inv k offset P f (insert (a', hook) I) p'"
    by (rule tp_invI [OF _ P _ al(1) _ _ s pl(5)]) (use st pl(2,3) pg in auto)
  with n slot_nonzero [OF k al(1) pg(2) al(2)] pl(1,4) show ?thesis by simp
qed

lemma fresh_word: "page_bits k \<Longrightarrow> aligned k pg \<Longrightarrow> (pg AND NOT (count_mask (2 ^ k))) OR 1 = pg + of_nat (Suc 0)"
proof -
  assume k: "page_bits k" and pg: "aligned k pg"
  have l: "k \<le> 64" "(0::nat) < 2 ^ k" "Suc 0 < 2 ^ k" using k by (auto simp: page_bits_def)
  have "pg AND NOT (mask k) = pg" using page_offset(2) [OF pg l(2,1)] by simp
  then show ?thesis using page_add_or [OF pg l(3,1)] page_bits_facts(4) [OF k] by simp
qed

definition issued :: "u64 \<Rightarrow> u64 \<Rightarrow> (u64 \<times> u64) set \<Rightarrow> (u64 \<times> u64) set" where
  "issued a hook I = (if a = 0 then I else insert (a, hook) I)"

text \<open>One call: in the page of the pool, in a new page, or not at all.\<close>

lemma generate_step:
  assumes k: "page_bits k" and inv: "tp_inv k offset P f I p" and f: "per_page k + f < 2 ^ k"
    and ans: "answered k answer" "set_option answer \<inter> P = {}"
  shows "\<exists>a p'. GenerateTrampolineFor (2 ^ k) (UpdateTrampoline offset trampoline_code) answer hook p = Some (a, p') \<and>
    tp_inv k offset (P \<union> set_option answer) (f + failed answer) (issued a hook I) p' \<and> (a \<noteq> 0 \<longrightarrow> a \<notin> fst ` I) \<and> (answer \<noteq> None \<longrightarrow> a \<noteq> 0) \<and>
    tmem p' = (if a = 0 then tmem p else write_bytes a (trampoline_bytes offset hook) (tmem p))"
proof -
  let ?t = "UpdateTrampoline offset trampoline_code" and ?P = "P \<union> set_option answer"
  from inv obtain page c where i: "\<not> trampoline_lock p" "\<forall>pg \<in> P. aligned k pg \<and> pg \<noteq> 0" "trampoline_pool p = page + of_nat c"
    "aligned k page" "c \<le> per_page k + f" "page = 0 \<or> page \<in> P" "\<forall>(a, h) \<in> I. slot_of k P page c a"
    "\<forall>(a, h) \<in> I. bytes_at (tmem p) a (trampoline_bytes offset h)" by (rule tp_invE)
  have c: "c < 2 ^ k" using i(5) f by simp
  note w = pool_word [OF k i(4) c i(3)]
  have P: "\<forall>pg \<in> ?P. aligned k pg \<and> pg \<noteq> 0" using i(2) ans(1) by (auto simp: answered_def split: option.splits)
  have next_pool: "trampoline_pool p + 1 = page + of_nat (Suc c)" using i(3) by simp
  consider (same) "page \<noteq> 0" "c < per_page k" | (fail) "page = 0 \<or> per_page k \<le> c" "answer = None"
    | (new) pg where "page = 0 \<or> per_page k \<le> c" "answer = Some pg" by (cases answer) force+
  then show ?thesis
  proof cases
    case same
    let ?p = "p\<lparr>trampoline_pool := trampoline_pool p + 1\<rparr>"
    obtain a p' where pl: "place_trampoline ?t hook page (of_nat c) ?p = (a, p')" by force
    have "slot_of k ?P page c a" if "slot_of k P page c a" for a by (rule slot_of_mono [OF that]) simp_all
    then have old: "\<forall>(a, h) \<in> I. slot_of k ?P page c a" using i(7) by blast
    have "tp_inv k offset ?P (f + failed answer) (insert (a, hook) I) p' \<and> a \<notin> fst ` I \<and> a \<noteq> 0 \<and>
        tmem p' = write_bytes a (trampoline_bytes offset hook) (tmem ?p)"
      by (rule hand_out [OF k P _ same(2) _ _ old _ pl]) (use i(1,6,8) same(1) next_pool in auto)
    moreover have "GenerateTrampolineFor (2 ^ k) ?t answer hook p = Some (a, p')"
      unfolding GenerateTrampolineFor_def Let_def w using same pl by simp
    ultimately show ?thesis by (auto simp: issued_def)
  next
    case fail
    let ?p = "p\<lparr>trampoline_pool := trampoline_pool p + 1\<rparr>"
    have "slot_of k ?P page (Suc c) a" if "slot_of k P page c a" for a by (rule slot_of_mono [OF that]) simp_all
    then have old: "\<forall>(a, h) \<in> I. slot_of k ?P page (Suc c) a" using i(7) by blast
    have "tp_inv k offset ?P (f + failed answer) I ?p"
      by (rule tp_invI [OF _ P _ i(4) _ _ old]) (use i next_pool fail(2) in \<open>auto simp: failed_def\<close>)
    moreover have "GenerateTrampolineFor (2 ^ k) ?t answer hook p = Some (0, ?p)"
      unfolding GenerateTrampolineFor_def Let_def w using fail i(1) by simp
    ultimately show ?thesis using fail(2) by (auto simp: issued_def)
  next
    case new
    let ?p = "p\<lparr>trampoline_pool := (pg AND NOT (count_mask (2 ^ k))) OR 1\<rparr>"
    have pg: "aligned k pg" "pg \<in> ?P" "pg \<notin> P" using P new(2) ans(2) by auto
    obtain a p' where pl: "place_trampoline ?t hook pg (of_nat 0) ?p = (a, p')" by force
    have "slot_of k ?P pg 0 a" if "slot_of k P page c a" for a using slot_of_new [OF that pg(3)] new(2) by simp
    then have old: "\<forall>(a, h) \<in> I. slot_of k ?P pg 0 a" using i(7) by blast
    have "tp_inv k offset ?P (f + failed answer) (insert (a, hook) I) p' \<and> a \<notin> fst ` I \<and> a \<noteq> 0 \<and>
        tmem p' = write_bytes a (trampoline_bytes offset hook) (tmem ?p)"
      by (rule hand_out [OF k P pg(2) page_bits_facts(3) [OF k] _ _ old _ pl]) (use i(1,8) fresh_word [OF k pg(1)] in auto)
    moreover have "GenerateTrampolineFor (2 ^ k) ?t answer hook p = Some (a, p')"
      unfolding GenerateTrampolineFor_def Let_def w using new pl i(1) by simp
    ultimately show ?thesis by (auto simp: issued_def)
  qed
qed

definition handed_out :: "u64 list \<Rightarrow> (u64 option \<times> u64) list \<Rightarrow> (u64 \<times> u64) set" where
  "handed_out as calls = {(a, h) \<in> set (zip as (map snd calls)). a \<noteq> 0}"

lemma handed_out_Cons: "handed_out (a # as) (c # calls) = issued a (snd c) (handed_out as calls)"
  by (auto simp: handed_out_def issued_def)

lemma generate_all_inv:
  assumes k: "page_bits k"
  shows "tp_inv k offset P f I p \<Longrightarrow> per_page k + f + sum_list (map (failed \<circ> fst) calls) < 2 ^ k \<Longrightarrow>
    list_all (answered k \<circ> fst) calls \<Longrightarrow> distinct (List.map_filter fst calls) \<Longrightarrow> set (List.map_filter fst calls) \<inter> P = {} \<Longrightarrow>
    \<exists>as p' P' f'. generate_all (2 ^ k) (UpdateTrampoline offset trampoline_code) calls p = Some (as, p') \<and>
      tp_inv k offset P' f' (I \<union> handed_out as calls) p' \<and> distinct (filter (\<lambda>a. a \<noteq> 0) as) \<and> fst ` I \<inter> (set as - {0}) = {} \<and>
      list_all2 (\<lambda>a c. fst c \<noteq> None \<longrightarrow> a \<noteq> 0) as calls"
proof (induction calls arbitrary: P f I p)
  case Nil
  then show ?case by (auto simp: handed_out_def)
next
  case (Cons call calls)
  obtain answer hook where c: "call = (answer, hook)" by force
  let ?t = "UpdateTrampoline offset trampoline_code"
  have f: "per_page k + f < 2 ^ k" "per_page k + (f + failed answer) + sum_list (map (failed \<circ> fst) calls) < 2 ^ k"
    using Cons.prems(2) by (simp_all add: c comp_def add.assoc)
  have ans: "answered k answer" "list_all (answered k \<circ> fst) calls" using Cons.prems(3) by (simp_all add: c comp_def)
  have d: "distinct (List.map_filter fst calls)" "set_option answer \<inter> P = {}"
    "set (List.map_filter fst calls) \<inter> (P \<union> set_option answer) = {}"
    using Cons.prems(4,5) by (auto simp: c map_filter_simps split: option.splits)
  obtain a p1 where g: "GenerateTrampolineFor (2 ^ k) ?t answer hook p = Some (a, p1)"
    "tp_inv k offset (P \<union> set_option answer) (f + failed answer) (issued a hook I) p1" "a \<noteq> 0 \<longrightarrow> a \<notin> fst ` I" "answer \<noteq> None \<longrightarrow> a \<noteq> 0"
    using generate_step [OF k Cons.prems(1) f(1) ans(1) d(2)] by blast
  obtain as p' P' f' where r: "generate_all (2 ^ k) ?t calls p1 = Some (as, p')"
    "tp_inv k offset P' f' (issued a hook I \<union> handed_out as calls) p'" "distinct (filter (\<lambda>a. a \<noteq> 0) as)"
    "fst ` issued a hook I \<inter> (set as - {0}) = {}" "list_all2 (\<lambda>a c. fst c \<noteq> None \<longrightarrow> a \<noteq> 0) as calls"
    using Cons.IH [OF g(2) f(2) ans(2) d(1,3)] by blast
  have u: "I \<union> handed_out (a # as) (call # calls) = issued a hook I \<union> handed_out as calls"
    by (simp add: handed_out_Cons c issued_def)
  show ?case
  proof (intro exI conjI)
    show "generate_all (2 ^ k) ?t (call # calls) p = Some (a # as, p')" using g(1) r(1) by (simp add: c)
    show "tp_inv k offset P' f' (I \<union> handed_out (a # as) (call # calls)) p'" unfolding u by (rule r(2))
    show "distinct (filter (\<lambda>a. a \<noteq> 0) (a # as))" "fst ` I \<inter> (set (a # as) - {0}) = {}"
      using r(3,4) g(3) by (auto simp: issued_def split: if_splits)
    show "list_all2 (\<lambda>a c. fst c \<noteq> None \<longrightarrow> a \<noteq> 0) (a # as) (call # calls)" using g(4) r(5) by (simp add: c)
  qed
qed

lemma tp_inv_init: "tp_inv k offset {} 0 {} (tpool_init m)"
  by (rule tp_invI [of _ _ _ 0 0]) (simp_all add: tpool_init_def aligned_def)

text \<open>Claim C20 (trampolines do not overlap): with pages of 4 or 16 KiB, any sequence of calls from the empty pool returns; where \<open>mmap\<close> answers new
  aligned pages, and fewer of its calls fail than the counter bits leave room for, the addresses handed out are distinct, every call that could map
  a page gets one, and after all the calls each address still holds the whole trampoline of the method it was made for.\<close>

theorem trampolines_disjoint:
  assumes "page_bits k" "list_all (answered k \<circ> fst) calls" "distinct (List.map_filter fst calls)"
    and "per_page k + sum_list (map (failed \<circ> fst) calls) < 2 ^ k"
  shows "\<exists>as p. generate_all (2 ^ k) (UpdateTrampoline offset trampoline_code) calls (tpool_init m) = Some (as, p) \<and>
    distinct (filter (\<lambda>a. a \<noteq> 0) as) \<and> list_all2 (\<lambda>a c. fst c \<noteq> None \<longrightarrow> a \<noteq> 0) as calls \<and>
    (\<forall>(a, hook) \<in> handed_out as calls. bytes_at (tmem p) a (trampoline_bytes offset hook))"
proof -
  obtain as p P f where "generate_all (2 ^ k) (UpdateTrampoline offset trampoline_code) calls (tpool_init m) = Some (as, p)"
    "tp_inv k offset P f ({} \<union> handed_out as calls) p" "distinct (filter (\<lambda>a. a \<noteq> 0) as)"
    "list_all2 (\<lambda>a c. fst c \<noteq> None \<longrightarrow> a \<noteq> 0) as calls"
    using generate_all_inv [OF assms(1) tp_inv_init _ assms(2,3), of offset m] assms(4) by auto
  then show ?thesis unfolding tp_inv_def by auto
qed

theorem trampolines_disjoint_witness:
  "\<exists>p. generate_all 4096 (UpdateTrampoline 24 trampoline_code) [(None, 0x70), (Some 0x5000, 0x100), (None, 0x200)] (tpool_init (\<lambda>_. 0)) =
      Some ([0, 0x5000, 0x5018], p) \<and>
    bytes_at (tmem p) 0x5000 (trampoline_bytes 24 0x100) \<and> bytes_at (tmem p) 0x5018 (trampoline_bytes 24 0x200)"
proof -
  let ?calls = "[(None, 0x70), (Some 0x5000, 0x100), (None, 0x200)] :: (u64 option \<times> u64) list"
  have h: "page_bits 12" "list_all (answered 12 \<circ> fst) ?calls" "distinct (List.map_filter fst ?calls)"
    "per_page 12 + sum_list (map (failed \<circ> fst) ?calls) < 2 ^ 12"
    by (simp_all add: page_bits_def answered_def aligned_def mask_eq_exp_minus_1 map_filter_simps per_page_def failed_def)
  obtain as p where g: "generate_all (2 ^ 12) (UpdateTrampoline 24 trampoline_code) ?calls (tpool_init (\<lambda>_. 0)) = Some (as, p)"
    "\<forall>(a, hook) \<in> handed_out as ?calls. bytes_at (tmem p) a (trampoline_bytes 24 hook)"
    using trampolines_disjoint [OF h, of 24 "\<lambda>_. 0"] by blast
  let ?t = "UpdateTrampoline 24 trampoline_code"
  let ?m = "write_trampoline ?t 0x5000 0x100 (\<lambda>_. 0)"
  note d = GenerateTrampolineFor_def place_trampoline_def count_mask_def Let_def
  have "GenerateTrampolineFor 4096 ?t None 0x70 (tpool_init (\<lambda>_. 0)) = Some (0, \<lparr>trampoline_pool = 1, trampoline_lock = False, tmem = (\<lambda>_. 0)\<rparr>)"
    by (simp add: d tpool_init_def)
  moreover have "GenerateTrampolineFor 4096 ?t (Some 0x5000) 0x100 \<lparr>trampoline_pool = 1, trampoline_lock = False, tmem = (\<lambda>_. 0)\<rparr> =
      Some (0x5000, \<lparr>trampoline_pool = 0x5001, trampoline_lock = False, tmem = ?m\<rparr>)"
    by (simp add: d)
  moreover have "GenerateTrampolineFor 4096 ?t None 0x200 \<lparr>trampoline_pool = 0x5001, trampoline_lock = False, tmem = ?m\<rparr> =
      Some (0x5018, \<lparr>trampoline_pool = 0x5002, trampoline_lock = False, tmem = write_trampoline ?t 0x5018 0x200 ?m\<rparr>)"
    by (simp add: d word_le_nat_alt)
  ultimately have "as = [0, 0x5000, 0x5018]" using g(1) by simp
  with g show ?thesis by (intro exI [of _ p]) (auto simp: handed_out_def)
qed

text \<open>Each failure of \<open>mmap\<close> leaves the counter one higher; when it runs over, the next call takes an address that was never mapped for a page.\<close>

lemma pool_overflow: "GenerateTrampolineFor 4096 t None hook \<lparr>trampoline_pool = 4095, trampoline_lock = False, tmem = m\<rparr> =
    Some (0, \<lparr>trampoline_pool = 4096, trampoline_lock = False, tmem = m\<rparr>)"
  "map_option fst (GenerateTrampolineFor 4096 t None hook \<lparr>trampoline_pool = 4096, trampoline_lock = False, tmem = m\<rparr>) = Some 4096"
  by (simp_all add: GenerateTrampolineFor_def place_trampoline_def count_mask_def Let_def)

end
