(* ===== verification/Art_Hook.thy ===== *)
theory Art_Hook
  imports Art_Method Art_Trampoline
begin

text \<open>
  LSPlant's hooks of Java methods: the tables of \<open>common.cxx\<close>, \<open>DoHook\<close>, \<open>DoUnHook\<close>, \<open>Hook\<close>, \<open>UnHook\<close>, \<open>IsHooked\<close>, \<open>Deoptimize\<close> and
  \<open>GetNativeFunction\<close> of \<open>lsplant.cc\<close>. Null pointers are 0. What the JNI answers, the class built by the DEX
  builder included, comes with a request; functions of the runtime are parameters. \<open>Hook\<close> has no value only where
  \<open>GenerateTrampolineFor\<close> has none.
\<close>

section \<open>State\<close>

record art_config =
  layout :: art_layout
  page_size :: u64
  trampoline :: "u8 list"
  class_def :: "u64 \<Rightarrow> u64"
  method_id :: "u64 \<Rightarrow> u64"
  SetEntryPointsToInterpreter_sym :: "(u64 \<Rightarrow> memory \<Rightarrow> memory) option"
  quick_to_interpreter_bridge :: u64

record art_state =
  pool :: tpool
  hooked_methods :: "u64 \<rightharpoonup> u64 \<times> u64"
  hooked_classes :: "u64 \<rightharpoonup> u64 set"
  deoptimized_methods_set :: "u64 set"
  deoptimized_classes :: "u64 \<rightharpoonup> u64 set"
  backuped_proxy_methods :: "u64 set"
  jit_movements :: "(u64 \<times> u64) list"
  internal_methods :: "u64 list"
  backup_methods :: "u64 \<rightharpoonup> u64 \<rightharpoonup> u64 \<rightharpoonup> u64"

definition art_init :: "memory \<Rightarrow> u64 list \<Rightarrow> art_state" where
  "art_init m ids = \<lparr>pool = tpool_init m, hooked_methods = Map.empty, hooked_classes = Map.empty, deoptimized_methods_set = {},
     deoptimized_classes = Map.empty, backuped_proxy_methods = {}, jit_movements = [], internal_methods = ids,
     backup_methods = Map.empty\<rparr>"

definition amem :: "art_state \<Rightarrow> memory" where
  "amem s = tmem (pool s)"

definition set_amem :: "memory \<Rightarrow> art_state \<Rightarrow> art_state" where
  "set_amem m s = s\<lparr>pool := (pool s)\<lparr>tmem := m\<rparr>\<rparr>"

section \<open>Tables\<close>

definition IsHooked :: "u64 \<Rightarrow> bool \<Rightarrow> art_state \<Rightarrow> u64" where
  "IsHooked art_method including_backup s =
    (case hooked_methods s art_method of
       None \<Rightarrow> 0
     | Some (reflected, other) \<Rightarrow> if including_backup \<or> reflected \<noteq> 0 then other else 0)"

definition IsBackup :: "u64 \<Rightarrow> art_state \<Rightarrow> u64" where
  "IsBackup art_method s =
    (case hooked_methods s art_method of
       None \<Rightarrow> 0
     | Some (reflected, other) \<Rightarrow> if reflected = 0 then other else 0)"

definition IsDeoptimized :: "u64 \<Rightarrow> art_state \<Rightarrow> bool" where
  "IsDeoptimized art_method s \<longleftrightarrow> art_method \<in> deoptimized_methods_set s"

definition GetJitMovements :: "art_state \<Rightarrow> (u64 \<times> u64) list \<times> art_state" where
  "GetJitMovements s = (jit_movements s, s\<lparr>jit_movements := []\<rparr>)"

text \<open>\<open>insert\<close> keeps an entry that is there; \<open>lazy_emplace_l\<close> adds to the set of a class or creates it.\<close>

definition insert_new :: "u64 \<Rightarrow> 'v \<Rightarrow> (u64 \<rightharpoonup> 'v) \<Rightarrow> (u64 \<rightharpoonup> 'v)" where
  "insert_new k v f = (if f k = None then f(k \<mapsto> v) else f)"

definition add_to_class :: "u64 \<Rightarrow> u64 \<Rightarrow> (u64 \<rightharpoonup> u64 set) \<Rightarrow> (u64 \<rightharpoonup> u64 set)" where
  "add_to_class c a f = f(c \<mapsto> (case f c of None \<Rightarrow> {a} | Some A \<Rightarrow> insert a A))"

definition remove_from_class :: "u64 \<Rightarrow> u64 \<Rightarrow> (u64 \<rightharpoonup> u64 set) \<Rightarrow> (u64 \<rightharpoonup> u64 set)" where
  "remove_from_class c a f =
    (case f c of None \<Rightarrow> f | Some A \<Rightarrow> if A - {a} = {} then f(c := None) else f(c \<mapsto> A - {a}))"

definition RecordHooked :: "u64 \<Rightarrow> u64 \<Rightarrow> u64 \<Rightarrow> u64 \<Rightarrow> art_state \<Rightarrow> art_state" where
  "RecordHooked target cls reflected_backup backup s =
    s\<lparr>hooked_classes := add_to_class cls target (hooked_classes s),
      hooked_methods := insert_new backup (0, target) (insert_new target (reflected_backup, backup) (hooked_methods s))\<rparr>"

definition RecordDeoptimized :: "u64 \<Rightarrow> u64 \<Rightarrow> art_state \<Rightarrow> art_state" where
  "RecordDeoptimized cls art_method s =
    s\<lparr>deoptimized_classes := add_to_class cls art_method (deoptimized_classes s),
      deoptimized_methods_set := insert art_method (deoptimized_methods_set s)\<rparr>"

definition RecordJitMovement :: "u64 \<Rightarrow> u64 \<Rightarrow> art_state \<Rightarrow> art_state" where
  "RecordJitMovement target backup s = s\<lparr>jit_movements := jit_movements s @ [(target, backup)]\<rparr>"

section \<open>Hook and unhook\<close>

definition hook_memory :: "art_layout \<Rightarrow> u64 \<Rightarrow> u64 \<Rightarrow> u64 \<Rightarrow> memory \<Rightarrow> memory" where
  "hook_memory L target backup entrypoint m =
    (let m = SetNonIntrinsic L target m;
         m = BackupTo L target backup m;
         m = SetNonCompilable L target m
     in SetEntryPoint L target entrypoint m)"

definition DoHook :: "art_config \<Rightarrow> u64 option \<Rightarrow> u64 \<Rightarrow> u64 \<Rightarrow> u64 \<Rightarrow> tpool \<Rightarrow> (bool \<times> tpool) option" where
  "DoHook C page target hook backup p =
    do { (entrypoint, p) \<leftarrow> GenerateTrampolineFor (page_size C) (trampoline C) page hook p;
         if entrypoint = 0 then Some (False, p)
         else Some (True, p\<lparr>tmem := hook_memory (layout C) target backup entrypoint (tmem p)\<rparr>) }"

definition DoUnHook :: "art_layout \<Rightarrow> u64 \<Rightarrow> u64 \<Rightarrow> memory \<Rightarrow> memory" where
  "DoUnHook L target backup m =
    (let access_flags = GetAccessFlags L target m;
         m = CopyFrom L target backup m
     in SetAccessFlags L target access_flags m)"

text \<open>The fold over the internal methods stops at the first one it replaces by a value that is not null.\<close>

fun propagate :: "u64 \<Rightarrow> u64 \<Rightarrow> u64 list \<Rightarrow> u64 list" where
  "propagate old new [] = []"
| "propagate old new (v # vs) =
    (if v = old then new # (if new \<noteq> 0 then vs else propagate old new vs) else v # propagate old new vs)"

text \<open>A call of \<open>Hook\<close>: which checks of its arguments hold, the method and its ID, and what the JNI, the DEX builder and \<open>mmap\<close> answer.\<close>

record hook_request =
  target_executable :: bool
  callback_executable :: bool
  hooker_instance :: bool
  rq_target :: u64
  rq_target_id :: u64
  is_proxy :: bool
  rq_built :: "(u64 \<times> u64 \<times> u64) option"
  rq_global :: u64
  rq_page :: "u64 option"

definition record_hook :: "art_config \<Rightarrow> hook_request \<Rightarrow> u64 \<Rightarrow> u64 \<Rightarrow> u64 \<Rightarrow> art_state \<Rightarrow> art_state" where
  "record_hook C r hook backup backup_method s =
    (let s = s\<lparr>internal_methods := propagate (rq_target_id r) backup_method (internal_methods s)\<rparr>;
         s = RecordHooked (rq_target r) (class_def C (rq_target r)) (rq_global r) backup s;
         s = (if \<not> is_proxy r then RecordJitMovement (rq_target r) backup s
              else s\<lparr>backuped_proxy_methods := insert backup (backuped_proxy_methods s)\<rparr>)
     in RecordDeoptimized (class_def C hook) backup s)"

definition Hook :: "art_config \<Rightarrow> hook_request \<Rightarrow> art_state \<Rightarrow> (u64 \<times> art_state) option" where
  "Hook C r s =
    (if \<not> target_executable r \<or> \<not> callback_executable r then Some (0, s)
     else if IsHooked (rq_target r) True s \<noteq> 0 then Some (0, s)
     else if \<not> hooker_instance r then Some (0, s)
     else
       case rq_built r of
         None \<Rightarrow> Some (0, s)
       | Some (hook, backup, backup_method) \<Rightarrow>
           do { (ok, p) \<leftarrow> DoHook C (rq_page r) (rq_target r) hook backup (pool s);
                let s = s\<lparr>pool := p\<rparr>;
                if ok then Some (rq_global r, record_hook C r hook backup backup_method s) else Some (0, s) })"

definition UnHook :: "art_config \<Rightarrow> bool \<Rightarrow> u64 \<Rightarrow> u64 \<Rightarrow> art_state \<Rightarrow> bool \<times> art_state" where
  "UnHook C executable target target_id s =
    (if \<not> executable then (False, s)
     else
       case hooked_methods s target of
         None \<Rightarrow> (False, s)
       | Some (reflected_backup, backup) \<Rightarrow>
           if reflected_backup = 0 then (False, s)
           else
             let s = s\<lparr>hooked_methods := (hooked_methods s)(target := None, backup := None),
                       backuped_proxy_methods := backuped_proxy_methods s - {backup},
                       hooked_classes := remove_from_class (class_def C target) target (hooked_classes s)\<rparr>;
                 s = set_amem (DoUnHook (layout C) target backup (amem s)) s
             in (True, s\<lparr>internal_methods := propagate (method_id C reflected_backup) target_id (internal_methods s)\<rparr>))"

definition IsHooked_api :: "bool \<Rightarrow> u64 \<Rightarrow> art_state \<Rightarrow> bool" where
  "IsHooked_api executable art_method s \<longleftrightarrow> executable \<and> IsHooked art_method False s \<noteq> 0"

definition SetEntryPointsToInterpreter :: "art_config \<Rightarrow> u64 \<Rightarrow> memory \<Rightarrow> bool \<times> memory" where
  "SetEntryPointsToInterpreter C art_method m =
    (if IsNative (layout C) art_method m then (False, m)
     else
       case SetEntryPointsToInterpreter_sym C of
         Some f \<Rightarrow> (True, f art_method m)
       | None \<Rightarrow>
           if quick_to_interpreter_bridge C \<noteq> 0 then (True, SetEntryPoint (layout C) art_method (quick_to_interpreter_bridge C) m)
           else (False, m))"

definition Deoptimize :: "art_config \<Rightarrow> bool \<Rightarrow> u64 \<Rightarrow> art_state \<Rightarrow> bool \<times> art_state" where
  "Deoptimize C executable art_method s =
    (if \<not> executable then (False, s)
     else
       let s = RecordDeoptimized (class_def C art_method) art_method s;
           backup = IsHooked art_method False s;
           art_method = (if backup \<noteq> 0 then backup else art_method)
       in if art_method = 0 \<or> IsNative (layout C) art_method (amem s) then (False, s)
          else (case SetEntryPointsToInterpreter C art_method (amem s) of (ok, m) \<Rightarrow> (ok, set_amem m s)))"

definition GetNativeFunction :: "art_config \<Rightarrow> bool \<Rightarrow> u64 \<Rightarrow> art_state \<Rightarrow> u64" where
  "GetNativeFunction C executable art_method s =
    (if \<not> executable \<or> \<not> IsNative (layout C) art_method (amem s) then 0 else GetData (layout C) art_method (amem s))"

end
