(* ===== verification/Art_Runtime.thy ===== *)
theory Art_Runtime
  imports Art_Hook
begin

text \<open>
  The functions of the runtime that LSPlant intercepts so that they do not undo a hook: \<open>instrumentation.cxx\<close>, \<open>class_linker.cxx\<close>, \<open>class.cxx\<close>,
  \<open>jit.cxx\<close>, \<open>jit_code_cache.cxx\<close> and \<open>jni_id_manager.cxx\<close>. The intercepted function itself is the argument \<open>orig\<close>. Hash maps are
  visited by increasing address; the order matters only where two threads have saved the same method.
\<close>

section \<open>Instrumentation\<close>

definition MaybeUseBackupMethod :: "art_config \<Rightarrow> u64 \<Rightarrow> u64 \<Rightarrow> art_state \<Rightarrow> u64" where
  "MaybeUseBackupMethod C art_method quick_code s =
    (let backup = IsHooked art_method False s
     in if backup \<noteq> 0 \<and> GetEntryPoint (layout C) art_method (amem s) \<noteq> quick_code then backup else art_method)"

definition UpdateMethodsCodeToInterpreterEntryPoint :: "art_config \<Rightarrow> (u64 \<Rightarrow> memory \<Rightarrow> memory) \<Rightarrow> u64 \<Rightarrow> art_state \<Rightarrow> art_state" where
  "UpdateMethodsCodeToInterpreterEntryPoint C orig art_method s =
    (if IsDeoptimized art_method s then s else set_amem (orig (MaybeUseBackupMethod C art_method 0 s) (amem s)) s)"

definition InitializeMethodsCode :: "art_config \<Rightarrow> (u64 \<Rightarrow> u64 \<Rightarrow> memory \<Rightarrow> memory) \<Rightarrow> u64 \<Rightarrow> u64 \<Rightarrow> art_state \<Rightarrow> art_state" where
  "InitializeMethodsCode C orig art_method quick_code s =
    (if IsDeoptimized art_method s then s else set_amem (orig (MaybeUseBackupMethod C art_method quick_code s) quick_code (amem s)) s)"

definition ReinitializeMethodsCode :: "art_config \<Rightarrow> (u64 \<Rightarrow> memory \<Rightarrow> memory) \<Rightarrow> u64 \<Rightarrow> art_state \<Rightarrow> art_state" where
  "ReinitializeMethodsCode C orig art_method s =
    (if IsDeoptimized art_method s then s else set_amem (orig (MaybeUseBackupMethod C art_method 0 s) (amem s)) s)"

section \<open>Class linker\<close>

definition ShouldUseInterpreterEntrypoint :: "(u64 \<Rightarrow> u64 \<Rightarrow> bool) \<Rightarrow> u64 \<Rightarrow> u64 \<Rightarrow> art_state \<Rightarrow> bool" where
  "ShouldUseInterpreterEntrypoint orig art_method quick_code s =
    (if quick_code \<noteq> 0 \<and> IsHooked art_method False s \<noteq> 0 then False else orig art_method quick_code)"

definition MayGetBackup :: "u64 \<Rightarrow> art_state \<Rightarrow> u64" where
  "MayGetBackup m s = (let backup = IsHooked m False s in if backup \<noteq> 0 then backup else m)"

definition RegisterNative :: "(u64 \<Rightarrow> u64 \<Rightarrow> memory \<Rightarrow> memory) \<Rightarrow> u64 \<Rightarrow> u64 \<Rightarrow> art_state \<Rightarrow> art_state" where
  "RegisterNative orig m native_method s = set_amem (orig (MayGetBackup m s) native_method (amem s)) s"

definition UnregisterNative :: "(u64 \<Rightarrow> memory \<Rightarrow> memory) \<Rightarrow> u64 \<Rightarrow> art_state \<Rightarrow> art_state" where
  "UnregisterNative orig m s = set_amem (orig (MayGetBackup m s) (amem s)) s"

section \<open>Class initialisation\<close>

definition class_methods :: "u64 \<Rightarrow> (u64 \<rightharpoonup> u64 set) \<Rightarrow> u64 set" where
  "class_methods c f = (case f c of None \<Rightarrow> {} | Some A \<Rightarrow> A)"

definition static_methods :: "art_config \<Rightarrow> u64 \<Rightarrow> art_state \<Rightarrow> u64 set" where
  "static_methods C c s =
    {a \<in> class_methods c (hooked_classes s) \<union> class_methods c (deoptimized_classes s). IsStatic (layout C) a (amem s)}"

definition BackupClassMethods :: "art_config \<Rightarrow> u64 \<Rightarrow> u64 \<Rightarrow> art_state \<Rightarrow> art_state" where
  "BackupClassMethods C c self s =
    (if c = 0 \<or> static_methods C c s = {} then s
     else
       let out = (\<lambda>a. if a \<in> static_methods C c s then Some (GetEntryPoint (layout C) a (amem s)) else None);
           classes = (case backup_methods s self of None \<Rightarrow> Map.empty | Some f \<Rightarrow> f)
       in s\<lparr>backup_methods := (backup_methods s)(self \<mapsto> insert_new c out classes)\<rparr>)"

definition initialized_status :: "nat \<Rightarrow> nat" where
  "initialized_status sdk = (if 30 \<le> sdk then 15 else if 28 \<le> sdk then 14 else if sdk = 27 then 11 else 10)"

definition SetClassStatus :: "art_config \<Rightarrow> nat \<Rightarrow> (art_state \<Rightarrow> art_state) \<Rightarrow> u64 \<Rightarrow> nat \<Rightarrow> u64 \<Rightarrow> art_state \<Rightarrow> art_state" where
  "SetClassStatus C sdk orig c new_status self s =
    orig (if new_status = initialized_status sdk then BackupClassMethods C c self s else s)"

text \<open>\<open>merge\<close> keeps the entries that are there.\<close>

definition merge_all :: "(u64 \<rightharpoonup> u64) list \<Rightarrow> (u64 \<rightharpoonup> u64)" where
  "merge_all fs = fold (\<lambda>f acc. f ++ acc) fs Map.empty"

definition without_class :: "u64 \<Rightarrow> (u64 \<rightharpoonup> u64 \<rightharpoonup> u64) option \<Rightarrow> (u64 \<rightharpoonup> u64 \<rightharpoonup> u64) option" where
  "without_class c f =
    (case f of None \<Rightarrow> None | Some f \<Rightarrow> if dom f - {c} = {} then None else Some (f(c := None)))"

definition PopBackup :: "u64 \<Rightarrow> u64 \<Rightarrow> art_state \<Rightarrow> (u64 \<rightharpoonup> u64) \<times> art_state" where
  "PopBackup c self s =
    (let bm = backup_methods s
     in if c \<noteq> 0 then
          (merge_all (List.map_filter (\<lambda>t. Option.bind (bm t) (\<lambda>f. f c)) (sorted_list_of_set (dom bm))),
           s\<lparr>backup_methods := (\<lambda>t. without_class c (bm t))\<rparr>)
        else if self \<noteq> 0 then
          (case bm self of
             None \<Rightarrow> (Map.empty, s)
           | Some f \<Rightarrow> (merge_all (List.map_filter f (sorted_list_of_set (dom f))), s\<lparr>backup_methods := bm(self := None)\<rparr>))
        else (Map.empty, s))"

definition restore_method :: "art_config \<Rightarrow> u64 \<Rightarrow> u64 \<Rightarrow> art_state \<Rightarrow> art_state" where
  "restore_method C art_method old_trampoline s =
    (let L = layout C;
         new_trampoline = GetEntryPoint L art_method (amem s);
         s = set_amem (SetEntryPoint L art_method old_trampoline (amem s)) s;
         deoptimized = IsDeoptimized art_method s;
         backup_method = IsHooked art_method False s
     in if backup_method \<noteq> 0 then
          if \<not> deoptimized \<and> new_trampoline \<noteq> old_trampoline
          then set_amem (SetEntryPoint L backup_method new_trampoline (amem s)) s else s
        else if deoptimized then
          if new_trampoline \<noteq> quick_to_interpreter_bridge C \<and> \<not> IsNative L art_method (amem s)
          then set_amem (snd (SetEntryPointsToInterpreter C art_method (amem s))) s else s
        else s)"

definition RestoreBackup :: "art_config \<Rightarrow> u64 \<Rightarrow> u64 \<Rightarrow> art_state \<Rightarrow> art_state" where
  "RestoreBackup C c self s =
    (case PopBackup c self s of (methods, s) \<Rightarrow>
       fold (\<lambda>a. restore_method C a (the (methods a))) (sorted_list_of_set (dom methods)) s)"

definition FixupStaticTrampolines :: "art_config \<Rightarrow> (memory \<Rightarrow> memory) \<Rightarrow> u64 \<Rightarrow> u64 \<Rightarrow> art_state \<Rightarrow> art_state" where
  "FixupStaticTrampolines C orig c self s = RestoreBackup C c self (set_amem (orig (amem s)) s)"

definition MarkVisiblyInitialized :: "art_config \<Rightarrow> (memory \<Rightarrow> memory) \<Rightarrow> u64 \<Rightarrow> art_state \<Rightarrow> art_state" where
  "MarkVisiblyInitialized C orig self s = RestoreBackup C 0 self (set_amem (orig (amem s)) s)"

section \<open>JIT and JNI identifiers\<close>

definition EnqueueOptimizedCompilation :: "(u64 \<Rightarrow> memory \<Rightarrow> memory) \<Rightarrow> u64 \<Rightarrow> art_state \<Rightarrow> art_state" where
  "EnqueueOptimizedCompilation orig m s =
    (let target = IsBackup m s; m = (if target \<noteq> 0 then target else m) in set_amem (orig m (amem s)) s)"

definition AddCompileTask :: "nat \<Rightarrow> (u64 \<Rightarrow> nat \<Rightarrow> bool \<Rightarrow> memory \<Rightarrow> memory) \<Rightarrow> u64 \<Rightarrow> nat \<Rightarrow> bool \<Rightarrow> art_state \<Rightarrow> art_state" where
  "AddCompileTask kOptimized orig m compilation_kind precompile s =
    (let b = IsHooked m False s;
         m = (if compilation_kind = kOptimized \<and> \<not> precompile \<and> b \<noteq> 0 then b else m)
     in set_amem (orig m compilation_kind precompile (amem s)) s)"

definition move_obsolete :: "art_config \<Rightarrow> (u64 \<Rightarrow> u64 \<Rightarrow> memory \<Rightarrow> memory) option \<Rightarrow> u64 \<times> u64 \<Rightarrow> memory \<Rightarrow> memory" where
  "move_obsolete C MoveObsoleteMethod mv m =
    (case mv of (target, backup) \<Rightarrow>
       case MoveObsoleteMethod of
         Some f \<Rightarrow> f target backup m
       | None \<Rightarrow> SetData (layout C) target 0 (SetData (layout C) backup (GetData (layout C) backup m) m))"

definition MoveObsoleteMethods :: "art_config \<Rightarrow> (u64 \<Rightarrow> u64 \<Rightarrow> memory \<Rightarrow> memory) option \<Rightarrow> art_state \<Rightarrow> art_state" where
  "MoveObsoleteMethods C MoveObsoleteMethod s =
    (case GetJitMovements s of (movements, s) \<Rightarrow> set_amem (fold (move_obsolete C MoveObsoleteMethod) movements (amem s)) s)"

definition GarbageCollectCache :: "art_config \<Rightarrow> (u64 \<Rightarrow> u64 \<Rightarrow> memory \<Rightarrow> memory) option \<Rightarrow> (memory \<Rightarrow> memory) \<Rightarrow> art_state \<Rightarrow> art_state" where
  "GarbageCollectCache C MoveObsoleteMethod orig s =
    (let s = MoveObsoleteMethods C MoveObsoleteMethod s in set_amem (orig (amem s)) s)"

definition EncodeGenericId :: "(u64 \<Rightarrow> u64) \<Rightarrow> u64 \<Rightarrow> art_state \<Rightarrow> u64" where
  "EncodeGenericId orig m s = (let target = IsBackup m s in orig (if target \<noteq> 0 then target else m))"

end
