(* ===== verification/Art_Correct.thy ===== *)
theory Art_Correct
  imports Art_Runtime
begin

text \<open>
  LSPlant's method hooks are correct: under any sequence of hooks, unhooks, deoptimisations and updates by the runtime, the tables pair every hooked
  method with its backup, and a call of a hooked method arrives at its own hook method; unhooking restores the method up to its access flags.
\<close>

section \<open>Methods and pages in memory\<close>

text \<open>The methods of the process are disjoint from each other and from the pages that \<open>mmap\<close> hands out. The configuration is the one \<open>Init\<close> computes,
  with the offset of the entry point in the trampoline; the runtime's \<open>SetEntryPointsToInterpreter\<close> writes to its method only.\<close>

definition own_method :: "art_config \<Rightarrow> u64 set \<Rightarrow> (u64 \<Rightarrow> memory \<Rightarrow> memory) \<Rightarrow> bool" where
  "own_method C M f \<longleftrightarrow> (\<forall>a \<in> M. \<forall>m x. x \<notin> method_block (layout C) a \<longrightarrow> f a m x = m x)"

definition art_world :: "art_config \<Rightarrow> nat \<Rightarrow> u64 set \<Rightarrow> u64 set \<Rightarrow> bool" where
  "art_world C k M Pg \<longleftrightarrow> layout_ok (layout C) \<and> page_bits k \<and> page_size C = 2 ^ k \<and> entry_point_offset (layout C) < 256 \<and>
    trampoline C = UpdateTrampoline (of_nat (entry_point_offset (layout C))) trampoline_code \<and>
    (\<forall>f. SetEntryPointsToInterpreter_sym C = Some f \<longrightarrow> own_method C M f) \<and>
    0 \<notin> M \<and> (\<forall>a \<in> M. \<forall>b \<in> M. a \<noteq> b \<longrightarrow> method_block (layout C) a \<inter> method_block (layout C) b = {}) \<and>
    (\<forall>pg \<in> Pg. \<forall>a \<in> M. block pg (2 ^ k) \<inter> method_block (layout C) a = {})"

definition entry_off :: "art_config \<Rightarrow> u8" where
  "entry_off C = of_nat (entry_point_offset (layout C))"

text \<open>The memory changed inside the methods of \<open>A\<close> only.\<close>

definition changed_in :: "art_config \<Rightarrow> u64 set \<Rightarrow> memory \<Rightarrow> memory \<Rightarrow> bool" where
  "changed_in C A m m' \<longleftrightarrow> (\<forall>x. (\<forall>a \<in> A. x \<notin> method_block (layout C) a) \<longrightarrow> m' x = m x)"

lemma changed_in_trans: "changed_in C A m m' \<Longrightarrow> changed_in C B m' m'' \<Longrightarrow> changed_in C (A \<union> B) m m''"
  by (simp add: changed_in_def)

lemma changed_in_refl [simp]: "changed_in C A m m"
  by (simp add: changed_in_def)

lemma changed_in_mono: "changed_in C A m m' \<Longrightarrow> A \<subseteq> B \<Longrightarrow> changed_in C B m m'"
  unfolding changed_in_def by blast

lemma own_method_changes: "own_method C M f \<Longrightarrow> a \<in> M \<Longrightarrow> changed_in C {a} m (f a m)"
  by (simp add: own_method_def changed_in_def)

lemma world_facts:
  assumes "art_world C k M Pg"
  shows "layout_ok (layout C)" "page_bits k" "page_size C = 2 ^ k" "trampoline C = UpdateTrampoline (entry_off C) trampoline_code" "0 \<notin> M"
    "entry_point_offset (layout C) < 256" "\<And>f. SetEntryPointsToInterpreter_sym C = Some f \<Longrightarrow> own_method C M f"
  using assms by (auto simp: art_world_def entry_off_def)

lemma world_disjoint:
  assumes "art_world C k M Pg" "a \<in> M" "b \<in> M" "a \<noteq> b"
  shows "method_block (layout C) a \<inter> method_block (layout C) b = {}"
proof -
  have "\<forall>a \<in> M. \<forall>b \<in> M. a \<noteq> b \<longrightarrow> method_block (layout C) a \<inter> method_block (layout C) b = {}" using assms(1) by (simp add: art_world_def)
  then show ?thesis using assms(2-4) by simp
qed

lemma world_page:
  assumes "art_world C k M Pg" "pg \<in> Pg" "a \<in> M"
  shows "block pg (2 ^ k) \<inter> method_block (layout C) a = {}"
proof -
  have "\<forall>pg \<in> Pg. \<forall>a \<in> M. block pg (2 ^ k) \<inter> method_block (layout C) a = {}" using assms(1) by (simp add: art_world_def)
  then show ?thesis using assms(2,3) by simp
qed

lemma changed_in_entry:
  assumes "art_world C k M Pg" "changed_in C A m m'" "A \<subseteq> M" "t \<in> M" "t \<notin> A"
  shows "GetEntryPoint (layout C) t m' = GetEntryPoint (layout C) t m"
proof (rule GetEntryPoint_cong)
  fix x assume "x \<in> entry_block (layout C) t"
  then have x: "x \<in> method_block (layout C) t" using layout_blocks(2) [OF world_facts(1) [OF assms(1)], of t] by blast
  have "x \<notin> method_block (layout C) a" if "a \<in> A" for a
  proof -
    have "a \<in> M" "a \<noteq> t" using assms(3,5) that by blast+
    then have "method_block (layout C) a \<inter> method_block (layout C) t = {}" by (rule world_disjoint [OF assms(1) _ assms(4)])
    then show ?thesis using x by blast
  qed
  then show "m' x = m x" using assms(2) by (simp add: changed_in_def)
qed

lemma slot_in_page: "page_bits k \<Longrightarrow> i < per_page k \<Longrightarrow> j < 24 \<Longrightarrow> slot pg i + of_nat j \<in> block pg (2 ^ k)"
proof -
  assume h: "page_bits k" "i < per_page k" "j < 24"
  have l: "24 * i + j < 2 ^ k" by (rule page_bits_facts(2) [OF h])
  then have "24 * i + j < 2 ^ 64" using below_64 page_bits_facts(1) [OF h(1)] by (meson less_imp_le_nat)
  then have "unat (of_nat (24 * i + j) :: u64) = 24 * i + j" by (rule unat_of_nat64)
  moreover have "slot pg i + of_nat j - pg = of_nat (24 * i + j)" by (simp add: slot_def)
  ultimately show ?thesis using l unfolding block_def by (simp only: mem_Collect_eq)
qed

lemma tp_inv_memory:
  assumes k: "page_bits k" and inv: "tp_inv k off P f I p" and eq: "\<And>pg x. pg \<in> P \<Longrightarrow> x \<in> block pg (2 ^ k) \<Longrightarrow> m' x = tmem p x"
  shows "tp_inv k off P f I (p\<lparr>tmem := m'\<rparr>)"
proof -
  from inv obtain page c where i: "\<not> trampoline_lock p" "\<forall>pg \<in> P. aligned k pg \<and> pg \<noteq> 0" "trampoline_pool p = page + of_nat c"
    "aligned k page" "c \<le> per_page k + f" "page = 0 \<or> page \<in> P" "\<forall>(a, h) \<in> I. slot_of k P page c a"
    "\<forall>(a, h) \<in> I. bytes_at (tmem p) a (trampoline_bytes off h)" by (rule tp_invE)
  have "bytes_at m' a (trampoline_bytes off h)" if ah: "(a, h) \<in> I" for a h
  proof -
    obtain pg j where s: "pg \<in> P" "j < per_page k" "a = slot pg j" using bspec [OF i(7) ah] by (auto simp: slot_of_def)
    have "m' (a + of_nat n) = tmem p (a + of_nat n)" if "n < 20" for n
      using eq [OF s(1)] slot_in_page [OF k s(2), of n pg] that s(3) by simp
    then show ?thesis using bspec [OF i(8) ah] by (simp add: bytes_at_def)
  qed
  then have "\<forall>(a, h) \<in> I. bytes_at (tmem (p\<lparr>tmem := m'\<rparr>)) a (trampoline_bytes off h)" by auto
  then show ?thesis using i by (intro tp_invI [of _ P k page c]) simp_all
qed

lemma changed_in_pool:
  assumes w: "art_world C k M Pg" and inv: "tp_inv k off P f I p" "P \<subseteq> Pg" and ch: "changed_in C A (tmem p) m'" "A \<subseteq> M"
  shows "tp_inv k off P f I (p\<lparr>tmem := m'\<rparr>)"
proof (rule tp_inv_memory [OF _ inv(1)])
  show "page_bits k" by (rule world_facts(2) [OF w])
  fix pg x assume x: "pg \<in> P" "x \<in> block pg (2 ^ k)"
  have "x \<notin> method_block (layout C) a" if "a \<in> A" for a
    using world_page [OF w, of pg a] x inv(2) ch(2) that by auto
  then show "m' x = tmem p x" using ch(1) by (simp add: changed_in_def)
qed

lemma tp_inv_nonzero:
  assumes "page_bits k" "tp_inv k off P f I p" "(a, h) \<in> I"
  shows "a \<noteq> 0"
proof -
  from assms(2) obtain page c where i: "\<forall>pg \<in> P. aligned k pg \<and> pg \<noteq> 0" "\<forall>(a, h) \<in> I. slot_of k P page c a" by (rule tp_invE)
  obtain pg j where s: "pg \<in> P" "j < per_page k" "a = slot pg j" using bspec [OF i(2) assms(3)] by (auto simp: slot_of_def)
  then show ?thesis using slot_nonzero [OF assms(1) _ s(2)] i(1) by simp
qed

section \<open>The invariant\<close>

text \<open>\<open>H\<close> is the abstract state: the hook method of every hooked method.\<close>

definition art_tables_ok :: "art_config \<Rightarrow> u64 set \<Rightarrow> (u64 \<rightharpoonup> u64) \<Rightarrow> art_state \<Rightarrow> bool" where
  "art_tables_ok C M H s \<longleftrightarrow>
    (\<forall>t h. H t = Some h \<longrightarrow> t \<in> M \<and> h \<in> M \<and>
      (\<exists>r b. hooked_methods s t = Some (r, b) \<and> r \<noteq> 0 \<and> b \<in> M \<and> hooked_methods s b = Some (0, t))) \<and>
    (\<forall>a r b. hooked_methods s a = Some (r, b) \<longrightarrow>
      (if r \<noteq> 0 then H a \<noteq> None else H b \<noteq> None \<and> (\<exists>r'. hooked_methods s b = Some (r', a)))) \<and>
    (\<forall>c. class_methods c (hooked_classes s) = {t \<in> dom H. class_def C t = c})"

definition deopt_ok :: "u64 set \<Rightarrow> art_state \<Rightarrow> bool" where
  "deopt_ok M s \<longleftrightarrow> (\<forall>c. class_methods c (deoptimized_classes s) \<subseteq> M)"

definition art_inv :: "art_config \<Rightarrow> nat \<Rightarrow> u64 set \<Rightarrow> u64 set \<Rightarrow> u64 set \<Rightarrow> nat \<Rightarrow> (u64 \<rightharpoonup> u64) \<Rightarrow> art_state \<Rightarrow> bool" where
  "art_inv C k M Pg P f H s \<longleftrightarrow> P \<subseteq> Pg \<and> art_tables_ok C M H s \<and> backup_methods s = Map.empty \<and> deopt_ok M s \<and>
    (\<exists>I. tp_inv k (entry_off C) P f I (pool s) \<and> (\<forall>t h. H t = Some h \<longrightarrow> (GetEntryPoint (layout C) t (amem s), h) \<in> I))"

lemma tables_target:
  assumes "art_tables_ok C M H s" "H t = Some h"
  obtains r b where "t \<in> M" "h \<in> M" "hooked_methods s t = Some (r, b)" "r \<noteq> 0" "b \<in> M" "hooked_methods s b = Some (0, t)"
  using assms unfolding art_tables_ok_def by blast

lemma tables_entry:
  assumes "art_tables_ok C M H s" "hooked_methods s a = Some (r, b)"
  shows "r \<noteq> 0 \<Longrightarrow> H a \<noteq> None" "r = 0 \<Longrightarrow> H b \<noteq> None \<and> (\<exists>r'. hooked_methods s b = Some (r', a))"
proof -
  have "\<forall>a r b. hooked_methods s a = Some (r, b) \<longrightarrow>
      (if r \<noteq> 0 then H a \<noteq> None else H b \<noteq> None \<and> (\<exists>r'. hooked_methods s b = Some (r', a)))" using assms(1) unfolding art_tables_ok_def by blast
  from this [rule_format, OF assms(2)] show "r \<noteq> 0 \<Longrightarrow> H a \<noteq> None" "r = 0 \<Longrightarrow> H b \<noteq> None \<and> (\<exists>r'. hooked_methods s b = Some (r', a))"
    by simp_all
qed

lemma tables_backup:
  assumes "art_tables_ok C M H s" "hooked_methods s b = Some (0, t)"
  shows "H b = None"
proof (cases "H b")
  case (Some h)
  then obtain r b' where "hooked_methods s b = Some (r, b')" "r \<noteq> 0" using tables_target [OF assms(1)] by metis
  with assms(2) show ?thesis by simp
qed

lemma IsHooked_target:
  assumes "art_tables_ok C M H s" "0 \<notin> M"
  shows "IsHooked a False s \<noteq> 0 \<longleftrightarrow> a \<in> dom H" "IsHooked a False s \<noteq> 0 \<Longrightarrow> IsHooked a False s \<in> M \<and> H (IsHooked a False s) = None"
proof -
  have h: "\<exists>r b. hooked_methods s a = Some (r, b) \<and> r \<noteq> 0 \<and> b \<in> M \<and> hooked_methods s b = Some (0, a)" if "a \<in> dom H"
    using that tables_target [OF assms(1), of a] by blast
  have n: "hooked_methods s a = None \<or> (\<exists>b. hooked_methods s a = Some (0, b))" if "a \<notin> dom H"
    using that tables_entry(1) [OF assms(1), of a] by (cases "hooked_methods s a") (auto simp: domIff)
  show "IsHooked a False s \<noteq> 0 \<longleftrightarrow> a \<in> dom H"
  proof (cases "a \<in> dom H")
    case True
    with h assms(2) show ?thesis by (auto simp: IsHooked_def)
  next
    case False
    with n show ?thesis by (auto simp: IsHooked_def)
  qed
  then show "IsHooked a False s \<noteq> 0 \<Longrightarrow> IsHooked a False s \<in> M \<and> H (IsHooked a False s) = None"
    using h tables_backup [OF assms(1)] by (auto simp: IsHooked_def)
qed

lemma amem_simps [simp]:
  "amem (set_amem m s) = m" "hooked_methods (set_amem m s) = hooked_methods s" "hooked_classes (set_amem m s) = hooked_classes s"
  "backup_methods (set_amem m s) = backup_methods s" "pool (set_amem m s) = (pool s)\<lparr>tmem := m\<rparr>"
  "deoptimized_methods_set (set_amem m s) = deoptimized_methods_set s" "deoptimized_classes (set_amem m s) = deoptimized_classes s"
  "IsHooked a b (set_amem m s) = IsHooked a b s" "IsDeoptimized a (set_amem m s) = IsDeoptimized a s"
  by (simp_all add: amem_def set_amem_def IsHooked_def IsDeoptimized_def)

lemma tables_cong:
  "hooked_methods s' = hooked_methods s \<Longrightarrow> hooked_classes s' = hooked_classes s \<Longrightarrow> art_tables_ok C M H s' = art_tables_ok C M H s"
  by (simp add: art_tables_ok_def)

text \<open>The runtime may change methods as it likes, as long as hooked methods keep their entry points.\<close>

lemma art_inv_entries:
  assumes w: "art_world C k M Pg" and inv: "art_inv C k M Pg P f H s" and ch: "changed_in C M (amem s) m'"
    and e: "\<And>t. t \<in> dom H \<Longrightarrow> GetEntryPoint (layout C) t m' = GetEntryPoint (layout C) t (amem s)"
  shows "art_inv C k M Pg P f H (set_amem m' s)"
proof -
  obtain I where I: "tp_inv k (entry_off C) P f I (pool s)" "\<forall>t h. H t = Some h \<longrightarrow> (GetEntryPoint (layout C) t (amem s), h) \<in> I"
    and P: "P \<subseteq> Pg" "art_tables_ok C M H s" "backup_methods s = Map.empty" "deopt_ok M s" using inv unfolding art_inv_def by blast
  have "tp_inv k (entry_off C) P f I ((pool s)\<lparr>tmem := m'\<rparr>)"
    by (rule changed_in_pool [OF w I(1) P(1) ch [unfolded amem_def] subset_refl])
  moreover have "\<forall>t h. H t = Some h \<longrightarrow> (GetEntryPoint (layout C) t m', h) \<in> I" using I(2) e by (metis domI)
  moreover have "art_tables_ok C M H (set_amem m' s)" using P(2) by (subst tables_cong [of _ s]) simp_all
  moreover have "deopt_ok M (set_amem m' s)" using P(4) by (simp add: deopt_ok_def)
  ultimately show ?thesis using P unfolding art_inv_def by auto
qed

lemma art_inv_memory:
  assumes w: "art_world C k M Pg" and inv: "art_inv C k M Pg P f H s" and ch: "changed_in C A (amem s) m'" "A \<subseteq> M" "A \<inter> dom H = {}"
  shows "art_inv C k M Pg P f H (set_amem m' s)"
proof (rule art_inv_entries [OF w inv])
  show "changed_in C M (amem s) m'" by (rule changed_in_mono [OF ch(1,2)])
  fix t assume t: "t \<in> dom H"
  have "art_tables_ok C M H s" using inv by (simp add: art_inv_def)
  then have "t \<in> M" using t tables_target by blast
  then show "GetEntryPoint (layout C) t m' = GetEntryPoint (layout C) t (amem s)"
    by (rule changed_in_entry [OF w ch(1,2)]) (use t ch(3) in blast)
qed

section \<open>Steps of the runtime\<close>

lemma MaybeUseBackupMethod_0:
  assumes w: "art_world C k M Pg" and inv: "art_inv C k M Pg P f H s" and a: "a \<in> M"
  shows "MaybeUseBackupMethod C a 0 s \<in> M - dom H"
proof -
  have t: "art_tables_ok C M H s" "0 \<notin> M" using inv w by (simp_all add: art_inv_def world_facts)
  note h = IsHooked_target [OF t, of a]
  have "GetEntryPoint (layout C) a (amem s) \<noteq> 0" if "a \<in> dom H"
  proof -
    obtain I h where I: "tp_inv k (entry_off C) P f I (pool s)" "(GetEntryPoint (layout C) a (amem s), h) \<in> I"
      using inv \<open>a \<in> dom H\<close> unfolding art_inv_def by blast
    then show ?thesis using tp_inv_nonzero [OF world_facts(2) [OF w]] by blast
  qed
  then show ?thesis using h a by (cases "a \<in> dom H") (auto simp: MaybeUseBackupMethod_def Let_def domIff)
qed

lemma art_inv_method:
  assumes "art_world C k M Pg" "art_inv C k M Pg P f H s" "own_method C M g" "a \<in> M - dom H"
  shows "art_inv C k M Pg P f H (set_amem (g a (amem s)) s)"
  by (rule art_inv_memory [OF assms(1,2) own_method_changes [OF assms(3)]]) (use assms(4) in auto)

lemma update_step:
  assumes "art_world C k M Pg" "art_inv C k M Pg P f H s" "own_method C M orig" "a \<in> M"
  shows "art_inv C k M Pg P f H (UpdateMethodsCodeToInterpreterEntryPoint C orig a s)" "art_inv C k M Pg P f H (ReinitializeMethodsCode C orig a s)"
  using assms(2) art_inv_method [OF assms(1,2,3) MaybeUseBackupMethod_0 [OF assms(1,2,4)]]
  by (simp_all add: UpdateMethodsCodeToInterpreterEntryPoint_def ReinitializeMethodsCode_def)

text \<open>\<open>InitializeMethodsCode\<close> of the runtime sets the entry point of its method to the given code.\<close>

definition sets_code :: "art_config \<Rightarrow> u64 set \<Rightarrow> (u64 \<Rightarrow> u64 \<Rightarrow> memory \<Rightarrow> memory) \<Rightarrow> bool" where
  "sets_code C M orig \<longleftrightarrow> (\<forall>c. own_method C M (\<lambda>a. orig a c)) \<and> (\<forall>a c m. GetEntryPoint (layout C) a (orig a c m) = c)"

lemma initialize_step:
  assumes w: "art_world C k M Pg" and inv: "art_inv C k M Pg P f H s" and o: "sets_code C M orig" and a: "a \<in> M"
  shows "art_inv C k M Pg P f H (InitializeMethodsCode C orig a c s)"
proof -
  have t: "art_tables_ok C M H s" "0 \<notin> M" using inv w by (simp_all add: art_inv_def world_facts)
  note h = IsHooked_target [OF t, of a]
  have own: "own_method C M (\<lambda>a. orig a c)" using o by (simp add: sets_code_def)
  let ?b = "MaybeUseBackupMethod C a c s"
  have "art_inv C k M Pg P f H (set_amem (orig ?b c (amem s)) s)"
  proof (cases "a \<in> dom H \<and> GetEntryPoint (layout C) a (amem s) = c")
    case True
    then have b: "?b = a" by (simp add: MaybeUseBackupMethod_def Let_def)
    have ch: "changed_in C {a} (amem s) (orig a c (amem s))" by (rule own_method_changes [OF own a])
    show ?thesis unfolding b
    proof (rule art_inv_entries [OF w inv])
      show "changed_in C M (amem s) (orig a c (amem s))" by (rule changed_in_mono [OF ch]) (use a in simp)
      fix u assume u: "u \<in> dom H"
      show "GetEntryPoint (layout C) u (orig a c (amem s)) = GetEntryPoint (layout C) u (amem s)"
      proof (cases "u = a")
        case True
        then show ?thesis using o \<open>a \<in> dom H \<and> GetEntryPoint (layout C) a (amem s) = c\<close> by (simp add: sets_code_def)
      next
        case False
        have "u \<in> M" using u tables_target [OF t(1)] by blast
        with False a show ?thesis using changed_in_entry [OF w ch, of u] by simp
      qed
    qed
  next
    case False
    then have "?b \<in> M - dom H" using h a by (cases "a \<in> dom H") (auto simp: MaybeUseBackupMethod_def Let_def domIff)
    then show ?thesis by (rule art_inv_method [OF w inv own])
  qed
  then show ?thesis using inv by (simp add: InitializeMethodsCode_def)
qed

lemma MayGetBackup_M:
  assumes w: "art_world C k M Pg" and inv: "art_inv C k M Pg P f H s" and a: "a \<in> M"
  shows "MayGetBackup a s \<in> M - dom H"
proof -
  have t: "art_tables_ok C M H s" "0 \<notin> M" using inv w by (simp_all add: art_inv_def world_facts)
  show ?thesis using IsHooked_target [OF t, of a] a by (cases "a \<in> dom H") (auto simp: MayGetBackup_def Let_def domIff)
qed

lemma native_steps:
  assumes w: "art_world C k M Pg" and inv: "art_inv C k M Pg P f H s" and a: "a \<in> M"
  shows "own_method C M (\<lambda>a. reg a n) \<Longrightarrow> art_inv C k M Pg P f H (RegisterNative reg a n s)"
    and "own_method C M unreg \<Longrightarrow> art_inv C k M Pg P f H (UnregisterNative unreg a s)"
  using art_inv_method [OF w inv _ MayGetBackup_M [OF w inv a], of "\<lambda>a. reg a n"] art_inv_method [OF w inv _ MayGetBackup_M [OF w inv a], of unreg]
  by (simp_all add: RegisterNative_def UnregisterNative_def)

lemma interpreter_own: 
  assumes "art_world C k M Pg"
  shows "own_method C M (\<lambda>a m. snd (SetEntryPointsToInterpreter C a m))"
  unfolding own_method_def
proof (intro ballI allI impI)
  fix a m x assume a: "a \<in> M" and x: "x \<notin> method_block (layout C) a"
  have L: "layout_ok (layout C)" by (rule world_facts(1) [OF assms])
  have "x \<notin> entry_block (layout C) a" using x layout_blocks(2) [OF L] by blast
  moreover have "f a m x = m x" if "SetEntryPointsToInterpreter_sym C = Some f" for f
    using world_facts(7) [OF assms that] a x by (simp add: own_method_def)
  ultimately show "snd (SetEntryPointsToInterpreter C a m) x = m x"
    by (auto simp: SetEntryPointsToInterpreter_def SetEntryPoint_other [OF L] split: option.splits)
qed

lemma class_methods_add: "class_methods c (add_to_class c' a f) = (if c = c' then insert a (class_methods c f) else class_methods c f)"
  by (simp add: class_methods_def add_to_class_def split: option.splits)

lemma art_inv_deoptimized: "art_inv C k M Pg P f H s \<Longrightarrow> a \<in> M \<Longrightarrow> art_inv C k M Pg P f H (RecordDeoptimized c a s)"
  by (auto simp: art_inv_def RecordDeoptimized_def art_tables_ok_def amem_def deopt_ok_def class_methods_add)

lemma deoptimize_step:
  assumes w: "art_world C k M Pg" and inv: "art_inv C k M Pg P f H s" and a: "a \<in> M"
  shows "art_inv C k M Pg P f H (snd (Deoptimize C e a s))"
proof -
  let ?s = "RecordDeoptimized (class_def C a) a s"
  have inv': "art_inv C k M Pg P f H ?s" using inv a by (rule art_inv_deoptimized)
  let ?b = "if IsHooked a False ?s \<noteq> 0 then IsHooked a False ?s else a"
  have "?b = MayGetBackup a ?s" by (simp add: MayGetBackup_def Let_def)
  then have b: "?b \<in> M - dom H" using MayGetBackup_M [OF w inv' a] by (simp only:)
  have "art_inv C k M Pg P f H (set_amem (snd (SetEntryPointsToInterpreter C ?b (amem ?s))) ?s)"
    by (rule art_inv_method [OF w inv' interpreter_own [OF w] b])
  then show ?thesis using inv inv' unfolding Deoptimize_def Let_def by (auto split: prod.splits simp del: if_split)
qed

section \<open>Hook and unhook\<close>

text \<open>What hooking does to memory: the backup gets the bytes of the method, and of the method itself only the flags and the entry point change.\<close>

lemma hook_memory_effect:
  assumes L: "layout_ok L" and d: "method_block L t \<inter> method_block L b = {}"
  shows "GetEntryPoint L t (hook_memory L t b e m) = e"
    and "x \<notin> method_block L b \<Longrightarrow> x \<notin> flags_block L t \<Longrightarrow> x \<notin> entry_block L t \<Longrightarrow> hook_memory L t b e m x = m x"
    and "i < art_method_size L \<Longrightarrow> b + of_nat i \<notin> flags_block L b \<Longrightarrow> t + of_nat i \<notin> flags_block L t \<Longrightarrow>
      hook_memory L t b e m (b + of_nat i) = m (t + of_nat i)"
proof -
  let ?m1 = "SetNonIntrinsic L t m"
  let ?m3 = "SetNonCompilable L t (BackupTo L t b ?m1)"
  have h: "hook_memory L t b e m = SetEntryPoint L t e ?m3" by (simp add: hook_memory_def Let_def)
  show "GetEntryPoint L t (hook_memory L t b e m) = e" using L by (simp add: h)
  show "hook_memory L t b e m x = m x" if "x \<notin> method_block L b" "x \<notin> flags_block L t" "x \<notin> entry_block L t"
    using that by (simp add: h SetEntryPoint_other [OF L] setters_other BackupTo_effect(2) [OF L d] SetNonIntrinsic_other [OF L])
  show "hook_memory L t b e m (b + of_nat i) = m (t + of_nat i)"
    if i: "i < art_method_size L" "b + of_nat i \<notin> flags_block L b" "t + of_nat i \<notin> flags_block L t"
  proof -
    have "b + of_nat i \<in> method_block L b" using i(1) L by (simp add: method_block_def block_def layout_ok_def unat_of_nat64)
    then have "b + of_nat i \<notin> method_block L t" using d by blast
    then have "b + of_nat i \<notin> flags_block L t" "b + of_nat i \<notin> entry_block L t" using layout_blocks(1,2) [OF L, of t] by blast+
    then show ?thesis using i by (simp add: h SetEntryPoint_other [OF L] setters_other BackupTo_effect(1) [OF L d] SetNonIntrinsic_other [OF L])
  qed
qed

lemma hook_memory_changes:
  assumes "layout_ok (layout C)" "method_block (layout C) t \<inter> method_block (layout C) b = {}"
  shows "changed_in C {t, b} m (hook_memory (layout C) t b e m)"
  unfolding changed_in_def
proof (intro allI impI)
  fix x assume "\<forall>a \<in> {t, b}. x \<notin> method_block (layout C) a"
  then show "hook_memory (layout C) t b e m x = m x"
    using hook_memory_effect(2) [OF assms] layout_blocks(1,2) [OF assms(1), of t] by blast
qed

text \<open>What a request needs: methods of the process, a new backup, a page that is new if there is one.\<close>

definition good_request :: "nat \<Rightarrow> u64 set \<Rightarrow> u64 set \<Rightarrow> u64 set \<Rightarrow> art_state \<Rightarrow> hook_request \<Rightarrow> bool" where
  "good_request k M Pg P s r \<longleftrightarrow> rq_target r \<in> M \<and> rq_global r \<noteq> 0 \<and> answered k (rq_page r) \<and> set_option (rq_page r) \<subseteq> Pg - P \<and>
    (\<forall>hook backup i. rq_built r = Some (hook, backup, i) \<longrightarrow>
      hook \<in> M \<and> backup \<in> M \<and> backup \<noteq> rq_target r \<and> hooked_methods s backup = None)"

definition after_hook :: "hook_request \<Rightarrow> u64 \<Rightarrow> (u64 \<rightharpoonup> u64) \<Rightarrow> (u64 \<rightharpoonup> u64)" where
  "after_hook r g H = (if g = 0 then H else H(rq_target r \<mapsto> fst (the (rq_built r))))"

lemma not_hooked_None:
  assumes "art_tables_ok C M H s" "0 \<notin> M" "IsHooked t True s = 0"
  shows "hooked_methods s t = None"
proof (cases "hooked_methods s t")
  case (Some rb)
  obtain r b where rb: "rb = (r, b)" by force
  have "b = 0" using assms(3) Some rb by (simp add: IsHooked_def)
  show ?thesis
  proof (cases "r = 0")
    case True
    then obtain h where "H b = Some h" using tables_entry(2) [OF assms(1)] Some rb by blast
    then have "b \<in> M" using tables_target [OF assms(1)] by blast
    then show ?thesis using \<open>b = 0\<close> assms(2) by simp
  next
    case False
    then obtain h where "H t = Some h" using tables_entry(1) [OF assms(1)] Some rb by blast
    then obtain r' b' where "hooked_methods s t = Some (r', b')" "b' \<in> M" using tables_target [OF assms(1)] by metis
    then show ?thesis using Some rb \<open>b = 0\<close> assms(2) by simp
  qed
qed simp

lemma class_methods_remove: "class_methods c (remove_from_class c' a f) = (if c = c' then class_methods c f - {a} else class_methods c f)"
  by (auto simp: class_methods_def remove_from_class_def split: option.splits)

lemma art_tables_okI:
  assumes "\<And>t h. H t = Some h \<Longrightarrow> t \<in> M \<and> h \<in> M \<and>
      (\<exists>r b. hooked_methods s t = Some (r, b) \<and> r \<noteq> 0 \<and> b \<in> M \<and> hooked_methods s b = Some (0, t))"
    and "\<And>a r b. hooked_methods s a = Some (r, b) \<Longrightarrow> r \<noteq> 0 \<Longrightarrow> H a \<noteq> None"
    and "\<And>a b. hooked_methods s a = Some (0, b) \<Longrightarrow> H b \<noteq> None \<and> (\<exists>r'. hooked_methods s b = Some (r', a))"
    and "\<And>c. class_methods c (hooked_classes s) = {t \<in> dom H. class_def C t = c}"
  shows "art_tables_ok C M H s"
  unfolding art_tables_ok_def using assms by auto

lemma tables_classes: "art_tables_ok C M H s \<Longrightarrow> class_methods c (hooked_classes s) = {t \<in> dom H. class_def C t = c}"
  unfolding art_tables_ok_def by blast

lemma tables_hook:
  assumes t: "art_tables_ok C M H s" and new: "hooked_methods s t = None" "hooked_methods s b = None" "t \<noteq> b"
    and M: "t \<in> M" "b \<in> M" "h \<in> M" and g: "g \<noteq> 0"
    and s': "hooked_methods s' = (hooked_methods s)(t \<mapsto> (g, b), b \<mapsto> (0, t))" "hooked_classes s' = add_to_class (class_def C t) t (hooked_classes s)"
  shows "art_tables_ok C M (H(t \<mapsto> h)) s'"
proof (rule art_tables_okI)
  fix u v assume u: "(H(t \<mapsto> h)) u = Some v"
  show "u \<in> M \<and> v \<in> M \<and> (\<exists>r b. hooked_methods s' u = Some (r, b) \<and> r \<noteq> 0 \<and> b \<in> M \<and> hooked_methods s' b = Some (0, u))"
  proof (cases "u = t")
    case True
    then show ?thesis using u M g new(3) by (simp add: s')
  next
    case False
    then have "H u = Some v" using u by simp
    then obtain r b' where o: "u \<in> M" "v \<in> M" "hooked_methods s u = Some (r, b')" "r \<noteq> 0" "b' \<in> M" "hooked_methods s b' = Some (0, u)"
      by (rule tables_target [OF t])
    moreover have "u \<noteq> b" "b' \<noteq> t" "b' \<noteq> b" using o new by auto
    ultimately show ?thesis using False by (simp add: s')
  qed
next
  fix a r c assume "hooked_methods s' a = Some (r, c)" "r \<noteq> 0"
  then show "(H(t \<mapsto> h)) a \<noteq> None" using tables_entry(1) [OF t, of a r c] by (auto simp: s' split: if_splits)
next
  fix a c assume a: "hooked_methods s' a = Some (0, c)"
  show "(H(t \<mapsto> h)) c \<noteq> None \<and> (\<exists>r'. hooked_methods s' c = Some (r', a))"
  proof (cases "a = b")
    case True
    then show ?thesis using a new(3) by (simp add: s')
  next
    case False
    then have "a \<noteq> t" "hooked_methods s a = Some (0, c)" using a g by (auto simp: s' split: if_splits)
    then have o: "H c \<noteq> None" "\<exists>r'. hooked_methods s c = Some (r', a)" using tables_entry(2) [OF t] by blast+
    then have "c \<noteq> t" "c \<noteq> b" using new by auto
    then show ?thesis using o by (simp add: s')
  qed
next
  fix c show "class_methods c (hooked_classes s') = {u \<in> dom (H(t \<mapsto> h)). class_def C u = c}"
    using tables_classes [OF t, of c] by (auto simp: s' class_methods_add)
qed

lemma tables_unhook:
  assumes t: "art_tables_ok C M H s" and m: "hooked_methods s t = Some (g, b)" "g \<noteq> 0"
    and s': "hooked_methods s' = (hooked_methods s)(t := None, b := None)" "hooked_classes s' = remove_from_class (class_def C t) t (hooked_classes s)"
  shows "art_tables_ok C M (H(t := None)) s'"
proof (rule art_tables_okI)
  obtain h where "H t = Some h" using tables_entry(1) [OF t m] by blast
  then have b: "hooked_methods s b = Some (0, t)" using tables_target [OF t] m by (metis option.inject prod.inject)
  have Hb: "H b = None" by (rule tables_backup [OF t b])
  {
    fix u v assume u: "(H(t := None)) u = Some v"
    then have "u \<noteq> t" "H u = Some v" by (auto split: if_splits)
    then obtain r b' where o: "u \<in> M" "v \<in> M" "hooked_methods s u = Some (r, b')" "r \<noteq> 0" "b' \<in> M" "hooked_methods s b' = Some (0, u)"
      using tables_target [OF t] by metis
    have "u \<noteq> b" using o(3,4) b by auto
    moreover have "b' \<noteq> t" using o(6) m by auto
    moreover have "b' \<noteq> b" using o(6) b \<open>u \<noteq> t\<close> by auto
    ultimately show "u \<in> M \<and> v \<in> M \<and> (\<exists>r b. hooked_methods s' u = Some (r, b) \<and> r \<noteq> 0 \<and> b \<in> M \<and> hooked_methods s' b = Some (0, u))"
      using o \<open>u \<noteq> t\<close> by (simp add: s')
  next
    fix a r c assume "hooked_methods s' a = Some (r, c)" "r \<noteq> 0"
    then show "(H(t := None)) a \<noteq> None" using tables_entry(1) [OF t, of a r c] by (auto simp: s' split: if_splits)
  next
    fix a c assume "hooked_methods s' a = Some (0, c)"
    then have a: "a \<noteq> t" "a \<noteq> b" "hooked_methods s a = Some (0, c)" by (auto simp: s' split: if_splits)
    then have o: "H c \<noteq> None" "\<exists>r'. hooked_methods s c = Some (r', a)" using tables_entry(2) [OF t] by blast+
    then have "c \<noteq> t" "c \<noteq> b" using m a Hb by auto
    then show "(H(t := None)) c \<noteq> None \<and> (\<exists>r'. hooked_methods s' c = Some (r', a))" using o by (simp add: s')
  next
    fix c show "class_methods c (hooked_classes s') = {u \<in> dom (H(t := None)). class_def C u = c}"
      using tables_classes [OF t, of c] by (auto simp: s' class_methods_remove)
  }
qed

lemma tp_inv_weaken:
  assumes "tp_inv k off P f I p" "P \<subseteq> P'" "\<forall>pg \<in> P'. aligned k pg \<and> pg \<noteq> 0" "f \<le> f'"
  shows "tp_inv k off P' f' I p"
proof -
  from assms(1) obtain page c where i: "\<not> trampoline_lock p" "\<forall>pg \<in> P. aligned k pg \<and> pg \<noteq> 0" "trampoline_pool p = page + of_nat c"
    "aligned k page" "c \<le> per_page k + f" "page = 0 \<or> page \<in> P" "\<forall>(a, h) \<in> I. slot_of k P page c a"
    "\<forall>(a, h) \<in> I. bytes_at (tmem p) a (trampoline_bytes off h)" by (rule tp_invE)
  have "slot_of k P' page c a" if "slot_of k P page c a" for a by (rule slot_of_mono [OF that assms(2)]) simp
  then have "\<forall>(a, h) \<in> I. slot_of k P' page c a" using i(7) by blast
  then show ?thesis by (intro tp_invI [OF i(1) assms(3) i(3,4) _ _ _ i(8)]) (use i(5,6) assms(2,4) in auto)
qed

lemma art_inv_weaken:
  assumes "art_inv C k M Pg P f H s" "answered k page" "set_option page \<subseteq> Pg"
  shows "art_inv C k M Pg (P \<union> set_option page) (f + failed page) H s"
proof -
  obtain I where I: "tp_inv k (entry_off C) P f I (pool s)" "\<forall>t h. H t = Some h \<longrightarrow> (GetEntryPoint (layout C) t (amem s), h) \<in> I"
    and P: "P \<subseteq> Pg" "art_tables_ok C M H s" "backup_methods s = Map.empty" "deopt_ok M s" using assms(1) unfolding art_inv_def by blast
  have "\<forall>pg \<in> P. aligned k pg \<and> pg \<noteq> 0" using I(1) by (rule tp_invE)
  then have "\<forall>pg \<in> P \<union> set_option page. aligned k pg \<and> pg \<noteq> 0" using assms(2) by (auto simp: answered_def split: option.splits)
  from tp_inv_weaken [OF I(1) _ this, of "f + failed page"] I(2) P assms(3) show ?thesis unfolding art_inv_def by auto
qed

lemma record_hook_fields:
  assumes "hooked_methods s (rq_target r) = None" "hooked_methods s b = None" "rq_target r \<noteq> b"
  shows "hooked_methods (record_hook C r hook b i s) = (hooked_methods s)(rq_target r \<mapsto> (rq_global r, b), b \<mapsto> (0, rq_target r))"
    "hooked_classes (record_hook C r hook b i s) = add_to_class (class_def C (rq_target r)) (rq_target r) (hooked_classes s)"
    "backup_methods (record_hook C r hook b i s) = backup_methods s" "pool (record_hook C r hook b i s) = pool s"
    "deoptimized_classes (record_hook C r hook b i s) = add_to_class (class_def C hook) b (deoptimized_classes s)"
  using assms
  by (auto simp: record_hook_def RecordHooked_def RecordDeoptimized_def RecordJitMovement_def insert_new_def Let_def fun_upd_twist)

text \<open>A new trampoline lies outside every method.\<close>

lemma trampoline_outside:
  assumes w: "art_world C k M Pg" and P: "P \<subseteq> Pg" and tp: "tp_inv k off P f I p" "(e, hook) \<in> I" and a: "a \<in> M" "x \<in> method_block (layout C) a"
  shows "write_bytes e (trampoline_bytes off hook) m x = m x"
proof -
  note k = world_facts(2) [OF w]
  from tp(1) obtain page c where "\<forall>(a, h) \<in> I. slot_of k P page c a" by (rule tp_invE)
  then have "slot_of k P page c e" using tp(2) by auto
  then obtain pg j where pg: "pg \<in> P" "j < per_page k" "e = slot pg j" by (auto simp: slot_of_def)
  have "x \<notin> block e 20"
  proof
    assume "x \<in> block e 20"
    then obtain n where "n < 20" "x = e + of_nat n" by (auto simp: in_block20)
    then have "x \<in> block pg (2 ^ k)" using slot_in_page [OF k pg(2), of n pg] pg(3) by simp
    moreover have "block pg (2 ^ k) \<inter> method_block (layout C) a = {}" by (rule world_page [OF w _ a(1)]) (use pg(1) P in blast)
    ultimately show False using a(2) by blast
  qed
  then show ?thesis by (simp add: write_bytes_outside)
qed

lemma art_invE:
  assumes "art_inv C k M Pg P f H s"
  obtains I where "tp_inv k (entry_off C) P f I (pool s)" "\<forall>t h. H t = Some h \<longrightarrow> (GetEntryPoint (layout C) t (amem s), h) \<in> I"
    "P \<subseteq> Pg" "art_tables_ok C M H s" "backup_methods s = Map.empty" "deopt_ok M s"
  using assms unfolding art_inv_def by blast

text \<open>Writing a trampoline, and then hooking a method with it.\<close>

lemma art_inv_generate:
  assumes w: "art_world C k M Pg" and inv: "art_inv C k M Pg P f H s" and fb: "per_page k + f < 2 ^ k"
    and page: "answered k page" "set_option page \<subseteq> Pg" "set_option page \<inter> P = {}"
  shows "\<exists>e p. GenerateTrampolineFor (page_size C) (trampoline C) page hook (pool s) = Some (e, p) \<and>
    art_inv C k M Pg (P \<union> set_option page) (f + failed page) H (s\<lparr>pool := p\<rparr>) \<and>
    (\<exists>I. tp_inv k (entry_off C) (P \<union> set_option page) (f + failed page) (issued e hook I) p \<and>
      (\<forall>t h. H t = Some h \<longrightarrow> (GetEntryPoint (layout C) t (tmem p), h) \<in> I)) \<and>
    (\<forall>a \<in> M. \<forall>x \<in> method_block (layout C) a. tmem p x = amem s x)"
proof -
  let ?P = "P \<union> set_option page" and ?f = "f + failed page" and ?L = "layout C"
  note wf = world_facts [OF w]
  from inv obtain I where I: "tp_inv k (entry_off C) P f I (pool s)" "\<forall>t h. H t = Some h \<longrightarrow> (GetEntryPoint ?L t (amem s), h) \<in> I"
    "P \<subseteq> Pg" "art_tables_ok C M H s" "backup_methods s = Map.empty" "deopt_ok M s" by (rule art_invE)
  obtain e p where e: "GenerateTrampolineFor (page_size C) (trampoline C) page hook (pool s) = Some (e, p)"
    "tp_inv k (entry_off C) ?P ?f (issued e hook I) p" "tmem p = (if e = 0 then amem s else write_bytes e (trampoline_bytes (entry_off C) hook) (amem s))"
    using generate_step [OF wf(2) I(1) fb page(1,3), of hook] unfolding amem_def wf(3,4) by blast
  have P: "?P \<subseteq> Pg" using I(3) page(2) by blast
  have out: "tmem p x = amem s x" if "a \<in> M" "x \<in> method_block ?L a" for x a
    using trampoline_outside [OF w P e(2) _ that] e(3) by (auto simp: issued_def)
  have entry: "GetEntryPoint ?L u (tmem p) = GetEntryPoint ?L u (amem s)" if "u \<in> M" for u
    by (rule GetEntryPoint_cong) (use out [OF that] layout_blocks(2) [OF wf(1), of u] in blast)
  have "u \<in> M" if "H u = Some v" for u v using tables_target [OF I(4) that] by blast
  then have H: "\<forall>t h. H t = Some h \<longrightarrow> (GetEntryPoint ?L t (tmem p), h) \<in> I" using I(2) entry by simp
  have "art_tables_ok C M H (s\<lparr>pool := p\<rparr>)" using I(4) by (subst tables_cong [of _ s]) simp_all
  moreover have "\<forall>t h. H t = Some h \<longrightarrow> (GetEntryPoint ?L t (tmem p), h) \<in> issued e hook I" using H by (simp add: issued_def)
  moreover have "deopt_ok M (s\<lparr>pool := p\<rparr>)" using I(6) by (simp add: deopt_ok_def)
  ultimately have "art_inv C k M Pg ?P ?f H (s\<lparr>pool := p\<rparr>)" using I(5) P e(2) unfolding art_inv_def by (auto simp: amem_def)
  with e(1,2) H out show ?thesis by blast
qed

lemma art_inv_record:
  assumes w: "art_world C k M Pg" and P: "P \<subseteq> Pg" "art_tables_ok C M H s" "backup_methods s = Map.empty" "deopt_ok M s"
    and tp: "tp_inv k (entry_off C) P f (issued e hook I) p" "\<forall>t h. H t = Some h \<longrightarrow> (GetEntryPoint (layout C) t (tmem p), h) \<in> I" "e \<noteq> 0"
    and new: "hooked_methods s (rq_target r) = None" "hooked_methods s b = None" "rq_target r \<noteq> b"
    and M: "rq_target r \<in> M" "b \<in> M" "hook \<in> M" "rq_global r \<noteq> 0"
  shows "art_inv C k M Pg P f (H(rq_target r \<mapsto> hook))
    (record_hook C r hook b i (s\<lparr>pool := p\<lparr>tmem := hook_memory (layout C) (rq_target r) b e (tmem p)\<rparr>\<rparr>))"
proof -
  let ?t = "rq_target r" and ?L = "layout C"
  let ?m = "hook_memory ?L ?t b e (tmem p)"
  let ?s = "record_hook C r hook b i (s\<lparr>pool := p\<lparr>tmem := ?m\<rparr>\<rparr>)"
  note wf = world_facts [OF w]
  have d: "method_block ?L ?t \<inter> method_block ?L b = {}" by (rule world_disjoint [OF w M(1,2) new(3)])
  have ch: "changed_in C {?t, b} (tmem p) ?m" by (rule hook_memory_changes [OF wf(1) d])
  note fields = record_hook_fields [of "s\<lparr>pool := p\<lparr>tmem := ?m\<rparr>\<rparr>" r b C hook i, simplified, OF new]
  have tab: "art_tables_ok C M (H(?t \<mapsto> hook)) ?s" by (rule tables_hook [OF P(2) new M]) (simp_all add: fields)
  have pool: "tp_inv k (entry_off C) P f (issued e hook I) (p\<lparr>tmem := ?m\<rparr>)"
    by (rule changed_in_pool [OF w tp(1) P(1) ch]) (use M in simp)
  have "(GetEntryPoint ?L u ?m, v) \<in> issued e hook I" if u: "(H(?t \<mapsto> hook)) u = Some v" for u v
  proof (cases "u = ?t")
    case True
    then show ?thesis using u tp(3) by (simp add: hook_memory_effect(1) [OF wf(1) d] issued_def)
  next
    case False
    then have Hu: "H u = Some v" using u by simp
    obtain r' b' where h: "u \<in> M" "hooked_methods s u = Some (r', b')" using tables_target [OF P(2) Hu] by metis
    then have "u \<noteq> b" using new(2) by auto
    then have "GetEntryPoint ?L u ?m = GetEntryPoint ?L u (tmem p)" using changed_in_entry [OF w ch _ h(1)] False M(1,2) by simp
    then show ?thesis using tp(2) Hu by (simp add: issued_def)
  qed
  moreover have "deopt_ok M ?s" using P(4) M(2) by (auto simp: deopt_ok_def fields class_methods_add)
  ultimately show ?thesis using P tab pool unfolding art_inv_def by (auto simp: fields amem_def)
qed

lemma hook_step:
  assumes w: "art_world C k M Pg" and inv: "art_inv C k M Pg P f H s" and fb: "per_page k + f < 2 ^ k" and good: "good_request k M Pg P s r"
  shows "\<exists>g s'. Hook C r s = Some (g, s') \<and>
    art_inv C k M Pg (P \<union> set_option (rq_page r)) (f + failed (rq_page r)) (after_hook r g H) s'"
proof (cases "target_executable r \<and> callback_executable r \<and> IsHooked (rq_target r) True s = 0 \<and> hooker_instance r \<and> rq_built r \<noteq> None")
  case False
  have "answered k (rq_page r)" "set_option (rq_page r) \<subseteq> Pg" using good by (auto simp: good_request_def)
  from art_inv_weaken [OF inv this] have "art_inv C k M Pg (P \<union> set_option (rq_page r)) (f + failed (rq_page r)) (after_hook r 0 H) s"
    by (simp add: after_hook_def)
  moreover have "Hook C r s = Some (0, s)" using False by (cases "rq_built r") (auto simp: Hook_def)
  ultimately show ?thesis by blast
next
  case True
  let ?P = "P \<union> set_option (rq_page r)" and ?f = "f + failed (rq_page r)" and ?t = "rq_target r" and ?L = "layout C"
  obtain hook b i where built: "rq_built r = Some (hook, b, i)" using True by auto
  have gr: "?t \<in> M" "rq_global r \<noteq> 0" "answered k (rq_page r)" "set_option (rq_page r) \<subseteq> Pg" "set_option (rq_page r) \<inter> P = {}"
    "hook \<in> M" "b \<in> M" "?t \<noteq> b" "hooked_methods s b = None"
    using good built by (auto simp: good_request_def)
  obtain e p I where g: "GenerateTrampolineFor (page_size C) (trampoline C) (rq_page r) hook (pool s) = Some (e, p)"
    "art_inv C k M Pg ?P ?f H (s\<lparr>pool := p\<rparr>)" "tp_inv k (entry_off C) ?P ?f (issued e hook I) p"
    "\<forall>t h. H t = Some h \<longrightarrow> (GetEntryPoint ?L t (tmem p), h) \<in> I"
    using art_inv_generate [OF w inv fb gr(3-5), of hook] by blast
  from inv have P: "art_tables_ok C M H s" "backup_methods s = Map.empty" "deopt_ok M s" by (simp_all add: art_inv_def)
  have PP: "?P \<subseteq> Pg" using g(2) by (simp add: art_inv_def)
  have tn: "hooked_methods s ?t = None" using True by (intro not_hooked_None [OF P(1) world_facts(5) [OF w]]) simp
  show ?thesis
  proof (cases "e = 0")
    case e: True
    have "Hook C r s = Some (0, s\<lparr>pool := p\<rparr>)" using True g(1) e by (simp add: Hook_def DoHook_def built Let_def)
    with g(2) show ?thesis by (auto simp: after_hook_def)
  next
    case e: False
    have "Hook C r s = Some (rq_global r, record_hook C r hook b i (s\<lparr>pool := p\<lparr>tmem := hook_memory ?L ?t b e (tmem p)\<rparr>\<rparr>))"
      using True g(1) e by (simp add: Hook_def DoHook_def built Let_def)
    moreover have "after_hook r (rq_global r) H = H(?t \<mapsto> hook)" using gr(2) by (simp add: after_hook_def built)
    ultimately show ?thesis using art_inv_record [OF w PP P g(3,4) e tn gr(9,8,1,7,6,2), of i] by auto
  qed
qed

lemma art_inv_internal [simp]:
  "art_inv C k M Pg P f H (s\<lparr>internal_methods := ids\<rparr>) = art_inv C k M Pg P f H s"
  by (simp add: art_inv_def art_tables_ok_def amem_def deopt_ok_def)

lemma DoUnHook_changes: "layout_ok (layout C) \<Longrightarrow> changed_in C {t} m (DoUnHook (layout C) t b m)"
  using layout_blocks(1) [of "layout C" t]
  by (simp add: changed_in_def DoUnHook_def Let_def subset_iff) (metis SetAccessFlags_other CopyFrom_other)

lemma unhook_step:
  assumes w: "art_world C k M Pg" and inv: "art_inv C k M Pg P f H s" and t: "t \<in> M" and u: "UnHook C e t i s = (ok, s')"
  shows "art_inv C k M Pg P f (if ok then H(t := None) else H) s'"
proof (cases "e \<and> (\<exists>g b. hooked_methods s t = Some (g, b) \<and> g \<noteq> 0)")
  case False
  then have "ok = False \<and> s' = s" using u by (cases "hooked_methods s t") (auto simp: UnHook_def split: if_splits)
  then show ?thesis using inv by simp
next
  case True
  then obtain g b where m: "hooked_methods s t = Some (g, b)" "g \<noteq> 0" by blast
  let ?s = "s\<lparr>hooked_methods := (hooked_methods s)(t := None, b := None), backuped_proxy_methods := backuped_proxy_methods s - {b},
    hooked_classes := remove_from_class (class_def C t) t (hooked_classes s)\<rparr>"
  have s': "ok" "s' = (set_amem (DoUnHook (layout C) t b (amem ?s)) ?s)\<lparr>internal_methods := propagate (method_id C g) i (internal_methods s)\<rparr>"
    using u True m by (auto simp: UnHook_def Let_def set_amem_def)
  from inv obtain I where I: "tp_inv k (entry_off C) P f I (pool s)" "\<forall>t h. H t = Some h \<longrightarrow> (GetEntryPoint (layout C) t (amem s), h) \<in> I"
    "P \<subseteq> Pg" "art_tables_ok C M H s" "backup_methods s = Map.empty" "deopt_ok M s" by (rule art_invE)
  have "art_tables_ok C M (H(t := None)) ?s" by (rule tables_unhook [OF I(4) m]) simp_all
  then have "art_inv C k M Pg P f (H(t := None)) ?s" using I unfolding art_inv_def by (auto simp: amem_def deopt_ok_def)
  from art_inv_memory [OF w this DoUnHook_changes [OF world_facts(1) [OF w]], of t b] t s' show ?thesis by simp
qed

section \<open>Class initialisation\<close>

lemma set_amem_twice [simp]: "set_amem m (set_amem m' s) = set_amem m s" "set_amem (amem s) s = s"
  by (simp_all add: set_amem_def amem_def)

lemma SetEntryPoint_changes: "layout_ok (layout C) \<Longrightarrow> changed_in C {a} m (SetEntryPoint (layout C) a v m)"
  using layout_blocks(2) [of "layout C" a] by (simp add: changed_in_def subset_iff) (metis SetEntryPoint_other)

text \<open>Restoring one method sets its entry point back if it is hooked, and leaves the entry points of the other hooked methods alone.\<close>

lemma restore_method_effect:
  assumes w: "art_world C k M Pg" and t: "art_tables_ok C M H s" and a: "a \<in> M"
  shows "\<exists>m'. restore_method C a old s = set_amem m' s \<and> changed_in C M (amem s) m' \<and>
    (\<forall>u \<in> dom H. GetEntryPoint (layout C) u m' = (if u = a then old else GetEntryPoint (layout C) u (amem s)))"
proof -
  let ?L = "layout C" and ?b = "IsHooked a False s"
  let ?m1 = "SetEntryPoint ?L a old (amem s)" and ?new = "GetEntryPoint ?L a (amem s)"
  note wf = world_facts [OF w]
  have c1: "changed_in C {a} (amem s) ?m1" by (rule SetEntryPoint_changes [OF wf(1)])
  have u: "u \<in> M" if "u \<in> dom H" for u using that tables_target [OF t] by blast
  have e1: "GetEntryPoint ?L u ?m1 = (if u = a then old else GetEntryPoint ?L u (amem s))" if "u \<in> dom H" for u
    using changed_in_entry [OF w c1 _ u [OF that]] a wf(1) by simp
  have two: "changed_in C M (amem s) m2 \<and> (\<forall>u \<in> dom H. GetEntryPoint ?L u m2 = (if u = a then old else GetEntryPoint ?L u (amem s)))"
    if "changed_in C {d} ?m1 m2" "d \<in> M" "d \<notin> dom H" for d m2
    using changed_in_mono [OF changed_in_trans [OF c1 that(1)], of M] a that(2,3) e1 changed_in_entry [OF w that(1) _ u] by fastforce
  have one: "changed_in C M (amem s) ?m1 \<and> (\<forall>u \<in> dom H. GetEntryPoint ?L u ?m1 = (if u = a then old else GetEntryPoint ?L u (amem s)))"
    using changed_in_mono [OF c1, of M] a e1 by simp
  note h = IsHooked_target [OF t wf(5), of a]
  consider (backup) "?b \<noteq> 0" "\<not> IsDeoptimized a s" "?new \<noteq> old"
    | (deopt) "?b = 0" "IsDeoptimized a s" "?new \<noteq> quick_to_interpreter_bridge C" "\<not> IsNative ?L a ?m1"
    | (none) "\<not> (?b \<noteq> 0 \<and> \<not> IsDeoptimized a s \<and> ?new \<noteq> old)"
        "\<not> (?b = 0 \<and> IsDeoptimized a s \<and> ?new \<noteq> quick_to_interpreter_bridge C \<and> \<not> IsNative ?L a ?m1)"
    by blast
  then show ?thesis
  proof cases
    case backup
    let ?m2 = "SetEntryPoint ?L ?b ?new ?m1"
    have "restore_method C a old s = set_amem ?m2 s" using backup by (simp add: restore_method_def Let_def)
    moreover note two [OF SetEntryPoint_changes [OF wf(1)], of ?b]
    ultimately show ?thesis using h backup(1) by (intro exI [of _ ?m2]) (auto simp: domIff)
  next
    case deopt
    let ?m2 = "snd (SetEntryPointsToInterpreter C a ?m1)"
    have "restore_method C a old s = set_amem ?m2 s" using deopt by (simp add: restore_method_def Let_def)
    moreover note two [OF own_method_changes [OF interpreter_own [OF w] a] a]
    ultimately show ?thesis using h deopt(1) by (intro exI [of _ ?m2]) auto
  next
    case none
    then have "restore_method C a old s = set_amem ?m1 s" by (cases "?b = 0"; cases "IsDeoptimized a s") (auto simp: restore_method_def Let_def)
    then show ?thesis using one by blast
  qed
qed

lemma restore_all_effect:
  assumes w: "art_world C k M Pg"
  shows "art_tables_ok C M H s \<Longrightarrow> set as \<subseteq> M \<Longrightarrow> \<exists>m'. fold (\<lambda>a. restore_method C a (old a)) as s = set_amem m' s \<and> changed_in C M (amem s) m' \<and>
    (\<forall>u \<in> dom H. GetEntryPoint (layout C) u m' = (if u \<in> set as then old u else GetEntryPoint (layout C) u (amem s)))"
proof (induction as arbitrary: s)
  case Nil
  show ?case by (intro exI [of _ "amem s"]) simp
next
  case (Cons a as)
  obtain m1 where m1: "restore_method C a (old a) s = set_amem m1 s" "changed_in C M (amem s) m1"
    "\<forall>u \<in> dom H. GetEntryPoint (layout C) u m1 = (if u = a then old a else GetEntryPoint (layout C) u (amem s))"
    using restore_method_effect [OF w Cons.prems(1), of a "old a"] Cons.prems(2) by auto
  have "art_tables_ok C M H (set_amem m1 s)" using Cons.prems(1) by (subst tables_cong [of _ s]) simp_all
  then obtain m2 where m2: "fold (\<lambda>a. restore_method C a (old a)) as (set_amem m1 s) = set_amem m2 (set_amem m1 s)" "changed_in C M m1 m2"
    "\<forall>u \<in> dom H. GetEntryPoint (layout C) u m2 = (if u \<in> set as then old u else GetEntryPoint (layout C) u m1)"
    using Cons.IH [of "set_amem m1 s"] Cons.prems(2) by auto
  have "changed_in C M (amem s) m2" using changed_in_trans [OF m1(2) m2(2)] by simp
  then show ?case using m1 m2 by (intro exI [of _ m2]) auto
qed

text \<open>The initialisation of a class by a thread: \<open>SetStatus\<close> first, then the runtime sets the entry points of the static methods of the class,
  then \<open>FixupStaticTrampolines\<close> returns.\<close>

definition initialize_class :: "art_config \<Rightarrow> nat \<Rightarrow> (memory \<Rightarrow> memory) \<Rightarrow> u64 \<Rightarrow> u64 \<Rightarrow> art_state \<Rightarrow> art_state" where
  "initialize_class C sdk orig c self s = FixupStaticTrampolines C orig c self (SetClassStatus C sdk id c (initialized_status sdk) self s)"

definition fixes_statics :: "art_config \<Rightarrow> u64 set \<Rightarrow> u64 \<Rightarrow> (memory \<Rightarrow> memory) \<Rightarrow> bool" where
  "fixes_statics C M c orig \<longleftrightarrow> (\<forall>m. changed_in C M m (orig m) \<and>
    (\<forall>a \<in> M. \<not> (class_def C a = c \<and> IsStatic (layout C) a m) \<longrightarrow> GetEntryPoint (layout C) a (orig m) = GetEntryPoint (layout C) a m))"

lemma pop_own:
  assumes "backup_methods s = [self \<mapsto> [c \<mapsto> out]]" "c \<noteq> 0"
  shows "PopBackup c self s = (out, s\<lparr>backup_methods := Map.empty\<rparr>)"
proof -
  have "(\<lambda>t. without_class c (backup_methods s t)) = Map.empty" by (rule ext) (simp add: assms without_class_def)
  then show ?thesis using assms by (simp add: PopBackup_def Let_def List.map_filter_def merge_all_def)
qed

lemma pop_none:
  assumes "backup_methods s = Map.empty" "c \<noteq> 0"
  shows "PopBackup c self s = (Map.empty, s\<lparr>backup_methods := Map.empty\<rparr>)"
  using assms by (simp add: PopBackup_def Let_def List.map_filter_def merge_all_def without_class_def)

lemma art_inv_class_backup: "art_inv C k M Pg P f H s \<Longrightarrow> s\<lparr>backup_methods := Map.empty\<rparr> = s"
  by (simp add: art_inv_def)

definition saved_entries :: "art_config \<Rightarrow> u64 \<Rightarrow> art_state \<Rightarrow> (u64 \<rightharpoonup> u64)" where
  "saved_entries C c s = (\<lambda>a. if a \<in> static_methods C c s then Some (GetEntryPoint (layout C) a (amem s)) else None)"

lemma initialize_class_fold:
  assumes c: "c \<noteq> 0" and none: "backup_methods s = Map.empty"
  shows "initialize_class C sdk orig c self s =
    fold (\<lambda>a. restore_method C a (the (saved_entries C c s a))) (sorted_list_of_set (static_methods C c s)) (set_amem (orig (amem s)) s)"
proof -
  let ?S = "static_methods C c s" and ?out = "saved_entries C c s" and ?s2 = "set_amem (orig (amem s)) s"
  define bm where "bm = (if ?S = {} then Map.empty else [self \<mapsto> [c \<mapsto> ?out]])"
  have s: "u\<lparr>backup_methods := Map.empty\<rparr> = u" if "backup_methods u = Map.empty" for u :: art_state
    using that by (metis art_state.surjective art_state.update_convs(9))
  have b: "BackupClassMethods C c self s = s\<lparr>backup_methods := bm\<rparr>"
    using c none s [OF none] by (simp add: BackupClassMethods_def Let_def insert_new_def saved_entries_def bm_def)
  have dom: "dom ?out = ?S" by (auto simp: dom_def saved_entries_def)
  have "PopBackup c self (?s2\<lparr>backup_methods := bm\<rparr>) = (?out, ?s2\<lparr>backup_methods := bm\<rparr>\<lparr>backup_methods := Map.empty\<rparr>)"
  proof (cases "?S = {}")
    case True
    then show ?thesis using pop_none [OF _ c] by (simp add: bm_def saved_entries_def)
  next
    case False
    then show ?thesis by (intro pop_own [OF _ c]) (simp add: bm_def)
  qed
  then have pop: "PopBackup c self (?s2\<lparr>backup_methods := bm\<rparr>) = (?out, ?s2)" using s [of ?s2] none by simp
  have "set_amem (orig (amem (s\<lparr>backup_methods := bm\<rparr>))) (s\<lparr>backup_methods := bm\<rparr>) = ?s2\<lparr>backup_methods := bm\<rparr>"
    by (simp add: set_amem_def amem_def)
  then show ?thesis
    by (simp only: initialize_class_def SetClassStatus_def FixupStaticTrampolines_def RestoreBackup_def b pop dom if_True id_apply prod.case simp_thms)
qed

lemma class_init_step:
  assumes w: "art_world C k M Pg" and inv: "art_inv C k M Pg P f H s" and o: "fixes_statics C M c orig" and c: "c \<noteq> 0"
  shows "art_inv C k M Pg P f H (initialize_class C sdk orig c self s)"
proof -
  let ?L = "layout C" and ?S = "static_methods C c s" and ?s2 = "set_amem (orig (amem s)) s" and ?old = "\<lambda>a. the (saved_entries C c s a)"
  from inv obtain I where I: "art_tables_ok C M H s" "backup_methods s = Map.empty" "deopt_ok M s" by (rule art_invE)
  have D: "dom H \<subseteq> M" using tables_target [OF I(1)] by blast
  have "?S \<subseteq> class_methods c (hooked_classes s) \<union> class_methods c (deoptimized_classes s)" by (auto simp: static_methods_def)
  moreover have "class_methods c (deoptimized_classes s) \<subseteq> M" using I(3) by (simp add: deopt_ok_def)
  ultimately have S: "?S \<subseteq> M" using D tables_classes [OF I(1), of c] by blast
  have l: "set (sorted_list_of_set ?S) = ?S" by simp
  have t2: "art_tables_ok C M H ?s2" using I(1) by (subst tables_cong [of _ s]) simp_all
  obtain m' where m': "fold (\<lambda>a. restore_method C a (?old a)) (sorted_list_of_set ?S) ?s2 = set_amem m' ?s2" "changed_in C M (orig (amem s)) m'"
    "\<forall>u \<in> dom H. GetEntryPoint ?L u m' = (if u \<in> ?S then ?old u else GetEntryPoint ?L u (orig (amem s)))"
    using restore_all_effect [OF w t2, of "sorted_list_of_set ?S" ?old] S by (auto simp: l)
  have "art_inv C k M Pg P f H (set_amem m' s)"
  proof (rule art_inv_entries [OF w inv])
    have "changed_in C M (amem s) (orig (amem s))" using o by (simp add: fixes_statics_def)
    from changed_in_trans [OF this m'(2)] show "changed_in C M (amem s) m'" by simp
    fix u assume u: "u \<in> dom H"
    have "u \<in> ?S" if "class_def C u = c" "IsStatic ?L u (amem s)"
      using that u tables_classes [OF I(1), of c] by (simp add: static_methods_def)
    then show "GetEntryPoint ?L u m' = GetEntryPoint ?L u (amem s)" using m'(3) u D o by (auto simp: fixes_statics_def saved_entries_def)
  qed
  then show ?thesis by (simp add: initialize_class_fold [OF c I(2)] m'(1))
qed

section \<open>Runs\<close>

text \<open>Everything that may happen to the hooks: calls of the API and updates by the runtime. Beside the state a run carries the pages mapped, the calls of
  \<open>mmap\<close> that failed, and the abstract state.\<close>

inductive art_run ::
  "art_config \<Rightarrow> nat \<Rightarrow> u64 set \<Rightarrow> u64 set \<Rightarrow> memory \<Rightarrow> u64 list \<Rightarrow> u64 set \<Rightarrow> nat \<Rightarrow> (u64 \<rightharpoonup> u64) \<Rightarrow> art_state \<Rightarrow> bool"
  for C k M Pg m0 ids where
  start: "art_run C k M Pg m0 ids {} 0 Map.empty (art_init m0 ids)"
| hook: "art_run C k M Pg m0 ids P f H s \<Longrightarrow> good_request k M Pg P s r \<Longrightarrow> Hook C r s = Some (g, s') \<Longrightarrow>
    art_run C k M Pg m0 ids (P \<union> set_option (rq_page r)) (f + failed (rq_page r)) (after_hook r g H) s'"
| unhook: "art_run C k M Pg m0 ids P f H s \<Longrightarrow> t \<in> M \<Longrightarrow> UnHook C e t i s = (ok, s') \<Longrightarrow>
    art_run C k M Pg m0 ids P f (if ok then H(t := None) else H) s'"
| deoptimize: "art_run C k M Pg m0 ids P f H s \<Longrightarrow> a \<in> M \<Longrightarrow> art_run C k M Pg m0 ids P f H (snd (Deoptimize C e a s))"
| update: "art_run C k M Pg m0 ids P f H s \<Longrightarrow> a \<in> M \<Longrightarrow> own_method C M orig \<Longrightarrow>
    art_run C k M Pg m0 ids P f H (UpdateMethodsCodeToInterpreterEntryPoint C orig a s)"
| reinitialize: "art_run C k M Pg m0 ids P f H s \<Longrightarrow> a \<in> M \<Longrightarrow> own_method C M orig \<Longrightarrow>
    art_run C k M Pg m0 ids P f H (ReinitializeMethodsCode C orig a s)"
| initialize: "art_run C k M Pg m0 ids P f H s \<Longrightarrow> a \<in> M \<Longrightarrow> sets_code C M orig' \<Longrightarrow>
    art_run C k M Pg m0 ids P f H (InitializeMethodsCode C orig' a c s)"
| register_native: "art_run C k M Pg m0 ids P f H s \<Longrightarrow> a \<in> M \<Longrightarrow> own_method C M (\<lambda>a. reg a n) \<Longrightarrow>
    art_run C k M Pg m0 ids P f H (RegisterNative reg a n s)"
| unregister_native: "art_run C k M Pg m0 ids P f H s \<Longrightarrow> a \<in> M \<Longrightarrow> own_method C M orig \<Longrightarrow>
    art_run C k M Pg m0 ids P f H (UnregisterNative orig a s)"
| class_init: "art_run C k M Pg m0 ids P f H s \<Longrightarrow> c \<noteq> 0 \<Longrightarrow> fixes_statics C M c fix' \<Longrightarrow>
    art_run C k M Pg m0 ids P f H (initialize_class C sdk fix' c self s)"

lemma art_inv_init: "art_inv C k M Pg {} 0 Map.empty (art_init m0 ids)"
  using tp_inv_init [of k "entry_off C" m0] by (auto simp: art_inv_def art_init_def art_tables_ok_def class_methods_def deopt_ok_def)

lemma art_run_inv:
  assumes w: "art_world C k M Pg"
  shows "art_run C k M Pg m0 ids P f H s \<Longrightarrow> per_page k + f < 2 ^ k \<Longrightarrow> art_inv C k M Pg P f H s"
proof (induction rule: art_run.induct)
  case start
  show ?case by (rule art_inv_init)
next
  case (hook P f H s r g s')
  then have f: "per_page k + f < 2 ^ k" by simp
  from hook_step [OF w hook.IH [OF f] f hook.hyps(2)] hook.hyps(3) show ?case by auto
next
  case (unhook P f H s t e i ok s')
  from unhook_step [OF w unhook.IH [OF unhook.prems] unhook.hyps(2,3)] show ?case .
qed (auto intro: deoptimize_step [OF w] update_step [OF w] initialize_step [OF w] native_steps [OF w] class_init_step [OF w])

lemma entry_off_address: "art_world C k M Pg \<Longrightarrow> (hook :: u64) + ucast (entry_off C) = hook + of_nat (entry_point_offset (layout C))"
proof -
  assume "art_world C k M Pg"
  then have l: "entry_point_offset (layout C) < 256" by (rule world_facts(6))
  then have u: "unat (ucast (entry_off C) :: u64) = entry_point_offset (layout C)"
    by (simp add: entry_off_def unsigned_ucast_eq unsigned_of_nat take_bit_nat_eq_self)
  have "(ucast (entry_off C) :: u64) = of_nat (unat (ucast (entry_off C) :: u64))" by simp
  then show ?thesis unfolding u by (simp only:)
qed

text \<open>A call of a hooked method arrives at the entry point of its hook method, with that method in X0 and nothing else changed but X16.\<close>

lemma art_inv_enters:
  assumes w: "art_world C k M Pg" and inv: "art_inv C k M Pg P f H s" and H: "H t = Some h"
    and u: "cmem u = amem s" "pcr u = GetEntryPoint (layout C) t (amem s)" "executes_ldur oth"
  shows "a64_run oth 3 u = (let e = GetEntryPoint (layout C) h (amem s) in goto e (xset 16 e (xset 0 h u)))"
proof -
  from inv obtain I where I: "tp_inv k (entry_off C) P f I (pool s)"
    "\<forall>t h. H t = Some h \<longrightarrow> (GetEntryPoint (layout C) t (amem s), h) \<in> I" by (rule art_invE)
  from I(1) have "\<forall>(a, h) \<in> I. bytes_at (tmem (pool s)) a (trampoline_bytes (entry_off C) h)" by (rule tp_invE)
  then have "bytes_at (cmem u) (GetEntryPoint (layout C) t (amem s)) (trampoline_bytes (entry_off C) h)" using I(2) H u by (auto simp: amem_def)
  from trampoline_enters_hook [OF this] u show ?thesis by (simp add: entry_off_address [OF w] GetEntryPoint_def [of _ h])
qed

lemma art_inv_hooked:
  assumes "art_world C k M Pg" "art_inv C k M Pg P f H s"
  shows "IsHooked_api True t s \<longleftrightarrow> H t \<noteq> None"
proof -
  have "art_tables_ok C M H s" using assms(2) by (simp add: art_inv_def)
  from IsHooked_target(1) [OF this world_facts(5) [OF assms(1)], of t] show ?thesis by (auto simp: IsHooked_api_def domIff)
qed


definition demo_layout :: art_layout where
  "demo_layout = \<lparr>art_method_size = 32, entry_point_offset = 24, interpreter_entry_point_offset = 0, data_offset = 16, access_flags_offset = 4,
     kAccFastInterpreterToInterpreterInvoke = 0x40000000, kAccPreCompiled = 0x00800000, kAccCompileDontBother = 0x02000000,
     kAccIntrinsic = 0x80000000, SetNotIntrinsic = None, interpreter_to_compiled_code_bridge = 0\<rparr>"

definition demo_config :: art_config where
  "demo_config = \<lparr>layout = demo_layout, page_size = 4096, trampoline = UpdateTrampoline 24 trampoline_code, class_def = (\<lambda>_. 7),
     method_id = (\<lambda>x. x), SetEntryPointsToInterpreter_sym = None, quick_to_interpreter_bridge = 0\<rparr>"

definition demo_request :: hook_request where
  "demo_request = \<lparr>target_executable = True, callback_executable = True, hooker_instance = True, rq_target = 0x1000, rq_target_id = 1,
     is_proxy = False, rq_built = Some (0x2000, 0x3000, 2), rq_global = 9, rq_page = Some 0x5000\<rparr>"

lemma demo_blocks:
  "block 0x1000 32 \<inter> block 0x2000 32 = {}" "block 0x1000 32 \<inter> block 0x3000 32 = {}" "block 0x2000 32 \<inter> block 0x3000 32 = {}"
  "block 0x1000 32 \<inter> block 0x5000 4096 = {}" "block 0x2000 32 \<inter> block 0x5000 4096 = {}" "block 0x3000 32 \<inter> block 0x5000 4096 = {}"
  using fields_disjoint [of "0x1000" 32 "0x2000" 32 0] fields_disjoint [of "0x1000" 32 "0x3000" 32 0] fields_disjoint [of "0x2000" 32 "0x3000" 32 0]
    fields_disjoint [of "0x1000" 32 "0x5000" 4096 0] fields_disjoint [of "0x2000" 32 "0x5000" 4096 0] fields_disjoint [of "0x3000" 32 "0x5000" 4096 0]
  by simp_all

lemma demo_world: "art_world demo_config 12 {0x1000, 0x2000, 0x3000} {0x5000}"
  using demo_blocks
  by (simp add: art_world_def demo_config_def demo_layout_def layout_ok_def page_bits_def method_block_def Int_commute)

lemma demo_run:
  "\<exists>s. Hook demo_config demo_request (art_init m ids) = Some (9, s) \<and>
    art_run demo_config 12 {0x1000, 0x2000, 0x3000} {0x5000} m ids {0x5000} 0 [0x1000 \<mapsto> 0x2000] s"
proof -
  obtain p where "GenerateTrampolineFor 4096 (UpdateTrampoline 24 trampoline_code) (Some 0x5000) 0x2000 (tpool_init m) = Some (0x5000, p)"
    by (simp add: GenerateTrampolineFor_def place_trampoline_def tpool_init_def Let_def)
  then obtain s where h: "Hook demo_config demo_request (art_init m ids) = Some (9, s)"
    by (simp add: Hook_def DoHook_def demo_request_def demo_config_def IsHooked_def art_init_def)
  have "good_request 12 {0x1000, 0x2000, 0x3000} {0x5000} {} (art_init m ids) demo_request"
    by (simp add: good_request_def demo_request_def answered_def aligned_def mask_eq_exp_minus_1 art_init_def)
  from art_run.hook [OF art_run.start this h] h show ?thesis by (auto simp: after_hook_def demo_request_def failed_def)
qed


section \<open>Unhooking restores the method\<close>

lemma flags_shift: "a + of_nat i \<in> flags_block L a \<longleftrightarrow> b + of_nat i \<in> flags_block L b"
  by (simp add: flags_block_def block_def)

text \<open>What a \<open>Hook\<close> that succeeds leaves: the table entry, the movement to do, and the bytes of the method in its backup.\<close>

lemma hook_success:
  assumes w: "art_world C k M Pg" and inv: "art_inv C k M Pg P f H s" and fb: "per_page k + f < 2 ^ k" and good: "good_request k M Pg P s r"
    and h: "Hook C r s = Some (g, s')" "g \<noteq> 0" and built: "rq_built r = Some (hook, b, i)"
  shows "hooked_methods s' (rq_target r) = Some (g, b)"
    "\<not> is_proxy r \<Longrightarrow> jit_movements s' = jit_movements s @ [(rq_target r, b)]"
    "j < art_method_size (layout C) \<Longrightarrow> rq_target r + of_nat j \<notin> flags_block (layout C) (rq_target r) \<Longrightarrow>
      amem s' (b + of_nat j) = amem s (rq_target r + of_nat j)"
proof -
  let ?t = "rq_target r" and ?L = "layout C"
  have gr: "?t \<in> M" "answered k (rq_page r)" "set_option (rq_page r) \<subseteq> Pg" "set_option (rq_page r) \<inter> P = {}" "b \<in> M" "?t \<noteq> b" "hooked_methods s b = None"
    using good built by (auto simp: good_request_def)
  note wf = world_facts [OF w]
  obtain e p where e: "GenerateTrampolineFor (page_size C) (trampoline C) (rq_page r) hook (pool s) = Some (e, p)"
    "\<forall>a \<in> M. \<forall>x \<in> method_block ?L a. tmem p x = amem s x" using art_inv_generate [OF w inv fb gr(2-4), of hook] by blast
  let ?s1 = "s\<lparr>pool := p\<lparr>tmem := hook_memory ?L ?t b e (tmem p)\<rparr>\<rparr>"
  have s': "IsHooked ?t True s = 0" "g = rq_global r" "s' = record_hook C r hook b i ?s1"
    using h e(1) built by (auto simp: Hook_def DoHook_def Let_def split: if_splits)
  have "art_tables_ok C M H s" using inv by (simp add: art_inv_def)
  then have tn: "hooked_methods s ?t = None" using not_hooked_None wf(5) s'(1) by blast
  note fields = record_hook_fields [of ?s1 r b C hook i, simplified, OF tn gr(7,6)]
  show "hooked_methods s' ?t = Some (g, b)" using gr(6) by (simp add: s' fields)
  show "jit_movements s' = jit_movements s @ [(?t, b)]" if "\<not> is_proxy r"
    using that by (simp add: s' record_hook_def Let_def RecordDeoptimized_def RecordJitMovement_def RecordHooked_def)
  show "amem s' (b + of_nat j) = amem s (?t + of_nat j)" if j: "j < art_method_size ?L" "?t + of_nat j \<notin> flags_block ?L ?t"
  proof -
    have "?t + of_nat j \<in> method_block ?L ?t" using j(1) wf(1) by (simp add: method_block_def block_def layout_ok_def unat_of_nat64)
    then have "tmem p (?t + of_nat j) = amem s (?t + of_nat j)" using e(2) gr(1) by blast
    moreover have "b + of_nat j \<notin> flags_block ?L b" using j(2) flags_shift by blast
    ultimately show ?thesis using hook_memory_effect(3) [OF wf(1) world_disjoint [OF w gr(1,5,6)] j(1) _ j(2)] by (simp add: s' fields amem_def)
  qed
qed

lemma DoUnHook_effect:
  assumes L: "layout_ok L" and d: "j < art_method_size L" "t + of_nat j \<notin> flags_block L t"
  shows "DoUnHook L t b m (t + of_nat j) = m (b + of_nat j)"
  using d by (simp add: DoUnHook_def Let_def SetAccessFlags_other CopyFrom_inside [OF L])

text \<open>Claim C7 (unhooking restores the method): after a \<open>Hook\<close> that succeeded, an \<open>UnHook\<close> in any later state that still has the hook and an unchanged
  backup succeeds, drops the hook, restores every byte of the method but the access flags to what it was before the \<open>Hook\<close>, keeps the flags that the
  method has at that time, and changes nothing outside the method.\<close>

theorem art_unhook_restores:
  assumes w: "art_world C k M Pg" and run: "art_run C k M Pg m0 ids P f H s" and f: "per_page k + f < 2 ^ k" and good: "good_request k M Pg P s r"
    and hook: "Hook C r s = Some (g, s1)" "g \<noteq> 0" "rq_built r = Some (hook, b, i)"
    and later: "hooked_methods s2 (rq_target r) = Some (g, b)" "\<forall>x \<in> method_block (layout C) b. amem s2 x = amem s1 x"
    and unhook: "UnHook C True (rq_target r) (rq_target_id r) s2 = (ok, s3)"
  shows "ok \<and> \<not> IsHooked_api True (rq_target r) s3 \<and>
    (\<forall>x \<in> method_block (layout C) (rq_target r) - flags_block (layout C) (rq_target r). amem s3 x = amem s x) \<and>
    GetAccessFlags (layout C) (rq_target r) (amem s3) = GetAccessFlags (layout C) (rq_target r) (amem s2) \<and>
    (\<forall>x. x \<notin> method_block (layout C) (rq_target r) \<longrightarrow> amem s3 x = amem s2 x)"
proof -
  let ?t = "rq_target r" and ?L = "layout C"
  have L: "layout_ok ?L" by (rule world_facts(1) [OF w])
  have inv: "art_inv C k M Pg P f H s" by (rule art_run_inv [OF w run f])
  have s3: "ok" "hooked_methods s3 = (hooked_methods s2)(?t := None, b := None)" "amem s3 = DoUnHook ?L ?t b (amem s2)"
    using unhook later(1) hook(2) by (auto simp: UnHook_def Let_def set_amem_def amem_def)
  have "amem s3 x = amem s x" if x: "x \<in> method_block ?L ?t" "x \<notin> flags_block ?L ?t" for x
  proof -
    define j where "j = unat (x - ?t)"
    have j: "x = ?t + of_nat j" "j < art_method_size ?L" using block_offset x(1) by (simp_all add: j_def method_block_def block_def)
    have "b + of_nat j \<in> method_block ?L b" using j(2) L by (simp add: method_block_def block_def layout_ok_def unat_of_nat64)
    then have "amem s2 (b + of_nat j) = amem s1 (b + of_nat j)" using later(2) by blast
    then show ?thesis using DoUnHook_effect [OF L j(2), of ?t b "amem s2"] hook_success(3) [OF w inv f good hook j(2)] x(2) s3(3) j(1) by simp
  qed
  moreover have "IsHooked ?t False s3 = 0" using s3(2) by (simp add: IsHooked_def)
  moreover have "GetAccessFlags ?L ?t (amem s3) = GetAccessFlags ?L ?t (amem s2)" by (simp add: s3(3) DoUnHook_def Let_def)
  moreover have "amem s3 x = amem s2 x" if "x \<notin> method_block ?L ?t" for x
    using DoUnHook_changes [OF L, of ?t "amem s2" b] that s3(3) by (simp add: changed_in_def)
  ultimately show ?thesis using s3(1) by (auto simp: IsHooked_api_def)
qed

text \<open>Claim C34 (an unhooked method loses its data): unhooking does not drop the movement of JIT data that hooking scheduled. Where the runtime has no
  \<open>MoveObsoleteMethod\<close>, the next collection of the JIT cache then sets the data field of the method that is no longer hooked to null.\<close>

theorem stale_jit_movement:
  assumes w: "art_world C k M Pg" and run: "art_run C k M Pg m0 ids P f H s" and f: "per_page k + f < 2 ^ k" and good: "good_request k M Pg P s r"
    and hook: "Hook C r s = Some (g, s1)" "g \<noteq> 0" "rq_built r = Some (hook, b, i)" "\<not> is_proxy r"
    and unhook: "UnHook C True (rq_target r) (rq_target_id r) s1 = (ok, s2)"
  shows "ok \<and> \<not> IsHooked_api True (rq_target r) s2 \<and> GetData (layout C) (rq_target r) (amem (GarbageCollectCache C None id s2)) = 0"
proof -
  have inv: "art_inv C k M Pg P f H s" by (rule art_run_inv [OF w run f])
  note hs = hook_success [OF w inv f good hook(1-3)]
  have s2: "ok" "hooked_methods s2 = (hooked_methods s1)(rq_target r := None, b := None)" "jit_movements s2 = jit_movements s1"
    using unhook hs(1) hook(2) by (auto simp: UnHook_def Let_def set_amem_def)
  have "GetData (layout C) (rq_target r) (amem (GarbageCollectCache C None id s2)) = 0"
    using hs(2) [OF hook(4)]
    by (simp add: GarbageCollectCache_def MoveObsoleteMethods_def GetJitMovements_def s2(3) Let_def move_obsolete_def GetData_def SetData_def amem_def set_amem_def)
  then show ?thesis using s2 by (simp add: IsHooked_api_def IsHooked_def)
qed

lemma demo_good: "good_request 12 {0x1000, 0x2000, 0x3000} {0x5000} {} (art_init m ids) demo_request"
  by (simp add: good_request_def demo_request_def answered_def aligned_def mask_eq_exp_minus_1 art_init_def)

lemma demo_built: "rq_built demo_request = Some (0x2000, 0x3000, 2)" "\<not> is_proxy demo_request" "per_page 12 + 0 < 2 ^ 12" "(9::u64) \<noteq> 0"
  by (simp_all add: demo_request_def per_page_def)

theorem art_unhook_restores_witness:
  "\<exists>s1 s3. Hook demo_config demo_request (art_init (\<lambda>x. ucast x) []) = Some (9, s1) \<and>
    UnHook demo_config True (rq_target demo_request) (rq_target_id demo_request) s1 = (True, s3) \<and>
    (\<forall>x \<in> method_block demo_layout (rq_target demo_request) - flags_block demo_layout (rq_target demo_request). amem s3 x = ucast x)"
proof -
  obtain s1 where h: "Hook demo_config demo_request (art_init (\<lambda>x. ucast x) []) = Some (9, s1)" using demo_run by blast
  obtain ok s3 where u: "UnHook demo_config True (rq_target demo_request) (rq_target_id demo_request) s1 = (ok, s3)" by force
  have inv: "art_inv demo_config 12 {0x1000, 0x2000, 0x3000} {0x5000} {} 0 Map.empty (art_init (\<lambda>x. ucast x) [])" by (rule art_inv_init)
  have t: "hooked_methods s1 (rq_target demo_request) = Some (9, 0x3000)"
    by (rule hook_success(1) [OF demo_world inv demo_built(3) demo_good h demo_built(4,1)])
  from art_unhook_restores [OF demo_world art_run.start demo_built(3) demo_good h demo_built(4,1) t _ u] h u
  show ?thesis by (auto simp: demo_config_def amem_def art_init_def tpool_init_def)
qed

theorem stale_jit_movement_witness:
  "\<exists>s1 s2. Hook demo_config demo_request (art_init (\<lambda>x. ucast x) []) = Some (9, s1) \<and>
    UnHook demo_config True (rq_target demo_request) (rq_target_id demo_request) s1 = (True, s2) \<and>
    GetData demo_layout (rq_target demo_request) (amem (GarbageCollectCache demo_config None id s2)) = 0"
proof -
  obtain s1 where h: "Hook demo_config demo_request (art_init (\<lambda>x. ucast x) []) = Some (9, s1)" using demo_run by blast
  obtain ok s2 where u: "UnHook demo_config True (rq_target demo_request) (rq_target_id demo_request) s1 = (ok, s2)" by force
  from stale_jit_movement [OF demo_world art_run.start demo_built(3) demo_good h demo_built(4,1,2) u] h u
  show ?thesis by (auto simp: demo_config_def)
qed

end
