(* ===== verification/Java_Bridge.thy ===== *)
theory Java_Bridge
  imports Java_Hook Art_Correct
begin

text \<open>
  The static part of \<open>HookBridge.java\<close>, its native methods in \<open>native-lib.cpp\<close> and, below them, LSPlant. Entries are objects on a heap, because
  \<open>hookMethod\<close> adds the callback to its entry after it has left the lock of the table. Shown: called one after the other, the operations keep the set of
  callbacks of every member, a member is hooked in LSPlant exactly while it has callbacks, and its hook method belongs to its entry; when the two halves
  of \<open>hookMethod\<close> are separated by an \<open>unhookMethod\<close>, the callback gets lost.
\<close>

section \<open>State\<close>

text \<open>What the runtime knows of reflected members, by \<open>m_id\<close>: the \<open>ArtMethod\<close>, the method ID, and the reflective call of a reference to a method.\<close>

record 'w jni =
  art_method :: "nat \<Rightarrow> u64"
  jmethod :: "nat \<Rightarrow> u64"
  reflected :: "u64 \<Rightarrow> 'w original"

text \<open>\<open>hooker\<close> is the static field of each generated class, by its hook method: the entry whose \<open>dispatch\<close> the hook method calls.\<close>

record 'w bridge =
  g_lsplant_initialized :: bool
  entries :: "nat \<rightharpoonup> nat"
  heap :: "nat \<rightharpoonup> 'w JHookEntry"
  next_ref :: nat
  hooker :: "u64 \<rightharpoonup> nat"
  art :: art_state

definition bridge_init :: "bool \<Rightarrow> art_state \<Rightarrow> 'w bridge" where
  "bridge_init initialized a =
    \<lparr>g_lsplant_initialized = initialized, entries = Map.empty, heap = Map.empty, next_ref = 0, hooker = Map.empty, art = a\<rparr>"

section \<open>Native methods\<close>

definition executable_member :: "member \<Rightarrow> bool" where
  "executable_member m \<longleftrightarrow> m_kind m \<noteq> OtherMember"

text \<open>The arguments \<open>hookMethod\<close> passes: the callback is \<open>HookEntry.dispatch\<close>, a method, and the hooker object an instance of its class. What the
  runtime answers is left to \<open>r\<close>.\<close>

definition hook_args :: "'w jni \<Rightarrow> member \<Rightarrow> hook_request \<Rightarrow> hook_request" where
  "hook_args J m r = r\<lparr>target_executable := executable_member m, callback_executable := True, hooker_instance := True,
     rq_target := art_method J (m_id m), rq_target_id := jmethod J (m_id m)\<rparr>"

definition set_hooker :: "hook_request \<Rightarrow> nat \<Rightarrow> (u64 \<rightharpoonup> nat) \<Rightarrow> (u64 \<rightharpoonup> nat)" where
  "set_hooker r e f = (case rq_built r of None \<Rightarrow> f | Some (hook, _, _) \<Rightarrow> f(hook \<mapsto> e))"

text \<open>The field is set before the method is changed; the class of an attempt that failed is never entered, so its field is left out.\<close>

definition nativeHook :: "art_config \<Rightarrow> 'w jni \<Rightarrow> hook_request \<Rightarrow> nat \<Rightarrow> member \<Rightarrow> 'w bridge \<Rightarrow> (u64 \<times> 'w bridge) option" where
  "nativeHook C J r e m s =
    (if \<not> g_lsplant_initialized s then Some (0, s)
     else do { (g, a) \<leftarrow> Hook C (hook_args J m r) (art s);
               Some (g, s\<lparr>art := a, hooker := (if g = 0 then hooker s else set_hooker r e (hooker s))\<rparr>) })"

definition nativeUnhook :: "art_config \<Rightarrow> 'w jni \<Rightarrow> member \<Rightarrow> 'w bridge \<Rightarrow> bool \<times> 'w bridge" where
  "nativeUnhook C J m s =
    (if \<not> g_lsplant_initialized s then (False, s)
     else case UnHook C (executable_member m) (art_method J (m_id m)) (jmethod J (m_id m)) (art s) of (ok, a) \<Rightarrow> (ok, s\<lparr>art := a\<rparr>))"

definition nativeDeoptimize :: "art_config \<Rightarrow> 'w jni \<Rightarrow> member \<Rightarrow> 'w bridge \<Rightarrow> bool \<times> 'w bridge" where
  "nativeDeoptimize C J m s =
    (if \<not> g_lsplant_initialized s then (False, s)
     else case Deoptimize C (executable_member m) (art_method J (m_id m)) (art s) of (ok, a) \<Rightarrow> (ok, s\<lparr>art := a\<rparr>))"

definition nativeIsHooked :: "'w jni \<Rightarrow> member \<Rightarrow> 'w bridge \<Rightarrow> bool" where
  "nativeIsHooked J m s \<longleftrightarrow> g_lsplant_initialized s \<and> IsHooked_api (executable_member m) (art_method J (m_id m)) (art s)"

definition nativeIsInitialized :: "'w bridge \<Rightarrow> bool" where
  "nativeIsInitialized s = g_lsplant_initialized s"

section \<open>The API\<close>

definition checkMethod :: "member option \<Rightarrow> throwable + member" where
  "checkMethod m =
    (case m of
       None \<Rightarrow> Inl NullPointerException
     | Some m \<Rightarrow>
         if \<not> executable_member m then Inl IllegalArgumentException
         else if m_abstract m then Inl IllegalArgumentException
         else Inr m)"

definition new_entry :: "member \<Rightarrow> 'w JHookEntry" where
  "new_entry m = \<lparr>he_member = m, he_backup = None, callbacks = []\<rparr>"

text \<open>The synchronized block of \<open>hookMethod\<close>, then the whole method. \<open>None\<close> as a result: the wait for a trampoline does not end.\<close>

definition get_entry :: "art_config \<Rightarrow> 'w jni \<Rightarrow> hook_request \<Rightarrow> member \<Rightarrow> 'w bridge \<Rightarrow> ((throwable + nat) \<times> 'w bridge) option" where
  "get_entry C J r m s =
    (case entries s (m_id m) of
       Some e \<Rightarrow> Some (Inr e, s)
     | None \<Rightarrow>
         let e = next_ref s
         in do { (g, s) \<leftarrow> nativeHook C J r e m (s\<lparr>heap := (heap s)(e \<mapsto> new_entry m), next_ref := e + 1\<rparr>);
                 if g = 0 then Some (Inl IllegalStateException, s)
                 else Some (Inr e, s\<lparr>heap := (heap s)(e \<mapsto> (new_entry m)\<lparr>he_backup := Some (reflected J g)\<rparr>),
                                    entries := (entries s)(m_id m \<mapsto> e)\<rparr>) })"

definition on_entry :: "('w MethodHook list \<Rightarrow> bool \<times> 'w MethodHook list) \<Rightarrow> nat \<Rightarrow> 'w bridge \<Rightarrow> 'w bridge" where
  "on_entry op e s = s\<lparr>heap := (heap s)(e := map_option (\<lambda>h. h\<lparr>callbacks := snd (op (callbacks h))\<rparr>) (heap s e))\<rparr>"

type_synonym 'w handle = "member \<times> 'w MethodHook"

definition hookMethod :: "art_config \<Rightarrow> 'w jni \<Rightarrow> hook_request \<Rightarrow> member option \<Rightarrow> 'w MethodHook option \<Rightarrow> 'w bridge \<Rightarrow>
    ((throwable + 'w handle) \<times> 'w bridge) option" where
  "hookMethod C J r meth callback s =
    (case checkMethod meth of
       Inl t \<Rightarrow> Some (Inl t, s)
     | Inr m \<Rightarrow>
         (case callback of
            None \<Rightarrow> Some (Inl NullPointerException, s)
          | Some cb \<Rightarrow>
              do { (x, s) \<leftarrow> get_entry C J r m s;
                   case x of Inl t \<Rightarrow> Some (Inl t, s) | Inr e \<Rightarrow> Some (Inr (m, cb), on_entry (cow_add cb) e s) }))"

text \<open>The loops of \<open>hookAllMethods\<close> and \<open>hookAllConstructors\<close>: an exception leaves the loop with the members before it hooked. The result is a set
  of new handles, here a list.\<close>

fun hook_each :: "art_config \<Rightarrow> 'w jni \<Rightarrow> (member \<times> hook_request) list \<Rightarrow> 'w MethodHook option \<Rightarrow> 'w bridge \<Rightarrow>
    ((throwable + 'w handle list) \<times> 'w bridge) option" where
  "hook_each C J [] cb s = Some (Inr [], s)"
| "hook_each C J ((m, r) # ms) cb s =
    do { (x, s) \<leftarrow> hookMethod C J r (Some m) cb s;
         case x of
           Inl t \<Rightarrow> Some (Inl t, s)
         | Inr u \<Rightarrow> do { (y, s) \<leftarrow> hook_each C J ms cb s; case y of Inl t \<Rightarrow> Some (Inl t, s) | Inr us \<Rightarrow> Some (Inr (u # us), s) } }"

definition hookAllMethods :: "art_config \<Rightarrow> 'w jni \<Rightarrow> (string \<times> member \<times> hook_request) list \<Rightarrow> string \<Rightarrow> 'w MethodHook option \<Rightarrow> 'w bridge \<Rightarrow>
    ((throwable + 'w handle list) \<times> 'w bridge) option" where
  "hookAllMethods C J declared name cb s = hook_each C J (map snd (filter (\<lambda>d. fst d = name) declared)) cb s"

definition hookAllConstructors :: "art_config \<Rightarrow> 'w jni \<Rightarrow> (member \<times> hook_request) list \<Rightarrow> 'w MethodHook option \<Rightarrow> 'w bridge \<Rightarrow>
    ((throwable + 'w handle list) \<times> 'w bridge) option" where
  "hookAllConstructors C J declared cb s = hook_each C J declared cb s"

definition entry_callbacks :: "nat \<Rightarrow> 'w bridge \<Rightarrow> 'w MethodHook list" where
  "entry_callbacks e s = (case heap s e of None \<Rightarrow> [] | Some h \<Rightarrow> callbacks h)"

text \<open>A null callback: \<open>remove\<close> calls its \<open>equals\<close> if there is an element to compare.\<close>

definition unhookMethod :: "art_config \<Rightarrow> 'w jni \<Rightarrow> member option \<Rightarrow> 'w MethodHook option \<Rightarrow> 'w bridge \<Rightarrow> (throwable + unit) \<times> 'w bridge" where
  "unhookMethod C J meth callback s =
    (case Option.bind meth (\<lambda>m. map_option (Pair m) (entries s (m_id m))) of
       None \<Rightarrow> (Inr (), s)
     | Some (m, e) \<Rightarrow>
         if callback = None \<and> entry_callbacks e s \<noteq> [] then (Inl NullPointerException, s)
         else
           let s = (case callback of None \<Rightarrow> s | Some cb \<Rightarrow> on_entry (cow_remove cb) e s)
           in if length (entry_callbacks e s) = 0
              then (Inr (), snd (nativeUnhook C J m (s\<lparr>entries := (entries s)(m_id m := None)\<rparr>)))
              else (Inr (), s))"

definition isHooked :: "member \<Rightarrow> 'w bridge \<Rightarrow> bool" where
  "isHooked m s \<longleftrightarrow> entries s (m_id m) \<noteq> None"

text \<open>\<open>call\<close> is the reflective call of a member itself.\<close>

definition invokeOriginalMethod :: "(member \<Rightarrow> 'w original) \<Rightarrow> member option \<Rightarrow> jvalue \<Rightarrow> jvalue list option \<Rightarrow> 'w bridge \<Rightarrow> 'w \<Rightarrow> invocation \<times> 'w" where
  "invokeOriginalMethod call meth this args s w =
    (let args = (case args of None \<Rightarrow> [] | Some xs \<Rightarrow> xs)
     in case Option.bind meth (\<lambda>m. Option.bind (entries s (m_id m)) (heap s)) of
          Some h \<Rightarrow> invokeMember (he_backup h) w this args
        | None \<Rightarrow> (case checkMethod meth of Inl t \<Rightarrow> (InvokeFailed t, w) | Inr m \<Rightarrow> invokeMember (Some (call m)) w this args))"

definition deoptimizeMethod :: "art_config \<Rightarrow> 'w jni \<Rightarrow> member option \<Rightarrow> 'w bridge \<Rightarrow> (throwable + bool) \<times> 'w bridge" where
  "deoptimizeMethod C J meth s =
    (case checkMethod meth of
       Inl t \<Rightarrow> (Inl t, s)
     | Inr m \<Rightarrow> (case nativeDeoptimize C J m s of (ok, s) \<Rightarrow> (Inr ok, s)))"

section \<open>The invariant\<close>

text \<open>\<open>Ms\<close> are the members the program may hook; equal members have the same kind and one \<open>ArtMethod\<close>.\<close>

definition members_ok :: "'w jni \<Rightarrow> u64 set \<Rightarrow> nat set \<Rightarrow> bool" where
  "members_ok J M Ms \<longleftrightarrow> inj_on (art_method J) Ms \<and> art_method J ` Ms \<subseteq> M"

definition known :: "nat set \<Rightarrow> member option \<Rightarrow> bool" where
  "known Ms meth \<longleftrightarrow> (case meth of None \<Rightarrow> True | Some m \<Rightarrow> m_id m \<in> Ms \<and> executable_member m)"

text \<open>What holds of the entry \<open>e\<close> of a member \<open>i\<close>, with \<open>H\<close> the hook methods and \<open>A\<close> the callbacks there should be.\<close>

definition entry_ok :: "'w jni \<Rightarrow> nat set \<Rightarrow> (u64 \<rightharpoonup> u64) \<Rightarrow> nat set \<Rightarrow> 'w bridge \<Rightarrow> nat \<Rightarrow> nat \<Rightarrow> bool" where
  "entry_ok J Ms H K s i e \<longleftrightarrow> g_lsplant_initialized s \<and> i \<in> Ms \<and>
    (\<exists>x hook. heap s e = Some x \<and> m_id (he_member x) = i \<and> he_backup x \<noteq> None \<and> callbacks_ok (callbacks x) \<and>
      mh_id ` set (callbacks x) = K \<and> H (art_method J i) = Some hook \<and> hooker s hook = Some e)"

definition bridge_hooks ::
  "art_config \<Rightarrow> 'w jni \<Rightarrow> nat \<Rightarrow> u64 set \<Rightarrow> u64 set \<Rightarrow> nat set \<Rightarrow> u64 set \<Rightarrow> nat \<Rightarrow> (u64 \<rightharpoonup> u64) \<Rightarrow> (nat \<Rightarrow> nat set) \<Rightarrow> 'w bridge \<Rightarrow> bool" where
  "bridge_hooks C J k M Pg Ms P f H A s \<longleftrightarrow> art_inv C k M Pg P f H (art s) \<and>
    (\<forall>e. heap s e \<noteq> None \<longrightarrow> e < next_ref s) \<and>
    (\<forall>t. H t \<noteq> None \<longrightarrow> (\<exists>i \<in> Ms. art_method J i = t \<and> entries s i \<noteq> None)) \<and>
    (\<forall>i. entries s i = None \<longrightarrow> A i = {}) \<and>
    (\<forall>i e. entries s i = Some e \<longrightarrow> entry_ok J Ms H (A i) s i e)"

definition bridge_inv ::
  "art_config \<Rightarrow> 'w jni \<Rightarrow> nat \<Rightarrow> u64 set \<Rightarrow> u64 set \<Rightarrow> nat set \<Rightarrow> u64 set \<Rightarrow> nat \<Rightarrow> (nat \<Rightarrow> nat set) \<Rightarrow> 'w bridge \<Rightarrow> bool" where
  "bridge_inv C J k M Pg Ms P f A s \<longleftrightarrow> (\<exists>H. bridge_hooks C J k M Pg Ms P f H A s)"

lemma bridge_hooksD:
  assumes "bridge_hooks C J k M Pg Ms P f H A s"
  shows "art_inv C k M Pg P f H (art s)" "\<And>e. heap s e \<noteq> None \<Longrightarrow> e < next_ref s"
    "\<And>t h. H t = Some h \<Longrightarrow> \<exists>i \<in> Ms. art_method J i = t \<and> entries s i \<noteq> None" "\<And>i. entries s i = None \<Longrightarrow> A i = {}"
    "\<And>i e. entries s i = Some e \<Longrightarrow> entry_ok J Ms H (A i) s i e"
  using assms unfolding bridge_hooks_def by blast+

lemma bridge_hooksI:
  assumes "art_inv C k M Pg P f H (art s)" "\<And>e. heap s e \<noteq> None \<Longrightarrow> e < next_ref s"
    "\<And>t h. H t = Some h \<Longrightarrow> \<exists>i \<in> Ms. art_method J i = t \<and> entries s i \<noteq> None" "\<And>i. entries s i = None \<Longrightarrow> A i = {}"
    "\<And>i e. entries s i = Some e \<Longrightarrow> entry_ok J Ms H (A i) s i e"
  shows "bridge_hooks C J k M Pg Ms P f H A s"
  using assms unfolding bridge_hooks_def by blast

lemma entry_unique:
  assumes "bridge_hooks C J k M Pg Ms P f H A s" "entries s i = Some e" "entries s j = Some e"
  shows "i = j"
  using bridge_hooksD(5) [OF assms(1,2)] bridge_hooksD(5) [OF assms(1,3)] by (auto simp: entry_ok_def)

text \<open>A request of \<open>hookMethod\<close>: one that LSPlant can serve, with a hook method that is new.\<close>

definition bridge_request :: "'w jni \<Rightarrow> nat \<Rightarrow> u64 set \<Rightarrow> u64 set \<Rightarrow> u64 set \<Rightarrow> 'w bridge \<Rightarrow> member option \<Rightarrow> hook_request \<Rightarrow> bool" where
  "bridge_request J k M Pg P s meth r \<longleftrightarrow>
    (\<forall>m. meth = Some m \<longrightarrow> good_request k M Pg P (art s) (hook_args J m r)) \<and> answered k (rq_page r) \<and> set_option (rq_page r) \<subseteq> Pg - P \<and>
    (\<forall>hook b i. rq_built r = Some (hook, b, i) \<longrightarrow> hooker s hook = None)"

lemma bridge_weaken:
  assumes "bridge_hooks C J k M Pg Ms P f H A s" "bridge_request J k M Pg P s meth r"
  shows "bridge_hooks C J k M Pg Ms (P \<union> set_option (rq_page r)) (f + failed (rq_page r)) H A s"
proof -
  have "answered k (rq_page r)" "set_option (rq_page r) \<subseteq> Pg" using assms(2) by (auto simp: bridge_request_def)
  from art_inv_weaken [OF bridge_hooksD(1) [OF assms(1)] this] bridge_hooksD(2-5) [OF assms(1)] show ?thesis by (intro bridge_hooksI)
qed

section \<open>Steps\<close>

lemma hook_args_simps [simp]:
  "rq_page (hook_args J m r) = rq_page r" "rq_built (hook_args J m r) = rq_built r" "rq_target (hook_args J m r) = art_method J (m_id m)"
  by (simp_all add: hook_args_def)

lemma Hook_built: "Hook C r a = Some (g, a') \<Longrightarrow> g \<noteq> 0 \<Longrightarrow> \<exists>hook b i. rq_built r = Some (hook, b, i)"
  by (cases "rq_built r") (auto simp: Hook_def split: if_splits)

text \<open>A new entry: the other entries keep what they have.\<close>

lemma new_entry_hooks:
  assumes mo: "members_ok J M Ms" and inv: "bridge_hooks C J k M Pg Ms P f H A s" and i: "i \<in> Ms" "entries s i = None" "g_lsplant_initialized s"
    and a: "art_inv C k M Pg P' f' (H(art_method J i \<mapsto> hook)) a" and n: "hooker s hook = None"
    and x: "m_id (he_member x) = i" "he_backup x \<noteq> None" "callbacks x = []"
    and s': "art s' = a" "hooker s' = (hooker s)(hook \<mapsto> next_ref s)" "heap s' = (heap s)(next_ref s \<mapsto> x)" "next_ref s' = next_ref s + 1"
      "entries s' = (entries s)(i \<mapsto> next_ref s)" "g_lsplant_initialized s' = g_lsplant_initialized s"
  shows "bridge_hooks C J k M Pg Ms P' f' (H(art_method J i \<mapsto> hook)) A s'"
proof (rule bridge_hooksI)
  show "art_inv C k M Pg P' f' (H(art_method J i \<mapsto> hook)) (art s')" using a by (simp add: s')
  show "e < next_ref s'" if "heap s' e \<noteq> None" for e
    using that bridge_hooksD(2) [OF inv, of e] by (auto simp: s' less_Suc_eq split: if_splits)
  show "\<exists>j \<in> Ms. art_method J j = t \<and> entries s' j \<noteq> None" if "(H(art_method J i \<mapsto> hook)) t = Some h" for t h
    using that i(1) bridge_hooksD(3) [OF inv, of t h] by (cases "t = art_method J i") (auto simp: s')
  show "A j = {}" if "entries s' j = None" for j using that bridge_hooksD(4) [OF inv, of j] by (auto simp: s' split: if_splits)
  show "entry_ok J Ms (H(art_method J i \<mapsto> hook)) (A j) s' j e" if e: "entries s' j = Some e" for j e
  proof (cases "j = i")
    case True
    then show ?thesis using e i x bridge_hooksD(4) [OF inv i(2)] by (auto simp: s' entry_ok_def callbacks_ok_def)
  next
    case False
    then have "entries s j = Some e" using e by (simp add: s')
    from bridge_hooksD(5) [OF inv this] obtain y h where y: "j \<in> Ms" "heap s e = Some y" "m_id (he_member y) = j" "he_backup y \<noteq> None"
      "callbacks_ok (callbacks y)" "mh_id ` set (callbacks y) = A j" "H (art_method J j) = Some h" "hooker s h = Some e" by (auto simp: entry_ok_def)
    have "art_method J j \<noteq> art_method J i" using mo False i(1) y(1) by (auto simp: members_ok_def dest: inj_onD)
    moreover have "e \<noteq> next_ref s" using bridge_hooksD(2) [OF inv, of e] y(2) by auto
    moreover have "h \<noteq> hook" using n y(8) by auto
    ultimately show ?thesis using y i(3) by (simp add: s' entry_ok_def)
  qed
qed

text \<open>An attempt that fails leaves an entry nobody refers to.\<close>

lemma failed_entry_hooks:
  assumes inv: "bridge_hooks C J k M Pg Ms P f H A s" and a: "art_inv C k M Pg P' f' H a"
    and s': "art s' = a" "hooker s' = hooker s" "heap s' = (heap s)(next_ref s \<mapsto> x)" "next_ref s' = next_ref s + 1" "entries s' = entries s"
      "g_lsplant_initialized s' = g_lsplant_initialized s"
  shows "bridge_hooks C J k M Pg Ms P' f' H A s'"
proof (rule bridge_hooksI)
  show "entry_ok J Ms H (A j) s' j e" if e: "entries s' j = Some e" for j e
  proof -
    have "entry_ok J Ms H (A j) s j e" using e bridge_hooksD(5) [OF inv] by (simp add: s')
    moreover from this have "e \<noteq> next_ref s" using bridge_hooksD(2) [OF inv, of e] by (auto simp: entry_ok_def)
    ultimately show ?thesis by (simp add: entry_ok_def s')
  qed
  show "e < next_ref s'" if "heap s' e \<noteq> None" for e
    using that bridge_hooksD(2) [OF inv, of e] by (auto simp: s' less_Suc_eq split: if_splits)
qed (use a bridge_hooksD(3,4) [OF inv] in \<open>auto simp: s'\<close>)

lemma get_entry_step:
  assumes w: "art_world C k M Pg" and mo: "members_ok J M Ms" and inv: "bridge_inv C J k M Pg Ms P f A s" and fb: "per_page k + f < 2 ^ k"
    and m: "known Ms (Some m)" and r: "bridge_request J k M Pg P s (Some m) r"
  shows "\<exists>x s'. get_entry C J r m s = Some (x, s') \<and> bridge_inv C J k M Pg Ms (P \<union> set_option (rq_page r)) (f + failed (rq_page r)) A s' \<and>
    (\<forall>j. j \<noteq> m_id m \<longrightarrow> entries s' j = entries s j) \<and> (\<forall>t. x = Inl t \<longrightarrow> entries s' = entries s) \<and> (\<forall>e. x = Inr e \<longrightarrow> entries s' (m_id m) = Some e)"
proof -
  from inv obtain H where H: "bridge_hooks C J k M Pg Ms P f H A s" by (auto simp: bridge_inv_def)
  let ?P = "P \<union> set_option (rq_page r)" and ?f = "f + failed (rq_page r)" and ?i = "m_id m"
  note H' = bridge_weaken [OF H r]
  show ?thesis
  proof (cases "entries s ?i")
    case (Some e)
    then show ?thesis using H' by (auto simp: get_entry_def bridge_inv_def)
  next
    case None
    show ?thesis
    proof (cases "g_lsplant_initialized s")
      case False
      let ?s = "s\<lparr>heap := (heap s)(next_ref s \<mapsto> new_entry m), next_ref := next_ref s + 1\<rparr>"
      have "bridge_hooks C J k M Pg Ms ?P ?f H A ?s" by (rule failed_entry_hooks [OF H' bridge_hooksD(1) [OF H'], of _ "new_entry m"]) simp_all
      moreover have "get_entry C J r m s = Some (Inl IllegalStateException, ?s)" using None False by (simp add: get_entry_def nativeHook_def Let_def)
      ultimately show ?thesis by (auto simp: bridge_inv_def)
    next
      case True
      have "good_request k M Pg P (art s) (hook_args J m r)" using r by (simp add: bridge_request_def)
      from hook_step [OF w bridge_hooksD(1) [OF H] fb this] obtain g a where g: "Hook C (hook_args J m r) (art s) = Some (g, a)"
        "art_inv C k M Pg ?P ?f (after_hook (hook_args J m r) g H) a" by auto
      show ?thesis
      proof (cases "g = 0")
        case g0: True
        then have "art_inv C k M Pg ?P ?f H a" using g(2) by (simp add: after_hook_def)
        let ?s = "s\<lparr>heap := (heap s)(next_ref s \<mapsto> new_entry m), next_ref := next_ref s + 1, art := a\<rparr>"
        have "bridge_hooks C J k M Pg Ms ?P ?f H A ?s" by (rule failed_entry_hooks [OF H \<open>art_inv C k M Pg ?P ?f H a\<close>, of _ "new_entry m"]) simp_all
        moreover have "get_entry C J r m s = Some (Inl IllegalStateException, ?s)"
          using None True g(1) g0 by (simp add: get_entry_def nativeHook_def Let_def)
        ultimately show ?thesis by (auto simp: bridge_inv_def)
      next
        case g1: False
        obtain hook b i where b: "rq_built r = Some (hook, b, i)" using Hook_built [OF g(1) g1] by auto
        let ?x = "(new_entry m)\<lparr>he_backup := Some (reflected J g)\<rparr>"
        have a: "art_inv C k M Pg ?P ?f (H(art_method J ?i \<mapsto> hook)) a" using g(2) g1 b by (simp add: after_hook_def)
        have n: "hooker s hook = None" using r b by (simp add: bridge_request_def)
        have i: "?i \<in> Ms" using m by (simp add: known_def)
        let ?s = "s\<lparr>entries := (entries s)(?i \<mapsto> next_ref s), heap := (heap s)(next_ref s \<mapsto> ?x), next_ref := next_ref s + 1,
          hooker := (hooker s)(hook \<mapsto> next_ref s), art := a\<rparr>"
        have "bridge_hooks C J k M Pg Ms ?P ?f (H(art_method J ?i \<mapsto> hook)) A ?s"
          by (rule new_entry_hooks [OF mo H i None True a n, of ?x]) (simp_all add: new_entry_def)
        moreover have "get_entry C J r m s = Some (Inr (next_ref s), ?s)"
          using None True g(1) g1 b by (simp add: get_entry_def nativeHook_def set_hooker_def Let_def)
        ultimately show ?thesis by (auto simp: bridge_inv_def)
      qed
    qed
  qed
qed

text \<open>An operation on the callbacks of one entry.\<close>

lemma on_entry_hooks:
  assumes inv: "bridge_hooks C J k M Pg Ms P f H A s" and e: "entries s i = Some e"
    and op: "\<And>hs. callbacks_ok hs \<Longrightarrow> mh_id ` set hs = A i \<Longrightarrow> callbacks_ok (snd (op hs)) \<and> mh_id ` set (snd (op hs)) = K"
  shows "bridge_hooks C J k M Pg Ms P f H (A(i := K)) (on_entry op e s)" "mh_id ` set (entry_callbacks e (on_entry op e s)) = K"
proof -
  from bridge_hooksD(5) [OF inv e] obtain x hook where x: "heap s e = Some x" "callbacks_ok (callbacks x)" "mh_id ` set (callbacks x) = A i"
    by (auto simp: entry_ok_def)
  note o = op [OF x(2,3)]
  show "mh_id ` set (entry_callbacks e (on_entry op e s)) = K" using x(1) o by (simp add: entry_callbacks_def on_entry_def)
  show "bridge_hooks C J k M Pg Ms P f H (A(i := K)) (on_entry op e s)"
  proof (rule bridge_hooksI)
    show "d < next_ref (on_entry op e s)" if "heap (on_entry op e s) d \<noteq> None" for d
      using that bridge_hooksD(2) [OF inv, of d] x(1) by (auto simp: on_entry_def split: if_splits)
    show "entry_ok J Ms H ((A(i := K)) j) (on_entry op e s) j d" if d: "entries (on_entry op e s) j = Some d" for j d
    proof -
      have d': "entries s j = Some d" using d by (simp add: on_entry_def)
      have "j = i" if "d = e" using entry_unique [OF inv d'] e that by simp
      then show ?thesis using bridge_hooksD(5) [OF inv d'] x(1) o d' e by (cases "j = i") (auto simp: entry_ok_def on_entry_def)
    qed
  qed (use bridge_hooksD(1,3,4) [OF inv] e in \<open>auto simp: on_entry_def\<close>)
qed

text \<open>The whole operations, with the callbacks of the abstract state after them.\<close>

definition added :: "throwable + 'w handle \<Rightarrow> (nat \<Rightarrow> nat set) \<Rightarrow> (nat \<Rightarrow> nat set)" where
  "added x A = (case x of Inl _ \<Rightarrow> A | Inr (m, cb) \<Rightarrow> A(m_id m := insert (mh_id cb) (A (m_id m))))"

definition removed :: "member option \<Rightarrow> 'w MethodHook option \<Rightarrow> (nat \<Rightarrow> nat set) \<Rightarrow> (nat \<Rightarrow> nat set)" where
  "removed meth callback A =
    (case (meth, callback) of (Some m, Some cb) \<Rightarrow> A(m_id m := A (m_id m) - {mh_id cb}) | _ \<Rightarrow> A)"

definition no_empty :: "(nat \<Rightarrow> nat set) \<Rightarrow> 'w bridge \<Rightarrow> bool" where
  "no_empty A s \<longleftrightarrow> (\<forall>i. entries s i \<noteq> None \<longrightarrow> A i \<noteq> {})"

lemma checkMethod_Inr: "checkMethod meth = Inr m \<Longrightarrow> meth = Some m"
  by (auto simp: checkMethod_def split: option.splits if_splits)

lemma hookMethod_step:
  assumes w: "art_world C k M Pg" and mo: "members_ok J M Ms" and inv: "bridge_inv C J k M Pg Ms P f A s" "no_empty A s"
    and fb: "per_page k + f < 2 ^ k" and m: "known Ms meth" and r: "bridge_request J k M Pg P s meth r"
    and cb: "\<And>c. callback = Some c \<Longrightarrow> in_range c"
  shows "\<exists>x s'. hookMethod C J r meth callback s = Some (x, s') \<and>
    bridge_inv C J k M Pg Ms (P \<union> set_option (rq_page r)) (f + failed (rq_page r)) (added x A) s' \<and> no_empty (added x A) s'"
proof -
  have weak: "bridge_inv C J k M Pg Ms (P \<union> set_option (rq_page r)) (f + failed (rq_page r)) A s"
    using inv(1) bridge_weaken [OF _ r] unfolding bridge_inv_def by blast
  show ?thesis
  proof (cases "\<exists>m c. checkMethod meth = Inr m \<and> callback = Some c")
    case False
    then have "\<exists>t. hookMethod C J r meth callback s = Some (Inl t, s)"
      by (auto simp: hookMethod_def split: sum.splits option.splits)
    then show ?thesis using weak inv(2) by (auto simp: added_def)
  next
    case True
    then obtain m' c where c: "checkMethod meth = Inr m'" "callback = Some c" by blast
    have me: "meth = Some m'" by (rule checkMethod_Inr [OF c(1)])
    let ?i = "m_id m'" and ?P = "P \<union> set_option (rq_page r)" and ?f = "f + failed (rq_page r)"
    from get_entry_step [OF w mo inv(1) fb m [unfolded me] r [unfolded me]]
    obtain x s1 where g: "get_entry C J r m' s = Some (x, s1)" "bridge_inv C J k M Pg Ms ?P ?f A s1" "\<forall>j. j \<noteq> ?i \<longrightarrow> entries s1 j = entries s j"
      "\<forall>t. x = Inl t \<longrightarrow> entries s1 = entries s" "\<forall>e. x = Inr e \<longrightarrow> entries s1 ?i = Some e" by blast
    show ?thesis
    proof (cases x)
      case (Inl t)
      then show ?thesis using c g inv(2) by (auto simp: hookMethod_def added_def no_empty_def)
    next
      case (Inr e)
      from g(2) obtain H where H: "bridge_hooks C J k M Pg Ms ?P ?f H A s1" by (auto simp: bridge_inv_def)
      have e: "entries s1 ?i = Some e" using g(5) Inr by simp
      note o = on_entry_hooks(1) [OF H e, of "cow_add c" "insert (mh_id c) (A ?i)"]
      have "bridge_hooks C J k M Pg Ms ?P ?f H (A(?i := insert (mh_id c) (A ?i))) (on_entry (cow_add c) e s1)"
        by (rule o) (use cow.add_ok cow.add_keys cb [OF c(2)] in metis)
      moreover have "hookMethod C J r meth callback s = Some (Inr (m', c), on_entry (cow_add c) e s1)" using c g(1) Inr by (simp add: hookMethod_def)
      moreover have "no_empty (A(?i := insert (mh_id c) (A ?i))) (on_entry (cow_add c) e s1)"
        using inv(2) g(3) by (auto simp: no_empty_def on_entry_def)
      ultimately show ?thesis by (auto simp: added_def bridge_inv_def)
    qed
  qed
qed

lemma UnHook_hooked:
  assumes "art_inv C k M Pg P f H a" "H t = Some h"
  shows "fst (UnHook C True t i a)"
proof -
  have "art_tables_ok C M H a" using assms(1) by (simp add: art_inv_def)
  from tables_target [OF this assms(2)] obtain r b where "hooked_methods a t = Some (r, b)" "r \<noteq> 0" by metis
  then show ?thesis by (simp add: UnHook_def Let_def)
qed

lemma removed_entry_hooks:
  assumes mo: "members_ok J M Ms" and inv: "bridge_hooks C J k M Pg Ms P f H A s" and i: "i \<in> Ms" "A i = {}"
    and a: "art_inv C k M Pg P f (H(art_method J i := None)) a"
    and s': "art s' = a" "hooker s' = hooker s" "heap s' = heap s" "next_ref s' = next_ref s" "entries s' = (entries s)(i := None)"
      "g_lsplant_initialized s' = g_lsplant_initialized s"
  shows "bridge_hooks C J k M Pg Ms P f (H(art_method J i := None)) A s'"
proof (rule bridge_hooksI)
  show "\<exists>j \<in> Ms. art_method J j = t \<and> entries s' j \<noteq> None" if "(H(art_method J i := None)) t = Some h" for t h
  proof -
    have t: "t \<noteq> art_method J i" "H t = Some h" using that by (auto split: if_splits)
    from bridge_hooksD(3) [OF inv t(2)] obtain j where "j \<in> Ms" "art_method J j = t" "entries s j \<noteq> None" by blast
    with t(1) show ?thesis by (intro bexI [of _ j]) (auto simp: s')
  qed
  show "entry_ok J Ms (H(art_method J i := None)) (A j) s' j e" if e: "entries s' j = Some e" for j e
  proof -
    have j: "j \<noteq> i" "entries s j = Some e" using e by (auto simp: s' split: if_splits)
    note ok = bridge_hooksD(5) [OF inv j(2)]
    then have "art_method J j \<noteq> art_method J i" using mo j(1) i(1) by (auto simp: members_ok_def entry_ok_def dest: inj_onD)
    with ok show ?thesis by (simp add: entry_ok_def s')
  qed
qed (use a i(2) bridge_hooksD(2,4) [OF inv] in \<open>auto simp: s' split: if_splits\<close>)

lemma remove_last:
  assumes w: "art_world C k M Pg" and mo: "members_ok J M Ms" and inv: "bridge_hooks C J k M Pg Ms P f H A s"
    and m: "known Ms (Some m)" and e: "entries s (m_id m) = Some e" and A: "A (m_id m) = {}"
    and s': "s' = snd (nativeUnhook C J m (s\<lparr>entries := (entries s)(m_id m := None)\<rparr>))"
  shows "bridge_inv C J k M Pg Ms P f A s'" "entries s' = (entries s)(m_id m := None)" "heap s' = heap s"
    "\<not> IsHooked_api True (art_method J (m_id m)) (art s')"
proof -
  let ?i = "m_id m" and ?t = "art_method J (m_id m)"
  have i: "?i \<in> Ms" "executable_member m" "?t \<in> M" using m mo by (auto simp: known_def members_ok_def)
  from bridge_hooksD(5) [OF inv e] obtain hook where h: "g_lsplant_initialized s" "H ?t = Some hook" by (auto simp: entry_ok_def)
  obtain ok a where u: "UnHook C True ?t (jmethod J ?i) (art s) = (ok, a)" by force
  have "ok" using UnHook_hooked [OF bridge_hooksD(1) [OF inv] h(2), of "jmethod J ?i"] u by simp
  with unhook_step [OF w bridge_hooksD(1) [OF inv] i(3) u] have a: "art_inv C k M Pg P f (H(?t := None)) a" by simp
  have s: "s' = s\<lparr>entries := (entries s)(?i := None), art := a\<rparr>" using h(1) i(2) u by (simp add: s' nativeUnhook_def)
  show "entries s' = (entries s)(?i := None)" "heap s' = heap s" by (simp_all add: s)
  show "\<not> IsHooked_api True ?t (art s')" using art_inv_hooked [OF w a, of ?t] by (simp add: s)
  have "bridge_hooks C J k M Pg Ms P f (H(?t := None)) A s'" by (rule removed_entry_hooks [OF mo inv i(1) A a]) (simp_all add: s)
  then show "bridge_inv C J k M Pg Ms P f A s'" by (auto simp: bridge_inv_def)
qed

lemma unhookMethod_entry:
  assumes "entries s (m_id m) = Some e"
  shows "unhookMethod C J (Some m) (Some c) s = (let s1 = on_entry (cow_remove c) e s in
    (Inr (), if entry_callbacks e s1 = [] then snd (nativeUnhook C J m (s1\<lparr>entries := (entries s1)(m_id m := None)\<rparr>)) else s1))"
  using assms by (simp add: unhookMethod_def Let_def)

lemma remove_callback:
  assumes "bridge_hooks C J k M Pg Ms P f H A s" "entries s i = Some e"
  shows "bridge_hooks C J k M Pg Ms P f H (A(i := A i - {mh_id c})) (on_entry (cow_remove c) e s)"
    "mh_id ` set (entry_callbacks e (on_entry (cow_remove c) e s)) = A i - {mh_id c}"
  by (rule on_entry_hooks [OF assms]; use cow.remove_ok cow.remove_keys in metis)+

lemma unhookMethod_step:
  assumes w: "art_world C k M Pg" and mo: "members_ok J M Ms" and inv: "bridge_inv C J k M Pg Ms P f A s" "no_empty A s"
    and m: "known Ms meth" and u: "unhookMethod C J meth callback s = (x, s')"
  shows "bridge_inv C J k M Pg Ms P f (removed meth callback A) s' \<and> no_empty (removed meth callback A) s'"
proof -
  from inv(1) obtain H where H: "bridge_hooks C J k M Pg Ms P f H A s" by (auto simp: bridge_inv_def)
  consider (entry) m e where "meth = Some m" "entries s (m_id m) = Some e" | (absent) "Option.bind meth (\<lambda>m. map_option (Pair m) (entries s (m_id m))) = None"
    by (cases meth) (auto split: option.splits)
  then show ?thesis
  proof cases
    case absent
    then have "s' = s" using u by (simp add: unhookMethod_def)
    moreover have "removed meth callback A = A"
      using absent bridge_hooksD(4) [OF H] by (cases meth; cases callback) (auto simp: removed_def fun_eq_iff)
    ultimately show ?thesis using inv by simp
  next
    case entry
    let ?i = "m_id m"
    show ?thesis
    proof (cases callback)
      case None
      from bridge_hooksD(5) [OF H entry(2)] have "mh_id ` set (entry_callbacks e s) = A ?i" by (auto simp: entry_ok_def entry_callbacks_def)
      then have "entry_callbacks e s \<noteq> []" using inv(2) entry(2) by (force simp: no_empty_def)
      then have "s' = s" using u None entry by (simp add: unhookMethod_def)
      then show ?thesis using inv None by (simp add: removed_def split: option.split)
    next
      case (Some c)
      let ?s = "on_entry (cow_remove c) e s" and ?A = "A(?i := A ?i - {mh_id c})"
      note r = remove_callback [OF H entry(2), of c]
      have rm: "removed meth callback A = ?A" by (simp add: removed_def entry(1) Some)
      have en: "entries ?s = entries s" by (simp add: on_entry_def)
      show ?thesis
      proof (cases "entry_callbacks e ?s = []")
        case True
        then have s': "s' = snd (nativeUnhook C J m (?s\<lparr>entries := (entries ?s)(?i := None)\<rparr>))" using u entry Some by (auto simp: unhookMethod_entry [OF entry(2)] Let_def)
        have "?A ?i = {}" using r(2) True by simp
        have e: "entries ?s ?i = Some e" using entry(2) by (simp add: en)
        note l = remove_last [OF w mo r(1) m [unfolded entry(1)] e \<open>?A ?i = {}\<close> s']
        have "no_empty ?A s'" using inv(2) by (auto simp: no_empty_def l(2) en)
        with l(1) show ?thesis unfolding rm by blast
      next
        case False
        then have "s' = ?s" using u entry Some by (auto simp: unhookMethod_entry [OF entry(2)] Let_def)
        moreover have "A ?i - {mh_id c} \<noteq> {}" unfolding r(2) [symmetric] using False by simp
        then have "no_empty ?A ?s" using inv(2) by (simp add: no_empty_def en)
        moreover have "bridge_inv C J k M Pg Ms P f ?A ?s" using r(1) unfolding bridge_inv_def by blast
        ultimately show ?thesis unfolding rm by blast
      qed
    qed
  qed
qed

text \<open>Changes below the bridge that leave the hooks alone.\<close>

lemma bridge_inv_art:
  assumes "bridge_inv C J k M Pg Ms P f A s" "\<And>H. art_inv C k M Pg P f H (art s) \<Longrightarrow> art_inv C k M Pg P f H a"
  shows "bridge_inv C J k M Pg Ms P f A (s\<lparr>art := a\<rparr>)"
  using assms unfolding bridge_inv_def bridge_hooks_def entry_ok_def by auto

lemma deoptimizeMethod_step:
  assumes w: "art_world C k M Pg" and mo: "members_ok J M Ms" and inv: "bridge_inv C J k M Pg Ms P f A s" and m: "known Ms meth"
  shows "bridge_inv C J k M Pg Ms P f A (snd (deoptimizeMethod C J meth s))" "entries (snd (deoptimizeMethod C J meth s)) = entries s"
proof -
  let ?s = "snd (deoptimizeMethod C J meth s)"
  have "bridge_inv C J k M Pg Ms P f A ?s \<and> entries ?s = entries s"
  proof (cases "checkMethod meth")
    case (Inl t)
    then show ?thesis using inv by (simp add: deoptimizeMethod_def)
  next
    case (Inr m')
    have "meth = Some m'" by (rule checkMethod_Inr [OF Inr])
    then have t: "art_method J (m_id m') \<in> M" using m mo by (auto simp: known_def members_ok_def)
    let ?a = "snd (Deoptimize C (executable_member m') (art_method J (m_id m')) (art s))"
    have "?s = (if g_lsplant_initialized s then s\<lparr>art := ?a\<rparr> else s)" by (simp add: deoptimizeMethod_def nativeDeoptimize_def Inr split: prod.split)
    then show ?thesis using inv bridge_inv_art [OF inv deoptimize_step [OF w _ t]] by simp
  qed
  then show "bridge_inv C J k M Pg Ms P f A ?s" "entries ?s = entries s" by blast+
qed

section \<open>Runs\<close>

text \<open>Calls of the API one after the other, and the runtime between them. Beside the state a run carries the pages mapped, the calls of \<open>mmap\<close> that
  failed, and the callbacks registered for every member.\<close>

inductive bridge_run ::
  "art_config \<Rightarrow> 'w jni \<Rightarrow> nat \<Rightarrow> u64 set \<Rightarrow> u64 set \<Rightarrow> nat set \<Rightarrow> u64 set \<Rightarrow> nat \<Rightarrow> (nat \<Rightarrow> nat set) \<Rightarrow> 'w bridge \<Rightarrow> bool"
  for C J k M Pg Ms where
  start: "bridge_run C J k M Pg Ms {} 0 (\<lambda>_. {}) (bridge_init initialized (art_init m0 ids))"
| hook: "bridge_run C J k M Pg Ms P f A s \<Longrightarrow> known Ms meth \<Longrightarrow> bridge_request J k M Pg P s meth r \<Longrightarrow> (\<And>c. callback = Some c \<Longrightarrow> in_range c) \<Longrightarrow>
    hookMethod C J r meth callback s = Some (x, s') \<Longrightarrow>
    bridge_run C J k M Pg Ms (P \<union> set_option (rq_page r)) (f + failed (rq_page r)) (added x A) s'"
| unhook: "bridge_run C J k M Pg Ms P f A s \<Longrightarrow> known Ms meth \<Longrightarrow> unhookMethod C J meth callback s = (y, s') \<Longrightarrow>
    bridge_run C J k M Pg Ms P f (removed meth callback A) s'"
| deoptimize: "bridge_run C J k M Pg Ms P f A s \<Longrightarrow> known Ms meth \<Longrightarrow> bridge_run C J k M Pg Ms P f A (snd (deoptimizeMethod C J meth s))"
| update: "bridge_run C J k M Pg Ms P f A s \<Longrightarrow> a \<in> M \<Longrightarrow> own_method C M orig \<Longrightarrow>
    bridge_run C J k M Pg Ms P f A (s\<lparr>art := UpdateMethodsCodeToInterpreterEntryPoint C orig a (art s)\<rparr>)"
| class_init: "bridge_run C J k M Pg Ms P f A s \<Longrightarrow> c \<noteq> 0 \<Longrightarrow> fixes_statics C M c fix' \<Longrightarrow>
    bridge_run C J k M Pg Ms P f A (s\<lparr>art := initialize_class C sdk fix' c self (art s)\<rparr>)"

lemma bridge_inv_start: "bridge_inv C J k M Pg Ms {} 0 (\<lambda>_. {}) (bridge_init initialized (art_init m0 ids))"
  unfolding bridge_inv_def by (intro exI [of _ Map.empty] bridge_hooksI) (simp_all add: bridge_init_def art_inv_init)

lemma bridge_run_inv:
  assumes w: "art_world C k M Pg" and mo: "members_ok J M Ms"
  shows "bridge_run C J k M Pg Ms P f A s \<Longrightarrow> per_page k + f < 2 ^ k \<Longrightarrow> bridge_inv C J k M Pg Ms P f A s \<and> no_empty A s"
proof (induction rule: bridge_run.induct)
  case (start initialized m0 ids)
  show ?case using bridge_inv_start by (simp add: no_empty_def bridge_init_def)
next
  case (hook P f A s meth r callback x s')
  then have f: "per_page k + f < 2 ^ k" by simp
  note i = conjunct1 [OF hook.IH [OF f]] conjunct2 [OF hook.IH [OF f]]
  have "\<exists>x s'. hookMethod C J r meth callback s = Some (x, s') \<and>
    bridge_inv C J k M Pg Ms (P \<union> set_option (rq_page r)) (f + failed (rq_page r)) (added x A) s' \<and> no_empty (added x A) s'"
    by (rule hookMethod_step [OF w mo i f hook.hyps(2,3)]) (rule hook.hyps(4))
  then show ?case using hook.hyps(5) by auto
next
  case (unhook P f A s meth callback y s')
  note i = conjunct1 [OF unhook.IH [OF unhook.prems]] conjunct2 [OF unhook.IH [OF unhook.prems]]
  from unhookMethod_step [OF w mo i unhook.hyps(2,3)] show ?case .
next
  case (deoptimize P f A s meth)
  then show ?case using deoptimizeMethod_step [OF w mo] by (auto simp: no_empty_def)
next
  case (update P f A s a orig)
  then show ?case using bridge_inv_art [OF _ update_step(1) [OF w]] by (auto simp: no_empty_def)
next
  case (class_init P f A s c fix' sdk self)
  then show ?case using bridge_inv_art [OF _ class_init_step [OF w]] by (auto simp: no_empty_def)
qed


definition demo_member :: member where
  "demo_member = \<lparr>m_id = 1, m_kind = MethodMember, m_abstract = False, m_static = True, m_return = None\<rparr>"

definition demo_jni :: "nat jni" where
  "demo_jni = \<lparr>art_method = (\<lambda>_. 0x1000), jmethod = (\<lambda>_. 1), reflected = (\<lambda>_ w _ _. (Returned JNull, w))\<rparr>"

lemma demo_members: "members_ok demo_jni {0x1000, 0x2000, 0x3000} {1}" "known {1} (Some demo_member)" "in_range (returnConstant 5 0 0 JNull)"
  by (simp_all add: members_ok_def demo_jni_def known_def demo_member_def executable_member_def in_range_def returnConstant_def)

lemma demo_args: "hook_args demo_jni demo_member demo_request = demo_request"
  by (simp add: hook_args_def demo_jni_def demo_member_def executable_member_def demo_request_def)

lemma demo_bridge:
  "\<exists>s. hookMethod demo_config demo_jni demo_request (Some demo_member) (Some (returnConstant 5 0 0 JNull)) (bridge_init True (art_init (\<lambda>_. 0) [])) =
      Some (Inr (demo_member, returnConstant 5 0 0 JNull), s) \<and>
    bridge_run demo_config demo_jni 12 {0x1000, 0x2000, 0x3000} {0x5000} {1} {0x5000} 0 (\<lambda>i. if i = 1 then {5} else {}) s"
proof -
  let ?s = "bridge_init True (art_init (\<lambda>_. 0) []) :: nat bridge" and ?c = "returnConstant 5 0 0 JNull :: nat MethodHook"
  obtain a where "Hook demo_config demo_request (art_init (\<lambda>_. 0) []) = Some (9, a)" using demo_run by blast
  then have "\<exists>s. hookMethod demo_config demo_jni demo_request (Some demo_member) (Some ?c) ?s = Some (Inr (demo_member, ?c), s)"
    by (simp add: hookMethod_def checkMethod_def get_entry_def nativeHook_def demo_args bridge_init_def Let_def)
      (simp add: demo_member_def executable_member_def)
  then obtain s where s: "hookMethod demo_config demo_jni demo_request (Some demo_member) (Some ?c) ?s = Some (Inr (demo_member, ?c), s)" by blast
  have "bridge_request demo_jni 12 {0x1000, 0x2000, 0x3000} {0x5000} {} ?s (Some demo_member) demo_request"
    using demo_good [of "\<lambda>_. 0" "[]"] by (simp add: bridge_request_def demo_args bridge_init_def) (simp add: good_request_def)
  from bridge_run.hook [OF bridge_run.start demo_members(2) this _ s] demo_members(3)
  have "bridge_run demo_config demo_jni 12 {0x1000, 0x2000, 0x3000} {0x5000} {1} ({} \<union> set_option (rq_page demo_request)) (0 + failed (rq_page demo_request))
    (added (Inr (demo_member, ?c)) (\<lambda>_. {})) s" by blast
  moreover have "mh_id ?c = 5" "m_id demo_member = 1" "{} \<union> set_option (rq_page demo_request) = {0x5000}" "0 + failed (rq_page demo_request) = 0"
    by (simp_all add: returnConstant_def demo_member_def demo_request_def failed_def)
  moreover from this have "added (Inr (demo_member, ?c)) (\<lambda>_. {}) = (\<lambda>i. if i = 1 then {5} else {})" by (simp add: added_def fun_eq_iff)
  ultimately show ?thesis using s by auto
qed


section \<open>A lost callback\<close>

text \<open>\<open>hookMethod\<close> is \<open>get_entry\<close>, under the lock, and then the addition, outside it.\<close>

lemma hookMethod_split:
  assumes "checkMethod (Some m) = Inr m"
  shows "hookMethod C J r (Some m) (Some c) s =
    do { (x, s) \<leftarrow> get_entry C J r m s; case x of Inl t \<Rightarrow> Some (Inl t, s) | Inr e \<Rightarrow> Some (Inr (m, c), on_entry (cow_add c) e s) }"
  using assms by (simp add: hookMethod_def)

text \<open>Claim C33 (a lost callback): a member has one callback. A thread in \<open>hookMethod\<close> for a second one has taken the entry and left the lock; before
  it adds its callback, another thread removes the first one with \<open>unhookMethod\<close>. Then \<open>hookMethod\<close> of the first thread completes as if it
  had succeeded, its callback is in an entry that is in no table, and the member is not hooked, neither for \<open>HookBridge\<close> nor for LSPlant.\<close>

theorem lost_callback:
  assumes w: "art_world C k M Pg" and mo: "members_ok J M Ms" and run: "bridge_run C J k M Pg Ms P f A s" and f: "per_page k + f < 2 ^ k"
    and m: "known Ms (Some m)" and one: "A (m_id m) = {mh_id c1}" and c2: "in_range c2"
    and t1: "get_entry C J r m s = Some (Inr e, s1)" and t2: "unhookMethod C J (Some m) (Some c1) s1 = (x, s2)"
    and t1': "s3 = on_entry (cow_add c2) e s2"
  shows "\<not> isHooked m s3 \<and> \<not> nativeIsHooked J m s3 \<and> mh_id ` set (entry_callbacks e s3) = {mh_id c2} \<and> e \<notin> ran (entries s3)"
proof -
  note inv = conjunct1 [OF bridge_run_inv [OF w mo run f]]
  from inv obtain H where H: "bridge_hooks C J k M Pg Ms P f H A s" by (auto simp: bridge_inv_def)
  have "entries s (m_id m) \<noteq> None" using bridge_hooksD(4) [OF H, of "m_id m"] one by auto
  then have e: "entries s (m_id m) = Some e" "s1 = s" using t1 by (auto simp: get_entry_def)
  let ?s = "on_entry (cow_remove c1) e s"
  note r = remove_callback [OF H e(1), of c1]
  have emp: "entry_callbacks e ?s = []" using r(2) one by simp
  then have s2: "s2 = snd (nativeUnhook C J m (?s\<lparr>entries := (entries ?s)(m_id m := None)\<rparr>))"
    using t2 by (auto simp: e(2) unhookMethod_entry [OF e(1)] Let_def)
  have e': "entries ?s (m_id m) = Some e" using e(1) by (simp add: on_entry_def)
  have "(A(m_id m := A (m_id m) - {mh_id c1})) (m_id m) = {}" using one by simp
  note l = remove_last [OF w mo r(1) m e' this s2]
  from bridge_hooksD(5) [OF H e(1)] obtain y where y: "heap ?s e = Some y" by (auto simp: entry_ok_def on_entry_def)
  have "callbacks y = []" using emp y by (simp add: entry_callbacks_def)
  moreover have "mh_id ` set (snd (cow_add c2 [])) = {mh_id c2}" using cow.add_keys [of "[]" c2] c2 by (simp add: callbacks_ok_def)
  moreover have "heap s2 e = Some y" using l(3) y by simp
  ultimately have "mh_id ` set (entry_callbacks e s3) = {mh_id c2}" by (simp add: t1' entry_callbacks_def on_entry_def)
  moreover have "e \<notin> ran (entries s3)"
  proof
    assume "e \<in> ran (entries s3)"
    then obtain j where "entries s3 j = Some e" by (auto simp: ran_def)
    then have "entries s2 j = Some e" by (simp add: t1' on_entry_def)
    then have "j \<noteq> m_id m" "entries ?s j = Some e" unfolding l(2) by (auto split: if_splits)
    with entry_unique [OF r(1) _ e', of j] show False by simp
  qed
  moreover have "executable_member m" using m by (simp add: known_def)
  ultimately show ?thesis using l(2,4) by (simp add: isHooked_def nativeIsHooked_def t1' on_entry_def)
qed

theorem lost_callback_witness:
  "\<exists>s s2 e. get_entry demo_config demo_jni demo_request demo_member s = Some (Inr e, s) \<and> isHooked demo_member s \<and>
    \<not> isHooked demo_member (on_entry (cow_add (returnConstant 6 0 0 JNull)) e s2) \<and>
    snd (unhookMethod demo_config demo_jni (Some demo_member) (Some (returnConstant 5 0 0 JNull)) s) = s2"
proof -
  let ?c1 = "returnConstant 5 0 0 JNull :: nat MethodHook" and ?c2 = "returnConstant 6 0 0 JNull :: nat MethodHook"
  obtain s where s: "hookMethod demo_config demo_jni demo_request (Some demo_member) (Some ?c1) (bridge_init True (art_init (\<lambda>_. 0) [])) =
      Some (Inr (demo_member, ?c1), s)"
    "bridge_run demo_config demo_jni 12 {0x1000, 0x2000, 0x3000} {0x5000} {1} {0x5000} 0 (\<lambda>i. if i = 1 then {5} else {}) s"
    using demo_bridge by blast
  have "bridge_inv demo_config demo_jni 12 {0x1000, 0x2000, 0x3000} {0x5000} {1} {0x5000} 0 (\<lambda>i. if i = 1 then {5} else {}) s"
    using bridge_run_inv [OF demo_world demo_members(1) s(2) demo_built(3)] by blast
  then obtain e where e: "entries s (m_id demo_member) = Some e"
    unfolding bridge_inv_def bridge_hooks_def by (fastforce simp: demo_member_def)
  then have g: "get_entry demo_config demo_jni demo_request demo_member s = Some (Inr e, s)" by (simp add: get_entry_def)
  obtain x s2 where u: "unhookMethod demo_config demo_jni (Some demo_member) (Some ?c1) s = (x, s2)" by force
  have one: "(\<lambda>i::nat. if i = 1 then {5::nat} else {}) (m_id demo_member) = {mh_id ?c1}" by (simp add: demo_member_def returnConstant_def)
  have c2: "in_range ?c2" by (simp add: in_range_def returnConstant_def)
  from lost_callback [OF demo_world demo_members(1) s(2) demo_built(3) demo_members(2) one c2 g u refl] g e u show ?thesis
    by (intro exI [of _ s] exI [of _ s2] exI [of _ e]) (simp add: isHooked_def)
qed

end
